(* ===== verification/Prelude.thy ===== *)
theory Prelude
  imports Main "HOL-Library.Word"
begin

text \<open>
  Shared vocabulary of the development.

  C text is an Isabelle \<^typ>\<open>string\<close>: a \<^typ>\<open>char\<close> is one byte.  A buffer given as
  pointer and length is any list; a NUL-terminated string is a list without the byte 0,
  the terminator being what is read one past its end (\<open>c_at\<close>).  The error codes of
  \<^verbatim>\<open>include/asngn.h\<close> are the datatype \<open>asngn_err\<close>; an operation that can fail returns
  \<open>asngn_err + 'a\<close>.  The collections \<open>bytes\<close> (byte classes) and \<open>guards\<close>
  (guard conditions unfolded in case analyses) are filled by the components.
\<close>

named_theorems bytes "byte classes, unfolded to arithmetic on byte values"
named_theorems guards "definitions of guard conditions"

section \<open>Error codes\<close>

datatype asngn_err =
    ERR_IO | ERR_PARSE | ERR_CONFIG | ERR_MODEL | ERR_NOT_FOUND | ERR_INVALID | ERR_DENIED
  | ERR_TIMEOUT | ERR_CANCELLED | ERR_BUSY | ERR_PROTOCOL | ERR_CONTEXT | ERR_UNSUPPORTED
  | ERR_SIBLING | ERR_NOMEM | ERR_LIMIT

type_synonym 'a outcome = "asngn_err + 'a"

abbreviation Ok :: "'a \<Rightarrow> 'a outcome" where "Ok \<equiv> Inr"
abbreviation Err :: "asngn_err \<Rightarrow> 'a outcome" where "Err \<equiv> Inl"

text \<open>A check of the code that returns early when it fails.\<close>

definition require :: "bool \<Rightarrow> unit option" where
  "require b = (if b then Some () else None)"

lemma require_Some [simp]: "require b = Some u \<longleftrightarrow> b" and require_None [simp]: "require b = None \<longleftrightarrow> \<not> b"
  by (simp_all add: require_def)

lemma require_bind [simp]: "Option.bind (require b) f = (if b then f () else None)"
  by (simp add: require_def)

section \<open>Bytes\<close>

abbreviation NUL :: char where "NUL \<equiv> CHR 0x00"
abbreviation TAB :: char where "TAB \<equiv> CHR 0x09"
abbreviation NL :: char where "NL \<equiv> CHR 0x0A"
abbreviation CRET :: char where "CRET \<equiv> CHR 0x0D"
abbreviation SPACE :: char where "SPACE \<equiv> CHR 0x20"
abbreviation DQUOTE :: char where "DQUOTE \<equiv> CHR 0x22"
abbreviation SQUOTE :: char where "SQUOTE \<equiv> CHR 0x27"
abbreviation BSLASH :: char where "BSLASH \<equiv> CHR 0x5C"

definition byte :: "char \<Rightarrow> nat" where
  "byte c = of_char c"

definition byte_in :: "nat \<Rightarrow> nat \<Rightarrow> char \<Rightarrow> bool" where
  "byte_in lo hi c \<longleftrightarrow> lo \<le> byte c \<and> byte c \<le> hi"

lemma byte_less_256 [simp]: "byte c < 256"
  by (simp add: byte_def of_char_def)

lemma byte_inj: "byte c = byte d \<longleftrightarrow> c = d"
  by (simp add: byte_def)

lemma byte_char_of [simp]: "n < 256 \<Longrightarrow> byte (char_of n) = n"
  by (simp add: byte_def)

lemma byte_Char [simp]:
  "byte (Char b0 b1 b2 b3 b4 b5 b6 b7) =
     of_bool b0 + 2 * (of_bool b1 + 2 * (of_bool b2 + 2 * (of_bool b3 + 2 *
       (of_bool b4 + 2 * (of_bool b5 + 2 * (of_bool b6 + 2 * of_bool b7))))))"
  by (simp add: byte_def)

definition is_digit :: "char \<Rightarrow> bool" where "is_digit = byte_in 48 57"
definition is_lower :: "char \<Rightarrow> bool" where "is_lower = byte_in 97 122"
definition is_upper :: "char \<Rightarrow> bool" where "is_upper = byte_in 65 90"

declare byte_in_def [bytes] is_digit_def [bytes] is_lower_def [bytes] is_upper_def [bytes]

section \<open>NUL-terminated strings\<close>

text \<open>What the code reads at index \<open>i\<close> of a NUL-terminated string, and the string
  that starts at a buffer's first byte.\<close>

definition c_at :: "string \<Rightarrow> nat \<Rightarrow> char" where
  "c_at s i = (if i < length s then s ! i else NUL)"

definition c_str :: "string \<Rightarrow> string" where
  "c_str b = takeWhile (\<lambda>c. c \<noteq> NUL) b"

definition no_nul :: "string \<Rightarrow> bool" where
  "no_nul s \<longleftrightarrow> NUL \<notin> set s"

lemma c_str_no_nul [simp]: "no_nul s \<Longrightarrow> c_str s = s"
  by (auto simp: c_str_def no_nul_def takeWhile_eq_all_conv)

lemma no_nul_c_str [simp]: "no_nul (c_str s)"
  using set_takeWhileD by (fastforce simp: c_str_def no_nul_def)

lemma c_at_0_Cons [simp]: "c_at (c # s) 0 = c" and c_at_Suc_Cons [simp]: "c_at (c # s) (Suc i) = c_at s i"
  and c_at_Nil [simp]: "c_at [] i = NUL"
  by (simp_all add: c_at_def)

section \<open>Lists\<close>

lemma last_index_split:
  "x \<in> set xs \<Longrightarrow> \<exists>ys zs. xs = ys @ x # zs \<and> x \<notin> set zs"
  by (fact split_list_last)

lemma take_drop_id: "n \<le> length xs \<Longrightarrow> take n xs @ drop n xs = xs"
  by simp

lemma sum_list_map_le:
  fixes f g :: "'a \<Rightarrow> nat"
  shows "(\<And>x. x \<in> set xs \<Longrightarrow> f x \<le> g x) \<Longrightarrow> sum_list (map f xs) \<le> sum_list (map g xs)"
  by (simp add: sum_list_mono)

section \<open>Decimal numbers\<close>

text \<open>Digits and the text \<^verbatim>\<open>printf("%zu")\<close> gives for a number.\<close>

definition digit_char :: "nat \<Rightarrow> char" where
  "digit_char k = char_of (48 + k)"

definition digit_val :: "char \<Rightarrow> nat" where
  "digit_val c = byte c - 48"

fun decimal :: "nat \<Rightarrow> string" where
  "decimal n = (if n < 10 then [digit_char n] else decimal (n div 10) @ [digit_char (n mod 10)])"

declare decimal.simps [simp del]

lemma digit_char [simp]: "k < 10 \<Longrightarrow> is_digit (digit_char k)" "k < 10 \<Longrightarrow> digit_val (digit_char k) = k"
  by (simp_all add: digit_char_def digit_val_def is_digit_def byte_in_def)

definition digits_value :: "string \<Rightarrow> nat" where
  "digits_value s = foldl (\<lambda>v c. v * 10 + digit_val c) 0 s"

lemma decimal_digits: "list_all is_digit (decimal n)"
proof (induction n rule: decimal.induct)
  case (1 n)
  then show ?case by (subst decimal.simps) simp
qed

lemma decimal_value [simp]: "digits_value (decimal n) = n"
proof (induction n rule: decimal.induct)
  case (1 n)
  then show ?case by (subst decimal.simps) (simp add: digits_value_def)
qed

lemma decimal_ne [simp]: "decimal n \<noteq> []"
  by (subst decimal.simps) simp

lemma decimal_hd: "is_digit (hd (decimal n))"
  using decimal_digits [of n] by (cases "decimal n") simp_all

lemma decimal_length: "n < 10 ^ k \<Longrightarrow> 0 < k \<Longrightarrow> length (decimal n) \<le> k"
proof (induction n arbitrary: k rule: decimal.induct)
  case (1 n)
  show ?case
  proof (cases "n < 10")
    case True
    with 1 show ?thesis by (subst decimal.simps) simp
  next
    case False
    with "1.prems" obtain j where k: "k = Suc j" "0 < j" by (cases k; cases "k - 1") auto
    with "1.prems" have "n div 10 < 10 ^ j" by auto
    with "1.IH" [OF False] k False show ?thesis by (subst decimal.simps) simp
  qed
qed

lemma decimal_inj: "decimal m = decimal n \<longleftrightarrow> m = n"
  by (metis decimal_value)

lemma decimal_no_lead_zero: "decimal n = CHR ''0'' # s \<Longrightarrow> s = [] \<and> n = 0"
proof (induction n arbitrary: s rule: decimal.induct)
  case (1 n)
  show ?case
  proof (cases "n < 10")
    case True
    with "1.prems" have d: "digit_char n = CHR ''0''" "s = []" by (simp_all add: decimal.simps [of n])
    have "byte (digit_char n) = 48" unfolding d(1) by simp
    moreover have "byte (digit_char n) = 48 + n" using True by (simp add: digit_char_def)
    ultimately show ?thesis using d(2) by simp
  next
    case False
    then obtain r where "decimal (n div 10) = CHR ''0'' # r"
      using "1.prems" by (cases "decimal (n div 10)") (auto simp: decimal.simps [of n])
    with "1.IH" [OF False] False show ?thesis by auto
  qed
qed

end
