(* ===== verification/Util.thy ===== *)
theory Util
  imports Prelude
begin

text \<open>
  \<^verbatim>\<open>src/util.c\<close>, \<^verbatim>\<open>src/tokens.c\<close> and \<^verbatim>\<open>src/safety.c\<close>: the growable buffer, the ASCII
  string helpers, the slug and UTF-8 checkers, control stripping, FNV-1a, sentence
  trimming, the token estimate and the input gate.  The UTF-8 checker is proved equal to a
  specification written as "the encoding of a list of Unicode scalar values".
\<close>

unbundle bit_operations_syntax

section \<open>Growable buffer\<close>

text \<open>
  \<open>data\<close> holds the \<open>len\<close> bytes written; the pointer is NULL exactly while \<open>cap\<close> is 0.
  \<open>alloc n\<close> says whether \<^verbatim>\<open>realloc\<close> to \<open>n\<close> bytes succeeds.
\<close>

record buf =
  buf_data :: string
  buf_cap :: nat

definition SIZE_MAX :: nat where "SIZE_MAX = 2 ^ 64 - 1"

definition buf_init :: buf where
  "buf_init = \<lparr>buf_data = [], buf_cap = 0\<rparr>"

text \<open>The doubling loop; the code enters it with a positive capacity, so the first
  conjunct of its guard always holds there.\<close>

function buf_grow :: "nat \<Rightarrow> nat \<Rightarrow> nat" where
  "buf_grow cap need =
     (if 0 < cap \<and> cap < need
      then if SIZE_MAX div 2 < cap then need else buf_grow (cap * 2) need
      else cap)"
  by pat_completeness auto
termination
  by (relation "measure (\<lambda>(cap, need). need - cap)") auto

declare buf_grow.simps [simp del]

definition buf_reserve :: "(nat \<Rightarrow> bool) \<Rightarrow> buf \<Rightarrow> nat \<Rightarrow> buf outcome" where
  "buf_reserve alloc b extra =
     (if SIZE_MAX - length (buf_data b) - 1 < extra then Err ERR_NOMEM
      else let need = length (buf_data b) + extra + 1 in
        if need \<le> buf_cap b then Ok b
        else let cap = buf_grow (if buf_cap b \<noteq> 0 then buf_cap b else 64) need in
          if alloc cap then Ok (b\<lparr>buf_cap := cap\<rparr>) else Err ERR_NOMEM)"

definition buf_append :: "(nat \<Rightarrow> bool) \<Rightarrow> buf \<Rightarrow> string \<Rightarrow> buf outcome" where
  "buf_append alloc b s =
     (case buf_reserve alloc b (length s) of
        Inl e \<Rightarrow> Err e
      | Inr b' \<Rightarrow> Ok (b'\<lparr>buf_data := buf_data b' @ s\<rparr>))"

definition buf_appendc :: "(nat \<Rightarrow> bool) \<Rightarrow> buf \<Rightarrow> char \<Rightarrow> buf outcome" where
  "buf_appendc alloc b ch = buf_append alloc b [ch]"

definition buf_detach :: "buf \<Rightarrow> string \<times> buf" where
  "buf_detach b = (buf_data b, buf_init)"

text \<open>A well-formed buffer keeps room for the terminator and never outgrows
  \<^verbatim>\<open>SIZE_MAX\<close>.\<close>

definition buf_ok :: "buf \<Rightarrow> bool" where
  "buf_ok b \<longleftrightarrow> buf_cap b \<le> SIZE_MAX \<and>
     (if buf_cap b = 0 then buf_data b = [] else length (buf_data b) < buf_cap b)"

lemma buf_ok_init [simp]: "buf_ok buf_init"
  by (simp add: buf_ok_def buf_init_def)

lemma buf_grow_bounds:
  "0 < cap \<Longrightarrow> cap \<le> SIZE_MAX \<Longrightarrow> need \<le> SIZE_MAX \<Longrightarrow>
     need \<le> buf_grow cap need \<and> cap \<le> buf_grow cap need \<and> buf_grow cap need \<le> SIZE_MAX"
proof (induction cap need rule: buf_grow.induct)
  case (1 cap need)
  show ?case
  proof (cases "cap < need \<and> \<not> SIZE_MAX div 2 < cap")
    case True
    then have "cap * 2 \<le> SIZE_MAX" by (auto simp: not_less)
    with True 1 show ?thesis by (simp add: buf_grow.simps [of cap need])
  next
    case False
    with 1 show ?thesis by (auto simp: buf_grow.simps [of cap need])
  qed
qed

lemma buf_reserve_ok:
  assumes "buf_ok b" and "buf_reserve alloc b extra = Ok b'"
  shows "buf_data b' = buf_data b \<and> buf_cap b \<le> buf_cap b' \<and> buf_cap b' \<le> SIZE_MAX \<and>
    length (buf_data b) + extra < buf_cap b'"
proof -
  let ?need = "length (buf_data b) + extra + 1"
  have "length (buf_data b) < SIZE_MAX"
    using assms(1) by (auto simp: buf_ok_def SIZE_MAX_def split: if_splits)
  moreover have "\<not> SIZE_MAX - length (buf_data b) - 1 < extra"
    using assms(2) by (auto simp: buf_reserve_def)
  ultimately have need: "?need \<le> SIZE_MAX" by arith
  have start: "(if buf_cap b \<noteq> 0 then buf_cap b else 64) \<le> SIZE_MAX"
    using assms(1) by (auto simp: buf_ok_def SIZE_MAX_def)
  show ?thesis
    using assms need buf_grow_bounds [OF _ start need]
    by (auto simp: buf_reserve_def buf_ok_def Let_def split: if_splits)
qed

lemma buf_append_data:
  assumes "buf_ok b" and "buf_append alloc b s = Ok b'"
  shows "buf_data b' = buf_data b @ s" and "buf_ok b'"
  using assms by (auto simp: buf_append_def buf_ok_def split: sum.splits dest!: buf_reserve_ok [OF assms(1)])

lemma buf_append_total:
  assumes "buf_ok b" and "\<And>n. alloc n" and "length (buf_data b) + length s < SIZE_MAX"
  shows "\<exists>b'. buf_append alloc b s = Ok b'"
  using assms by (auto simp: buf_append_def buf_reserve_def Let_def)

section \<open>ASCII strings\<close>

definition str_lower_char :: "char \<Rightarrow> char" where
  "str_lower_char c = (if is_upper c then char_of (byte c - 65 + 97) else c)"

text \<open>The comparison loop of \<^verbatim>\<open>asngn_strcasecmp\<close>, on strings read up to their NUL.\<close>

function strcasecmp_from :: "string \<Rightarrow> string \<Rightarrow> nat \<Rightarrow> int" where
  "strcasecmp_from a b i =
     (let ca = str_lower_char (c_at a i); cb = str_lower_char (c_at b i) in
      if ca \<noteq> cb then int (byte ca) - int (byte cb)
      else if ca = NUL then 0
      else strcasecmp_from a b (Suc i))"
  by pat_completeness auto
termination
proof (relation "measure (\<lambda>(a, b, i). length a - i)", goal_cases)
  case (2 a b i x xa)
  then have "c_at a i \<noteq> NUL" by (auto simp: str_lower_char_def is_upper_def byte_in_def)
  then show ?case by (auto simp: c_at_def split: if_splits)
qed simp

definition asngn_strcasecmp :: "string option \<Rightarrow> string option \<Rightarrow> int" where
  "asngn_strcasecmp a b =
     (case (a, b) of
        (None, None) \<Rightarrow> 0
      | (None, Some _) \<Rightarrow> -1
      | (Some _, None) \<Rightarrow> 1
      | (Some x, Some y) \<Rightarrow> strcasecmp_from x y 0)"

definition str_has_prefix :: "string option \<Rightarrow> string option \<Rightarrow> bool" where
  "str_has_prefix s p =
     (case (s, p) of (Some x, Some y) \<Rightarrow> take (length y) x = y | _ \<Rightarrow> False)"

definition asngn_strndup :: "string \<Rightarrow> nat \<Rightarrow> string" where
  "asngn_strndup s n = takeWhile (\<lambda>c. c \<noteq> NUL) (take n s)"

section \<open>Slugs\<close>

fun slug_rest :: "string \<Rightarrow> nat \<Rightarrow> bool" where
  "slug_rest [] i = True"
| "slug_rest (ch # s) i =
     (if 63 < i then False
      else if \<not> (is_lower ch \<or> is_digit ch \<or> ch = CHR ''-'') then False
      else slug_rest s (Suc i))"

fun slug_valid :: "string option \<Rightarrow> bool" where
  "slug_valid None = False"
| "slug_valid (Some []) = False"
| "slug_valid (Some (ch # s)) =
     (if \<not> (is_lower ch \<or> is_digit ch) then False else slug_rest s 1)"

definition slug_char :: "char \<Rightarrow> bool" where
  "slug_char ch \<longleftrightarrow> is_lower ch \<or> is_digit ch \<or> ch = CHR ''-''"

lemma slug_rest_iff: "slug_rest s i \<longleftrightarrow> list_all slug_char s \<and> (s = [] \<or> length s + i \<le> 64)"
  by (induction s arbitrary: i) (auto simp: slug_char_def Suc_le_eq)

lemma slug_valid_iff:
  "slug_valid (Some s) \<longleftrightarrow>
     s \<noteq> [] \<and> length s \<le> 64 \<and> hd s \<noteq> CHR ''-'' \<and> list_all slug_char s"
proof (cases s)
  case (Cons ch r)
  have "\<not> (is_lower (CHR ''-'') \<or> is_digit (CHR ''-''))" by (simp add: bytes)
  then show ?thesis by (auto simp: Cons slug_rest_iff slug_char_def)
qed simp

section \<open>UTF-8\<close>

definition utf8_cont :: "char \<Rightarrow> bool" where
  "utf8_cont c \<longleftrightarrow> byte c AND 192 = 128"

text \<open>One iteration of the loop of \<^verbatim>\<open>asngn_utf8_valid\<close> on the bytes from the cursor on:
  how far the cursor moves, or \<open>None\<close> where the function returns false.\<close>

definition utf8_step :: "string \<Rightarrow> nat option" where
  "utf8_step p =
     (let b = byte (p ! 0); left = length p in
      if b < 128 then Some 1
      else if 194 \<le> b \<and> b \<le> 223 then
        (if left < 2 \<or> \<not> utf8_cont (p ! 1) then None else Some 2)
      else if b = 224 then
        (if left < 3 \<or> byte (p ! 1) < 160 \<or> 191 < byte (p ! 1) \<or> \<not> utf8_cont (p ! 2)
         then None else Some 3)
      else if 225 \<le> b \<and> b \<le> 236 then
        (if left < 3 \<or> \<not> utf8_cont (p ! 1) \<or> \<not> utf8_cont (p ! 2) then None else Some 3)
      else if b = 237 then
        (if left < 3 \<or> byte (p ! 1) < 128 \<or> 159 < byte (p ! 1) \<or> \<not> utf8_cont (p ! 2)
         then None else Some 3)
      else if 238 \<le> b \<and> b \<le> 239 then
        (if left < 3 \<or> \<not> utf8_cont (p ! 1) \<or> \<not> utf8_cont (p ! 2) then None else Some 3)
      else if b = 240 then
        (if left < 4 \<or> byte (p ! 1) < 144 \<or> 191 < byte (p ! 1) \<or> \<not> utf8_cont (p ! 2) \<or>
            \<not> utf8_cont (p ! 3)
         then None else Some 4)
      else if 241 \<le> b \<and> b \<le> 243 then
        (if left < 4 \<or> \<not> utf8_cont (p ! 1) \<or> \<not> utf8_cont (p ! 2) \<or> \<not> utf8_cont (p ! 3)
         then None else Some 4)
      else if b = 244 then
        (if left < 4 \<or> byte (p ! 1) < 128 \<or> 143 < byte (p ! 1) \<or> \<not> utf8_cont (p ! 2) \<or>
            \<not> utf8_cont (p ! 3)
         then None else Some 4)
      else None)"

lemma utf8_step_pos: "utf8_step p = Some n \<Longrightarrow> 0 < n"
  by (auto simp: utf8_step_def Let_def split: if_splits)

function utf8_valid :: "string \<Rightarrow> bool" where
  "utf8_valid p =
     (if p = [] then True
      else case utf8_step p of None \<Rightarrow> False | Some n \<Rightarrow> utf8_valid (drop n p))"
  by pat_completeness auto
termination
  by (relation "measure length") (auto dest: utf8_step_pos)

declare utf8_valid.simps [simp del]

text \<open>The specification: a Unicode scalar value and its encoding.\<close>

definition unicode_scalar :: "nat \<Rightarrow> bool" where
  "unicode_scalar n \<longleftrightarrow> n < 0x110000 \<and> \<not> (0xD800 \<le> n \<and> n \<le> 0xDFFF)"

definition utf8_encode :: "nat \<Rightarrow> string" where
  "utf8_encode n =
     (if n < 0x80 then [char_of n]
      else if n < 0x800 then [char_of (0xC0 + n div 64), char_of (0x80 + n mod 64)]
      else if n < 0x10000 then
        [char_of (0xE0 + n div 4096), char_of (0x80 + n div 64 mod 64), char_of (0x80 + n mod 64)]
      else
        [char_of (0xF0 + n div 262144), char_of (0x80 + n div 4096 mod 64),
         char_of (0x80 + n div 64 mod 64), char_of (0x80 + n mod 64)])"

definition utf8_text :: "string \<Rightarrow> bool" where
  "utf8_text s \<longleftrightarrow> (\<exists>ns. list_all unicode_scalar ns \<and> s = concat (map utf8_encode ns))"

lemma and_192: "n < 256 \<Longrightarrow> (n AND 192 = (128::nat)) = (128 \<le> n \<and> n < 192)"
proof -
  assume n: "n < 256"
  have m: "(192::nat) = push_bit 6 (mask 2)" by (simp add: mask_eq_exp_minus_1 push_bit_eq_mult)
  have "n AND 192 = push_bit 6 (take_bit 2 (drop_bit 6 n))"
    unfolding m by (rule bit_eqI) (auto simp: bit_simps)
  also have "\<dots> = 64 * (n div 64)"
    using n by (simp add: push_bit_eq_mult take_bit_eq_mod drop_bit_eq_div)
  finally show ?thesis by auto
qed

lemma utf8_cont_iff: "utf8_cont c \<longleftrightarrow> 128 \<le> byte c \<and> byte c < 192"
  by (simp add: utf8_cont_def and_192)

text \<open>Base-64 digits of a code point: every branch of the checker becomes linear in them.\<close>

lemma digits2: "z < 64 \<Longrightarrow> (y * 64 + z) div 64 = (y::nat)" "z < 64 \<Longrightarrow> (y * 64 + z) mod 64 = (z::nat)"
  by simp_all

lemma digits3:
  assumes "y < 64" "z < (64::nat)"
  shows "(x * 4096 + y * 64 + z) div 4096 = x"
    and "(x * 4096 + y * 64 + z) div 64 mod 64 = y"
    and "(x * 4096 + y * 64 + z) mod 64 = z"
proof -
  have eq: "x * 4096 + y * 64 + z = (x * 64 + y) * 64 + z" by simp
  have d: "(x * 4096 + y * 64 + z) div 64 = x * 64 + y"
    unfolding eq using assms(2) by (rule digits2)
  show "(x * 4096 + y * 64 + z) div 64 mod 64 = y" 
    using assms(1) by (simp add: d digits2)
  show "(x * 4096 + y * 64 + z) mod 64 = z"
    unfolding eq using assms(2) by (rule digits2)
  have "(x * 4096 + y * 64 + z) div (64 * 64) = x"
    using assms by (simp only: div_mult2_eq d digits2)
  then show "(x * 4096 + y * 64 + z) div 4096 = x" by simp
qed

lemma digits4:
  assumes "x < 64" "y < 64" "z < (64::nat)"
  shows "(w * 262144 + x * 4096 + y * 64 + z) div 262144 = w"
    and "(w * 262144 + x * 4096 + y * 64 + z) div 4096 mod 64 = x"
    and "(w * 262144 + x * 4096 + y * 64 + z) div 64 mod 64 = y"
    and "(w * 262144 + x * 4096 + y * 64 + z) mod 64 = z"
proof -
  have eq: "w * 262144 + x * 4096 + y * 64 + z = (w * 64 + x) * 4096 + y * 64 + z" by simp
  note d3 = digits3 [OF assms(2,3), of "w * 64 + x"]
  show "(w * 262144 + x * 4096 + y * 64 + z) div 4096 mod 64 = x"
    and "(w * 262144 + x * 4096 + y * 64 + z) div 64 mod 64 = y"
    and "(w * 262144 + x * 4096 + y * 64 + z) mod 64 = z"
    unfolding eq d3 using assms by simp_all
  have "(w * 262144 + x * 4096 + y * 64 + z) div (4096 * 64) = w"
    unfolding eq div_mult2_eq d3 using assms by simp
  then show "(w * 262144 + x * 4096 + y * 64 + z) div 262144 = w" by simp
qed
lemma utf8_encode_2:
  "z < 64 \<Longrightarrow> 2 \<le> y \<Longrightarrow> y < 32 \<Longrightarrow>
     utf8_encode (y * 64 + z) = [char_of (192 + y), char_of (128 + z)]"
  by (simp add: utf8_encode_def)

lemma utf8_encode_3:
  "y < 64 \<Longrightarrow> z < 64 \<Longrightarrow> x < 16 \<Longrightarrow> 32 \<le> x * 64 + y \<Longrightarrow>
     utf8_encode (x * 4096 + y * 64 + z) =
       [char_of (224 + x), char_of (128 + y), char_of (128 + z)]"
  unfolding utf8_encode_def by (subst digits3 | assumption)+ simp

lemma utf8_encode_4:
  "x < 64 \<Longrightarrow> y < 64 \<Longrightarrow> z < 64 \<Longrightarrow> w < 5 \<Longrightarrow> 16 \<le> w * 64 + x \<Longrightarrow>
     utf8_encode (w * 262144 + x * 4096 + y * 64 + z) =
       [char_of (240 + w), char_of (128 + x), char_of (128 + y), char_of (128 + z)]"
  unfolding utf8_encode_def by (subst digits4 | assumption)+ simp

lemma utf8_step_2: "y < 32 \<Longrightarrow> 2 \<le> y \<Longrightarrow> z < 64 \<Longrightarrow>
    utf8_step (char_of (192 + y) # char_of (128 + z :: nat) # r) = Some 2" for y z :: nat
  by (simp add: utf8_step_def utf8_cont_iff)

lemma utf8_step_3:
  fixes x y z :: nat
  assumes a: "x < 16" "y < 64" "z < 64" "32 \<le> x * 64 + y" "\<not> (x = 13 \<and> 32 \<le> y)"
  shows "utf8_step (char_of (224 + x) # char_of (128 + y) # char_of (128 + z) # r) = Some 3"
proof -
  consider "x = 0" "32 \<le> y" | "1 \<le> x" "x \<le> 12" | "x = 13" "y < 32" | "14 \<le> x" "x \<le> 15"
    using a by (cases "x = 0"; cases "x = 13"; cases "x < 13") auto
  then show ?thesis
    by cases (use a(2,3) in \<open>simp_all add: utf8_step_def utf8_cont_iff\<close>)
qed

lemma utf8_step_4:
  fixes w x y z :: nat
  assumes a: "w < 5" "x < 64" "y < 64" "z < 64" "16 \<le> w * 64 + x" "w * 64 + x < 272"
  shows "utf8_step (char_of (240 + w) # char_of (128 + x) # char_of (128 + y) #
    char_of (128 + z) # r) = Some 4"
proof -
  consider "w = 0" "16 \<le> x" | "1 \<le> w" "w \<le> 3" | "w = 4" "x < 16"
    using a by (cases "w = 0"; cases "w = 4") auto
  then show ?thesis
    by cases (use a(2-4) in \<open>simp_all add: utf8_step_def utf8_cont_iff\<close>)
qed

lemma utf8_encode_cases:
  assumes "unicode_scalar n"
  obtains "n < 128"
  | y z :: nat where "n = y * 64 + z" "2 \<le> y" "y < 32" "z < 64"
  | x y z where "n = x * 4096 + y * 64 + z" "x < 16" "y < 64" "z < 64" "32 \<le> x * 64 + y"
      "\<not> (x = 13 \<and> 32 \<le> y)"
  | w x y z where "n = w * 262144 + x * 4096 + y * 64 + z" "w < 5" "x < 64" "y < 64" "z < 64"
      "16 \<le> w * 64 + x" "w * 64 + x < 272"
proof -
  define z y' where "z = n mod 64" and "y' = n div 64"
  define y x' where "y = y' mod 64" and "x' = y' div 64"
  define x w where "x = x' mod 64" and "w = x' div 64"
  have n: "n = y' * 64 + z" "y' = x' * 64 + y" "x' = w * 64 + x"
    and b: "z < 64" "y < 64" "x < 64"
    by (simp_all add: z_def y'_def y_def x'_def x_def w_def)
  have s: "n < 1114112" "\<not> (55296 \<le> n \<and> n \<le> 57343)"
    using assms by (auto simp: unicode_scalar_def)
  consider "n < 128" | "128 \<le> n" "n < 2048" | "2048 \<le> n" "n < 65536" | "65536 \<le> n" by linarith
  then show thesis
  proof cases
    case 1 then show thesis by (rule that(1))
  next
    case 2 then show thesis using n b by (intro that(2) [of y' z]) auto
  next
    case 3
    then have "x' < 16" "32 \<le> y'" using n b by linarith+
    moreover have "\<not> (x' = 13 \<and> 32 \<le> y)" using s n b by auto
    ultimately show thesis using n b by (intro that(3) [of x' y z]) auto
  next
    case 4
    then have "16 \<le> x'" "x' < 272" using s n b by linarith+
    then show thesis using n b by (intro that(4) [of w x y z]) auto
  qed
qed

lemma utf8_step_encode:
  assumes "unicode_scalar n"
  shows "utf8_step (utf8_encode n @ r) = Some (length (utf8_encode n))"
  using assms
proof (cases rule: utf8_encode_cases)
  case 1
  then show ?thesis by (simp add: utf8_encode_def utf8_step_def)
next
  case (2 y z)
  then show ?thesis by (simp add: utf8_encode_2 utf8_step_2)
next
  case (3 x y z)
  then show ?thesis by (simp add: utf8_encode_3 utf8_step_3)
next
  case (4 w x y z)
  then show ?thesis by (simp add: utf8_encode_4 utf8_step_4)
qed

lemma char_of_byte [simp]: "char_of (byte c) = c"
  by (simp add: byte_def)

lemma utf8_step_inv:
  assumes "utf8_step p = Some k" and "p \<noteq> []"
  obtains "k = 1" "byte (p ! 0) < 128"
  | y z where "k = 2" "2 \<le> length p" "byte (p ! 0) = 192 + y" "byte (p ! 1) = 128 + z"
      "2 \<le> y" "y < 32" "z < 64"
  | x y z where "k = 3" "3 \<le> length p" "byte (p ! 0) = 224 + x" "byte (p ! 1) = 128 + y"
      "byte (p ! 2) = 128 + z" "x < 16" "y < 64" "z < 64" "32 \<le> x * 64 + y" "\<not> (x = 13 \<and> 32 \<le> y)"
  | w x y z where "k = 4" "4 \<le> length p" "byte (p ! 0) = 240 + w" "byte (p ! 1) = 128 + x"
      "byte (p ! 2) = 128 + y" "byte (p ! 3) = 128 + z" "w < 5" "x < 64" "y < 64" "z < 64"
      "16 \<le> w * 64 + x" "w * 64 + x < 272"
proof -
  let ?b = "byte (p ! 0)"
  consider (1) "?b < 128" | (n) "128 \<le> ?b" "?b < 194" | (2) "194 \<le> ?b" "?b < 224"
    | (3) "?b = 224" | (4) "225 \<le> ?b" "?b < 237" | (5) "?b = 237" | (6) "238 \<le> ?b" "?b < 240"
    | (7) "?b = 240" | (8) "241 \<le> ?b" "?b < 244" | (9) "?b = 244" | (m) "245 \<le> ?b" by linarith
  then show thesis
  proof cases
    case 1 then show thesis using assms by (intro that(1)) (auto simp: utf8_step_def)
  next
    case n then show thesis using assms(1) by (simp add: utf8_step_def)
  next
    case 2 then show thesis using assms(1)
      by (intro that(2) [of "?b - 192" "byte (p ! 1) - 128"])
        (auto simp: utf8_step_def utf8_cont_iff split: if_splits)
  next
    case 3 then show thesis using assms(1)
      by (intro that(3) [of "?b - 224" "byte (p ! 1) - 128" "byte (p ! 2) - 128"])
        (auto simp: utf8_step_def utf8_cont_iff split: if_splits)
  next
    case 4 then show thesis using assms(1)
      by (intro that(3) [of "?b - 224" "byte (p ! 1) - 128" "byte (p ! 2) - 128"])
        (auto simp: utf8_step_def utf8_cont_iff split: if_splits)
  next
    case 5 then show thesis using assms(1)
      by (intro that(3) [of "?b - 224" "byte (p ! 1) - 128" "byte (p ! 2) - 128"])
        (auto simp: utf8_step_def utf8_cont_iff split: if_splits)
  next
    case 6 then show thesis using assms(1)
      by (intro that(3) [of "?b - 224" "byte (p ! 1) - 128" "byte (p ! 2) - 128"])
        (auto simp: utf8_step_def utf8_cont_iff split: if_splits)
  next
    case 7 then show thesis using assms(1)
      by (intro that(4) [of "?b - 240" "byte (p ! 1) - 128" "byte (p ! 2) - 128" "byte (p ! 3) - 128"])
        (auto simp: utf8_step_def utf8_cont_iff split: if_splits)
  next
    case 8 then show thesis using assms(1)
      by (intro that(4) [of "?b - 240" "byte (p ! 1) - 128" "byte (p ! 2) - 128" "byte (p ! 3) - 128"])
        (auto simp: utf8_step_def utf8_cont_iff split: if_splits)
  next
    case 9 then show thesis using assms(1)
      by (intro that(4) [of "?b - 240" "byte (p ! 1) - 128" "byte (p ! 2) - 128" "byte (p ! 3) - 128"])
        (auto simp: utf8_step_def utf8_cont_iff split: if_splits)
  next
    case m then show thesis using assms(1) by (simp add: utf8_step_def)
  qed
qed

lemma take_nths:
  "2 \<le> length p \<Longrightarrow> take 2 p = [p ! 0, p ! 1]"
  "3 \<le> length p \<Longrightarrow> take 3 p = [p ! 0, p ! 1, p ! 2]"
  "4 \<le> length p \<Longrightarrow> take 4 p = [p ! 0, p ! 1, p ! 2, p ! 3]"
  by (auto simp: numeral_eq_Suc Suc_le_length_iff)

lemma char_eq_if_byte: "byte c = n \<Longrightarrow> c = char_of n"
  using char_of_byte [of c] by simp

lemma utf8_step_decode:
  assumes "utf8_step p = Some k" and "p \<noteq> []"
  shows "\<exists>n. unicode_scalar n \<and> take k p = utf8_encode n"
  using assms
proof (cases rule: utf8_step_inv)
  case 1
  then show ?thesis using \<open>p \<noteq> []\<close>
    by (intro exI [of _ "byte (p ! 0)"])
      (auto simp: unicode_scalar_def utf8_encode_def take_Suc hd_conv_nth)
next
  case (2 y z)
  then show ?thesis
    by (intro exI [of _ "y * 64 + z"])
      (auto simp: unicode_scalar_def utf8_encode_2 take_nths dest!: char_eq_if_byte)
next
  case (3 x y z)
  then have "unicode_scalar (x * 4096 + y * 64 + z)"
    by (cases "x \<le> 12"; cases "x = 13") (auto simp: unicode_scalar_def)
  with 3 show ?thesis
    by (intro exI [of _ "x * 4096 + y * 64 + z"])
      (auto simp: utf8_encode_3 take_nths dest!: char_eq_if_byte)
next
  case (4 w x y z)
  then show ?thesis
    by (intro exI [of _ "w * 262144 + x * 4096 + y * 64 + z"])
      (auto simp: unicode_scalar_def utf8_encode_4 take_nths dest!: char_eq_if_byte)
qed

lemma utf8_encode_ne [simp]: "utf8_encode n \<noteq> []"
  by (simp add: utf8_encode_def)

lemma utf8_step_le: "utf8_step p = Some k \<Longrightarrow> p \<noteq> [] \<Longrightarrow> k \<le> length p"
  by (erule utf8_step_inv) (auto simp: Suc_le_eq)

lemma utf8_valid_encode: "unicode_scalar n \<Longrightarrow> utf8_valid (utf8_encode n @ r) = utf8_valid r"
  by (subst utf8_valid.simps) (simp add: utf8_step_encode)

lemma utf8_valid_iff: "utf8_valid s \<longleftrightarrow> utf8_text s"
proof
  assume "utf8_text s"
  then obtain ns where "list_all unicode_scalar ns" and s: "s = concat (map utf8_encode ns)"
    by (auto simp: utf8_text_def)
  then show "utf8_valid s"
    unfolding s
    by (induction ns) (simp_all add: utf8_valid_encode, simp add: utf8_valid.simps)
next
  show "utf8_valid s \<Longrightarrow> utf8_text s"
  proof (induction s rule: utf8_valid.induct)
    case (1 p)
    show ?case
    proof (cases "p = []")
      case True
      then show ?thesis by (auto simp: utf8_text_def intro: exI [of _ "[]"])
    next
      case False
      with "1.prems" obtain k where k: "utf8_step p = Some k" and "utf8_valid (drop k p)"
        by (auto simp: utf8_valid.simps [of p] split: option.splits)
      with "1.IH" False obtain ns
        where ns: "list_all unicode_scalar ns" "drop k p = concat (map utf8_encode ns)"
        by (auto simp: utf8_text_def)
      obtain n where n: "unicode_scalar n" "take k p = utf8_encode n"
        using utf8_step_decode [OF k False] by blast
      have "p = concat (map utf8_encode (n # ns))"
        using n(2) ns(2) append_take_drop_id [of k p] by simp
      with n(1) ns(1) show ?thesis
        unfolding utf8_text_def by (intro exI [of _ "n # ns"]) simp
    qed
  qed
qed

lemma utf8_text_append: "utf8_text s \<Longrightarrow> utf8_text t \<Longrightarrow> utf8_text (s @ t)"
  unfolding utf8_text_def by (metis concat_append list_all_append map_append)

text \<open>ASCII bytes are boundaries of the encoding: a text can be cut on either side of one.\<close>

lemma utf8_encode_ascii: "n < 128 \<Longrightarrow> utf8_encode n = [char_of n]"
  by (simp add: utf8_encode_def)

lemma utf8_encode_high: "\<not> n < 128 \<Longrightarrow> unicode_scalar n \<Longrightarrow> c \<in> set (utf8_encode n) \<Longrightarrow> 128 \<le> byte c"
  by (erule utf8_encode_cases) (auto simp: utf8_encode_2 utf8_encode_3 utf8_encode_4)

lemma utf8_text_Nil [simp]: "utf8_text []"
  unfolding utf8_text_def by (rule exI [of _ "[]"]) simp

lemma utf8_text_ascii: "byte c < 128 \<Longrightarrow> utf8_text [c]"
  unfolding utf8_text_def
  by (rule exI [of _ "[byte c]"]) (simp add: utf8_encode_ascii unicode_scalar_def)

lemma utf8_text_cut:
  assumes "utf8_text (a @ c # b)" and c: "byte c < 128"
  shows "utf8_text a \<and> utf8_text b"
proof -
  obtain ns where "list_all unicode_scalar ns" and "a @ c # b = concat (map utf8_encode ns)"
    using assms(1) by (auto simp: utf8_text_def)
  then show ?thesis
  proof (induction ns arbitrary: a)
    case Nil then show ?case by simp
  next
    case (Cons n ns)
    then have n: "unicode_scalar n" and ns: "list_all unicode_scalar ns"
      and eq: "utf8_encode n @ concat (map utf8_encode ns) = a @ c # b" by simp_all
    have n_text: "utf8_text (utf8_encode n)"
      unfolding utf8_text_def using n by (intro exI [of _ "[n]"]) simp
    from eq consider (inside) us where "utf8_encode n = a @ us" "us @ concat (map utf8_encode ns) = c # b" "us \<noteq> []"
      | (outside) us where "a = utf8_encode n @ us" "concat (map utf8_encode ns) = us @ c # b"
      by (auto simp: append_eq_append_conv2) (metis append_Nil append_Nil2)
    then show ?case
    proof cases
      case inside
      then have "c \<in> set (utf8_encode n)" by (cases us) auto
      with c n have "utf8_encode n = [char_of n]"
        using utf8_encode_high utf8_encode_ascii by (meson not_less)
      with inside have "a = []" "us = [char_of n]" by (cases a; cases us; force)+
      with inside ns show ?thesis by (auto simp: utf8_text_def)
    next
      case outside
      from Cons.IH [OF ns outside(2) [symmetric]] n_text show ?thesis
        by (simp add: outside(1) utf8_text_append)
    qed
  qed
qed

lemma utf8_text_cut_after: "utf8_text (a @ c # b) \<Longrightarrow> byte c < 128 \<Longrightarrow> utf8_text (a @ [c])"
  using utf8_text_cut utf8_text_append utf8_text_ascii by blast

text \<open>Dropping ASCII bytes keeps a text a text.\<close>

lemma utf8_text_filter:
  assumes "utf8_text s" and hi: "\<And>c. 128 \<le> byte c \<Longrightarrow> keep c"
  shows "utf8_text (filter keep s)"
proof -
  obtain ns where "list_all unicode_scalar ns" and s: "s = concat (map utf8_encode ns)"
    using assms(1) by (auto simp: utf8_text_def)
  then show ?thesis unfolding s
  proof (induction ns)
    case Nil then show ?case by simp
  next
    case (Cons n ns)
    have "utf8_text (filter keep (utf8_encode n))"
    proof (cases "n < 128")
      case True
      then show ?thesis by (simp add: utf8_encode_ascii utf8_text_ascii)
    next
      case False
      then have "filter keep (utf8_encode n) = utf8_encode n"
        using Cons.prems hi utf8_encode_high by (auto simp: filter_id_conv)
      then show ?thesis unfolding utf8_text_def using Cons.prems
        by (intro exI [of _ "[n]"]) simp
    qed
    with Cons show ?case by (simp add: utf8_text_append)
  qed
qed

section \<open>Control stripping\<close>

definition stripped_char :: "char \<Rightarrow> bool" where
  "stripped_char ch \<longleftrightarrow> (byte ch < 32 \<and> ch \<noteq> NL \<and> ch \<noteq> TAB) \<or> byte ch = 127"

text \<open>The in-place loop: read index \<open>r\<close>, write index \<open>w\<close>, on the first \<open>len\<close> bytes of
  the buffer; the result is the buffer and the new length.\<close>

function strip_loop :: "string \<Rightarrow> nat \<Rightarrow> nat \<Rightarrow> nat \<Rightarrow> string \<times> nat" where
  "strip_loop s len r w =
     (if r < len
      then if stripped_char (s ! r) then strip_loop s len (Suc r) w
        else strip_loop (if w \<noteq> r then s[w := s ! r] else s) len (Suc r) (Suc w)
      else (if w < len then s[w := NUL] else s, w))"
  by pat_completeness auto
termination
  by (relation "measure (\<lambda>(s, len, r, w). len - r)") auto

declare strip_loop.simps [simp del]

definition asngn_strip_controls :: "string \<Rightarrow> nat \<Rightarrow> string \<times> nat" where
  "asngn_strip_controls s len = strip_loop s len 0 0"

lemma strip_loop_filter:
  assumes "w \<le> r" "r \<le> len" "len \<le> length s"
  shows "case strip_loop s len r w of (s', n) \<Rightarrow> n \<le> len \<and> length s' = length s \<and>
    take n s' = take w s @ filter (Not \<circ> stripped_char) (take (len - r) (drop r s))"
  using assms
proof (induction s len r w rule: strip_loop.induct)
  case (1 s len r w)
  show ?case
  proof (cases "r < len")
    case False
    with "1.prems" show ?thesis by (subst strip_loop.simps) auto
  next
    case True
    with "1.prems" have split: "take (len - r) (drop r s) = s ! r # take (len - Suc r) (drop (Suc r) s)"
      by (simp add: Cons_nth_drop_Suc [symmetric] Suc_diff_Suc [symmetric])
    show ?thesis
    proof (cases "stripped_char (s ! r)")
      case True
      with \<open>r < len\<close> "1.prems" "1.IH"(1) split show ?thesis
        by (simp add: strip_loop.simps [of s len r w])
    next
      case False
      let ?s = "if w \<noteq> r then s[w := s ! r] else s"
      have tk: "take (Suc w) ?s = take w s @ [s ! r]" and dr: "drop (Suc r) ?s = drop (Suc r) s"
        using True "1.prems" by (auto simp: take_Suc_conv_app_nth)
      from "1.IH"(2) [OF True False] True "1.prems" show ?thesis
        using False split unfolding strip_loop.simps [of s len r w]
        by (simp only: tk dr if_True if_False) (simp add: split_def)
    qed
  qed
qed

lemma strip_controls_filter:
  assumes "asngn_strip_controls s len = (s', n)" and "len \<le> length s"
  shows "take n s' = filter (Not \<circ> stripped_char) (take len s)" and "n \<le> len"
    and "length s' = length s"
  using strip_loop_filter [of 0 0 len s] assms by (auto simp: asngn_strip_controls_def)

section \<open>FNV-1a\<close>

definition fnv1a64_step :: "64 word \<Rightarrow> char \<Rightarrow> 64 word" where
  "fnv1a64_step h c = (h XOR of_nat (byte c)) * 1099511628211"

definition asngn_fnv1a64 :: "string \<Rightarrow> 64 word" where
  "asngn_fnv1a64 s = fold (\<lambda>c h. fnv1a64_step h c) s 14695981039346656037"

lemma fnv1a64_append: "asngn_fnv1a64 (s @ t) = fold (\<lambda>c h. fnv1a64_step h c) t (asngn_fnv1a64 s)"
  by (simp add: asngn_fnv1a64_def)

section \<open>Sentence trimming\<close>

definition is_ascii_space :: "char \<Rightarrow> bool" where
  "is_ascii_space ch \<longleftrightarrow> ch = SPACE \<or> ch = TAB \<or> ch = NL \<or> ch = CRET \<or> ch = CHR 0x0B \<or> ch = CHR 0x0C"

definition sentence_boundary :: "string \<Rightarrow> nat \<Rightarrow> bool" where
  "sentence_boundary s i \<longleftrightarrow> s ! i = NL \<or>
     ((s ! i = CHR ''.'' \<or> s ! i = CHR ''!'' \<or> s ! i = CHR ''?'') \<and>
      (i + 1 = length s \<or> is_ascii_space (s ! (i + 1))))"

fun sentence_scan :: "string \<Rightarrow> nat \<Rightarrow> nat" where
  "sentence_scan s 0 = length s"
| "sentence_scan s (Suc i) =
     (if s ! i = NL then i + 1
      else if (s ! i = CHR ''.'' \<or> s ! i = CHR ''!'' \<or> s ! i = CHR ''?'') \<and>
        (i + 1 = length s \<or> is_ascii_space (s ! (i + 1))) then i + 1
      else sentence_scan s i)"

definition asngn_sentence_trim :: "string \<Rightarrow> nat" where
  "asngn_sentence_trim s = (if s = [] then 0 else sentence_scan s (length s))"

lemma sentence_scan_Suc:
  "sentence_scan s (Suc i) = (if sentence_boundary s i then i + 1 else sentence_scan s i)"
  by (auto simp: sentence_boundary_def)

lemma sentence_scan_cases:
  obtains (found) j where "j < i" "sentence_boundary s j" "sentence_scan s i = Suc j"
      "\<And>k. j < k \<Longrightarrow> k < i \<Longrightarrow> \<not> sentence_boundary s k"
    | (none) "\<And>k. k < i \<Longrightarrow> \<not> sentence_boundary s k" "sentence_scan s i = length s"
proof (induction i arbitrary: thesis)
  case 0 then show ?case by simp
next
  case (Suc i)
  show ?case
  proof (cases "sentence_boundary s i")
    case True
    then show ?thesis by (intro Suc.prems(1) [of i]) (simp_all add: sentence_scan_Suc del: sentence_scan.simps)
  next
    case False
    then have eq: "sentence_scan s (Suc i) = sentence_scan s i"
      by (simp add: sentence_scan_Suc del: sentence_scan.simps)
    show ?thesis
    proof (rule Suc.IH)
      fix j assume "j < i" "sentence_boundary s j" "sentence_scan s i = Suc j"
        "\<And>k. j < k \<Longrightarrow> k < i \<Longrightarrow> \<not> sentence_boundary s k"
      then show ?thesis using False eq by (intro Suc.prems(1) [of j]) (auto simp: less_Suc_eq)
    next
      assume "\<And>k. k < i \<Longrightarrow> \<not> sentence_boundary s k" "sentence_scan s i = length s"
      then show ?thesis using False eq by (intro Suc.prems(2)) (auto simp: less_Suc_eq)
    qed
  qed
qed

lemma sentence_trim_le: "asngn_sentence_trim s \<le> length s"
  by (rule sentence_scan_cases [of "length s" s]) (auto simp: asngn_sentence_trim_def)

lemma sentence_trim_last_boundary:
  assumes j: "j < length s" "sentence_boundary s j" "\<And>k. j < k \<Longrightarrow> k < length s \<Longrightarrow> \<not> sentence_boundary s k"
  shows "asngn_sentence_trim s = j + 1"
proof (cases rule: sentence_scan_cases [of "length s" s])
  case (found i)
  then have "i = j" using j by (metis linorder_neqE_nat)
  with found j show ?thesis by (auto simp: asngn_sentence_trim_def)
next
  case none
  with j show ?thesis by blast
qed

lemma sentence_boundary_ascii: "sentence_boundary s i \<Longrightarrow> byte (s ! i) < 128"
  by (auto simp: sentence_boundary_def)

text \<open>
  Trimming an answer to its last whole sentence never splits a character: the kept prefix
  of a valid UTF-8 text is valid UTF-8.
\<close>

theorem sentence_trim_utf8:
  assumes "utf8_valid s" shows "utf8_valid (take (asngn_sentence_trim s) s)"
proof (cases rule: sentence_scan_cases [of "length s" s])
  case (found j)
  then have t: "asngn_sentence_trim s = Suc j" by (auto simp: asngn_sentence_trim_def)
  have "s = take j s @ s ! j # drop (Suc j) s" using found(1) by (rule id_take_nth_drop)
  with utf8_text_cut_after [of "take j s" "s ! j" "drop (Suc j) s"] assms
    sentence_boundary_ascii [OF found(2)]
  show ?thesis using found(1) t by (simp add: utf8_valid_iff take_Suc_conv_app_nth)
next
  case none
  then show ?thesis using assms by (auto simp: asngn_sentence_trim_def)
qed

section \<open>Token estimate (tokens.c)\<close>

definition INT_MAX :: nat where "INT_MAX = 2 ^ 31 - 1"

definition asngn_token_heuristic :: "string option \<Rightarrow> nat" where
  "asngn_token_heuristic text =
     (case text of
        None \<Rightarrow> 1
      | Some s \<Rightarrow>
          if s = [] then 1
          else let t = length s div 4;
                   t = (if t = 0 then 1 else t);
                   t = (if INT_MAX < t then INT_MAX else t) in t)"

lemma token_heuristic_bounds: "1 \<le> asngn_token_heuristic t \<and> asngn_token_heuristic t \<le> INT_MAX"
  by (auto simp: asngn_token_heuristic_def INT_MAX_def Let_def split: option.split)

section \<open>The input gate (safety.c)\<close>

definition INPUT_MAX :: nat where "INPUT_MAX = 64 * 1024"

text \<open>\<open>utf8_lead_len\<close> is the sequence length the lead byte announces.\<close>

definition utf8_lead_len :: "nat \<Rightarrow> nat option" where
  "utf8_lead_len b =
     (if b < 128 then Some 1
      else if 194 \<le> b \<and> b \<le> 223 then Some 2
      else if 224 \<le> b \<and> b \<le> 239 then Some 3
      else if 240 \<le> b \<and> b \<le> 244 then Some 4
      else None)"

lemma utf8_lead_len_pos: "utf8_lead_len b = Some l \<Longrightarrow> 0 < l"
  by (auto simp: utf8_lead_len_def split: if_splits)

function utf8_invalid_offset_from :: "string \<Rightarrow> nat \<Rightarrow> nat" where
  "utf8_invalid_offset_from s i =
     (if i < length s
      then case utf8_lead_len (byte (s ! i)) of
          None \<Rightarrow> i
        | Some l \<Rightarrow>
            if length s - i < l \<or> \<not> utf8_valid (take l (drop i s)) then i
            else utf8_invalid_offset_from s (i + l)
      else length s)"
  by pat_completeness auto
termination
  by (relation "measure (\<lambda>(s, i). length s - i)") (auto dest: utf8_lead_len_pos)

declare utf8_invalid_offset_from.simps [simp del]

datatype gate_reject =
    Empty_message | Too_large nat | Not_utf8 nat | Empty_after_stripping

text \<open>Every rejection is \<open>ERR_INVALID\<close> with its reason; on success the result is the
  buffer (changed in place) and the new length.\<close>

definition asngn_gate_input :: "string option \<Rightarrow> nat \<Rightarrow> gate_reject + string \<times> nat" where
  "asngn_gate_input text len =
     (case text of
        None \<Rightarrow> Inl Empty_message
      | Some s \<Rightarrow>
          if len = 0 then Inl Empty_message
          else if INPUT_MAX < len then Inl (Too_large len)
          else if \<not> utf8_valid (take len s) then
            Inl (Not_utf8 (utf8_invalid_offset_from (take len s) 0))
          else let (s', n) = asngn_strip_controls s len in
            if list_all (\<lambda>ch. ch = SPACE \<or> ch = TAB \<or> ch = NL) (take n s')
            then Inl Empty_after_stripping
            else Inr (s', n))"

text \<open>What the gate promises the engine about an admitted message.\<close>

definition admitted :: "string \<Rightarrow> bool" where
  "admitted m \<longleftrightarrow> m \<noteq> [] \<and> length m \<le> INPUT_MAX \<and> utf8_text m \<and>
     list_all (Not \<circ> stripped_char) m \<and> \<not> list_all (\<lambda>ch. ch = SPACE \<or> ch = TAB \<or> ch = NL) m"

lemma stripped_char_ascii: "128 \<le> byte c \<Longrightarrow> \<not> stripped_char c"
  by (auto simp: stripped_char_def)

lemma utf8_step_lead:
  assumes "utf8_step p = Some k" "p \<noteq> []" shows "utf8_lead_len (byte (p ! 0)) = Some k"
  using assms by (cases rule: utf8_step_inv) (auto simp: utf8_lead_len_def)

lemma strip_controls_admitted:
  assumes "utf8_valid (take len s)" "asngn_strip_controls s len = (s', n)" "len \<le> length s"
  shows "utf8_text (take n s')" "list_all (Not \<circ> stripped_char) (take n s')"
  using assms utf8_text_filter [of "take len s" "Not \<circ> stripped_char"] stripped_char_ascii
  by (auto simp: strip_controls_filter utf8_valid_iff list_all_iff)

text \<open>
  What the input gate admits is safe for the engine: non-empty, at most 64 KiB, well-formed
  UTF-8, free of the stripped control bytes and not blank, and it is the user's text with
  exactly those bytes removed.
\<close>

theorem gate_input_admits:
  assumes "asngn_gate_input (Some s) len = Inr (s', n)" and "len \<le> length s"
  shows "admitted (take n s') \<and> take n s' = filter (Not \<circ> stripped_char) (take len s)"
proof -
  from assms(1) have g: "len \<noteq> 0" "len \<le> INPUT_MAX" "utf8_valid (take len s)"
    "asngn_strip_controls s len = (s', n)"
    "\<not> list_all (\<lambda>ch. ch = SPACE \<or> ch = TAB \<or> ch = NL) (take n s')"
    by (auto simp: asngn_gate_input_def split: if_splits prod.splits)
  note strip = strip_controls_filter [OF g(4) assms(2)]
  note adm = strip_controls_admitted [OF g(3,4) assms(2)]
  have "length (take n s') \<le> INPUT_MAX" using g(2) strip(2) by simp
  then show ?thesis using g(5) adm strip(1) by (auto simp: admitted_def)
qed

text \<open>The reported offset is where the first broken sequence starts.\<close>

lemma utf8_lead_step:
  assumes "p \<noteq> []" and l: "utf8_lead_len (byte (p ! 0)) = Some l" "l \<le> length p"
  shows "utf8_valid (take l p) \<longleftrightarrow> utf8_step p = Some l"
proof
  have ne: "take l p \<noteq> []" using utf8_lead_len_pos [OF l(1)] assms(1) by auto
  assume "utf8_valid (take l p)"
  with ne obtain k where k: "utf8_step (take l p) = Some k"
    by (auto simp: utf8_valid.simps [of "take l p"] split: option.splits)
  have "k = l" using utf8_step_lead [OF k ne] l ne by simp
  with utf8_step_decode [OF k ne] obtain n where n: "unicode_scalar n" "take l p = utf8_encode n" by auto
  then have "p = utf8_encode n @ drop l p" using append_take_drop_id [of l p] by simp
  moreover have "length (utf8_encode n) = l" using n(2) l(2) by (metis length_take min.absorb2)
  ultimately show "utf8_step p = Some l" using utf8_step_encode [OF n(1), of "drop l p"] by simp
next
  assume "utf8_step p = Some l"
  then obtain n where n: "unicode_scalar n" "take l p = utf8_encode n"
    using utf8_step_decode assms(1) by blast
  then show "utf8_valid (take l p)" using utf8_valid_encode [OF n(1), of "[]"]
    by (simp add: utf8_valid.simps [of "[]"])
qed

lemma utf8_invalid_offset_from:
  assumes "utf8_valid (take i s)" "i \<le> length s" "\<not> utf8_valid (drop i s)"
  shows "let j = utf8_invalid_offset_from s i in
    j < length s \<and> utf8_valid (take j s) \<and> utf8_step (drop j s) = None"
  using assms
proof (induction s i rule: utf8_invalid_offset_from.induct)
  case (1 s i)
  then have i: "i < length s" by (auto simp: utf8_valid.simps [of "[]"] nat_less_le)
  then have ne: "drop i s \<noteq> []" and hd: "drop i s ! 0 = s ! i" by simp_all
  show ?case
  proof (cases "utf8_step (drop i s)")
    case None
    have "utf8_invalid_offset_from s i = i"
    proof (cases "utf8_lead_len (byte (s ! i))")
      case (Some l)
      then have "\<not> (l \<le> length s - i \<and> utf8_valid (take l (drop i s)))"
        using utf8_lead_step [OF ne, of l] None hd by simp
      then show ?thesis using Some i
        by (subst utf8_invalid_offset_from.simps) (simp add: not_le disj_commute)
    qed (subst utf8_invalid_offset_from.simps, simp add: i)
    with None i 1(2) show ?thesis by simp
  next
    case (Some l)
    have lead: "utf8_lead_len (byte (s ! i)) = Some l" using utf8_step_lead [OF Some ne] hd by simp
    have le: "l \<le> length s - i" using utf8_step_le [OF Some ne] by simp
    have v: "utf8_valid (take l (drop i s))" using utf8_lead_step [OF ne] lead le Some hd by simp
    have "utf8_valid (take (i + l) s)"
      using 1(2) v by (simp add: take_add utf8_valid_iff utf8_text_append)
    moreover have "\<not> utf8_valid (drop (i + l) s)"
      using "1.prems"(3) ne Some by (simp add: utf8_valid.simps [of "drop i s"] add.commute)
    ultimately show ?thesis using "1.IH" [OF i lead] le v i lead
      by (simp add: utf8_invalid_offset_from.simps [of s i])
  qed
qed

theorem gate_input_admits_witness:
  "admitted (take 2 [CHR ''h'', CHR ''i'']) \<and>
   take 2 [CHR ''h'', CHR ''i''] = filter (Not \<circ> stripped_char) (take 2 ''hi'')"
proof (rule gate_input_admits)
  have "utf8_valid ''hi''" "asngn_strip_controls ''hi'' 2 = (''hi'', 2)" by code_simp+
  then show "asngn_gate_input (Some ''hi'') 2 = Inr ([CHR ''h'', CHR ''i''], 2)"
    by (simp add: asngn_gate_input_def INPUT_MAX_def)
qed simp

text \<open>
  When the gate rejects a message as not UTF-8, the offset it reports is exact: the text
  before it is well-formed and the sequence at it is not.
\<close>

theorem gate_input_bad_offset:
  assumes "asngn_gate_input (Some s) len = Inl (Not_utf8 j)"
  shows "j < length (take len s) \<and> utf8_text (take j s) \<and>
    utf8_step (drop j (take len s)) = None"
proof -
  let ?t = "take len s"
  from assms have "\<not> utf8_valid ?t" and j: "j = utf8_invalid_offset_from ?t 0"
    by (auto simp: asngn_gate_input_def split: if_splits prod.splits)
  then have "j < length ?t \<and> utf8_valid (take j ?t) \<and> utf8_step (drop j ?t) = None"
    using utf8_invalid_offset_from [of 0 ?t] by (simp add: Let_def utf8_valid.simps [of "[]"] del: take_take)
  then show ?thesis by (auto simp: utf8_valid_iff)
qed

theorem gate_input_bad_offset_witness:
  "2 < length (take 3 [CHR ''o'', CHR ''k'', CHR 0xFF]) \<and> utf8_text (take 2 [CHR ''o'', CHR ''k'', CHR 0xFF]) \<and>
   utf8_step (drop 2 (take 3 [CHR ''o'', CHR ''k'', CHR 0xFF])) = None"
proof (rule gate_input_bad_offset)
  show "asngn_gate_input (Some [CHR ''o'', CHR ''k'', CHR 0xFF]) 3 = Inl (Not_utf8 2)"
  proof -
    have "\<not> utf8_valid [CHR ''o'', CHR ''k'', CHR 0xFF]" "utf8_invalid_offset_from [CHR ''o'', CHR ''k'', CHR 0xFF] 0 = 2"
      by code_simp+
    then show ?thesis by (simp add: asngn_gate_input_def INPUT_MAX_def)
  qed
qed

theorem sentence_trim_utf8_witness: "utf8_valid (take (asngn_sentence_trim ''Done. And'') ''Done. And'')"
proof (rule sentence_trim_utf8)
  show "utf8_valid ''Done. And''" by code_simp
qed

text \<open>
  The validator accepts exactly the encodings of sequences of Unicode scalar values: no
  overlong form, no surrogate, nothing above U+10FFFF, no truncated sequence.
\<close>

theorem utf8_valid_exact: "utf8_valid s \<longleftrightarrow> utf8_text s"
  by (rule utf8_valid_iff)

text \<open>
  Appending to a growable buffer adds exactly the bytes, keeps room for the terminator and
  never overflows the size arithmetic; it fails only when the allocator refuses or the total
  would reach \<^verbatim>\<open>SIZE_MAX\<close>, and the caller keeps its buffer.
\<close>

theorem buf_append_exact:
  assumes "buf_ok b"
  shows "case buf_append alloc b s of
      Ok b' \<Rightarrow> buf_data b' = buf_data b @ s \<and> buf_ok b'
    | Err e \<Rightarrow> e = ERR_NOMEM \<and>
        ((\<exists>n. \<not> alloc n) \<or> SIZE_MAX \<le> length (buf_data b) + length s)"
proof (cases "buf_append alloc b s")
  case (Inl e)
  moreover from Inl have "e = ERR_NOMEM"
    by (auto simp: buf_append_def buf_reserve_def Let_def split: if_splits sum.splits)
  moreover have "(\<exists>n. \<not> alloc n) \<or> SIZE_MAX \<le> length (buf_data b) + length s"
  proof (rule ccontr)
    assume "\<not> ?thesis"
    then have "\<forall>n. alloc n" "length (buf_data b) + length s < SIZE_MAX" by auto
    then show False using buf_append_total [of b alloc s] assms Inl by auto
  qed
  ultimately show ?thesis by simp
next
  case (Inr b')
  then show ?thesis using buf_append_data [OF assms Inr] by simp
qed

theorem buf_append_exact_witness:
  "case buf_append (\<lambda>n. n \<le> 64) buf_init ''abc'' of
      Ok b' \<Rightarrow> buf_data b' = buf_data buf_init @ ''abc'' \<and> buf_ok b'
    | Err e \<Rightarrow> e = ERR_NOMEM \<and>
        ((\<exists>n. \<not> n \<le> (64::nat)) \<or> SIZE_MAX \<le> length (buf_data buf_init) + length ''abc'')"
  by (rule buf_append_exact) (simp add: buf_ok_def buf_init_def)

end
