(* ===== verification/Sha256.thy ===== *)
theory Sha256
  imports Util
begin

text \<open>
  \<^verbatim>\<open>src/sha256.c\<close>: the streaming SHA-256 of FIPS 180-4 and its hexadecimal printing.

  The context keeps the eight state words, the 64-bit length counter and the bytes waiting
  in the block buffer (\<open>sha_pending\<close>, the first \<^verbatim>\<open>buflen\<close> bytes of the C array; the rest of
  the array is never read).  The null checks on the context pointer have no counterpart:
  a context here always exists.  The update loop carries the guard \<^verbatim>\<open>buflen < 64\<close>, which the
  invariant \<open>sha_absorbed\<close> shows to hold at every call.
\<close>

unbundle bit_operations_syntax

type_synonym u32 = "32 word"
type_synonym u64 = "64 word"

record sha256_ctx =
  sha_state :: "u32 list"
  sha_bitlen :: u64
  sha_pending :: string

definition sha256_k :: "u32 list" where
  "sha256_k =
     concat [
       [0x428a2f98, 0x71374491, 0xb5c0fbcf, 0xe9b5dba5],
       [0x3956c25b, 0x59f111f1, 0x923f82a4, 0xab1c5ed5],
       [0xd807aa98, 0x12835b01, 0x243185be, 0x550c7dc3],
       [0x72be5d74, 0x80deb1fe, 0x9bdc06a7, 0xc19bf174],
       [0xe49b69c1, 0xefbe4786, 0x0fc19dc6, 0x240ca1cc],
       [0x2de92c6f, 0x4a7484aa, 0x5cb0a9dc, 0x76f988da],
       [0x983e5152, 0xa831c66d, 0xb00327c8, 0xbf597fc7],
       [0xc6e00bf3, 0xd5a79147, 0x06ca6351, 0x14292967],
       [0x27b70a85, 0x2e1b2138, 0x4d2c6dfc, 0x53380d13],
       [0x650a7354, 0x766a0abb, 0x81c2c92e, 0x92722c85],
       [0xa2bfe8a1, 0xa81a664b, 0xc24b8b70, 0xc76c51a3],
       [0xd192e819, 0xd6990624, 0xf40e3585, 0x106aa070],
       [0x19a4c116, 0x1e376c08, 0x2748774c, 0x34b0bcb5],
       [0x391c0cb3, 0x4ed8aa4a, 0x5b9cca4f, 0x682e6ff3],
       [0x748f82ee, 0x78a5636f, 0x84c87814, 0x8cc70208],
       [0x90befffa, 0xa4506ceb, 0xbef9a3f7, 0xc67178f2]]"

definition ROR :: "u32 \<Rightarrow> nat \<Rightarrow> u32" where
  "ROR x n = drop_bit n x OR push_bit (32 - n) x"

definition be_word :: "string \<Rightarrow> nat \<Rightarrow> u32" where
  "be_word b i =
     push_bit 24 (of_nat (byte (b ! (i * 4)))) OR push_bit 16 (of_nat (byte (b ! (i * 4 + 1)))) OR
     push_bit 8 (of_nat (byte (b ! (i * 4 + 2)))) OR of_nat (byte (b ! (i * 4 + 3)))"

definition sha_schedule_word :: "u32 list \<Rightarrow> nat \<Rightarrow> u32" where
  "sha_schedule_word w i =
     (let s0 = ROR (w ! (i - 15)) 7 XOR ROR (w ! (i - 15)) 18 XOR drop_bit 3 (w ! (i - 15));
          s1 = ROR (w ! (i - 2)) 17 XOR ROR (w ! (i - 2)) 19 XOR drop_bit 10 (w ! (i - 2))
      in w ! (i - 16) + s0 + w ! (i - 7) + s1)"

definition sha_schedule :: "string \<Rightarrow> u32 list" where
  "sha_schedule block =
     fold (\<lambda>i w. w @ [sha_schedule_word w i]) [16..<64] (map (be_word block) [0..<16])"

type_synonym sha_regs = "u32 \<times> u32 \<times> u32 \<times> u32 \<times> u32 \<times> u32 \<times> u32 \<times> u32"

fun sha_round :: "u32 \<times> u32 \<Rightarrow> sha_regs \<Rightarrow> sha_regs" where
  "sha_round (ki, wi) (a, b, c, d, e, f, g, h) =
     (let s1 = ROR e 6 XOR ROR e 11 XOR ROR e 25;
          ch = (e AND f) XOR (NOT e AND g);
          t1 = h + s1 + ch + ki + wi;
          s0 = ROR a 2 XOR ROR a 13 XOR ROR a 22;
          maj = (a AND b) XOR (a AND c) XOR (b AND c);
          t2 = s0 + maj
      in (t1 + t2, a, b, c, d + t1, e, f, g))"

definition sha256_transform :: "u32 list \<Rightarrow> string \<Rightarrow> u32 list" where
  "sha256_transform st block =
     (case fold sha_round (zip sha256_k (sha_schedule block))
        (st ! 0, st ! 1, st ! 2, st ! 3, st ! 4, st ! 5, st ! 6, st ! 7) of
        (a, b, c, d, e, f, g, h) \<Rightarrow>
          [st ! 0 + a, st ! 1 + b, st ! 2 + c, st ! 3 + d,
           st ! 4 + e, st ! 5 + f, st ! 6 + g, st ! 7 + h])"

definition sha256_init :: sha256_ctx where
  "sha256_init = \<lparr>sha_state = [0x6a09e667, 0xbb67ae85, 0x3c6ef372, 0xa54ff53a,
     0x510e527f, 0x9b05688c, 0x1f83d9ab, 0x5be0cd19], sha_bitlen = 0, sha_pending = []\<rparr>"

function sha256_update_loop :: "sha256_ctx \<Rightarrow> string \<Rightarrow> sha256_ctx" where
  "sha256_update_loop ctx p =
     (if p = [] \<or> 64 \<le> length (sha_pending ctx) then ctx
      else if sha_pending ctx = [] \<and> 64 \<le> length p then
        sha256_update_loop (ctx\<lparr>sha_state := sha256_transform (sha_state ctx) (take 64 p)\<rparr>) (drop 64 p)
      else
        let n = (if length p < 64 - length (sha_pending ctx) then length p
                 else 64 - length (sha_pending ctx));
            buf = sha_pending ctx @ take n p;
            ctx' = (if length buf = 64
                    then ctx\<lparr>sha_state := sha256_transform (sha_state ctx) buf, sha_pending := []\<rparr>
                    else ctx\<lparr>sha_pending := buf\<rparr>)
        in sha256_update_loop ctx' (drop n p))"
  by pat_completeness auto
termination
  by (relation "measure (\<lambda>(ctx, p). length p)") auto

declare sha256_update_loop.simps [simp del]

definition sha256_update :: "sha256_ctx \<Rightarrow> string \<Rightarrow> sha256_ctx" where
  "sha256_update ctx p =
     sha256_update_loop (ctx\<lparr>sha_bitlen := sha_bitlen ctx + of_nat (length p) * 8\<rparr>) p"

text \<open>Specification: whole blocks absorbed in order.\<close>

function sha_blocks :: "u32 list \<Rightarrow> string \<Rightarrow> u32 list" where
  "sha_blocks st m = (if 64 \<le> length m then sha_blocks (sha256_transform st (take 64 m)) (drop 64 m) else st)"
  by pat_completeness auto
termination
  by (relation "measure (\<lambda>(st, m). length m)") auto

declare sha_blocks.simps [simp del]

definition sha_absorbed :: "sha256_ctx \<Rightarrow> string \<Rightarrow> bool" where
  "sha_absorbed ctx m \<longleftrightarrow>
     sha_state ctx = sha_blocks (sha_state sha256_init) (take (length m div 64 * 64) m) \<and>
     sha_pending ctx = drop (length m div 64 * 64) m \<and>
     sha_bitlen ctx = of_nat (length m) * 8"

lemma sha_blocks_short [simp]: "length m < 64 \<Longrightarrow> sha_blocks st m = st"
  by (simp add: sha_blocks.simps)

lemma sha_blocks_append:
  "length m mod 64 = 0 \<Longrightarrow> sha_blocks st (m @ b) = sha_blocks (sha_blocks st m) b"
proof (induction st m rule: sha_blocks.induct)
  case (1 st m)
  show ?case
  proof (cases "64 \<le> length m")
    case True
    then have "length (drop 64 m) mod 64 = 0" using 1(2) by (simp add: mod_if)
    with 1(1) True show ?thesis
      by (simp add: sha_blocks.simps [of st m] sha_blocks.simps [of st "m @ b"])
  next
    case False
    then have "m = []" using 1(2) by (simp add: mod_if split: if_splits)
    then show ?thesis by simp
  qed
qed

definition whole :: "string \<Rightarrow> nat" where
  "whole q = length q div 64 * 64"

lemma whole_block:
  assumes "length b = 64"
  shows "whole (b @ r) = 64 + whole r"
    and "sha_blocks st (take (whole (b @ r)) (b @ r)) = sha_blocks (sha256_transform st b) (take (whole r) r)"
    and "drop (whole (b @ r)) (b @ r) = drop (whole r) r"
proof -
  have n: "(64 + length r) div 64 * 64 = 64 + length r div 64 * 64" by (simp add: div_add_self1)
  show w: "whole (b @ r) = 64 + whole r" using assms n by (simp add: whole_def)
  show "sha_blocks st (take (whole (b @ r)) (b @ r)) = sha_blocks (sha256_transform st b) (take (whole r) r)"
    unfolding w using assms by (subst sha_blocks.simps) simp
  show "drop (whole (b @ r)) (b @ r) = drop (whole r) r" unfolding w using assms by simp
qed

lemma whole_short [simp]: "length q < 64 \<Longrightarrow> whole q = 0"
  by (simp add: whole_def)

lemma sha256_update_loop_eq:
  assumes "length (sha_pending ctx) < 64"
  shows "sha256_update_loop ctx p =
    ctx\<lparr>sha_state := sha_blocks (sha_state ctx) (take (whole (sha_pending ctx @ p)) (sha_pending ctx @ p)),
        sha_pending := drop (whole (sha_pending ctx @ p)) (sha_pending ctx @ p)\<rparr>"
  using assms
proof (induction ctx p rule: sha256_update_loop.induct)
  case (1 ctx p)
  let ?pd = "sha_pending ctx"
  consider "p = []" | "p \<noteq> []" "?pd = []" "64 \<le> length p"
    | "p \<noteq> []" "\<not> (?pd = [] \<and> 64 \<le> length p)" "64 - length ?pd \<le> length p"
    | "p \<noteq> []" "\<not> (?pd = [] \<and> 64 \<le> length p)" "length p < 64 - length ?pd"
    by linarith
  then show ?case
  proof cases
    case 1
    then show ?thesis using "1.prems" by (simp add: sha256_update_loop.simps)
  next
    case 2
    have b: "length (take 64 p) = 64" using 2 by simp
    have loop: "sha256_update_loop ctx p =
      sha256_update_loop (ctx\<lparr>sha_state := sha256_transform (sha_state ctx) (take 64 p)\<rparr>) (drop 64 p)"
      using 2 by (subst sha256_update_loop.simps) simp
    show ?thesis
      using "1.IH"(1) 2 whole_block [OF b, where r = "drop 64 p"] by (simp add: loop)
  next
    case 3
    let ?n = "64 - length ?pd" and ?b = "?pd @ take (64 - length ?pd) p"
    have b: "length ?b = 64" using 3 "1.prems" by simp
    have loop: "sha256_update_loop ctx p =
      sha256_update_loop (ctx\<lparr>sha_state := sha256_transform (sha_state ctx) ?b, sha_pending := []\<rparr>) (drop ?n p)"
      using 3 b "1.prems" by (subst sha256_update_loop.simps) (auto simp: Let_def)
    have q: "?pd @ p = ?b @ drop ?n p" by simp
    have "sha256_update_loop (ctx\<lparr>sha_state := sha256_transform (sha_state ctx) ?b, sha_pending := []\<rparr>) (drop ?n p)
      = ctx\<lparr>sha_state := sha_blocks (sha256_transform (sha_state ctx) ?b) (take (whole (drop ?n p)) (drop ?n p)),
        sha_pending := drop (whole (drop ?n p)) (drop ?n p)\<rparr>"
      using "1.IH"(2) [OF _ 3(2) refl refl refl] 3 b "1.prems" by (auto simp: not_less)
    then show ?thesis unfolding loop q by (simp only: whole_block(2,3) [OF b])
  next
    case 4
    then have "sha256_update_loop ctx p = ctx\<lparr>sha_pending := ?pd @ p\<rparr>"
      using "1.prems" by (subst sha256_update_loop.simps) (auto simp: Let_def sha256_update_loop.simps [of _ "[]"])
    then show ?thesis using 4 by simp
  qed
qed

lemma sha_absorbed_pending: "sha_absorbed ctx m \<Longrightarrow> length (sha_pending ctx) < 64"
  by (simp add: sha_absorbed_def minus_div_mult_eq_mod)

lemma sha_absorbed_init: "sha_absorbed sha256_init []"
  by (simp add: sha_absorbed_def sha256_init_def)

lemma sha_absorbed_update:
  assumes "sha_absorbed ctx m"
  shows "sha_absorbed (sha256_update ctx p) (m @ p)"
proof -
  let ?k = "length m div 64 * 64"
  have pend: "sha_pending ctx = drop ?k m" and st: "sha_state ctx = sha_blocks (sha_state sha256_init) (take ?k m)"
    and bl: "sha_bitlen ctx = of_nat (length m) * 8"
    using assms by (simp_all add: sha_absorbed_def)
  have k: "?k \<le> length m" by simp
  have "length (m @ p) = ?k + length (drop ?k m @ p)" using k by simp
  then have w: "length (m @ p) div 64 * 64 = ?k + whole (drop ?k m @ p)"
    unfolding whole_def by (simp only: div_mult_self3 div_mult_self4) (simp add: algebra_simps)
  have "take (length (m @ p) div 64 * 64) (m @ p) = take ?k m @ take (whole (drop ?k m @ p)) (drop ?k m @ p)"
    unfolding w take_add using k by simp
  moreover have "drop (length (m @ p) div 64 * 64) (m @ p) = drop (whole (drop ?k m @ p)) (drop ?k m @ p)"
    unfolding w add.commute [of ?k] drop_drop [symmetric] using k by simp
  moreover have "length (take ?k m) mod 64 = 0" using k by simp
  ultimately show ?thesis
    using sha_absorbed_pending [OF assms]
    by (simp add: sha_absorbed_def sha256_update_def sha256_update_loop_eq sha_blocks_append pend st bl algebra_simps)
qed

section \<open>Finalisation\<close>

lemma length_drop_whole: "length (drop (whole q) q) = length q mod 64"
  by (simp add: whole_def minus_div_mult_eq_mod)

lemma pad_gap:
  fixes n :: nat
  assumes "n < 64"
  shows "(120 - n) mod 64 = (if n \<le> 56 then 56 - n else 120 - n)"
    and "(119 - n) mod 64 = (if n \<le> 55 then 55 - n else 119 - n)"
  using assms by (auto simp: le_mod_geq)

lemma sha_pending_update_length:
  "length (sha_pending ctx) < 64 \<Longrightarrow>
     length (sha_pending (sha256_update ctx p)) = (length (sha_pending ctx) + length p) mod 64"
  by (simp add: sha256_update_def sha256_update_loop_eq length_drop_whole del: drop_append length_drop)

function sha256_pad_zero :: "sha256_ctx \<Rightarrow> sha256_ctx" where
  "sha256_pad_zero ctx =
     (if length (sha_pending ctx) \<noteq> 56 \<and> length (sha_pending ctx) < 64
      then sha256_pad_zero (sha256_update ctx [CHR 0x00]) else ctx)"
  by pat_completeness auto
termination
proof (relation "measure (\<lambda>ctx. (120 - length (sha_pending ctx)) mod 64)", goal_cases)
  case (2 ctx)
  define n where "n = length (sha_pending ctx)"
  have n: "n < 64" "n \<noteq> 56" using 2 by (simp_all add: n_def)
  have "length (sha_pending (sha256_update ctx [CHR 0x00])) = Suc n mod 64"
    using sha_pending_update_length [of ctx "[CHR 0x00]"] n(1) by (simp add: n_def)
  moreover have "(120 - Suc n mod 64) mod 64 < (120 - n) mod 64"
  proof -
    consider "n = 63" | "n < 56" | "56 < n" "n < 63" using n by linarith
    then show ?thesis by cases (simp_all add: pad_gap)
  qed
  ultimately show ?case by (simp add: n_def)
qed simp

declare sha256_pad_zero.simps [simp del]

text \<open>The cast to \<^verbatim>\<open>uint8_t\<close> keeps the low eight bits.\<close>

definition be64 :: "u64 \<Rightarrow> string" where
  "be64 bits = map (\<lambda>i. char_of (unat (ucast (drop_bit (56 - 8 * i) bits) :: 8 word))) [0..<8]"

definition be32 :: "u32 \<Rightarrow> string" where
  "be32 w = map (\<lambda>n. char_of (unat (ucast (drop_bit n w) :: 8 word))) [24, 16, 8, 0]"

definition sha256_final :: "sha256_ctx \<Rightarrow> string" where
  "sha256_final ctx =
     (let bits = sha_bitlen ctx;
          ctx = sha256_update ctx [CHR 0x80];
          ctx = sha256_pad_zero ctx;
          ctx = sha256_update ctx (be64 bits)
      in concat (map (\<lambda>i. be32 (sha_state ctx ! i)) [0..<8]))"

definition asngn_sha256 :: "string \<Rightarrow> string" where
  "asngn_sha256 data = sha256_final (sha256_update sha256_init data)"

text \<open>The hash of a whole message as FIPS 180-4 defines it: pad, then absorb every block.\<close>

definition sha_pad :: "string \<Rightarrow> string" where
  "sha_pad m = m @ CHR 0x80 # replicate ((119 - length m mod 64) mod 64) (CHR 0x00) @
     be64 (of_nat (length m) * 8)"

definition sha256_spec :: "string \<Rightarrow> string" where
  "sha256_spec m = (let st = sha_blocks (sha_state sha256_init) (sha_pad m)
     in concat (map (\<lambda>i. be32 (st ! i)) [0..<8]))"

lemma sha256_pad_zero_absorbed:
  assumes "sha_absorbed ctx m"
  shows "sha_absorbed (sha256_pad_zero ctx) (m @ replicate ((120 - length m mod 64) mod 64) (CHR 0x00))"
  using assms
proof (induction ctx arbitrary: m rule: sha256_pad_zero.induct)
  case (1 ctx)
  define n where "n = length m mod 64"
  have pend: "length (sha_pending ctx) = n"
    using "1.prems" by (simp add: sha_absorbed_def n_def minus_div_mult_eq_mod)
  show ?case
  proof (cases "n = 56")
    case True
    then show ?thesis using "1.prems" pend
      by (subst sha256_pad_zero.simps) (simp add: n_def [symmetric])
  next
    case False
    have "n < 64" by (simp add: n_def)
    have step: "sha256_pad_zero ctx = sha256_pad_zero (sha256_update ctx [CHR 0x00])"
      using False \<open>n < 64\<close> pend by (subst sha256_pad_zero.simps) simp
    have len: "length (m @ [CHR 0x00]) mod 64 = Suc n mod 64" by (simp add: n_def mod_Suc_eq)
    have count: "(120 - n) mod 64 = Suc ((120 - Suc n mod 64) mod 64)"
    proof -
      consider "n = 63" | "n < 56" | "56 < n" "n < 63" using False \<open>n < 64\<close> by linarith
      then show ?thesis by cases (simp_all add: pad_gap)
    qed
    have "sha_absorbed (sha256_pad_zero (sha256_update ctx [CHR 0x00]))
        ((m @ [CHR 0x00]) @ replicate ((120 - length (m @ [CHR 0x00]) mod 64) mod 64) (CHR 0x00))"
      using False \<open>n < 64\<close> pend "1.prems" by (intro "1.IH" sha_absorbed_update) simp_all
    then show ?thesis unfolding step len n_def [symmetric] count by simp
  qed
qed

lemma length_be64 [simp]: "length (be64 b) = 8"
  by (simp add: be64_def)

lemma sha_pad_length: "length (sha_pad m) mod 64 = 0"
proof -
  have "length (sha_pad m) = length m + (9 + (119 - length m mod 64) mod 64)"
    by (simp add: sha_pad_def)
  then have "length (sha_pad m) mod 64 = (length m mod 64 + (9 + (119 - length m mod 64) mod 64)) mod 64"
    by (simp only: mod_add_left_eq)
  moreover have "(r + (9 + (119 - r) mod 64)) mod 64 = 0" if r: "r < 64" for r :: nat
  proof -
    consider "r \<le> 55" | "55 < r" "r < 64" using r by arith
    then show ?thesis by cases (simp_all add: pad_gap)
  qed
  ultimately show ?thesis by simp
qed

lemma sha256_streaming:
  assumes "sha_absorbed ctx m"
  shows "sha256_final ctx = sha256_spec m"
proof -
  let ?c = "sha256_update (sha256_pad_zero (sha256_update ctx [CHR 0x80])) (be64 (sha_bitlen ctx))"
  have bits: "sha_bitlen ctx = of_nat (length m) * 8" using assms by (simp add: sha_absorbed_def)
  have z: "(120 - Suc (length m) mod 64) mod 64 = (119 - length m mod 64) mod 64"
    by (simp add: mod_Suc)
  note a1 = sha_absorbed_update [OF assms, of "[CHR 0x80]"]
  note a2 = sha256_pad_zero_absorbed [OF a1]
  note a3 = sha_absorbed_update [OF a2, of "be64 (sha_bitlen ctx)"]
  have "sha_absorbed ?c (sha_pad m)"
    using a3 by (simp add: sha_pad_def bits z)
  then have "sha_state ?c = sha_blocks (sha_state sha256_init) (take (length (sha_pad m) div 64 * 64) (sha_pad m))"
    by (simp add: sha_absorbed_def)
  moreover have "length (sha_pad m) div 64 * 64 = length (sha_pad m)"
    using sha_pad_length [of m] by (simp add: mod_0_imp_dvd)
  ultimately show ?thesis by (simp add: sha256_final_def sha256_spec_def Let_def)
qed
text \<open>One-shot and chunked hashing agree with the specification.\<close>

lemma sha256_one_shot: "asngn_sha256 m = sha256_spec m"
  using sha256_streaming [OF sha_absorbed_update [OF sha_absorbed_init, of m]]
  by (simp add: asngn_sha256_def)

lemma length_sha256_spec [simp]: "length (sha256_spec m) = 32"
  by (simp add: sha256_spec_def Let_def be32_def upt_rec)

section \<open>Hashing a file\<close>

text \<open>
  What the operating system gives: whether the file exists, whether \<^verbatim>\<open>fopen\<close> works, whether
  the 64 KiB buffer can be had, the pieces \<^verbatim>\<open>fread\<close> returns until it returns 0, and the
  error flag afterwards.
\<close>

record file_read =
  fr_exists :: bool
  fr_open :: bool
  fr_buffer :: bool
  fr_pieces :: "string list"
  fr_error :: bool

definition asngn_sha256_file :: "file_read \<Rightarrow> string outcome" where
  "asngn_sha256_file f =
     (if \<not> fr_open f then Err (if fr_exists f then ERR_IO else ERR_NOT_FOUND)
      else if \<not> fr_buffer f then Err ERR_NOMEM
      else let ctx = fold (\<lambda>piece ctx. sha256_update ctx piece) (fr_pieces f) sha256_init in
        if fr_error f then Err ERR_IO else Ok (sha256_final ctx))"

lemma sha_absorbed_pieces:
  "sha_absorbed ctx m \<Longrightarrow>
     sha_absorbed (fold (\<lambda>piece ctx. sha256_update ctx piece) ps ctx) (m @ concat ps)"
proof (induction ps arbitrary: ctx m)
  case (Cons p ps)
  show ?case using Cons.IH [OF sha_absorbed_update [OF Cons.prems, of p]] by simp
qed simp

text \<open>
  Hashing a message piece by piece, however it is cut, gives the digest FIPS 180-4 defines
  for the whole message: pad, then absorb every 64-byte block.
\<close>

theorem sha256_chunked:
  "sha256_final (fold (\<lambda>piece ctx. sha256_update ctx piece) ps sha256_init) = sha256_spec (concat ps)"
  using sha256_streaming [OF sha_absorbed_pieces [OF sha_absorbed_init, of ps]] by simp

lemma sha256_file_content:
  "fr_open f \<Longrightarrow> fr_buffer f \<Longrightarrow> \<not> fr_error f \<Longrightarrow>
     asngn_sha256_file f = Ok (asngn_sha256 (concat (fr_pieces f)))"
  using sha256_streaming [OF sha_absorbed_pieces [OF sha_absorbed_init, of "fr_pieces f"]]
  by (simp add: asngn_sha256_file_def sha256_one_shot)

section \<open>Hexadecimal\<close>

definition hexd :: string where "hexd = ''0123456789abcdef''"

definition hex_pair :: "char \<Rightarrow> string" where
  "hex_pair c = [hexd ! drop_bit 4 (byte c), hexd ! (byte c AND 15)]"

definition sha256_hex :: "string option \<Rightarrow> nat \<Rightarrow> string" where
  "sha256_hex hash n =
     (case hash of None \<Rightarrow> []
      | Some h \<Rightarrow> let n = (if 32 < n then 32 else n) in concat (map hex_pair (take n h)))"

definition hex_lower :: "char \<Rightarrow> bool" where
  "hex_lower c \<longleftrightarrow> is_digit c \<or> byte_in 97 102 c"

lemma nibbles: "n < 256 \<Longrightarrow> drop_bit 4 n = n div 16 \<and> n AND 15 = n mod (16::nat)"
proof -
  have "(15::nat) = mask 4" by (simp add: mask_eq_exp_minus_1)
  then have "n AND 15 = take_bit 4 n" by (simp only: take_bit_eq_mask)
  then show "n < 256 \<Longrightarrow> ?thesis" by (simp add: drop_bit_eq_div take_bit_eq_mod)
qed

lemma hex_pair_eq: "hex_pair c = [hexd ! (byte c div 16), hexd ! (byte c mod 16)]"
  by (simp add: hex_pair_def nibbles)

lemma length_hexd [simp]: "length hexd = 16"
  by (simp add: hexd_def)

lemma hexd_lower: "i < 16 \<Longrightarrow> hex_lower (hexd ! i)"
proof -
  have "list_all hex_lower hexd" by (simp add: hexd_def hex_lower_def bytes)
  then show "i < 16 \<Longrightarrow> ?thesis" by (simp add: list_all_length)
qed

lemma hexd_inj: "i < 16 \<Longrightarrow> j < 16 \<Longrightarrow> hexd ! i = hexd ! j \<longleftrightarrow> i = j"
proof -
  have "distinct hexd" by (simp add: hexd_def)
  then show "i < 16 \<Longrightarrow> j < 16 \<Longrightarrow> ?thesis" by (simp add: nth_eq_iff_index_eq)
qed

lemma byte_div16: "byte c div 16 < 16"
  using byte_less_256 [of c] by linarith

lemma hex_pair_inj: "hex_pair c = hex_pair d \<longleftrightarrow> c = d"
proof
  assume "hex_pair c = hex_pair d"
  then have "byte c div 16 = byte d div 16" "byte c mod 16 = byte d mod 16"
    by (simp_all add: hex_pair_eq hexd_inj byte_div16)
  then have "byte c = byte d" by (metis div_mult_mod_eq)
  then show "c = d" by (simp add: byte_inj)
qed simp

lemma length_hex_pair [simp]: "length (hex_pair c) = 2"
  by (simp add: hex_pair_def)

lemma hex_pair_lower: "list_all hex_lower (hex_pair c)"
  by (simp add: hex_pair_eq hexd_lower byte_div16)

lemma length_concat_hex: "length (concat (map hex_pair s)) = 2 * length s"
  by (induction s) simp_all

lemma concat_hex_inj: "concat (map hex_pair s) = concat (map hex_pair t) \<longleftrightarrow> s = t"
proof (induction s arbitrary: t)
  case Nil
  then show ?case by (cases t) (simp_all add: hex_pair_def)
next
  case (Cons c s)
  show ?case
  proof (cases t)
    case (Cons d t')
    then show ?thesis using Cons.IH [of t'] by (simp add: append_eq_append_conv hex_pair_inj)
  qed (simp add: hex_pair_def)
qed

lemma sha256_hex_lower: "list_all hex_lower (sha256_hex h n)"
proof -
  have "list_all hex_lower (concat (map hex_pair s))" for s
    by (induction s) (simp_all add: hex_pair_lower)
  then show ?thesis by (simp add: sha256_hex_def Let_def split: option.split)
qed

text \<open>The printed digest of a text, as the storage formats use it.\<close>

definition digest_hex :: "string \<Rightarrow> string" where
  "digest_hex s = sha256_hex (Some (asngn_sha256 s)) 32"

lemma length_digest_hex [simp]: "length (digest_hex s) = 64"
  by (simp add: digest_hex_def sha256_hex_def length_concat_hex sha256_one_shot)

lemma digest_hex_inj: "digest_hex s = digest_hex t \<longleftrightarrow> asngn_sha256 s = asngn_sha256 t"
  by (simp add: digest_hex_def sha256_hex_def concat_hex_inj sha256_one_shot)

lemma digest_hex_lower: "list_all hex_lower (digest_hex s)"
  by (simp add: digest_hex_def sha256_hex_lower)

end
