(* ===== verification/Uuid.thy ===== *)
theory Uuid
  imports Sha256
begin

text \<open>
  \<^verbatim>\<open>src/uuid.c\<close>: printing 16 bytes as a UUID, the version-4 generator over the random
  bytes of the operating system, the validity check and the reader.  Texts are
  NUL-terminated: \<open>c_at s i\<close> is what the code reads at \<^verbatim>\<open>s[i]\<close>.
\<close>

unbundle bit_operations_syntax

definition dash_before :: "nat list" where
  "dash_before = [0, 0, 0, 0, 1, 0, 1, 0, 1, 0, 1, 0, 0, 0, 0, 0]"

definition uuid_from_bytes :: "string \<Rightarrow> string" where
  "uuid_from_bytes b =
     concat (map (\<lambda>i. (if dash_before ! i \<noteq> 0 then ''-'' else []) @ hex_pair (b ! i)) [0..<16])"

text \<open>\<open>random\<close> is what \<^verbatim>\<open>os_random_bytes\<close> filled in.\<close>

definition uuid_v4 :: "string \<Rightarrow> string" where
  "uuid_v4 random =
     (let b = random[6 := char_of ((byte (random ! 6) AND 15) OR 64)];
          b = b[8 := char_of ((byte (b ! 8) AND 63) OR 128)]
      in uuid_from_bytes b)"

definition hex_val :: "char \<Rightarrow> int" where
  "hex_val ch =
     (if is_digit ch then int (byte ch) - 48
      else if byte_in 97 102 ch then int (byte ch) - 97 + 10
      else if byte_in 65 70 ch then int (byte ch) - 65 + 10
      else -1)"

fun uuid_valid_loop :: "string \<Rightarrow> nat list \<Rightarrow> bool" where
  "uuid_valid_loop s [] = (c_at s 36 = NUL)"
| "uuid_valid_loop s (i # is) =
     (if c_at s i = NUL then False
      else if i = 8 \<or> i = 13 \<or> i = 18 \<or> i = 23 then
        (if c_at s i \<noteq> CHR ''-'' then False else uuid_valid_loop s is)
      else if hex_val (c_at s i) < 0 then False
      else uuid_valid_loop s is)"

definition uuid_valid :: "string option \<Rightarrow> bool" where
  "uuid_valid s = (case s of None \<Rightarrow> False | Some s \<Rightarrow> uuid_valid_loop s [0..<36])"

definition hex_byte :: "char \<Rightarrow> char \<Rightarrow> char" where
  "hex_byte hi lo = char_of (nat (push_bit 4 (hex_val hi) OR hex_val lo))"

function uuid_read :: "string \<Rightarrow> nat \<Rightarrow> string" where
  "uuid_read s i =
     (if i < 36
      then if c_at s i = CHR ''-'' then uuid_read s (i + 1)
        else hex_byte (c_at s i) (c_at s (i + 1)) # uuid_read s (i + 2)
      else [])"
  by pat_completeness auto
termination
  by (relation "measure (\<lambda>(s, i). 36 - i)") auto

declare uuid_read.simps [simp del]

definition uuid_to_bytes :: "string option \<Rightarrow> string option" where
  "uuid_to_bytes s = (if \<not> uuid_valid s then None else Some (uuid_read (the s) 0))"

section \<open>Hexadecimal digits\<close>

lemma hex_val_hexd: "i < 16 \<Longrightarrow> hex_val (hexd ! i) = int i"
proof -
  have "list_all (\<lambda>i. hex_val (hexd ! i) = int i) [0..<16]"
    by (simp add: upt_rec hexd_def hex_val_def bytes)
  then show "i < 16 \<Longrightarrow> ?thesis" by (simp add: list_all_iff)
qed

lemma hexd_not: "i < 16 \<Longrightarrow> hexd ! i \<noteq> NUL \<and> hexd ! i \<noteq> CHR ''-''"
  using hexd_lower [of i] by (auto simp: hex_lower_def bytes)

lemma or_nibbles: "hi < 16 \<Longrightarrow> lo < 16 \<Longrightarrow> push_bit 4 (int hi) OR int lo = int (16 * hi + lo)"
proof -
  assume "hi < 16" "lo < 16"
  then have "take_bit 4 (int lo) = int lo" by (simp add: take_bit_eq_mod)
  then have "push_bit 4 (int hi) OR int lo = concat_bit 4 (int lo) (int hi)"
    by (simp add: concat_bit_def or.commute)
  then show ?thesis using \<open>take_bit 4 (int lo) = int lo\<close>
    by (simp add: concat_bit_eq push_bit_eq_mult)
qed

lemma hex_byte_pair: "hex_byte (hexd ! (byte c div 16)) (hexd ! (byte c mod 16)) = c"
proof -
  have "push_bit 4 (int (byte c div 16)) OR int (byte c mod 16) = int (byte c)"
    by (subst or_nibbles) (simp_all add: byte_div16 mult_div_mod_eq del: of_nat_add of_nat_mult)
  then have "push_bit 4 (hex_val (hexd ! (byte c div 16))) OR hex_val (hexd ! (byte c mod 16)) = int (byte c)"
    by (subst (1 2) hex_val_hexd) (simp_all add: byte_div16)
  then show ?thesis unfolding hex_byte_def by simp
qed

lemma uuid_read_steps:
  "36 \<le> i \<Longrightarrow> uuid_read s i = []"
  "i < 36 \<Longrightarrow> c_at s i = CHR ''-'' \<Longrightarrow> uuid_read s i = uuid_read s (i + 1)"
  "i < 36 \<Longrightarrow> c_at s i \<noteq> CHR ''-'' \<Longrightarrow>
     uuid_read s i = hex_byte (c_at s i) (c_at s (i + 1)) # uuid_read s (i + 2)"
  by (simp_all add: uuid_read.simps [of s i])

lemma length_16_cases:
  assumes "length b = 16"
  obtains b0 b1 b2 b3 b4 b5 b6 b7 b8 b9 ba bb bc bd be bf where
    "b = [b0, b1, b2, b3, b4, b5, b6, b7, b8, b9, ba, bb, bc, bd, be, bf]"
  using assms by (auto simp: numeral_eq_Suc length_Suc_conv)

lemma uuid_from_bytes_valid:
  assumes "length b = 16" shows "uuid_valid (Some (uuid_from_bytes b))"
  using assms
  by (rule length_16_cases)
    (simp add: uuid_valid_def uuid_from_bytes_def dash_before_def hex_pair_eq upt_rec hexd_not
      byte_div16 hex_val_hexd c_at_def)

lemma uuid_from_bytes_read:
  assumes "length b = 16" shows "uuid_read (uuid_from_bytes b) 0 = b"
  using assms
  by (rule length_16_cases)
    (simp add: uuid_from_bytes_def dash_before_def hex_pair_eq upt_rec hexd_not c_at_def
      hex_byte_pair uuid_read_steps byte_div16)

text \<open>
  The printed form of any 16 bytes is a valid UUID text and reads back to the same bytes.
\<close>

theorem uuid_round_trip: "length b = 16 \<Longrightarrow> uuid_to_bytes (Some (uuid_from_bytes b)) = Some b"
  by (simp add: uuid_to_bytes_def uuid_from_bytes_valid uuid_from_bytes_read)

theorem uuid_round_trip_witness:
  "uuid_to_bytes (Some (uuid_from_bytes ''0123456789abcdef'')) = Some ''0123456789abcdef''"
  by (rule uuid_round_trip) simp

lemma length_uuid_from_bytes: "length (uuid_from_bytes b) = 36"
  by (simp add: uuid_from_bytes_def dash_before_def upt_rec)

section \<open>Version 4\<close>

lemma bits_of_byte:
  assumes "n < 256"
  shows "((n AND 15) OR 64) div 16 = (4::nat)" and "((n AND 15) OR 64) mod 16 = n mod 16"
    and "\<exists>k<4. ((n AND 63) OR 128) div 16 = 8 + k" and "((n AND 63) OR 128) mod 16 = n mod (16::nat)"
    and "((n AND 15) OR 64) < 256" and "((n AND 63) OR 128) < (256::nat)"
proof -
  have a: "(n AND 15) = take_bit 4 n" and b: "(n AND 63) = take_bit 6 n"
    by (simp_all add: take_bit_eq_mask mask_eq_exp_minus_1)
  have c: "take_bit 4 n OR 64 = concat_bit 6 (take_bit 4 n) 1"
    for n :: int by (simp add: concat_bit_def push_bit_eq_mult)
  have d: "take_bit 6 n OR 128 = concat_bit 7 (take_bit 6 n) 1"
    for n :: int by (simp add: concat_bit_def push_bit_eq_mult)
  have c': "int (take_bit 4 n OR 64) = int (n mod 16 + 64)"
    using c [of "int n"] by (simp add: of_nat_or_eq of_nat_take_bit concat_bit_eq push_bit_eq_mult)
      (simp add: take_bit_eq_mod zmod_int)
  have d': "int (take_bit 6 n OR 128) = int (n mod 64 + 128)"
    using d [of "int n"] by (simp add: of_nat_or_eq of_nat_take_bit concat_bit_eq push_bit_eq_mult)
      (simp add: take_bit_eq_mod zmod_int)
  have A: "(n AND 15) OR 64 = n mod 16 + 64" and B: "(n AND 63) OR 128 = n mod 64 + 128"
    using c' d' a b by simp_all
  show "((n AND 15) OR 64) div 16 = 4" "((n AND 15) OR 64) mod 16 = n mod 16"
    "((n AND 15) OR 64) < 256"
    unfolding A using mod_mult_self1 [of "n mod 16" 4 16] by simp_all
  show "((n AND 63) OR 128) < 256" unfolding B by simp
  show "((n AND 63) OR 128) mod 16 = n mod 16"
    unfolding B using mod_mult_self1 [of "n mod 64" 8 16] by (simp add: mod_mod_cancel)
  have "n mod 64 div 16 < 4" by simp
  then show "\<exists>k<4. ((n AND 63) OR 128) div 16 = 8 + k"
    unfolding B by (intro exI [of _ "n mod 64 div 16"]) simp
qed

text \<open>A generated UUID is valid, and carries the version nibble 4 and an RFC 4122 variant.\<close>

lemma uuid_v4_valid:
  assumes "length r = 16" shows "uuid_valid (Some (uuid_v4 r))"
  using assms by (simp add: uuid_v4_def Let_def uuid_from_bytes_valid)

text \<open>
  Whatever random bytes the system delivers, the generated identifier is a valid UUID of
  version 4 with the RFC 4122 variant.
\<close>

theorem uuid_v4_shape:
  assumes "length r = 16"
  shows "uuid_valid (Some (uuid_v4 r)) \<and> uuid_v4 r ! 14 = CHR ''4'' \<and>
    uuid_v4 r ! 19 \<in> set ''89ab''"
proof -
  let ?b6 = "char_of ((byte (r ! 6) AND 15) OR 64)" and ?b8 = "char_of ((byte (r ! 8) AND 63) OR 128)"
  have v4: "uuid_v4 r = uuid_from_bytes (r[6 := ?b6, 8 := ?b8])"
    by (simp add: uuid_v4_def Let_def)
  have "uuid_v4 r ! 14 = hexd ! (byte ?b6 div 16)" and "uuid_v4 r ! 19 = hexd ! (byte ?b8 div 16)"
    unfolding v4 using assms
    by (simp_all add: uuid_from_bytes_def dash_before_def hex_pair_eq upt_rec numeral_2_eq_2 [symmetric])
  moreover obtain k where "k < 4" "byte ?b8 div 16 = 8 + k"
    using bits_of_byte(3) [of "byte (r ! 8)"] bits_of_byte(6) [of "byte (r ! 8)"] by auto
  moreover have "byte ?b6 div 16 = 4"
    using bits_of_byte(1,5) [of "byte (r ! 6)"] by simp
  moreover have "hexd ! (8 + k) \<in> set ''89ab''" if "k < 4" for k
  proof -
    have "k = 0 \<or> k = 1 \<or> k = 2 \<or> k = 3" using that by auto
    then show ?thesis by (auto simp: hexd_def)
  qed
  ultimately show ?thesis
    using assms uuid_from_bytes_valid [of "r[6 := ?b6, 8 := ?b8]"] by (simp add: v4 hexd_def)
qed

theorem uuid_v4_shape_witness:
  "uuid_valid (Some (uuid_v4 ''0123456789abcdef'')) \<and> uuid_v4 ''0123456789abcdef'' ! 14 = CHR ''4'' \<and>
    uuid_v4 ''0123456789abcdef'' ! 19 \<in> set ''89ab''"
  by (rule uuid_v4_shape) simp

end
