(* ===== verification/Clock_Time.thy ===== *)
theory Clock_Time
  imports Prelude "HOL-Library.Signed_Division"
begin

text \<open>
  \<^verbatim>\<open>src/time.c\<close>: the injectable clock, the civil calendar, RFC 3339 timestamps and
  ISO 8601 durations.  64-bit arithmetic never overflows on the values that reach it (a
  timestamp divided by 86400, four-digit years, twelve-digit duration numbers), so times
  are \<^typ>\<open>int\<close>; C's truncating division of signed values is \<open>sdiv\<close> and \<open>smod\<close>.  The
  calendar functions are proved to be inverse to each other on all dates.
\<close>

section \<open>Clock\<close>

text \<open>A clock is a pair of optional callbacks; a missing one means the system's own.\<close>

record clock =
  clk_now :: "int option"
  clk_mono :: "int option"

definition clock_now :: "int \<Rightarrow> clock option \<Rightarrow> int" where
  "clock_now os_now clk =
     (case clk of None \<Rightarrow> os_now
      | Some c \<Rightarrow> (case clk_now c of None \<Rightarrow> os_now | Some t \<Rightarrow> t))"

definition clock_mono_ms :: "int \<Rightarrow> clock option \<Rightarrow> int" where
  "clock_mono_ms os_mono clk =
     (case clk of None \<Rightarrow> os_mono
      | Some c \<Rightarrow> (case clk_mono c of None \<Rightarrow> os_mono | Some t \<Rightarrow> t))"

section \<open>Civil calendar\<close>

definition days_from_civil :: "int \<Rightarrow> int \<Rightarrow> int \<Rightarrow> int" where
  "days_from_civil y0 m d =
     (let y = y0 - (if m \<le> 2 then 1 else 0);
          era = (if 0 \<le> y then y else y - 399) sdiv 400;
          yoe = y - era * 400;
          doy = (153 * (m + (if 2 < m then -3 else 9)) + 2) sdiv 5 + d - 1;
          doe = yoe * 365 + yoe div 4 - yoe div 100 + doy
      in era * 146097 + doe - 719468)"

definition civil_from_days :: "int \<Rightarrow> int \<times> int \<times> int" where
  "civil_from_days z0 =
     (let z = z0 + 719468;
          era = (if 0 \<le> z then z else z - 146096) sdiv 146097;
          doe = z - era * 146097;
          yoe = (doe - doe div 1460 + doe div 36524 - doe div 146096) div 365;
          y = yoe + era * 400;
          doy = doe - (365 * yoe + yoe div 4 - yoe div 100);
          mp = (5 * doy + 2) div 153;
          d = doy - (153 * mp + 2) div 5 + 1;
          m = (if mp < 10 then mp + 3 else mp - 9)
      in (y + (if m \<le> 2 then 1 else 0), m, d))"

definition is_leap :: "int \<Rightarrow> bool" where
  "is_leap y \<longleftrightarrow> (y smod 4 = 0 \<and> y smod 100 \<noteq> 0) \<or> y smod 400 = 0"

definition days_in_month :: "int \<Rightarrow> int \<Rightarrow> int" where
  "days_in_month y m =
     (if m = 2 \<and> is_leap y then 29
      else [31, 28, 31, 30, 31, 30, 31, 31, 30, 31, 30, 31] ! nat (m - 1))"

definition valid_date :: "int \<Rightarrow> int \<Rightarrow> int \<Rightarrow> bool" where
  "valid_date y m d \<longleftrightarrow> 1 \<le> m \<and> m \<le> 12 \<and> 1 \<le> d \<and> d \<le> days_in_month y m"

text \<open>Truncating division and remainder, in terms of the flooring ones.\<close>

lemma sdiv_pos: "0 \<le> a \<Longrightarrow> 0 < b \<Longrightarrow> a sdiv b = a div (b::int)"
  by (cases "a = 0") (auto simp: signed_divide_int_def)

lemma sdiv_neg: "a < 0 \<Longrightarrow> 0 < b \<Longrightarrow> a sdiv b = - ((- a) div (b::int))"
  by (simp add: signed_divide_int_def)

lemma div_remainder: "0 \<le> x \<Longrightarrow> x < b \<Longrightarrow> (x + b * k) div b = (k::int)"
  by (simp add: div_pos_pos_trivial)

lemma era_floor: "0 < b \<Longrightarrow> (if 0 \<le> y then y else y - (b - 1)) sdiv b = y div (b::int)"
proof (cases "0 \<le> y")
  case False
  assume b: "0 < b"
  have "(y - (b - 1)) sdiv b = - ((- y + (b - 1)) div b)" using False b by (subst sdiv_neg) auto
  also have "(- y + (b - 1)) div b = - (y div b)"
  proof -
    have "y = b * (y div b) + y mod b" by simp
    then have e: "- y + (b - 1) = (b - 1 - y mod b) + b * (- (y div b))" by (simp add: algebra_simps)
    have "0 \<le> b - 1 - y mod b" "b - 1 - y mod b < b"
      using b pos_mod_bound [OF b, of y] pos_mod_sign [OF b, of y] by linarith+
    then show ?thesis unfolding e by (rule div_remainder)
  qed
  finally show ?thesis using False by simp
qed (simp add: sdiv_pos)

lemma smod_zero: "0 < b \<Longrightarrow> y smod b = 0 \<longleftrightarrow> y mod b = (0::int)"
  by (auto simp: smod_int_alt_def sgn_if mod_eq_0_iff_dvd)

text \<open>Days before year \<open>k\<close> of an era (March-based years), and the two facts about the 400 years
  that the round trip needs: how long each year is, and that the divisions in
  \<^verbatim>\<open>civil_from_days\<close> recover the year from any of its days.\<close>

definition year_start :: "int \<Rightarrow> int" where
  "year_start k = k * 365 + k div 4 - k div 100"

definition year_quot :: "int \<Rightarrow> int" where
  "year_quot d = d - d div 1460 + d div 36524"

lemma year_table:
  assumes "0 \<le> k" "k < 400"
  shows "365 * k \<le> year_quot (year_start k)"
    and "year_quot (year_start (k + 1) - 1) < 365 * (k + 1)"
    and "year_start (k + 1) = year_start k + (if (k + 1) mod 4 = 0 \<and> (k + 1) mod 100 \<noteq> 0 then 366 else 365)"
proof -
  let ?P = "\<lambda>k. 365 * k \<le> year_quot (year_start k) \<and>
      year_quot (year_start (k + 1) - 1) < 365 * (k + 1) \<and>
      year_start (k + 1) = year_start k + (if (k + 1) mod 4 = 0 \<and> (k + 1) mod 100 \<noteq> 0 then 366 else 365)"
  have "list_all ?P [0..399]" by code_simp
  moreover have "k \<in> set [0..399]" using assms by simp
  ultimately have "?P k" unfolding list_all_iff by (rule bspec)
  then show "365 * k \<le> year_quot (year_start k)"
    and "year_quot (year_start (k + 1) - 1) < 365 * (k + 1)"
    and "year_start (k + 1) = year_start k + (if (k + 1) mod 4 = 0 \<and> (k + 1) mod 100 \<noteq> 0 then 366 else 365)"
    by blast+
qed

lemma year_quot_mono: "a \<le> b \<Longrightarrow> year_quot a \<le> year_quot b"
proof -
  assume le: "a \<le> b"
  have "b div 1460 \<le> (a + (b - a) * 1460) div 1460"
    by (rule zdiv_mono1) (use le in auto)
  then have "b div 1460 \<le> a div 1460 + (b - a)" by simp
  moreover have "a div 36524 \<le> b div 36524" using le by (rule zdiv_mono1) simp
  ultimately show ?thesis by (simp add: year_quot_def)
qed

definition year_length :: "int \<Rightarrow> int" where
  "year_length k = (if k = 399 then 366 else year_start (k + 1) - year_start k)"

lemma year_length_le: "0 \<le> k \<Longrightarrow> k < 400 \<Longrightarrow> 365 \<le> year_length k \<and> year_length k \<le> 366"
  using year_table(3) [of k] by (auto simp: year_length_def)

lemma year_start_400: "year_start 400 = 146096"
  by (simp add: year_start_def)

lemma era_day_bound:
  assumes "0 \<le> k" "k < 400" "0 \<le> doy" "doy < year_length k"
  shows "0 \<le> year_start k + doy \<and> year_start k + doy < 146097"
proof -
  have "year_start k + doy < (if k = 399 then 146097 else year_start (k + 1))"
    using assms by (auto simp: year_length_def year_start_def)
  moreover have "year_start j \<le> 146096" if "j \<le> 400" for j
  proof -
    have "j div 4 \<le> 100" "j * 364 \<le> 364 * 400" using that by auto
    have "j - j div 100 \<le> 396"
    proof -
      have "400 div 100 \<le> j div 100 + (400 - j)"
      proof -
        have "400 div 100 \<le> (j + (400 - j) * 100) div (100::int)"
          by (rule zdiv_mono1) (use that in auto)
        then show ?thesis by simp
      qed
      then show ?thesis by simp
    qed
    then show ?thesis using \<open>j div 4 \<le> 100\<close> \<open>j * 364 \<le> 364 * 400\<close> by (simp add: year_start_def)
  qed
  ultimately show ?thesis using assms
    by (auto simp: year_start_def split: if_splits)
qed

lemma year_of_day:
  assumes k: "0 \<le> k" "k < 400" and d: "0 \<le> doy" "doy < year_length k"
  defines "doe \<equiv> year_start k + doy"
  shows "(doe - doe div 1460 + doe div 36524 - doe div 146096) div 365 = k"
proof (cases "doe = 146096")
  case True
  have "k = 399"
  proof (rule ccontr)
    assume "k \<noteq> 399"
    then have "doe < year_start (k + 1)" using d by (simp add: doe_def year_length_def)
    moreover have "0 \<le> year_start (k + 1) + 0 \<and> year_start (k + 1) + 0 < 146097"
      using k \<open>k \<noteq> 399\<close> year_length_le [of "k + 1"] by (intro era_day_bound) auto
    ultimately show False using True by simp
  qed
  then show ?thesis unfolding True by simp
next
  case False
  then have b: "0 \<le> doe" "doe < 146096" using era_day_bound [OF k d] by (auto simp: doe_def)
  have "365 * k \<le> year_quot doe"
    using year_table(1) [OF k] year_quot_mono [of "year_start k" doe] d by (simp add: doe_def)
  moreover have "doe \<le> year_start (k + 1) - 1"
    using d False b year_start_400 by (cases "k = 399") (auto simp: doe_def year_length_def)
  then have "year_quot doe < 365 * (k + 1)"
    using year_table(2) [OF k] year_quot_mono by fastforce
  moreover have "doe div 146096 = 0" using b by (simp add: div_pos_pos_trivial)
  moreover have "year_quot doe div 365 = k" if "365 * k \<le> year_quot doe" "year_quot doe < 365 * (k + 1)"
  proof -
    have "year_quot doe = (year_quot doe - 365 * k) + 365 * k" by simp
    moreover have "((year_quot doe - 365 * k) + 365 * k) div 365 = k"
      by (rule div_remainder) (use that in auto)
    ultimately show ?thesis by simp
  qed
  ultimately show ?thesis by (simp add: year_quot_def)
qed

text \<open>Days before month \<open>mp\<close> of a March-based year, and the inverse.\<close>

definition month_start :: "int \<Rightarrow> int" where
  "month_start mp = (153 * mp + 2) div 5"

definition month_length :: "int \<Rightarrow> int \<Rightarrow> int" where
  "month_length len mp = (if mp = 11 then len - 337 else month_start (mp + 1) - month_start mp)"

lemma month_cases:
  assumes "0 \<le> mp" "mp < (12::int)"
  obtains "mp = 0" | "mp = 1" | "mp = 2" | "mp = 3" | "mp = 4" | "mp = 5" | "mp = 6" | "mp = 7"
    | "mp = 8" | "mp = 9" | "mp = 10" | "mp = 11"
proof -
  have "mp \<in> {0, 1, 2, 3, 4, 5, 6, 7, 8, 9, 10, 11}" using assms by simp presburger
  then show thesis using that by blast
qed

lemma month_of_day:
  assumes "0 \<le> mp" "mp < 12" "1 \<le> d" "d \<le> month_length len mp" "365 \<le> len" "len \<le> 366"
  shows "(5 * (month_start mp + d - 1) + 2) div 153 = mp"
    and "0 \<le> month_start mp + d - 1" and "month_start mp + d - 1 < len"
proof -
  have "(5 * (month_start mp + d - 1) + 2) div 153 = mp \<and> 0 \<le> month_start mp + d - 1 \<and>
    month_start mp + d - 1 < len"
    by (rule month_cases [OF assms(1,2)]) (use assms in \<open>auto simp: month_length_def month_start_def\<close>)
  then show "(5 * (month_start mp + d - 1) + 2) div 153 = mp"
    and "0 \<le> month_start mp + d - 1" and "month_start mp + d - 1 < len" by blast+
qed

lemma day_of_month:
  assumes "0 \<le> doy" "doy < len" "len \<le> 366"
  shows "\<exists>mp d. 0 \<le> mp \<and> mp < 12 \<and> 1 \<le> d \<and> d \<le> month_length len mp \<and> doy = month_start mp + d - 1"
proof -
  have starts: "month_start 0 = 0" "month_start 1 = 31" "month_start 2 = 61" "month_start 3 = 92"
    "month_start 4 = 122" "month_start 5 = 153" "month_start 6 = 184" "month_start 7 = 214"
    "month_start 8 = 245" "month_start 9 = 275" "month_start 10 = 306" "month_start 11 = 337"
    by (simp_all add: month_start_def)
  have pick: ?thesis if "month_start mp \<le> doy" "doy < (if mp = 11 then len else month_start (mp + 1))"
    "0 \<le> mp" "mp < 12" for mp
    using that starts
    by (intro exI [of _ mp] exI [of _ "doy - month_start mp + 1"])
      (auto simp: month_length_def split: if_splits)
  consider "doy < 31" | "31 \<le> doy" "doy < 61" | "61 \<le> doy" "doy < 92" | "92 \<le> doy" "doy < 122"
    | "122 \<le> doy" "doy < 153" | "153 \<le> doy" "doy < 184" | "184 \<le> doy" "doy < 214"
    | "214 \<le> doy" "doy < 245" | "245 \<le> doy" "doy < 275" | "275 \<le> doy" "doy < 306"
    | "306 \<le> doy" "doy < 337" | "337 \<le> doy" by linarith
  then show ?thesis
    by cases (use assms starts pick [of 0] pick [of 1] pick [of 2] pick [of 3] pick [of 4] pick [of 5]
      pick [of 6] pick [of 7] pick [of 8] pick [of 9] pick [of 10] pick [of 11] in simp_all)
qed

text \<open>Any day number is an era, a year of the era, a March-based month and a day of it.\<close>

definition civil_parts :: "int \<Rightarrow> int \<Rightarrow> int \<Rightarrow> int \<Rightarrow> int" where
  "civil_parts era k mp d = era * 146097 + (year_start k + (month_start mp + d - 1)) - 719468"

definition parts_ok :: "int \<Rightarrow> int \<Rightarrow> int \<Rightarrow> bool" where
  "parts_ok k mp d \<longleftrightarrow> 0 \<le> k \<and> k < 400 \<and> 0 \<le> mp \<and> mp < 12 \<and> 1 \<le> d \<and> d \<le> month_length (year_length k) mp"

definition parts_month :: "int \<Rightarrow> int" where
  "parts_month mp = (if mp < 10 then mp + 3 else mp - 9)"

lemma civil_from_parts:
  assumes "parts_ok k mp d"
  shows "civil_from_days (civil_parts era k mp d) =
    (k + era * 400 + (if parts_month mp \<le> 2 then 1 else 0), parts_month mp, d)"
proof -
  let ?doy = "month_start mp + d - 1" and ?z = "civil_parts era k mp d + 719468"
  have k: "0 \<le> k" "k < 400" using assms by (simp_all add: parts_ok_def)
  have len: "365 \<le> year_length k" "year_length k \<le> 366" using year_length_le [OF k] by simp_all
  have m: "(5 * ?doy + 2) div 153 = mp" "0 \<le> ?doy" "?doy < year_length k"
    using month_of_day [of mp d "year_length k"] assms len by (simp_all add: parts_ok_def)
  have z: "?z = (year_start k + ?doy) + 146097 * era" by (simp add: civil_parts_def)
  have "?z div 146097 = era" unfolding z
    by (rule div_remainder) (use era_day_bound [OF k m(2,3)] in auto)
  moreover have "(if 0 \<le> ?z then ?z else ?z - 146096) sdiv 146097 = ?z div 146097"
  proof -
    have "(146096::int) = 146097 - 1" by simp
    then show ?thesis by (simp only:) (rule era_floor, simp)
  qed
  ultimately have era: "(if 0 \<le> ?z then ?z else ?z - 146096) sdiv 146097 = era" by simp
  have doe: "?z - era * 146097 = year_start k + ?doy" by (simp add: z)
  note yoe = year_of_day [OF k m(2,3)]
  have doy: "(year_start k + ?doy) - (365 * k + k div 4 - k div 100) = ?doy"
    by (simp add: year_start_def)
  show ?thesis
    unfolding civil_from_days_def Let_def era doe yoe doy m
    by (simp add: parts_month_def month_start_def)
qed

lemma year_exists:
  assumes "0 \<le> doe" "doe < 146097"
  shows "\<exists>k doy. 0 \<le> k \<and> k < 400 \<and> 0 \<le> doy \<and> doy < year_length k \<and> doe = year_start k + doy"
proof -
  have below: "\<exists>k. 0 \<le> k \<and> k < int j \<and> year_start k \<le> doe \<and> doe < year_start (k + 1)"
    if "doe < year_start (int j)" for j
    using that
  proof (induction j)
    case 0
    then show ?case using assms by (simp add: year_start_def)
  next
    case (Suc j)
    show ?case
    proof (cases "doe < year_start (int j)")
      case True
      with Suc.IH show ?thesis by fastforce
    next
      case False
      with Suc.prems show ?thesis by (intro exI [of _ "int j"]) (simp add: add.commute)
    qed
  qed
  show ?thesis
  proof (cases "doe = 146096")
    case True
    then show ?thesis
      by (intro exI [of _ 399] exI [of _ 365]) (simp add: year_length_def year_start_def)
  next
    case False
    then have "doe < year_start (int 400)" using assms year_start_400 by simp
    then obtain k where k: "0 \<le> k" "k < 400" "year_start k \<le> doe" "doe < year_start (k + 1)"
      using below by fastforce
    moreover have "doe - year_start k < year_length k"
      using k False assms year_start_400 by (auto simp: year_length_def year_start_def)
    ultimately show ?thesis
      by (intro exI [of _ k] exI [of _ "doe - year_start k"]) simp
  qed
qed

lemma parts_exist: "\<exists>era k mp d. parts_ok k mp d \<and> civil_parts era k mp d = z"
proof -
  define doe era where "doe = (z + 719468) mod 146097" and "era = (z + 719468) div 146097"
  have z: "z = era * 146097 + doe - 719468" by (simp add: doe_def era_def)
  have "0 \<le> doe" "doe < 146097" by (simp_all add: doe_def)
  then obtain k doy where k: "0 \<le> k" "k < 400" "0 \<le> doy" "doy < year_length k" "doe = year_start k + doy"
    using year_exists by blast
  then obtain mp d where "0 \<le> mp" "mp < 12" "1 \<le> d" "d \<le> month_length (year_length k) mp"
    "doy = month_start mp + d - 1"
    using day_of_month [of doy "year_length k"] year_length_le by blast
  with k z show ?thesis
    by (intro exI [of _ era] exI [of _ k] exI [of _ mp] exI [of _ d])
      (simp add: parts_ok_def civil_parts_def)
qed

lemma year_length_leap:
  assumes "0 \<le> k" "k < 400"
  shows "year_length k = (if is_leap (k + era * 400 + 1) then 366 else 365)"
proof -
  let ?y = "k + era * 400 + 1"
  have r: "?y mod 400 = (k + 1) mod 400"
  proof -
    have "?y = (k + 1) + era * 400" by simp
    then show ?thesis by (simp only: mod_mult_self1)
  qed
  have "?y mod 4 = ?y mod 400 mod 4" "?y mod 100 = ?y mod 400 mod 100"
    by (simp_all add: mod_mod_cancel)
  then have leap: "is_leap ?y \<longleftrightarrow> ((k + 1) mod 400 mod 4 = 0 \<and> (k + 1) mod 400 mod 100 \<noteq> 0) \<or> (k + 1) mod 400 = 0"
    unfolding is_leap_def r by (simp add: smod_zero r)
  show ?thesis
  proof (cases "k = 399")
    case True
    then show ?thesis using leap by (simp add: year_length_def)
  next
    case False
    then have "(k + 1) mod 400 = k + 1" using assms by simp
    moreover have "k + 1 \<noteq> 0" using assms by simp
    ultimately show ?thesis using leap year_table(3) [OF assms] False by (auto simp: year_length_def)
  qed
qed

text \<open>A civil date and the parts of its day number.\<close>

lemma date_of_parts:
  fixes era :: int
  assumes "0 \<le> k" "k < 400" "0 \<le> mp" "mp < 12"
    and y_def: "y = k + era * 400 + (if parts_month mp \<le> 2 then 1 else 0)"
  shows "days_in_month y (parts_month mp) = month_length (year_length k) mp"
    and "days_from_civil y (parts_month mp) d = civil_parts era k mp d"
    and "1 \<le> parts_month mp \<and> parts_month mp \<le> 12"
proof -
  have leap: "mp = 11 \<Longrightarrow> is_leap y \<longleftrightarrow> year_length k = 366"
    using year_length_leap [OF assms(1,2), of era] by (simp add: y_def parts_month_def)
  have len: "year_length k = 366 \<or> year_length k = 365"
    using year_length_le [OF assms(1,2)] by linarith
  show "days_in_month y (parts_month mp) = month_length (year_length k) mp"
    by (rule month_cases [OF assms(3,4)])
      (use leap len in \<open>auto simp: days_in_month_def parts_month_def month_length_def month_start_def\<close>)
  show "1 \<le> parts_month mp \<and> parts_month mp \<le> 12"
    using assms(3,4) by (auto simp: parts_month_def)
  let ?y' = "y - (if parts_month mp \<le> 2 then 1 else 0)"
  have y': "?y' = k + 400 * era" by (simp add: y_def)
  have "(if 0 \<le> ?y' then ?y' else ?y' - 399) sdiv 400 = ?y' div 400"
  proof -
    have "(399::int) = 400 - 1" by simp
    then show ?thesis by (simp only:) (rule era_floor, simp)
  qed
  also have "\<dots> = era" unfolding y' by (rule div_remainder) (use assms in auto)
  finally have era: "(if 0 \<le> ?y' then ?y' else ?y' - 399) sdiv 400 = era" .
  have mp: "parts_month mp + (if 2 < parts_month mp then -3 else 9) = mp"
    using assms(3,4) by (auto simp: parts_month_def)
  have "(153 * mp + 2) sdiv 5 = month_start mp"
    using assms(3) by (simp add: sdiv_pos month_start_def)
  moreover have "?y' - era * 400 = k" using y' by simp
  ultimately show "days_from_civil y (parts_month mp) d = civil_parts era k mp d"
    unfolding days_from_civil_def Let_def era mp
    by (simp add: civil_parts_def year_start_def)
qed

lemma valid_date_parts:
  assumes "valid_date y m d"
  obtains era k mp where "parts_ok k mp d" "m = parts_month mp"
    "y = k + era * 400 + (if parts_month mp \<le> 2 then 1 else 0)"
proof -
  define y' where "y' = y - (if m \<le> 2 then 1 else 0)"
  define mp where "mp = (if 2 < m then m - 3 else m + 9)"
  have m: "1 \<le> m" "m \<le> 12" using assms by (simp_all add: valid_date_def)
  then have mp: "0 \<le> mp" "mp < 12" "m = parts_month mp" by (auto simp: mp_def parts_month_def)
  have k: "0 \<le> y' mod 400" "y' mod 400 < 400" by simp_all
  have y: "y = y' mod 400 + y' div 400 * 400 + (if parts_month mp \<le> 2 then 1 else 0)"
    using mp(3) by (simp add: y'_def)
  have "parts_ok (y' mod 400) mp d"
    using assms date_of_parts(1) [OF k mp(1,2) y] mp k
    by (simp add: parts_ok_def valid_date_def y [symmetric])
  then show thesis using mp(3) y by (rule that)
qed

text \<open>
  Converting a calendar date to a day number and back is the identity on every valid date,
  before and after 1970, leap years and centuries included.
\<close>

theorem civil_round_trip:
  assumes "valid_date y m d" shows "civil_from_days (days_from_civil y m d) = (y, m, d)"
proof (rule valid_date_parts [OF assms])
  fix era k mp
  assume p: "parts_ok k mp d" "m = parts_month mp"
    "y = k + era * 400 + (if parts_month mp \<le> 2 then 1 else 0)"
  then have "days_from_civil y m d = civil_parts era k mp d"
    using date_of_parts(2) [of k mp y era d] by (simp add: parts_ok_def)
  then show ?thesis using civil_from_parts [OF p(1), of era] p by simp
qed

theorem civil_round_trip_witness: "civil_from_days (days_from_civil 2000 2 29) = (2000, 2, 29)"
  by (rule civil_round_trip) code_simp

lemma civil_from_days_inverse:
  "case civil_from_days z of (y, m, d) \<Rightarrow> valid_date y m d \<and> days_from_civil y m d = z"
proof -
  obtain era k mp d where p: "parts_ok k mp d" "civil_parts era k mp d = z"
    using parts_exist by blast
  have k: "0 \<le> k" "k < 400" "0 \<le> mp" "mp < 12" using p(1) by (simp_all add: parts_ok_def)
  show ?thesis
    using civil_from_parts [OF p(1), of era] date_of_parts(1,2) [OF k refl, where era = era] date_of_parts(3) [OF k refl] p
    by (simp add: parts_ok_def valid_date_def)
qed

end
