(* ===== verification/Timestamps.thy ===== *)
theory Timestamps
  imports Clock_Time "HOL-Library.Monad_Syntax"
begin

text \<open>
  The text side of \<^verbatim>\<open>src/time.c\<close>: RFC 3339 timestamps and ISO 8601 durations.  A cursor
  into a NUL-terminated string is the list of bytes from it on, and \<open>c_at p k\<close> what the
  code reads at \<^verbatim>\<open>p[k]\<close>.
\<close>

section \<open>RFC 3339\<close>

fun parse_digits :: "string \<Rightarrow> nat \<Rightarrow> int \<Rightarrow> int option" where
  "parse_digits p 0 v = Some v"
| "parse_digits [] (Suc n) v = None"
| "parse_digits (c # p) (Suc n) v =
     (if is_digit c then parse_digits p n (v * 10 + int (digit_val c)) else None)"

text \<open>The zone suffix at the cursor: the offset to add and the cursor after it.\<close>

definition parse_zone :: "string \<Rightarrow> (int \<times> string) option" where
  "parse_zone p =
     (let sign = c_at p 0 in
      if sign = CHR ''Z'' \<or> sign = CHR ''z'' then Some (0, drop 1 p)
      else if sign = CHR ''+'' \<or> sign = CHR ''-'' then
        do {
          offh \<leftarrow> parse_digits (drop 1 p) 2 0;
          require (c_at (drop 1 p) 2 = CHR '':'');
          offm \<leftarrow> parse_digits (drop 4 p) 2 0;
          require (\<not> (23 < offh \<or> 59 < offm));
          Some (if sign = CHR ''+'' then - (offh * 3600 + offm * 60) else offh * 3600 + offm * 60, drop 6 p)
        }
      else None)"

definition time_parse_rfc3339 :: "string option \<Rightarrow> int option" where
  "time_parse_rfc3339 text =
     do {
       s \<leftarrow> text;
       y \<leftarrow> parse_digits s 4 0;
       require (c_at s 4 = CHR ''-'');
       mo \<leftarrow> parse_digits (drop 5 s) 2 0;
       require (c_at s 7 = CHR ''-'');
       d \<leftarrow> parse_digits (drop 8 s) 2 0;
       require (c_at s 10 = CHR ''T'' \<or> c_at s 10 = CHR ''t'');
       h \<leftarrow> parse_digits (drop 11 s) 2 0;
       require (c_at s 13 = CHR '':'');
       mi \<leftarrow> parse_digits (drop 14 s) 2 0;
       require (c_at s 16 = CHR '':'');
       se \<leftarrow> parse_digits (drop 17 s) 2 0;
       let p = drop 19 s;
       require (c_at p 0 = CHR ''.'' \<longrightarrow> is_digit (c_at p 1));
       let p' = (if c_at p 0 = CHR ''.'' then dropWhile is_digit (drop 1 p) else p);
       (off, rest) \<leftarrow> parse_zone p';
       require (c_at rest 0 = NUL);
       require (\<not> (mo < 1 \<or> 12 < mo));
       require (\<not> (d < 1 \<or> days_in_month y mo < d));
       require (\<not> (23 < h \<or> 59 < mi \<or> 60 < se));
       Some (days_from_civil y mo d * 86400 + h * 3600 + mi * 60 + se + off)
     }"

definition two_digits :: "int \<Rightarrow> string" where
  "two_digits n = [digit_char (nat (n div 10)), digit_char (nat (n mod 10))]"

definition time_format_rfc3339 :: "int \<Rightarrow> string" where
  "time_format_rfc3339 t =
     (let days = t sdiv 86400;
          sod = t smod 86400;
          sod' = (if sod < 0 then sod + 86400 else sod);
          days' = (if sod < 0 then days - 1 else days)
      in case civil_from_days days' of (y, m, d) \<Rightarrow>
        let h = sod' div 3600; mi = sod' div 60 mod 60; se = sod' mod 60;
            uy = (if y < 0 then 0 else if 9999 < y then 9999 else y)
        in [digit_char (nat (uy div 1000 mod 10)), digit_char (nat (uy div 100 mod 10)),
            digit_char (nat (uy div 10 mod 10)), digit_char (nat (uy mod 10)), CHR ''-''] @
           two_digits m @ ''-'' @ two_digits d @ ''T'' @ two_digits h @ '':'' @ two_digits mi @
           '':'' @ two_digits se @ ''Z'')"

lemma floor_day:
  "(if t smod 86400 < 0 then t smod 86400 + 86400 else t smod 86400) = t mod 86400"
  "(if t smod 86400 < 0 then t sdiv 86400 - 1 else t sdiv 86400) = t div (86400::int)"
proof -
  have *: "t smod 86400 = (if 0 \<le> t then t mod 86400 else - ((- t) mod 86400))"
    by (auto simp: smod_int_alt_def sgn_if)
  have **: "t sdiv 86400 = (if 0 \<le> t then t div 86400 else - ((- t) div 86400))"
    by (auto simp: signed_divide_int_def sgn_if)
  show "(if t smod 86400 < 0 then t smod 86400 + 86400 else t smod 86400) = t mod 86400"
    unfolding * by (auto simp: zmod_zminus1_eq_if not_less dest: pos_mod_sign [of 86400 t])
  show "(if t smod 86400 < 0 then t sdiv 86400 - 1 else t sdiv 86400) = t div (86400::int)"
    unfolding * ** by (auto simp: zdiv_zminus1_eq_if zmod_zminus1_eq_if not_less)
qed

text \<open>The year RFC 3339 can print without clamping.\<close>

definition rfc_year :: "int \<Rightarrow> int" where
  "rfc_year t = fst (civil_from_days (t div 86400))"

lemma digit_int: "0 \<le> k \<Longrightarrow> k < 10 \<Longrightarrow> is_digit (digit_char (nat k)) \<and> int (digit_val (digit_char (nat k))) = k"
  by (simp add: nat_less_iff)

lemma parse_two_digits:
  assumes "0 \<le> n" "n < 100" shows "parse_digits (two_digits n @ r) 2 0 = Some n"
proof -
  have "0 \<le> n div 10" "n div 10 < 10" using assms by (simp_all add: div_int_pos_iff)
  then show ?thesis
    using digit_int [of "n div 10"] digit_int [of "n mod 10"]
    by (simp add: two_digits_def numeral_2_eq_2)
qed

lemma length_two_digits [simp]: "length (two_digits n) = 2"
  by (simp add: two_digits_def)

definition year_text :: "int \<Rightarrow> string" where
  "year_text y = [digit_char (nat (y div 1000 mod 10)), digit_char (nat (y div 100 mod 10)),
     digit_char (nat (y div 10 mod 10)), digit_char (nat (y mod 10))]"

lemma parse_year:
  assumes "0 \<le> y" "y \<le> 9999" shows "parse_digits (year_text y @ r) 4 0 = Some y"
proof -
  have four: "(4::nat) = Suc (Suc (Suc (Suc 0)))" by simp
  define a b c where "a = y div 10" and "b = a div 10" and "c = b div 10"
  have divs: "y div 100 = b" "y div 1000 = c" "y div 10 = a"
    by (simp_all add: a_def b_def c_def zdiv_zmult2_eq [symmetric])
  have eqs: "a * 10 + y mod 10 = y" "b * 10 + a mod 10 = a" "c * 10 + b mod 10 = b"
    by (simp_all add: a_def b_def c_def)
  have c: "0 \<le> c" "c < 10" using assms by (simp_all add: a_def b_def c_def div_int_pos_iff)
  then have "c mod 10 = c" by simp
  moreover have "0 \<le> z mod 10 \<and> z mod 10 < 10" for z :: int by simp
  ultimately show ?thesis
    using digit_int [of "c"] digit_int [of "b mod 10"] digit_int [of "a mod 10"] digit_int [of "y mod 10"] c
    by (simp only: year_text_def divs four parse_digits.simps append_Cons append_Nil if_True eqs mult_zero_left
        add_0_left)
qed

lemma time_format_parse:
  assumes "0 \<le> rfc_year t" "rfc_year t \<le> 9999"
  shows "time_parse_rfc3339 (Some (time_format_rfc3339 t)) = Some t"
proof -
  obtain y m d where ymd: "civil_from_days (t div 86400) = (y, m, d)" by (cases "civil_from_days (t div 86400)") auto
  have date: "valid_date y m d" "days_from_civil y m d = t div 86400"
    using civil_from_days_inverse [of "t div 86400"] ymd by simp_all
  have y: "0 \<le> y" "y \<le> 9999" using assms ymd by (simp_all add: rfc_year_def)
  define s where "s = t mod 86400"
  define h mi se where "h = s div 3600" and "mi = s div 60 mod 60" and "se = s mod 60"
  have s: "0 \<le> s" "s < 86400" by (simp_all add: s_def)
  have h: "0 \<le> h" "h \<le> 23" using s by (simp_all add: h_def div_int_pos_iff)
  have mi: "0 \<le> mi" "mi \<le> 59" "0 \<le> se" "se \<le> 59" by (simp_all add: mi_def se_def) 
  have sum: "h * 3600 + mi * 60 + se = s"
  proof -
    define q where "q = s div 60"
    have "h = q div 60" by (simp add: h_def q_def zdiv_zmult2_eq [symmetric])
    then have "h * 60 + mi = q" by (simp add: mi_def q_def [symmetric])
    moreover have "q * 60 + se = s" by (simp add: q_def se_def)
    ultimately show ?thesis by simp
  qed
  have dm: "1 \<le> m" "m \<le> 12" "1 \<le> d" "d \<le> days_in_month y m" using date(1) by (simp_all add: valid_date_def)
  have d31: "d \<le> 31"
  proof -
    have "m \<in> {1, 2, 3, 4, 5, 6, 7, 8, 9, 10, 11, 12}" using dm(1,2) by simp presburger
    then have "days_in_month y m \<le> 31" by (auto simp: days_in_month_def)
    with dm show ?thesis by simp
  qed
  have fmt: "time_format_rfc3339 t = year_text y @ ''-'' @ two_digits m @ ''-'' @ two_digits d @ ''T'' @
    two_digits h @ '':'' @ two_digits mi @ '':'' @ two_digits se @ ''Z''"
    unfolding time_format_rfc3339_def Let_def floor_day ymd
    using y by (simp add: year_text_def h_def mi_def se_def s_def)
  have len: "length (year_text y) = 4" by (simp add: year_text_def)
  have total: "t div 86400 * 86400 + (h * 3600 + (mi * 60 + se)) = t"
    using sum unfolding s_def by (simp only: add.assoc [symmetric]) simp
  show ?thesis
    unfolding fmt time_parse_rfc3339_def
    using y dm d31 h mi date(2)
    by (simp add: len parse_year parse_two_digits c_at_def nth_append parse_zone_def Let_def total add.assoc)
qed

text \<open>
  Every time whose calendar year RFC 3339 can print (0 to 9999) is read back unchanged from
  its formatted text: formatter and parser agree on the calendar, on the day boundary of times
  before 1970 and on the \<^verbatim>\<open>Z\<close> zone.
\<close>

theorem time_round_trip:
  assumes "0 \<le> rfc_year t" "rfc_year t \<le> 9999"
  shows "time_parse_rfc3339 (Some (time_format_rfc3339 t)) = Some t"
  using assms by (rule time_format_parse)

theorem time_round_trip_witness:
  "time_parse_rfc3339 (Some (time_format_rfc3339 (- 86401))) = Some (- 86401)"
  by (rule time_round_trip; code_simp)

section \<open>ISO 8601 durations\<close>

text \<open>A component of a duration: 1 to 12 digits, not followed by a decimal fraction.  The
  result is the value and the cursor after the digits.\<close>

fun dur_digits :: "string \<Rightarrow> nat \<Rightarrow> int \<Rightarrow> (int \<times> nat \<times> string) option" where
  "dur_digits [] nd v = Some (v, nd, [])"
| "dur_digits (c # p) nd v =
     (if is_digit c then
        (if 12 \<le> nd then None else dur_digits p (nd + 1) (v * 10 + int (digit_val c)))
      else Some (v, nd, c # p))"

definition dur_number :: "string \<Rightarrow> (int \<times> string) option" where
  "dur_number p =
     do {
       (v, nd, q) \<leftarrow> dur_digits p 0 0;
       require (nd \<noteq> 0);
       require (\<not> (c_at q 0 = CHR ''.'' \<or> c_at q 0 = CHR '',''));
       Some (v, q)
     }"

lemma dur_digits_length: "dur_digits p nd v = Some (w, nd', q) \<Longrightarrow> length q + nd' = length p + nd"
  by (induction p nd v rule: dur_digits.induct) (auto split: if_splits)

lemma dur_number_shorter: "dur_number p = Some (v, q) \<Longrightarrow> length q < length p"
  using dur_digits_length [of p 0 0]
  by (auto simp: dur_number_def split: Option.bind_splits if_splits)

text \<open>The time part: hours before minutes before seconds, each at most once.\<close>

function dur_stages :: "string \<Rightarrow> nat \<Rightarrow> int \<Rightarrow> int option" where
  "dur_stages p stage acc =
     (if c_at p 0 = NUL then Some acc
      else case dur_number p of
        None \<Rightarrow> None
      | Some (v, q) \<Rightarrow>
          let u = c_at q 0; q' = drop 1 q in
          if u = CHR ''H'' \<and> stage < 1 then dur_stages q' 1 (acc + v * 3600)
          else if u = CHR ''M'' \<and> stage < 2 then dur_stages q' 2 (acc + v * 60)
          else if u = CHR ''S'' \<and> stage < 3 then dur_stages q' 3 (acc + v)
          else None)"
  by auto
termination
  by (relation "measure (\<lambda>(p, _, _). length p)") (auto dest!: dur_number_shorter)

declare dur_stages.simps [simp del]

definition duration_time :: "string \<Rightarrow> int \<Rightarrow> int option" where
  "duration_time p acc =
     do {
       require (c_at p 0 = CHR ''T'');
       require (c_at (drop 1 p) 0 \<noteq> NUL);
       dur_stages (drop 1 p) 0 acc
     }"

definition asngn_duration_parse :: "string option \<Rightarrow> int option" where
  "asngn_duration_parse text =
     do {
       s \<leftarrow> text;
       require (c_at s 0 = CHR ''P'');
       let p = drop 1 s;
       require (c_at p 0 \<noteq> NUL);
       if c_at p 0 \<noteq> CHR ''T'' then
         do {
           (v, q) \<leftarrow> dur_number p;
           if c_at q 0 = CHR ''W'' then
             do { require (c_at (drop 1 q) 0 = NUL); Some (v * 604800) }
           else
             do {
               require (c_at q 0 = CHR ''D'');
               let r = drop 1 q;
               if c_at r 0 = NUL then Some (v * 86400) else duration_time r (v * 86400)
             }
         }
       else duration_time p 0
     }"

lemma dur_digits_bounds:
  assumes "dur_digits p nd v = Some (w, nd', q)" "0 \<le> v" "v < 10 ^ nd" "nd \<le> 12"
  shows "0 \<le> w \<and> w < 10 ^ 12"
  using assms
proof (induction p nd v arbitrary: w nd' q rule: dur_digits.induct)
  case (1 nd v)
  have "(10::int) ^ nd \<le> 10 ^ 12" by (rule power_increasing) (use 1 in simp_all)
  with 1 show ?case by auto
next
  case (2 c p nd v)
  show ?case
  proof (cases "is_digit c")
    case True
    with 2 have nd: "\<not> 12 \<le> nd" by (auto split: if_splits)
    have "digit_val c < 10" using True by (auto simp: digit_val_def bytes)
    with 2 have "v * 10 + int (digit_val c) < 10 ^ (nd + 1)" by simp
    with 2 True nd show ?thesis by simp
  next
    case False
    have "(10::int) ^ nd \<le> 10 ^ 12" by (rule power_increasing) (use 2 in simp_all)
    with 2 False show ?thesis by auto
  qed
qed

lemma dur_number_bounds: "dur_number p = Some (v, q) \<Longrightarrow> 0 \<le> v \<and> v < 1000000000000"
  using dur_digits_bounds [of p 0 0]
  by (fastforce simp: dur_number_def split: Option.bind_splits if_splits)

lemma dur_stages_bounds:
  assumes "dur_stages p stage acc = Some r" "0 \<le> acc" "stage \<le> 3"
  shows "acc \<le> r \<and> r \<le> acc + (if stage < 1 then 3661 else if stage < 2 then 61 else if stage < 3 then 1 else 0) * 1000000000000"
  using assms
proof (induction p stage acc arbitrary: r rule: dur_stages.induct)
  case (1 p stage acc)
  show ?case
  proof (cases "c_at p 0 = NUL")
    case True
    with 1 show ?thesis by (simp add: dur_stages.simps [of p])
  next
    case False
    with "1.prems" obtain v q where n: "dur_number p = Some (v, q)"
      by (auto simp: dur_stages.simps [of p] split: option.splits)
    note b = dur_number_bounds [OF n]
    from "1.prems" False n consider
        (H) "c_at q 0 = CHR ''H''" "stage < 1" "dur_stages (drop 1 q) 1 (acc + v * 3600) = Some r"
      | (M) "c_at q 0 = CHR ''M''" "stage < 2" "dur_stages (drop 1 q) 2 (acc + v * 60) = Some r"
      | (S) "c_at q 0 = CHR ''S''" "stage < 3" "dur_stages (drop 1 q) 3 (acc + v) = Some r"
      by (auto simp: dur_stages.simps [of p] Let_def split: if_splits)
    then show ?thesis
    proof cases
      case H
      then show ?thesis using "1.IH"(1) [OF False n refl refl refl] b "1.prems" by fastforce
    next
      case M
      then show ?thesis using "1.IH"(2) [OF False n refl refl refl] b "1.prems" by fastforce
    next
      case S
      then show ?thesis using "1.IH"(3) [OF False n refl refl refl] b "1.prems" by fastforce
    qed
  qed
qed

text \<open>The durations of the format, their length in seconds and their text.\<close>

datatype duration = Weeks nat | Parts "nat option" "nat option" "nat option" "nat option"

definition amount :: "nat option \<Rightarrow> int" where
  "amount x = (case x of None \<Rightarrow> 0 | Some n \<Rightarrow> int n)"

definition component_text :: "nat option \<Rightarrow> char \<Rightarrow> string" where
  "component_text x u = (case x of None \<Rightarrow> [] | Some n \<Rightarrow> decimal n @ [u])"

fun duration_seconds :: "duration \<Rightarrow> int" where
  "duration_seconds (Weeks n) = int n * 604800"
| "duration_seconds (Parts d h m s) = amount d * 86400 + amount h * 3600 + amount m * 60 + amount s"

fun duration_text :: "duration \<Rightarrow> string" where
  "duration_text (Weeks n) = ''P'' @ decimal n @ ''W''"
| "duration_text (Parts d h m s) =
     ''P'' @ component_text d (CHR ''D'') @
     (if h = None \<and> m = None \<and> s = None then []
      else ''T'' @ component_text h (CHR ''H'') @ component_text m (CHR ''M'') @ component_text s (CHR ''S''))"

definition short_amount :: "nat option \<Rightarrow> bool" where
  "short_amount x = (case x of None \<Rightarrow> True | Some n \<Rightarrow> n < 10 ^ 12)"

fun duration_ok :: "duration \<Rightarrow> bool" where
  "duration_ok (Weeks n) = (n < 10 ^ 12)"
| "duration_ok (Parts d h m s) =
     (short_amount d \<and> short_amount h \<and> short_amount m \<and> short_amount s \<and>
      \<not> (d = None \<and> h = None \<and> m = None \<and> s = None))"

lemma dur_digits_run:
  "list_all is_digit ds \<Longrightarrow> nd + length ds \<le> 12 \<Longrightarrow> \<not> is_digit (c_at q 0) \<Longrightarrow>
   dur_digits (ds @ q) nd v = Some (foldl (\<lambda>v c. v * 10 + int (digit_val c)) v ds, nd + length ds, q)"
proof (induction ds arbitrary: nd v)
  case Nil
  then show ?case by (cases q) simp_all
qed simp

lemma foldl_digits_int:
  "foldl (\<lambda>v c. v * 10 + int (digit_val c)) (int k) ds = int (foldl (\<lambda>v c. v * 10 + digit_val c) k ds)"
proof (induction ds arbitrary: k)
  case (Cons c ds)
  have "int k * 10 + int (digit_val c) = int (k * 10 + digit_val c)" by simp
  with Cons show ?case by (simp only: foldl_Cons)
qed simp

lemma dur_number_decimal:
  assumes "n < 10 ^ 12" "c \<in> {CHR ''W'', CHR ''D'', CHR ''H'', CHR ''M'', CHR ''S''}"
  shows "dur_number (decimal n @ c # q) = Some (int n, c # q)"
proof -
  have "\<not> is_digit c" using assms(2) by (auto simp: bytes)
  moreover have "length (decimal n) \<le> 12" using decimal_length [of n 12] assms(1) by simp
  ultimately have "dur_digits (decimal n @ c # q) 0 0 = Some (int n, length (decimal n), c # q)"
    using dur_digits_run [of "decimal n" 0 "c # q" 0] decimal_digits [of n] foldl_digits_int [of 0 "decimal n"]
      decimal_value [of n] by (simp add: digits_value_def)
  then show ?thesis using assms(2) by (auto simp: dur_number_def)
qed

lemma decimal_hd_ne: "\<not> is_digit u \<Longrightarrow> c_at (decimal n @ q) 0 \<noteq> u"
  using decimal_hd [of n] by (cases "decimal n") auto

lemma dur_stages_component:
  assumes "short_amount x" "stage < k"
    and "(u, k, f) \<in> {(CHR ''H'', 1, 3600), (CHR ''M'', 2, 60), (CHR ''S'', 3, 1)}"
    and "x \<noteq> None"
  shows "dur_stages (component_text x u @ q) stage acc = dur_stages q k (acc + amount x * f)"
proof -
  obtain n where x: "x = Some n" using assms(4) by auto
  have "c_at (decimal n @ u # q) 0 \<noteq> NUL" by (rule decimal_hd_ne) (simp add: bytes)
  moreover have "dur_number (decimal n @ u # q) = Some (int n, u # q)"
    by (rule dur_number_decimal) (use assms x in \<open>auto simp: short_amount_def\<close>)
  ultimately show ?thesis using assms x
    by (auto simp: component_text_def amount_def dur_stages.simps [of "decimal n @ u # q"])
qed

lemma component_None [simp]: "component_text None u = []" "amount None = 0"
  by (simp_all add: component_text_def amount_def)

lemma dur_stages_done [simp]: "dur_stages [] stage acc = Some acc"
  by (simp add: dur_stages.simps)

lemma dur_stages_times:
  assumes "short_amount h" "short_amount m" "short_amount s"
  shows "dur_stages (component_text h (CHR ''H'') @ component_text m (CHR ''M'') @ component_text s (CHR ''S'')) 0 acc =
    Some (acc + amount h * 3600 + amount m * 60 + amount s)"
proof -
  have S: "dur_stages (component_text s (CHR ''S'')) st a = Some (a + amount s)" if "st < 3" for st a
    using dur_stages_component [of s st 3 "CHR ''S''" 1 "[]" a] assms(3) that by (cases "s = None") simp_all
  have M: "dur_stages (component_text m (CHR ''M'') @ component_text s (CHR ''S'')) st a = Some (a + amount m * 60 + amount s)"
    if "st < 2" for st a
    using dur_stages_component [of m st 2 "CHR ''M''" 60 _ a] assms(2) that by (cases "m = None") (simp_all add: S)
  show ?thesis
    using dur_stages_component [of h 0 1 "CHR ''H''" 3600 _ acc] assms(1) by (cases "h = None") (simp_all add: M)
qed

text \<open>
  The ISO 8601 parser computes the length in seconds of every duration of the accepted
  format: weeks alone, or days and a time part with hours, minutes and seconds in that order,
  each at most 12 digits and at least one present.
\<close>

theorem duration_round_trip:
  assumes "duration_ok d"
  shows "asngn_duration_parse (Some (duration_text d)) = Some (duration_seconds d)"
proof (cases d)
  case (Weeks n)
  then show ?thesis
    using assms decimal_hd_ne [of "CHR ''T''" n "''W''"] decimal_hd_ne [of NUL n "''W''"]
    by (simp add: asngn_duration_parse_def dur_number_decimal bytes)
next
  case (Parts dd h m s)
  define T where "T = component_text h (CHR ''H'') @ component_text m (CHR ''M'') @ component_text s (CHR ''S'')"
  have ne: "c_at T 0 \<noteq> NUL" if "\<not> (h = None \<and> m = None \<and> s = None)"
    using that by (auto simp: T_def component_text_def decimal_hd_ne bytes split: option.splits)
  have time: "duration_time (CHR ''T'' # T) a = Some (a + amount h * 3600 + amount m * 60 + amount s)"
    if "\<not> (h = None \<and> m = None \<and> s = None)" for a
    using ne [OF that] dur_stages_times [of h m s a] assms Parts by (simp add: duration_time_def T_def)
  show ?thesis
  proof (cases dd)
    case None
    then show ?thesis using Parts assms time [of 0] by (auto simp: asngn_duration_parse_def T_def)
  next
    case (Some n)
    have "c_at (decimal n @ q) 0 \<noteq> CHR ''T''" "c_at (decimal n @ q) 0 \<noteq> NUL" for q
      by (rule decimal_hd_ne; simp add: bytes)+
    moreover have "n < 10 ^ 12" using assms Parts Some by (simp add: short_amount_def)
    ultimately show ?thesis using Parts Some assms time [of "int n * 86400"]
      by (auto simp: asngn_duration_parse_def dur_number_decimal T_def component_text_def amount_def Let_def)
  qed
qed

theorem duration_round_trip_witness:
  "asngn_duration_parse (Some ''P1DT2H5S'') = Some 93605"
proof -
  have "duration_text (Parts (Some 1) (Some 2) None (Some 5)) = ''P1DT2H5S''" by code_simp
  then show ?thesis
    using duration_round_trip [of "Parts (Some 1) (Some 2) None (Some 5)"]
    by (simp add: short_amount_def amount_def)
qed

text \<open>
  Whatever text the duration parser accepts, the result is non-negative and fits the
  64-bit seconds it is stored in: the 12-digit limit on each component rules out overflow.
\<close>

theorem duration_bounds:
  assumes "asngn_duration_parse text = Some v"
  shows "0 \<le> v \<and> v < 2 ^ 63"
proof -
  have time: "0 \<le> r \<and> r \<le> a + 3661000000000000" if "duration_time p a = Some r" "0 \<le> a" for p a r
    using dur_stages_bounds [of "drop 1 p" 0 a r] that by (auto simp: duration_time_def split: if_splits)
  show ?thesis
    using assms
    by (auto simp: asngn_duration_parse_def Let_def split: Option.bind_splits if_splits
        dest!: dur_number_bounds time)
qed

theorem duration_bounds_witness: "(0::int) \<le> 604800 \<and> (604800::int) < 2 ^ 63"
proof -
  have "asngn_duration_parse (Some ''P1W'') = Some 604800" by code_simp
  then show ?thesis by (rule duration_bounds)
qed

end
