(* ===== verification/Streams.thy ===== *)
theory Streams
  imports Util
begin

text \<open>
  The append streams of \<^verbatim>\<open>src/stream.c\<close>: appending a line with rollback of a failed write,
  loading with the torn-tail rule, and the atomic replacement of a file.

  A stream holds the contents of the file at its path.  What the operating system does to one
  append is an \<open>io_plan\<close>: which calls fail, and how many of the bytes handed to
  \<^verbatim>\<open>fwrite\<close> reached the file before the failure.  The fields \<open>io_short_fault\<close>,
  \<open>io_flush_fault\<close> and \<open>io_sync_fault\<close> are the answers of the fault hook.  Files are
  a map from paths to contents, and the xCDN parser, which is a library, is an argument of
  \<open>stream_load\<close>.
\<close>

section \<open>Append\<close>

record io_plan =
  io_seek_ok :: bool
  io_short_fault :: bool
  io_write_ok :: bool
  io_newline_ok :: bool
  io_flush_fault :: bool
  io_flush_ok :: bool
  io_landed :: nat
  io_truncate_ok :: bool
  io_reopen_ok :: bool
  io_sync_fault :: bool
  io_sync_ok :: bool

record stream =
  st_path :: string
  st_open :: bool
  st_sync :: bool
  st_file :: string

definition needs_newline :: "string \<Rightarrow> bool" where
  "needs_newline line \<longleftrightarrow> line = [] \<or> last line \<noteq> NL"

definition as_line :: "string \<Rightarrow> string" where
  "as_line line = line @ (if needs_newline line then [NL] else [])"

definition stream_append :: "io_plan \<Rightarrow> stream \<Rightarrow> string \<Rightarrow> stream \<times> asngn_err option" where
  "stream_append io st line =
     (if \<not> st_open st then (st, Some ERR_IO)
      else
        let good = (if io_seek_ok io then Some (length (st_file st)) else None);
            wrote = (\<not> io_short_fault io \<and> (line = [] \<or> io_write_ok io));
            ended = (wrote \<and> (needs_newline line \<longrightarrow> io_newline_ok io));
            ok = (ended \<and> \<not> (io_flush_fault io \<or> \<not> io_flush_ok io));
            handed = (if io_short_fault io then (if 1 < length line then take (length line div 2) line else [])
                      else if \<not> wrote then line else as_line line)
        in
        if \<not> ok then
          let torn = st_file st @ take (io_landed io) handed in
          (case good of
             Some g \<Rightarrow>
               if io_truncate_ok io then (st\<lparr>st_file := take g torn, st_open := io_reopen_ok io\<rparr>, Some ERR_IO)
               else (st\<lparr>st_file := torn, st_open := False\<rparr>, Some ERR_IO)
           | None \<Rightarrow> (st\<lparr>st_file := torn, st_open := False\<rparr>, Some ERR_IO))
        else
          let st' = st\<lparr>st_file := st_file st @ as_line line\<rparr> in
          if st_sync st \<and> (io_sync_fault io \<or> \<not> io_sync_ok io) then (st'\<lparr>st_open := False\<rparr>, Some ERR_IO)
          else (st', None))"

lemma stream_append_ok:
  "stream_append io st line = (st', None) \<Longrightarrow>
     st_open st \<and> st' = st\<lparr>st_file := st_file st @ as_line line\<rparr>"
  by (auto simp: stream_append_def Let_def split: if_splits option.splits)

lemma stream_append_error:
  "stream_append io st line = (st', Some e) \<Longrightarrow>
     e = ERR_IO \<and> st_path st' = st_path st \<and> st_sync st' = st_sync st \<and>
     (st_open st' \<longrightarrow> st_file st' = st_file st)"
  by (auto simp: stream_append_def Let_def split: if_splits option.splits)

lemma stream_append_error_file:
  assumes "stream_append io st line = (st', Some e)"
  shows "\<exists>k. st_file st' = st_file st @ take k (as_line line)"
proof -
  define handed where "handed = (if io_short_fault io then (if 1 < length line then take (length line div 2) line else [])
    else if \<not> (\<not> io_short_fault io \<and> (line = [] \<or> io_write_ok io)) then line else as_line line)"
  have "\<exists>k. take n handed = take k (as_line line)" for n
  proof -
    have "\<exists>k. handed = take k (as_line line)"
    proof (cases "io_short_fault io")
      case True
      then show ?thesis
        by (cases "1 < length line") (auto simp: handed_def as_line_def intro: exI [of _ "length line div 2"] exI [of _ 0])
    next
      case False
      then show ?thesis by (auto simp: handed_def as_line_def intro: exI [of _ "length line"] exI [of _ "Suc (length line)"])
    qed
    then show ?thesis by (metis take_take)
  qed
  moreover have "take k (as_line line) = as_line line" if "length (as_line line) \<le> k" for k using that by simp
  ultimately show ?thesis using assms
    unfolding stream_append_def Let_def handed_def [symmetric]
    by (auto split: if_splits option.splits intro: exI [of _ 0] exI [of _ "length (as_line line)"])
qed

lemma stream_append_closed: "\<not> st_open st \<Longrightarrow> stream_append io st line = (st, Some ERR_IO)"
  by (simp add: stream_append_def)

text \<open>A plan in which every call succeeds.\<close>

definition io_fine :: io_plan where
  "io_fine = \<lparr>io_seek_ok = True, io_short_fault = False, io_write_ok = True, io_newline_ok = True,
     io_flush_fault = False, io_flush_ok = True, io_landed = 0, io_truncate_ok = True,
     io_reopen_ok = True, io_sync_fault = False, io_sync_ok = True\<rparr>"

lemma stream_append_fine:
  "st_open st \<Longrightarrow> stream_append io_fine st line = (st\<lparr>st_file := st_file st @ as_line line\<rparr>, None)"
  by (simp add: stream_append_def io_fine_def)

section \<open>Load with the torn-tail rule\<close>

definition blank_byte :: "char \<Rightarrow> bool" where
  "blank_byte c \<longleftrightarrow> c = SPACE \<or> c = TAB \<or> c = CRET \<or> c = NL"

text \<open>The scan from the end for the last newline that a non-blank remainder follows; the result
  is the offset after it, or 0.\<close>

fun torn_cut_from :: "string \<Rightarrow> nat \<Rightarrow> nat" where
  "torn_cut_from text 0 = 0"
| "torn_cut_from text (Suc i) =
     (if text ! i \<noteq> NL then torn_cut_from text i
      else if \<not> list_all blank_byte (drop (Suc i) text) then Suc i
      else torn_cut_from text i)"

definition torn_cut :: "string \<Rightarrow> nat" where
  "torn_cut text = torn_cut_from text (length text)"

text \<open>Loading a file: the parser's result, and the file as it is left behind.  \<open>empty_doc\<close> is
  the library's new document.\<close>

definition stream_load ::
    "(string \<Rightarrow> 'd option) \<Rightarrow> 'd \<Rightarrow> bool \<Rightarrow> string option \<Rightarrow> string option \<times> 'd option outcome" where
  "stream_load parse empty_doc truncate_ok file =
     (case file of
        None \<Rightarrow> (None, Ok None)
      | Some text \<Rightarrow>
          if text = [] then (file, Ok (Some empty_doc))
          else case parse text of
            Some doc \<Rightarrow> (file, Ok (Some doc))
          | None \<Rightarrow>
              let off = torn_cut text in
              case (if 0 < off then parse (take off text) else Some empty_doc) of
                None \<Rightarrow> (file, Err ERR_PARSE)
              | Some doc \<Rightarrow>
                  if truncate_ok then (Some (take off text), Ok (Some doc)) else (file, Err ERR_IO))"

lemma torn_cut_from_skip:
  "(\<forall>j. n \<le> j \<and> j < n + m \<longrightarrow> text ! j \<noteq> NL) \<Longrightarrow> torn_cut_from text (n + m) = torn_cut_from text n"
  by (induction m) auto

lemma torn_cut_tail:
  assumes "NL \<notin> set tail" "\<not> list_all blank_byte tail" "whole = [] \<or> last whole = NL"
  shows "torn_cut (whole @ tail) = length whole"
proof -
  have "torn_cut_from (whole @ tail) (length whole + length tail) = torn_cut_from (whole @ tail) (length whole)"
    using assms(1) by (intro torn_cut_from_skip) (auto simp: nth_append in_set_conv_nth)
  also have "\<dots> = length whole"
  proof (cases whole rule: rev_cases)
    case (snoc w c)
    then show ?thesis using assms by (simp add: nth_append)
  qed simp
  finally show ?thesis by (simp add: torn_cut_def)
qed

text \<open>What a crash during an append leaves: a prefix of the line.\<close>

definition crash_append :: "string \<Rightarrow> string \<Rightarrow> nat \<Rightarrow> string" where
  "crash_append file line k = file @ take k (as_line line)"

lemma stream_load_torn:
  assumes "parse (whole @ tail) = None" "NL \<notin> set tail" "\<not> list_all blank_byte tail"
    and "last whole = NL" "whole \<noteq> []" "parse whole = Some doc"
  shows "stream_load parse e True (Some (whole @ tail)) = (Some whole, Ok (Some doc))"
  using assms by (auto simp: stream_load_def torn_cut_tail Let_def)

section \<open>Atomic replacement\<close>

type_synonym files = "string \<Rightarrow> string option"

record replace_plan =
  rp_open_ok :: bool
  rp_written :: nat
  rp_write_ok :: bool
  rp_flush_ok :: bool
  rp_sync_ok :: bool
  rp_close_ok :: bool
  rp_rename_ok :: bool
  rp_remove_ok :: bool

definition tmp_path :: "string \<Rightarrow> string" where
  "tmp_path path = path @ ''.tmp''"

text \<open>The states the file system goes through, the last of them first, so that a crash between
  two calls leaves one of the list.\<close>

definition write_atomic_trace :: "replace_plan \<Rightarrow> string \<Rightarrow> string \<Rightarrow> files \<Rightarrow> files list \<times> asngn_err option" where
  "write_atomic_trace rp path data fs =
     (let tmp = tmp_path path in
      if \<not> rp_open_ok rp then ([fs], Some ERR_IO)
      else
        let fs1 = fs(tmp \<mapsto> []);
            wrote = (data = [] \<or> rp_write_ok rp);
            saved = (wrote \<and> rp_flush_ok rp \<and> rp_sync_ok rp \<and> rp_close_ok rp);
            fs2 = fs(tmp \<mapsto> (if saved then data else take (rp_written rp) data))
        in
        if saved \<and> rp_rename_ok rp then ([fs2(path \<mapsto> data, tmp := None), fs2, fs1, fs], None)
        else ([if rp_remove_ok rp then fs2(tmp := None) else fs2, fs2, fs1, fs], Some ERR_IO))"

definition write_atomic :: "replace_plan \<Rightarrow> string \<Rightarrow> string \<Rightarrow> files \<Rightarrow> files \<times> asngn_err option" where
  "write_atomic rp path data fs =
     (case write_atomic_trace rp path data fs of (states, e) \<Rightarrow> (hd states, e))"

lemma tmp_path_ne [simp]: "tmp_path path \<noteq> path" "path \<noteq> tmp_path path"
  by (simp_all add: tmp_path_def)

lemma write_atomic_outcome:
  "write_atomic rp path data fs = (fs', e) \<Longrightarrow>
     fs' path = (if e = None then Some data else fs path) \<and>
     (\<forall>q. q \<noteq> path \<longrightarrow> q \<noteq> tmp_path path \<longrightarrow> fs' q = fs q)"
  by (auto simp: write_atomic_def write_atomic_trace_def Let_def split: if_splits)

text \<open>
  A failed append leaves the stream either closed, so that every later append fails, or with
  the file exactly as it was; a successful one extends the file by the whole line.  A partial
  line is never followed by another one.
\<close>

theorem stream_append_all_or_nothing:
  assumes "stream_append io st line = (st', e)"
  shows "if e = None then st_file st' = st_file st @ as_line line \<and> st_open st'
         else e = Some ERR_IO \<and> (st_open st' \<longrightarrow> st_file st' = st_file st)"
proof (cases e)
  case None
  then show ?thesis using stream_append_ok [of io st line st'] assms by simp
next
  case (Some x)
  then show ?thesis using stream_append_error [of io st line st' x] assms by simp
qed

theorem stream_append_all_or_nothing_witness:
  "stream_append (io_fine\<lparr>io_write_ok := False, io_landed := 3\<rparr>)
     \<lparr>st_path = ''p'', st_open = True, st_sync = True, st_file = ''ab''\<rparr> ''hello'' =
   (\<lparr>st_path = ''p'', st_open = True, st_sync = True, st_file = ''ab''\<rparr>, Some ERR_IO) \<and>
   (if Some ERR_IO = None then st_file \<lparr>st_path = ''p'', st_open = True, st_sync = True, st_file = ''ab''\<rparr> =
      st_file \<lparr>st_path = ''p'', st_open = True, st_sync = True, st_file = ''ab''\<rparr> @ as_line ''hello'' \<and>
      st_open \<lparr>st_path = ''p'', st_open = True, st_sync = True, st_file = ''ab''\<rparr>
    else Some ERR_IO = Some ERR_IO \<and> (st_open \<lparr>st_path = ''p'', st_open = True, st_sync = True, st_file = ''ab''\<rparr> \<longrightarrow>
      st_file \<lparr>st_path = ''p'', st_open = True, st_sync = True, st_file = ''ab''\<rparr> = ''ab''))"
  (is "?app \<and> _")
proof -
  have "?app" by (simp add: stream_append_def io_fine_def)
  then show ?thesis using stream_append_all_or_nothing [OF \<open>?app\<close>] by simp
qed

text \<open>
  A crash in the middle of appending a record is repaired on the next load: when the torn
  file does not parse, the partial last line is cut off and the document of the complete lines
  is returned, with the file truncated to exactly those lines.
\<close>

theorem stream_load_repairs_crash:
  assumes "parse (crash_append file line k) = None" "k \<le> length line" "NL \<notin> set line"
    and "\<not> list_all blank_byte (take k line)"
    and "file \<noteq> []" "last file = NL" "parse file = Some doc"
  shows "stream_load parse e True (Some (crash_append file line k)) = (Some file, Ok (Some doc))"
proof -
  have "take k (as_line line) = take k line" using assms(2) by (simp add: as_line_def)
  moreover have "NL \<notin> set (take k line)" using assms(3) by (meson in_set_takeD)
  ultimately show ?thesis using assms stream_load_torn [where whole = "file" and tail = "take k line"]
    by (simp add: crash_append_def)
qed

theorem stream_load_repairs_crash_witness:
  "stream_load (\<lambda>s. if last s = NL then Some (length s) else None) 0 True (Some (crash_append [CHR ''a'', NL] ''bcd'' 2)) =
     (Some [CHR ''a'', NL], Ok (Some 2))"
  by (rule stream_load_repairs_crash) (simp_all add: crash_append_def as_line_def blank_byte_def)

text \<open>
  Replacing a file is atomic: in every state the file system goes through, also between two
  calls, the path holds either its old contents or all of the new data, and no other path than
  the temporary one changes.
\<close>

theorem write_atomic_crash_safe:
  assumes "fs' \<in> set (fst (write_atomic_trace rp path data fs))"
  shows "(fs' path = fs path \<or> fs' path = Some data) \<and>
    (\<forall>q. q \<noteq> path \<longrightarrow> q \<noteq> tmp_path path \<longrightarrow> fs' q = fs q)"
  using assms by (auto simp: write_atomic_trace_def Let_def split: if_splits)

theorem write_atomic_crash_safe_witness:
  "(\<lambda>q. if q = tmp_path ''f'' then Some ''n'' else if q = ''f'' then Some ''old'' else None) ''f'' = Some ''old''"
proof -
  define rp where "rp = \<lparr>rp_open_ok = True, rp_written = 1, rp_write_ok = False, rp_flush_ok = True,
    rp_sync_ok = True, rp_close_ok = True, rp_rename_ok = True, rp_remove_ok = False\<rparr>"
  let ?fs = "\<lambda>q. if q = ''f'' then Some ''old'' else None :: string option"
  let ?fs' = "?fs(tmp_path ''f'' \<mapsto> ''n'')"
  have "?fs' \<in> set (fst (write_atomic_trace rp ''f'' ''new'' ?fs))"
    by (simp add: write_atomic_trace_def rp_def Let_def)
  from write_atomic_crash_safe [OF this] show ?thesis by (simp add: tmp_path_def)
qed

end
