(* ===== verification/Wal.thy ===== *)
theory Wal
  imports Sha256 Streams
begin

text \<open>
  The write-ahead log of \<^verbatim>\<open>src/wal.c\<close>: versioned, checksummed frames on an append stream,
  and the scan that replays them into a callback.

  A callback is a function on its own state that also returns the code's error, if any.  The
  scan is total: each round of \<open>wal_loop\<close> consumes at least one byte of the file.  Reads are
  taken to succeed and memory to suffice; the calls that repair a torn tail may fail, as a
  \<open>repair_plan\<close> says.
\<close>

section \<open>Frames\<close>

definition WAL_FRAME_MAX :: nat where "WAL_FRAME_MAX = 16 * 1024 * 1024"
definition WAL_LOG_MAX :: nat where "WAL_LOG_MAX = 256 * 1024 * 1024"

definition wal_magic :: string where "wal_magic = ''// asngn-wal-v2 ''"

definition wal_prefix :: "nat \<Rightarrow> string \<Rightarrow> string" where
  "wal_prefix n hash = wal_magic @ decimal n @ '' '' @ hash"

definition wal_header_line :: "string \<Rightarrow> string" where
  "wal_header_line record =
     (let prefix = wal_prefix (length record) (digest_hex record) in prefix @ '' '' @ digest_hex prefix @ [NL])"

definition wal_frame :: "string \<Rightarrow> string" where
  "wal_frame record = wal_header_line record @ record @ [NL]"

definition wal_append :: "bool \<Rightarrow> io_plan \<Rightarrow> stream \<Rightarrow> string \<Rightarrow> stream \<times> asngn_err option" where
  "wal_append size_ok io st record =
     (if record = [] \<or> WAL_FRAME_MAX < length record then (st, Some ERR_LIMIT)
      else if \<not> size_ok then (st, Some ERR_IO)
      else if WAL_LOG_MAX - length record - 256 < length (st_file st) then (st, Some ERR_LIMIT)
      else stream_append io st (wal_frame record))"

section \<open>The scan\<close>

text \<open>\<^verbatim>\<open>fgets\<close> into a buffer of \<open>n\<close> bytes, and whether it stopped at the end of the file.\<close>

definition fgets_line :: "nat \<Rightarrow> string \<Rightarrow> string" where
  "fgets_line n f =
     (let k = take (n - 1) f in if NL \<in> set k then takeWhile (\<lambda>c. c \<noteq> NL) k @ [NL] else k)"

definition fgets_eof :: "nat \<Rightarrow> string \<Rightarrow> bool" where
  "fgets_eof n f \<longleftrightarrow> NL \<notin> set (take (n - 1) f) \<and> length f < n - 1"

text \<open>The checks on a header line: either the frame's length and checksum, or the error (none
  for an incomplete line at the end) and whether the tail is torn.\<close>

definition wal_header :: "nat \<Rightarrow> string \<Rightarrow> bool \<Rightarrow> (asngn_err option \<times> bool) + (nat \<times> string)" where
  "wal_header cap header at_eof =
     (if NL \<notin> set header then (if at_eof then Inl (None, True) else Inl (Some ERR_PARSE, False))
      else if take 16 header \<noteq> wal_magic \<or> \<not> is_digit (c_at header 16) then Inl (Some ERR_PARSE, False)
      else
        let parsed = digits_value (takeWhile is_digit (drop 16 header));
            tail = dropWhile is_digit (drop 16 header) in
        if 2 ^ 64 \<le> parsed \<or> parsed = 0 \<or> WAL_FRAME_MAX < parsed \<or> length tail \<noteq> 131 \<or>
           c_at tail 0 \<noteq> SPACE \<or> c_at tail 65 \<noteq> SPACE \<or> c_at tail 130 \<noteq> NL then Inl (Some ERR_PARSE, False)
        else
          let expected = take 64 (drop 1 tail);
              canonical = take 223 (wal_prefix parsed expected) in
          if take (length canonical) header \<noteq> canonical \<or> c_at header (length canonical) \<noteq> SPACE
            then Inl (Some ERR_PARSE, False)
          else if take 64 (drop 66 tail) \<noteq> digest_hex canonical then Inl (Some ERR_PARSE, False)
          else if cap < parsed then Inl (Some ERR_LIMIT, False)
          else Inr (parsed, expected))"

text \<open>One round of the loop on the rest of the file: it ends with the callback's state, the error
  and whether the tail is torn, or goes on with the callback's new state, the bytes after the
  frame and the number of bytes the frame took.\<close>

definition wal_step ::
    "nat \<Rightarrow> ('s \<Rightarrow> string \<Rightarrow> 's \<times> asngn_err option) \<Rightarrow> string \<Rightarrow> 's \<Rightarrow>
     ('s \<times> asngn_err option \<times> bool) + ('s \<times> string \<times> nat)" where
  "wal_step cap fn f st =
     (let line = fgets_line 224 f; rest = drop (length line) f in
      case wal_header cap (c_str line) (fgets_eof 224 f) of
        Inl (e, torn) \<Rightarrow> Inl (st, e, torn)
      | Inr (n, expected) \<Rightarrow>
          let payload = take n rest in
          if length payload \<noteq> n then Inl (st, None, True)
          else case drop n rest of
            [] \<Rightarrow> Inl (st, None, True)
          | separator # after \<Rightarrow>
              if separator \<noteq> NL then Inl (st, Some ERR_PARSE, False)
              else if expected \<noteq> digest_hex payload \<or> NUL \<in> set payload then Inl (st, Some ERR_PARSE, False)
              else case fn st payload of
                (st', Some e) \<Rightarrow> Inl (st', Some e, False)
              | (st', None) \<Rightarrow> Inr (st', after, length line + n + 1))"

lemma drop_eq_Cons_length: "drop n xs = y # ys \<Longrightarrow> length ys < length xs"
proof -
  assume "drop n xs = y # ys"
  then have "length (drop n xs) = Suc (length ys)" by simp
  then show ?thesis by simp
qed

lemma wal_step_shorter: "wal_step cap fn f st = Inr (st', after, used) \<Longrightarrow> length after < length f"
proof -
  assume "wal_step cap fn f st = Inr (st', after, used)"
  then obtain n m y where "drop n (drop m f) = y # after"
    by (auto simp: wal_step_def Let_def split: sum.splits list.splits prod.splits option.splits if_splits)
  then show ?thesis using drop_eq_Cons_length [of n "drop m f"] by simp
qed

text \<open>The loop over frames: final callback state, error, torn tail, and the offset after the
  last good frame.\<close>

function wal_loop ::
    "nat \<Rightarrow> ('s \<Rightarrow> string \<Rightarrow> 's \<times> asngn_err option) \<Rightarrow> string \<Rightarrow> nat \<Rightarrow> 's \<Rightarrow>
     's \<times> asngn_err option \<times> bool \<times> nat" where
  "wal_loop cap fn f good st =
     (if f = [] then (st, None, False, good)
      else case wal_step cap fn f st of
        Inl (st', e, torn) \<Rightarrow> (st', e, torn, good)
      | Inr (st', after, used) \<Rightarrow> wal_loop cap fn after (good + used) st')"
  by pat_completeness auto
termination
  by (relation "measure (\<lambda>(_, _, f, _, _). length f)") (auto dest: wal_step_shorter)

declare wal_loop.simps [simp del]

record repair_plan =
  rp_truncate_ok :: bool
  rp_reopen_ok :: bool
  rp_fsync_ok :: bool

definition wal_scan ::
    "repair_plan \<Rightarrow> nat \<Rightarrow> ('s \<Rightarrow> string \<Rightarrow> 's \<times> asngn_err option) \<Rightarrow> bool \<Rightarrow> string option \<Rightarrow> 's \<Rightarrow>
     string option \<times> 's \<times> asngn_err option" where
  "wal_scan rp cap fn repair file st =
     (if cap = 0 \<or> WAL_FRAME_MAX < cap then (file, st, Some ERR_INVALID)
      else case file of
        None \<Rightarrow> (None, st, None)
      | Some text \<Rightarrow>
          if WAL_LOG_MAX < length text then (file, st, Some ERR_LIMIT)
          else case wal_loop cap fn text 0 st of
            (st', e, torn, good) \<Rightarrow>
              if e = None \<and> torn \<and> \<not> repair then (file, st', Some ERR_PARSE)
              else if e = None \<and> torn then
                (if \<not> rp_truncate_ok rp then (file, st', Some ERR_IO)
                 else (Some (take good text), st',
                       if rp_reopen_ok rp \<and> rp_fsync_ok rp then None else Some ERR_IO))
              else (file, st', e))"

definition wal_visit where "wal_visit rp cap fn file st = wal_scan rp cap fn True file st"
definition wal_inspect where "wal_inspect rp cap fn file st = wal_scan rp cap fn False file st"

definition repair_fine :: repair_plan where
  "repair_fine = \<lparr>rp_truncate_ok = True, rp_reopen_ok = True, rp_fsync_ok = True\<rparr>"

section \<open>Reading back a frame\<close>

definition wal_record :: "nat \<Rightarrow> string \<Rightarrow> bool" where
  "wal_record cap r \<longleftrightarrow> r \<noteq> [] \<and> length r \<le> cap \<and> cap \<le> WAL_FRAME_MAX \<and> no_nul r"

lemma hex_lower_plain: "hex_lower c \<Longrightarrow> c \<noteq> NL \<and> c \<noteq> NUL \<and> c \<noteq> SPACE"
  by (auto simp: hex_lower_def bytes)

lemma digit_plain: "is_digit c \<Longrightarrow> c \<noteq> NL \<and> c \<noteq> NUL \<and> c \<noteq> SPACE"
  by (auto simp: bytes)

lemma wal_header_plain:
  "NL \<notin> set (wal_prefix n (digest_hex r)) \<and> NUL \<notin> set (wal_prefix n (digest_hex r))"
  using digest_hex_lower [of r] decimal_digits [of n] hex_lower_plain digit_plain
  by (auto simp: wal_prefix_def wal_magic_def list_all_iff)

lemma wal_record_length: "wal_record cap r \<Longrightarrow> length r < 10 ^ 8"
  by (simp add: wal_record_def WAL_FRAME_MAX_def)

lemma wal_prefix_length: "wal_record cap r \<Longrightarrow> length (wal_prefix (length r) (digest_hex r)) \<le> 89"
  using decimal_length [of "length r" 8] wal_record_length [of cap r]
  by (simp add: wal_prefix_def wal_magic_def)

lemma wal_header_line_cases:
  obtains h where "wal_header_line r = h @ [NL]" "NL \<notin> set h" "NUL \<notin> set h"
    "h = wal_prefix (length r) (digest_hex r) @ '' '' @ digest_hex (wal_prefix (length r) (digest_hex r))"
  using wal_header_plain [of "length r" r] digest_hex_lower [of "wal_prefix (length r) (digest_hex r)"]
    hex_lower_plain [of NL] hex_lower_plain [of NUL]
  by (auto simp: wal_header_line_def Let_def list_all_iff intro!: that)

lemma wal_header_line_length: "wal_record cap r \<Longrightarrow> length (wal_header_line r) \<le> 155"
  using wal_prefix_length [of cap r] by (simp add: wal_header_line_def Let_def)

lemma takeWhile_before: "x \<notin> set h \<Longrightarrow> takeWhile (\<lambda>c. c \<noteq> x) (h @ x # r) = h"
  by (induction h) auto

lemma fgets_whole_line:
  assumes "NL \<notin> set h" "length h < 223"
  shows "fgets_line 224 (h @ NL # r) = h @ [NL]"
proof -
  have "take 223 (h @ NL # r) = h @ NL # take (222 - length h) r"
    using assms(2) by (simp add: take_Cons')
  then show ?thesis using assms by (simp add: fgets_line_def takeWhile_before)
qed

lemma fgets_partial_line:
  "NL \<notin> set h \<Longrightarrow> length h < 223 \<Longrightarrow> fgets_line 224 h = h \<and> fgets_eof 224 h"
  by (simp add: fgets_line_def fgets_eof_def)

lemma wal_header_frame:
  assumes "wal_record cap r"
  shows "wal_header cap (wal_header_line r) eof = Inr (length r, digest_hex r)"
proof -
  define d where "d = digest_hex r"
  define p where "p = wal_prefix (length r) d"
  define g where "g = digest_hex p"
  define tail where "tail = '' '' @ d @ '' '' @ g @ [NL]"
  have len: "length d = 64" "length g = 64" by (simp_all add: d_def g_def)
  have line: "wal_header_line r = wal_magic @ decimal (length r) @ tail"
    by (simp add: wal_header_line_def tail_def p_def d_def g_def wal_prefix_def)
  have line2: "wal_header_line r = p @ '' '' @ g @ [NL]"
    by (simp add: wal_header_line_def p_def d_def g_def Let_def)
  have rest: "drop 16 (wal_header_line r) = decimal (length r) @ tail" "take 16 (wal_header_line r) = wal_magic"
    by (simp_all add: line wal_magic_def)
  have nd: "\<not> is_digit (hd tail)" "tail \<noteq> []" by (simp_all add: tail_def bytes)
  have digits: "takeWhile is_digit (decimal (length r) @ tail) = decimal (length r)"
    "dropWhile is_digit (decimal (length r) @ tail) = tail"
    using decimal_digits [of "length r"] nd by (cases tail; simp add: list_all_iff takeWhile_append2 dropWhile_append2)+
  have first: "is_digit (c_at (wal_header_line r) 16)"
    using decimal_hd [of "length r"] by (cases "decimal (length r)") (auto simp: line c_at_def nth_append wal_magic_def)
  have tail: "length tail = 131" "c_at tail 0 = SPACE" "c_at tail 65 = SPACE" "c_at tail 130 = NL"
    "take 64 (drop 1 tail) = d" "take 64 (drop 66 tail) = g"
    using len by (simp_all add: tail_def c_at_def nth_append)
  have canonical: "take 223 (wal_prefix (length r) d) = p"
    using wal_prefix_length [OF assms] by (simp add: p_def d_def)
  have at: "take (length p) (wal_header_line r) = p" "c_at (wal_header_line r) (length p) = SPACE"
    by (simp_all add: line2 c_at_def)
  have nl: "NL \<in> set (wal_header_line r)" by (simp add: line2)
  have bounds: "length r \<noteq> 0" "length r \<le> WAL_FRAME_MAX" "\<not> 2 ^ 64 \<le> length r" "length r \<le> cap"
    using assms by (auto simp: wal_record_def WAL_FRAME_MAX_def)
  show ?thesis
    unfolding wal_header_def rest digits decimal_value Let_def
    using nl first tail bounds canonical at
    by (simp add: g_def d_def [symmetric])
qed

lemma c_str_header: "c_str (wal_header_line r) = wal_header_line r"
  by (rule wal_header_line_cases [of r]) (simp add: no_nul_def)

lemma wal_step_frame:
  assumes "wal_record cap r"
  shows "wal_step cap fn (wal_frame r @ f) st =
    (case fn st r of (st', Some e) \<Rightarrow> Inl (st', Some e, False)
     | (st', None) \<Rightarrow> Inr (st', f, length (wal_frame r)))"
proof -
  obtain h where h: "wal_header_line r = h @ [NL]" "NL \<notin> set h" by (rule wal_header_line_cases)
  have "length h < 223" using wal_header_line_length [OF assms] h by simp
  then have line: "fgets_line 224 (wal_frame r @ f) = wal_header_line r"
    using fgets_whole_line [of h] h by (simp add: wal_frame_def)
  have rest: "drop (length (wal_header_line r)) (wal_frame r @ f) = r @ NL # f"
    by (simp add: wal_frame_def)
  have "NUL \<notin> set r" using assms by (simp add: wal_record_def no_nul_def)
  then show ?thesis
    unfolding wal_step_def Let_def line rest c_str_header wal_header_frame [OF assms]
    by (simp add: wal_frame_def add.assoc split: option.split prod.split)
qed

lemma wal_loop_frame:
  assumes "wal_record cap r"
  shows "wal_loop cap fn (wal_frame r @ f) good st =
    (case fn st r of (st', Some e) \<Rightarrow> (st', Some e, False, good)
     | (st', None) \<Rightarrow> wal_loop cap fn f (good + length (wal_frame r)) st')"
proof -
  have "wal_frame r \<noteq> []" by (simp add: wal_frame_def)
  then show ?thesis
    unfolding wal_loop.simps [of cap fn "wal_frame r @ f"] wal_step_frame [OF assms]
    by (simp split: option.split prod.split)
qed

lemma wal_loop_torn:
  assumes "wal_record cap r" "k < length (wal_frame r)"
  shows "wal_loop cap fn (take k (wal_frame r)) good st = (st, None, k \<noteq> 0, good)"
proof (cases "k = 0")
  case True
  then show ?thesis by (subst wal_loop.simps) simp
next
  case False
  obtain h where h: "wal_header_line r = h @ [NL]" "NL \<notin> set h" "NUL \<notin> set h" by (rule wal_header_line_cases)
  have len: "length h < 223" using wal_header_line_length [OF assms(1)] h by simp
  have "take k (wal_frame r) \<noteq> [] \<and> wal_step cap fn (take k (wal_frame r)) st = Inl (st, None, True)"
  proof (cases "k \<le> length h")
    case True
    then have t: "take k (wal_frame r) = take k h" by (simp add: wal_frame_def h)
    have plain: "NL \<notin> set (take k h)" "NUL \<notin> set (take k h)" using h by (meson in_set_takeD)+
    then have "c_str (take k h) = take k h" by (simp add: no_nul_def)
    moreover have "take k h \<noteq> []" using True False by auto
    ultimately show ?thesis
      using fgets_partial_line [of "take k h"] plain len False
      unfolding t wal_step_def Let_def wal_header_def by simp
  next
    case long: False
    define j where "j = k - Suc (length h)"
    have t: "take k (wal_frame r) = h @ NL # take j (r @ [NL])"
      using long by (simp add: wal_frame_def h j_def take_Cons')
    have j: "j \<le> length r" using assms(2) long by (simp add: wal_frame_def h j_def)
    have line: "fgets_line 224 (h @ NL # take j (r @ [NL])) = wal_header_line r"
      using fgets_whole_line [of h] h len by simp
    have rest: "drop (length (wal_header_line r)) (h @ NL # take j (r @ [NL])) = take j r" using j by (simp add: h)
    show ?thesis
      unfolding t wal_step_def Let_def line rest c_str_header wal_header_frame [OF assms(1)]
      using j by (auto split: list.split)
  qed
  then show ?thesis using False by (simp add: wal_loop.simps [of cap fn "take k (wal_frame r)"])
qed

section \<open>Logs of whole frames\<close>

definition frames :: "string list \<Rightarrow> string" where
  "frames rs = concat (map wal_frame rs)"

lemma frames_simps [simp]: "frames [] = []" "frames (r # rs) = wal_frame r @ frames rs"
  "frames (rs @ ss) = frames rs @ frames ss"
  by (simp_all add: frames_def)

text \<open>Records handed to a callback until it reports an error.\<close>

fun feed :: "('s \<Rightarrow> 'r \<Rightarrow> 's \<times> asngn_err option) \<Rightarrow> 's \<Rightarrow> 'r list \<Rightarrow> 's \<times> asngn_err option" where
  "feed fn st [] = (st, None)"
| "feed fn st (r # rs) = (case fn st r of (st', Some e) \<Rightarrow> (st', Some e) | (st', None) \<Rightarrow> feed fn st' rs)"

definition collect :: "string list \<Rightarrow> string \<Rightarrow> string list \<times> asngn_err option" where
  "collect acc r = (acc @ [r], None)"

lemma feed_collect [simp]: "feed collect acc rs = (acc @ rs, None)"
  by (induction rs arbitrary: acc) (simp_all add: collect_def)

lemma feed_append: "feed fn st (rs @ ss) = (case feed fn st rs of (st', None) \<Rightarrow> feed fn st' ss | e \<Rightarrow> e)"
  by (induction rs arbitrary: st) (auto split: prod.split option.split)

lemma wal_loop_frames:
  "list_all (wal_record cap) rs \<Longrightarrow> feed fn st rs = (st', None) \<Longrightarrow>
   wal_loop cap fn (frames rs @ f) good st = wal_loop cap fn f (good + length (frames rs)) st'"
proof (induction rs arbitrary: good st)
  case (Cons r rs)
  then obtain s1 where "fn st r = (s1, None)" by (auto split: prod.splits option.splits)
  with Cons show ?case by (simp add: wal_loop_frame add.assoc)
qed simp

lemma wal_loop_stops:
  "list_all (wal_record cap) rs \<Longrightarrow> feed fn st rs = (st', Some e) \<Longrightarrow>
   \<exists>good'. wal_loop cap fn (frames rs @ f) good st = (st', Some e, False, good')"
proof (induction rs arbitrary: good st)
  case (Cons r rs)
  then show ?case by (cases "fn st r"; cases "snd (fn st r)") (auto simp: wal_loop_frame)
qed simp

text \<open>How many frames of a log lie within its first \<open>k\<close> bytes.\<close>

fun complete_frames :: "nat \<Rightarrow> string list \<Rightarrow> nat" where
  "complete_frames k [] = 0"
| "complete_frames k (r # rs) =
     (if length (wal_frame r) \<le> k then Suc (complete_frames (k - length (wal_frame r)) rs) else 0)"

lemma complete_frames_le: "complete_frames k rs \<le> length rs"
  by (induction k rs rule: complete_frames.induct) simp_all

lemma take_frames:
  "\<exists>m. take k (frames rs) = frames (take (complete_frames k rs) rs) @
      (if complete_frames k rs < length rs then take m (wal_frame (rs ! complete_frames k rs)) else []) \<and>
      (complete_frames k rs < length rs \<longrightarrow> m < length (wal_frame (rs ! complete_frames k rs)))"
proof (induction k rs rule: complete_frames.induct)
  case (2 k r rs)
  show ?case
  proof (cases "length (wal_frame r) \<le> k")
    case True
    with "2.IH" obtain m where m: "take (k - length (wal_frame r)) (frames rs) =
        frames (take (complete_frames (k - length (wal_frame r)) rs) rs) @
        (if complete_frames (k - length (wal_frame r)) rs < length rs
         then take m (wal_frame (rs ! complete_frames (k - length (wal_frame r)) rs)) else [])"
      "complete_frames (k - length (wal_frame r)) rs < length rs \<longrightarrow>
        m < length (wal_frame (rs ! complete_frames (k - length (wal_frame r)) rs))"
      by blast
    have "take k (frames (r # rs)) = wal_frame r @ take (k - length (wal_frame r)) (frames rs)" using True by simp
    then show ?thesis unfolding m(1) using True m(2) by (intro exI [of _ m]) simp
  next
    case False
    then show ?thesis by (auto intro!: exI [of _ k])
  qed
qed simp

lemma wal_loop_prefix:
  fixes k :: nat and rs :: "string list"
  defines "j \<equiv> complete_frames k rs"
  assumes "list_all (wal_record cap) rs" and "snd (feed fn st (take j rs)) = None"
  shows "\<exists>torn. wal_loop cap fn (take k (frames rs)) 0 st =
    (fst (feed fn st (take j rs)), None, torn, length (frames (take j rs))) \<and>
    (\<not> torn \<longrightarrow> take k (frames rs) = frames (take j rs))"
proof -
  obtain m where m: "take k (frames rs) = frames (take j rs) @ (if j < length rs then take m (wal_frame (rs ! j)) else [])"
    "j < length rs \<longrightarrow> m < length (wal_frame (rs ! j))"
    using take_frames [of k rs] unfolding j_def by blast
  have "list_all (wal_record cap) (take j rs)" using assms(2) by (auto simp: list_all_iff dest: in_set_takeD)
  moreover obtain st' where st': "feed fn st (take j rs) = (st', None)" using assms(3) by (cases "feed fn st (take j rs)") simp
  ultimately have loop: "wal_loop cap fn (frames (take j rs) @ f) 0 st = wal_loop cap fn f (length (frames (take j rs))) st'" for f
    using wal_loop_frames [of cap "take j rs" fn st st' f 0] by simp
  show ?thesis
  proof (cases "j < length rs")
    case True
    then have "wal_record cap (rs ! j)" using assms(2) by (simp add: list_all_length)
    with True m st' loop show ?thesis by (simp add: wal_loop_torn)
  next
    case False
    with m st' loop [of "[]"] show ?thesis
      by (intro exI [of _ False]) (simp add: wal_loop.simps [of cap fn "[]"])
  qed
qed

lemma length_take_frames: "length (frames (take (complete_frames k rs) rs)) \<le> k"
  by (induction k rs rule: complete_frames.induct) auto

lemma take_complete_frames:
  "take (length (frames (take j rs))) (frames rs) = frames (take j rs)"
  using append_take_drop_id [of j rs] by (metis append_eq_conv_conj frames_simps(3))

section \<open>Appending to a log that reads cleanly\<close>

lemma fgets_line_mono: "NL \<in> set (fgets_line n f) \<Longrightarrow> fgets_line n (f @ g) = fgets_line n f"
proof -
  assume "NL \<in> set (fgets_line n f)"
  then have "NL \<in> set (take (n - 1) f)" by (auto simp: fgets_line_def Let_def split: if_splits)
  moreover from this have "takeWhile (\<lambda>c. c \<noteq> NL) (take (n - 1) f @ h) = takeWhile (\<lambda>c. c \<noteq> NL) (take (n - 1) f)" for h
    by (simp add: takeWhile_append1)
  ultimately show ?thesis by (simp add: fgets_line_def Let_def)
qed

lemma length_fgets_line: "length (fgets_line n f) \<le> length f"
proof (cases "NL \<in> set (take (n - 1) f)")
  case True
  then obtain a b where ab: "take (n - 1) f = a @ NL # b" "NL \<notin> set a" by (meson split_list_first)
  then have "length (a @ NL # b) \<le> length f" by (metis length_take min.cobounded1)
  with ab show ?thesis by (simp add: fgets_line_def takeWhile_before)
qed (simp add: fgets_line_def)

lemma c_str_subset: "x \<in> set (c_str s) \<Longrightarrow> x \<in> set s"
  by (auto simp: c_str_def dest: set_takeWhileD)

lemma wal_header_Inr: "wal_header cap h eof = Inr v \<Longrightarrow> NL \<in> set h \<and> wal_header cap h eof' = Inr v"
  unfolding wal_header_def Let_def by (cases "NL \<in> set h") (simp_all only: split: if_split_asm, simp_all)

lemma wal_header_end: "wal_header cap h eof = Inl (None, t) \<Longrightarrow> t"
  unfolding wal_header_def Let_def by (simp_all only: split: if_split_asm, simp_all)

lemma wal_step_end: "wal_step cap fn f st = Inl (s, None, t) \<Longrightarrow> t"
  using wal_header_end
  by (fastforce simp: wal_step_def Let_def split: sum.splits if_splits list.splits option.splits prod.splits)

lemma wal_step_append:
  assumes "wal_step cap fn f st = Inr (st', after, used)"
  shows "wal_step cap fn (f @ g) st = Inr (st', after @ g, used) \<and> length f = used + length after"
proof -
  define line where "line = fgets_line 224 f"
  define rest where "rest = drop (length line) f"
  obtain n x where hd: "wal_header cap (c_str line) (fgets_eof 224 f) = Inr (n, x)"
    using assms by (auto simp: wal_step_def Let_def line_def split: sum.splits)
  from wal_header_Inr [OF hd] have nl: "NL \<in> set line" and hd': "\<And>e. wal_header cap (c_str line) e = Inr (n, x)"
    using c_str_subset wal_header_Inr by blast+
  have line': "fgets_line 224 (f @ g) = line" using nl fgets_line_mono unfolding line_def by blast
  have len: "length line \<le> length f" unfolding line_def by (rule length_fgets_line)
  then have rest': "drop (length line) (f @ g) = rest @ g" by (simp add: rest_def)
  have step: "wal_step cap fn f st =
     (if length (take n rest) \<noteq> n then Inl (st, None, True)
          else case drop n rest of
            [] \<Rightarrow> Inl (st, None, True)
          | separator # after \<Rightarrow>
              if separator \<noteq> NL then Inl (st, Some ERR_PARSE, False)
              else if x \<noteq> digest_hex (take n rest) \<or> NUL \<in> set (take n rest) then Inl (st, Some ERR_PARSE, False)
              else case fn st (take n rest) of
                (st', Some e) \<Rightarrow> Inl (st', Some e, False)
              | (st', None) \<Rightarrow> Inr (st', after, length line + n + 1))"
    unfolding wal_step_def Let_def line_def [symmetric] rest_def [symmetric] hd by simp
  from assms step have n: "length (take n rest) = n" by (auto split: if_splits)
  from assms step n obtain c where d: "drop n rest = c # after" and used: "used = length line + n + 1"
    by (auto split: if_splits list.splits option.splits prod.splits)
  have "length rest = n + Suc (length after)"
    using n d by (metis append_take_drop_id length_append length_Cons)
  moreover have "length f = length line + length rest" using len by (simp add: rest_def)
  moreover have "take n (rest @ g) = take n rest" "drop n (rest @ g) = c # after @ g" using n d by simp_all
  then have "wal_step cap fn (f @ g) st = Inr (st', after @ g, used)"
    unfolding wal_step_def Let_def line' rest' hd'
    using assms step n d by (simp split: if_splits option.splits prod.splits)
  ultimately show ?thesis using used by simp
qed

lemma wal_loop_append:
  assumes "wal_loop cap fn f good st = (st', None, False, good')"
  shows "wal_loop cap fn (f @ g) good st = wal_loop cap fn g (good + length f) st' \<and> good' = good + length f"
  using assms
proof (induction cap fn f good st rule: wal_loop.induct)
  case (1 cap fn f good st)
  show ?case
  proof (cases "f = []")
    case True
    with "1.prems" show ?thesis by (simp add: wal_loop.simps [of cap fn "[]"])
  next
    case False
    show ?thesis
    proof (cases "wal_step cap fn f st")
      case (Inl a)
      obtain s e t where a: "a = (s, e, t)" by (cases a) auto
      have "e = None" "\<not> t" using "1.prems" False Inl a by (auto simp: wal_loop.simps [of cap fn f])
      moreover have "e = None \<longrightarrow> t" using wal_step_end [of cap fn f st s t] Inl a by auto
      ultimately show ?thesis by simp
    next
      case (Inr a)
      obtain s after used where a: "a = (s, after, used)" by (cases a) auto
      note app = wal_step_append [OF Inr [unfolded a], of g]
      have loop: "wal_loop cap fn after (good + used) s = (st', None, False, good')"
        using "1.prems" False Inr a by (simp add: wal_loop.simps [of cap fn f])
      from "1.IH" [OF False Inr a [symmetric] refl loop] show ?thesis
        using False app by (simp add: wal_loop.simps [of cap fn "f @ g"] add.assoc)
    qed
  qed
qed

text \<open>A file cut after its last good frame is scanned cleanly, to the same result.\<close>

lemma fgets_line_again: "NL \<in> set (fgets_line n f) \<Longrightarrow> fgets_line n (fgets_line n f) = fgets_line n f"
proof (cases "NL \<in> set (take (n - 1) f)")
  case True
  then obtain a b where ab: "take (n - 1) f = a @ NL # b" "NL \<notin> set a" by (meson split_list_first)
  then have "length (a @ NL # b) \<le> n - 1" by (metis length_take min.cobounded2)
  with ab show ?thesis by (simp add: fgets_line_def takeWhile_before)
qed (simp add: fgets_line_def)

lemma fgets_line_take: "take (length (fgets_line n f)) f = fgets_line n f"
proof (cases "NL \<in> set (take (n - 1) f)")
  case True
  then obtain a b where ab: "take (n - 1) f = a @ NL # b" "NL \<notin> set a" by (meson split_list_first)
  then have "f = a @ NL # b @ drop (n - 1) f" by (metis append.assoc append_Cons append_take_drop_id)
  moreover have "fgets_line n f = a @ [NL]" using ab by (simp add: fgets_line_def takeWhile_before)
  ultimately show ?thesis by (metis append.assoc append_Cons append_Nil append_eq_conv_conj)
qed (simp add: fgets_line_def min_def)

lemma wal_step_prefix:
  assumes "wal_step cap fn f st = Inr (st', after, used)"
  shows "wal_step cap fn (take used f) st = Inr (st', [], used) \<and> drop used f = after \<and> used \<le> length f"
proof -
  define line where "line = fgets_line 224 f"
  define rest where "rest = drop (length line) f"
  obtain n x where hd: "wal_header cap (c_str line) (fgets_eof 224 f) = Inr (n, x)"
    using assms by (auto simp: wal_step_def Let_def line_def split: sum.splits)
  from wal_header_Inr [OF hd] have nl: "NL \<in> set line" and hd': "\<And>e. wal_header cap (c_str line) e = Inr (n, x)"
    using c_str_subset wal_header_Inr by blast+
  have len: "length line \<le> length f" unfolding line_def by (rule length_fgets_line)
  have step: "length (take n rest) = n" "\<exists>c. drop n rest = c # after \<and> c = NL" "used = length line + n + 1"
      "x = digest_hex (take n rest)" "NUL \<notin> set (take n rest)" "fn st (take n rest) = (st', None)"
    using assms unfolding wal_step_def Let_def line_def [symmetric] rest_def [symmetric] hd
    by (auto split: if_splits list.splits option.splits prod.splits)
  have again: "fgets_line 224 (line @ y) = line" for y
    using fgets_line_mono [of 224 line y] fgets_line_again [of 224 f] nl unfolding line_def by simp
  have f: "f = line @ rest"
    using fgets_line_take [of 224 f] unfolding rest_def line_def by (metis append_take_drop_id)
  have "rest = take n rest @ NL # after" using step(2) by (metis append_take_drop_id)
  then have cut: "take used f = line @ take n rest @ [NL]" "drop used f = after" "used \<le> length f"
    using f(1) step(1,3) by (metis (no_types, lifting) append.assoc append_Cons append_Nil append_eq_conv_conj
      length_append length_append_singleton add.assoc Suc_eq_plus1 le_add1)+
  show ?thesis
    using cut step hd' unfolding wal_step_def Let_def cut(1) again by (simp split: option.splits prod.splits)
qed

lemma wal_loop_cut:
  assumes "wal_loop cap fn f good st = (st', None, torn, good')"
  shows "good \<le> good' \<and> wal_loop cap fn (take (good' - good) f) good st = (st', None, False, good')"
  using assms
proof (induction cap fn f good st rule: wal_loop.induct)
  case (1 cap fn f good st)
  show ?case
  proof (cases "f = []")
    case True
    then show ?thesis using "1.prems" by (simp add: wal_loop.simps [of cap fn "[]"])
  next
    case False
    show ?thesis
    proof (cases "wal_step cap fn f st")
      case (Inl a)
      then have "good' = good" "a = (st', None, torn)"
        using "1.prems" False by (cases a; simp add: wal_loop.simps [of cap fn f])+
      moreover have "st' = st"
        using Inl [unfolded \<open>a = (st', None, torn)\<close>]
        by (auto simp: wal_step_def Let_def split: sum.splits if_splits list.splits option.splits prod.splits)
      ultimately show ?thesis by (simp add: wal_loop.simps [of cap fn "[]"])
    next
      case (Inr a)
      obtain s after used where a: "a = (s, after, used)" by (cases a) auto
      note pre = wal_step_prefix [OF Inr [unfolded a]]
      have "wal_loop cap fn after (good + used) s = (st', None, torn, good')"
        using "1.prems" False Inr a by (simp add: wal_loop.simps [of cap fn f])
      from "1.IH" [OF False Inr a [symmetric] refl this]
      have le: "good + used \<le> good'" and tail: "wal_loop cap fn (take (good' - (good + used)) after) (good + used) s = (st', None, False, good')"
        by simp_all
      have cut: "take (good' - good) f = take used f @ take (good' - (good + used)) after"
      proof -
        have "good' - good = used + (good' - (good + used))" using le by simp
        then show ?thesis using pre by (metis take_add)
      qed
      have "wal_step cap fn (take (good' - good) f) st = Inr (s, take (good' - (good + used)) after, used)"
        using wal_step_append [of cap fn "take used f" st s "[]" used] pre unfolding cut by simp
      moreover have "take (good' - good) f \<noteq> []"
        using pre False wal_step_shorter [OF Inr [unfolded a]] le by (cases used) auto
      ultimately show ?thesis using le tail by (simp add: wal_loop.simps [of cap fn "take (good' - good) f"])
    qed
  qed
qed

text \<open>What every accepted record preserves holds at the end of a clean scan.\<close>

lemma wal_loop_invariant:
  assumes "wal_loop cap fn f good st = (st', None, torn, good')" "P st"
    and "\<And>s r s'. P s \<Longrightarrow> fn s r = (s', None) \<Longrightarrow> P s'"
  shows "P st'"
  using assms
proof (induction cap fn f good st rule: wal_loop.induct)
  case (1 cap fn f good st)
  show ?case
  proof (cases "f = []")
    case True
    with 1 show ?thesis by (simp add: wal_loop.simps [of cap fn "[]"])
  next
    case False
    show ?thesis
    proof (cases "wal_step cap fn f st")
      case (Inl a)
      then have "a = (st', None, torn)" using "1.prems" False by (cases a) (simp add: wal_loop.simps [of cap fn f])
      then have "st' = st" using Inl
        by (auto simp: wal_step_def Let_def split: sum.splits if_splits list.splits option.splits prod.splits)
      with "1.prems" show ?thesis by simp
    next
      case (Inr a)
      obtain s after used where a: "a = (s, after, used)" by (cases a) auto
      have "\<exists>r. fn st r = (s, None)" using Inr a
        by (auto simp: wal_step_def Let_def split: sum.splits if_splits list.splits option.splits prod.splits)
      then have "P s" using "1.prems"(2,3) by blast
      moreover have "wal_loop cap fn after (good + used) s = (st', None, torn, good')"
        using "1.prems" False Inr a by (simp add: wal_loop.simps [of cap fn f])
      ultimately show ?thesis using "1.IH" [OF False Inr a [symmetric] refl] "1.prems"(3) by blast
    qed
  qed
qed

text \<open>The same for opening a log.\<close>

lemma wal_visit_invariant:
  assumes "wal_visit rp cap fn file0 st = (file1, st', None)" "P st"
    and "\<And>s r s'. P s \<Longrightarrow> fn s r = (s', None) \<Longrightarrow> P s'"
  shows "P st'"
proof (cases file0)
  case (Some contents)
  obtain s e torn g where loop: "wal_loop cap fn contents 0 st = (s, e, torn, g)" by (metis prod_cases4)
  then have "s = st' \<and> e = None \<or> st' = st"
    using assms(1) Some by (auto simp: wal_visit_def wal_scan_def split: if_splits)
  then show ?thesis using wal_loop_invariant [of cap fn contents 0 st st' torn g P] loop assms(2,3) by blast
qed (use assms in \<open>auto simp: wal_visit_def wal_scan_def split: if_splits\<close>)

text \<open>
  Every clean scan hands its callback the same records: those that \<open>collect\<close> gathers from the file.
\<close>

lemma wal_step_goes_on:
  assumes "wal_step cap fn f st = Inr (st', after, used)"
  shows "\<exists>r. fn st r = (st', None) \<and> (\<forall>acc. wal_step cap collect f acc = Inr (acc @ [r], after, used))"
  using assms
  by (auto simp: wal_step_def collect_def Let_def split: sum.splits if_splits list.splits option.splits prod.splits)

lemma wal_step_rests:
  assumes "wal_step cap fn f st = Inl (st', None, torn)"
  shows "st' = st \<and> (\<forall>acc. wal_step cap collect f acc = Inl (acc, None, torn))"
  using assms
  by (auto simp: wal_step_def Let_def split: sum.splits if_splits list.splits option.splits prod.splits)

lemma wal_loop_records:
  assumes "wal_loop cap fn f good st = (st', None, torn, good')"
  shows "\<exists>rs. feed fn st rs = (st', None) \<and> (\<forall>acc. wal_loop cap collect f good acc = (acc @ rs, None, torn, good'))"
  using assms
proof (induction cap fn f good st rule: wal_loop.induct)
  case (1 cap fn f good st)
  show ?case
  proof (cases "f = []")
    case True
    then show ?thesis using "1.prems" by (auto simp: wal_loop.simps [of _ _ "[]"] intro!: exI [of _ "[]"])
  next
    case False
    show ?thesis
    proof (cases "wal_step cap fn f st")
      case (Inl a)
      then have a: "a = (st', None, torn)" "good' = good" using "1.prems" False by (cases a; simp add: wal_loop.simps [of cap fn f])+
      from wal_step_rests [OF Inl [unfolded a(1)]] show ?thesis
        using False a(2) by (intro exI [of _ "[]"]) (simp add: wal_loop.simps [of cap collect f])
    next
      case (Inr a)
      obtain s after used where a: "a = (s, after, used)" by (cases a) auto
      from wal_step_goes_on [OF Inr [unfolded a]] obtain r where
        r: "fn st r = (s, None)" "\<And>acc. wal_step cap collect f acc = Inr (acc @ [r], after, used)" by blast
      have loop: "wal_loop cap fn after (good + used) s = (st', None, torn, good')"
        using "1.prems" False Inr a by (simp add: wal_loop.simps [of cap fn f])
      from "1.IH" [OF False Inr a [symmetric] refl loop] obtain rs where
        rs: "feed fn s rs = (st', None)" "\<And>acc. wal_loop cap collect after (good + used) acc = (acc @ rs, None, torn, good')"
        by blast
      have "wal_loop cap collect f good acc = (acc @ r # rs, None, torn, good')" for acc
        using False r(2) rs(2) by (simp add: wal_loop.simps [of cap collect f])
      then show ?thesis using r(1) rs(1) by (intro exI [of _ "r # rs"]) simp
    qed
  qed
qed

lemma wal_visit_records:
  assumes "wal_visit rp cap fn file0 st = (file1, st', None)"
  shows "\<exists>rs. wal_visit rp cap collect file0 [] = (file1, rs, None) \<and> feed fn st rs = (st', None)"
proof (cases file0)
  case None
  then show ?thesis using assms by (auto simp: wal_visit_def wal_scan_def split: if_splits intro!: exI [of _ "[]"])
next
  case (Some contents)
  obtain s e torn g where loop: "wal_loop cap fn contents 0 st = (s, e, torn, g)" by (metis prod_cases4)
  then have s: "e = None" "s = st'" using assms Some by (auto simp: wal_visit_def wal_scan_def split: if_splits)
  from wal_loop_records [OF loop [unfolded s]] obtain rs where
    rs: "feed fn st rs = (st', None)" "wal_loop cap collect contents 0 [] = (rs, None, torn, g)" by force
  have "wal_visit rp cap collect file0 [] = (file1, rs, None)"
    using assms Some loop s rs(2) by (auto simp: wal_visit_def wal_scan_def split: if_splits)
  then show ?thesis using rs(1) by blast
qed

section \<open>The log as an event store\<close>

text \<open>The error a replay ends with, and its state; the log of a stream is its file.\<close>

definition wal_replay :: "nat \<Rightarrow> ('s \<Rightarrow> string \<Rightarrow> 's \<times> asngn_err option) \<Rightarrow> stream \<Rightarrow> 's \<Rightarrow> 's option" where
  "wal_replay cap fn log s =
     (case wal_loop cap fn (st_file log) 0 s of
        (s', None, False, _) \<Rightarrow> if length (st_file log) \<le> WAL_LOG_MAX then Some s' else None
      | _ \<Rightarrow> None)"

lemma wal_replay_records:
  assumes "wal_replay cap fn log s = Some s'"
  shows "\<exists>rs. wal_replay cap collect log [] = Some rs \<and> feed fn s rs = (s', None)"
proof -
  obtain g where g: "wal_loop cap fn (st_file log) 0 s = (s', None, False, g)" and le: "length (st_file log) \<le> WAL_LOG_MAX"
    using assms by (auto simp: wal_replay_def split: prod.splits option.splits bool.splits if_splits)
  from wal_loop_records [OF g] obtain rs where
    "feed fn s rs = (s', None)" "wal_loop cap collect (st_file log) 0 [] = (rs, None, False, g)" by force
  then show ?thesis using le by (intro exI [of _ rs]) (simp add: wal_replay_def)
qed

text \<open>Opening a log leaves a file that replays to the state it delivered.\<close>

lemma wal_visit_replay:
  assumes "wal_visit rp cap fn file0 s = (file1, s', None)"
    and "st_file log = (case file1 of None \<Rightarrow> [] | Some t \<Rightarrow> t)"
  shows "wal_replay cap fn log s = Some s'"
proof (cases file0)
  case None
  then show ?thesis
    using assms by (auto simp: wal_visit_def wal_scan_def wal_replay_def wal_loop.simps [of cap fn "[]"] split: if_splits)
next
  case (Some contents)
  obtain st e torn g where loop: "wal_loop cap fn contents 0 s = (st, e, torn, g)" by (metis prod_cases4)
  have le: "length contents \<le> WAL_LOG_MAX" and ok: "e = None" "st = s'" and
    cut: "file1 = (if torn then Some (take g contents) else Some contents)"
    using assms(1) Some loop by (auto simp: wal_visit_def wal_scan_def split: if_splits)
  have "wal_loop cap fn (st_file log) 0 s = (s', None, False, g) \<and> length (st_file log) \<le> WAL_LOG_MAX"
    using loop wal_loop_cut [of cap fn contents 0 s s' torn g] ok cut le assms(2) by (cases torn) auto
  then show ?thesis by (simp add: wal_replay_def)
qed

text \<open>What opening the file of a log anew delivers, with a torn tail cut off.\<close>

definition wal_reopen :: "nat \<Rightarrow> ('s \<Rightarrow> string \<Rightarrow> 's \<times> asngn_err option) \<Rightarrow> stream \<Rightarrow> 's \<Rightarrow> 's option" where
  "wal_reopen cap fn log s =
     (case wal_visit repair_fine cap fn (Some (st_file log)) s of (_, s', None) \<Rightarrow> Some s' | _ \<Rightarrow> None)"

lemma wal_replay_reopen:
  "wal_replay cap fn log s = Some s' \<Longrightarrow> 0 < cap \<Longrightarrow> cap \<le> WAL_FRAME_MAX \<Longrightarrow> wal_reopen cap fn log s = Some s'"
  by (auto simp: wal_replay_def wal_reopen_def wal_visit_def wal_scan_def split: prod.splits option.splits bool.splits if_splits)

text \<open>
  What the stores of the program rely on: a record that was appended is replayed after the ones
  before it; a failed append either closes the log or leaves it as it was; and whatever it left,
  the log opened anew holds the records before it, with or without the new one.
\<close>

locale event_log =
  fixes append_rec :: "'p \<Rightarrow> 'l \<Rightarrow> string \<Rightarrow> 'l \<times> asngn_err option"
    and replay_log :: "('s \<Rightarrow> string \<Rightarrow> 's \<times> asngn_err option) \<Rightarrow> 'l \<Rightarrow> 's \<Rightarrow> 's option"
    and reopen_log :: "('s \<Rightarrow> string \<Rightarrow> 's \<times> asngn_err option) \<Rightarrow> 'l \<Rightarrow> 's \<Rightarrow> 's option"
    and usable :: "'l \<Rightarrow> bool"
    and fits :: "string \<Rightarrow> bool"
  assumes replay_appended:
      "replay_log fn l s = Some s' \<Longrightarrow> append_rec p l r = (l', None) \<Longrightarrow> fits r \<Longrightarrow> fn s' r = (s'', None) \<Longrightarrow>
       replay_log fn l' s = Some s''"
    and replay_failed:
      "append_rec p l r = (l', Some e) \<Longrightarrow> usable l' \<Longrightarrow> replay_log fn l' s = replay_log fn l s"
    and reopen_failed:
      "replay_log fn l s = Some s' \<Longrightarrow> append_rec p l r = (l', Some e) \<Longrightarrow> fits r \<Longrightarrow> fn s' r = (s'', None) \<Longrightarrow>
       reopen_log fn l' s \<in> {Some s', Some s''}"
begin

text \<open>A store: the state in memory is what a replay of its log gives.\<close>

definition in_sync :: "('s \<Rightarrow> string \<Rightarrow> 's \<times> asngn_err option) \<Rightarrow> 's \<Rightarrow> 'l \<Rightarrow> 's \<Rightarrow> bool" where
  "in_sync fn s0 l s \<longleftrightarrow> replay_log fn l s0 = Some s"

lemma in_sync_append:
  assumes "in_sync fn s0 l s" "append_rec p l r = (l', None)" "fits r" "fn s r = (s', None)"
  shows "in_sync fn s0 l' s'"
  using assms replay_appended unfolding in_sync_def by blast

lemma in_sync_failed:
  assumes "in_sync fn s0 l s" "append_rec p l r = (l', Some e)" "usable l'"
  shows "in_sync fn s0 l' s"
  using assms replay_failed unfolding in_sync_def by simp

lemma in_sync_reopen:
  assumes "in_sync fn s0 l s" "append_rec p l r = (l', Some e)" "fits r" "fn s r = (s', None)"
  shows "reopen_log fn l' s0 \<in> {Some s, Some s'}"
  using assms reopen_failed unfolding in_sync_def by blast

lemma in_sync_unique: "in_sync fn s0 l s \<Longrightarrow> in_sync fn s0 l s' \<Longrightarrow> s = s'"
  by (simp add: in_sync_def)

end

definition wal_put :: "nat \<Rightarrow> bool \<times> io_plan \<Rightarrow> stream \<Rightarrow> string \<Rightarrow> stream \<times> asngn_err option" where
  "wal_put cap p log r = wal_append (fst p) (snd p) log r"

lemma as_line_frame [simp]: "as_line (wal_frame r) = wal_frame r"
  by (simp add: as_line_def needs_newline_def wal_frame_def)

lemma wal_append_ok:
  assumes "wal_append size_ok io st r = (st', None)"
  shows "st' = st\<lparr>st_file := st_file st @ wal_frame r\<rparr> \<and> st_open st \<and>
    length (st_file st) + length r + 256 \<le> WAL_LOG_MAX"
  using assms stream_append_ok [of io st "wal_frame r" st']
  by (auto simp: wal_append_def WAL_LOG_MAX_def WAL_FRAME_MAX_def split: if_splits)

lemma wal_append_fine:
  "st_open st \<Longrightarrow> r \<noteq> [] \<Longrightarrow> length r \<le> WAL_FRAME_MAX \<Longrightarrow> length (st_file st) + length r + 256 \<le> WAL_LOG_MAX \<Longrightarrow>
   wal_append True io_fine st r = (st\<lparr>st_file := st_file st @ wal_frame r\<rparr>, None)"
  by (simp add: wal_append_def stream_append_fine)

lemma wal_append_error:
  assumes "wal_append size_ok io st r = (st', Some e)"
  shows "st_open st' \<longrightarrow> st_file st' = st_file st"
  using assms stream_append_error [of io st "wal_frame r" st' e]
  by (auto simp: wal_append_def split: if_splits)

lemma wal_frame_length: "wal_record cap r \<Longrightarrow> length (wal_frame r) \<le> length r + 156"
  using wal_header_line_length [of cap r] by (simp add: wal_frame_def)

lemma wal_replay_append:
  assumes "wal_replay cap fn l s = Some s'" "wal_append size_ok io l r = (l', None)" "wal_record cap r"
    and "fn s' r = (s'', None)"
  shows "wal_replay cap fn l' s = Some s''"
proof -
  obtain g where g: "wal_loop cap fn (st_file l) 0 s = (s', None, False, g)"
    using assms(1) by (auto simp: wal_replay_def split: prod.splits option.splits bool.splits if_splits)
  note ok = wal_append_ok [OF assms(2)]
  have "wal_loop cap fn (st_file l @ wal_frame r) 0 s = wal_loop cap fn (wal_frame r @ []) (length (st_file l)) s'"
    using wal_loop_append [OF g, of "wal_frame r"] by simp
  also have "\<dots> = (s'', None, False, length (st_file l) + length (wal_frame r))"
    unfolding wal_loop_frame [OF assms(3)] using assms(4) by (simp add: wal_loop.simps [of cap fn "[]"])
  finally show ?thesis
    using ok wal_frame_length [OF assms(3)] by (simp add: wal_replay_def)
qed

lemma wal_append_error_file:
  assumes "wal_append size_ok io st r = (st', Some e)"
  shows "\<exists>k. st_file st' = st_file st @ take k (wal_frame r) \<and>
    (k \<noteq> 0 \<longrightarrow> length (st_file st) + length r + 256 \<le> WAL_LOG_MAX)"
proof (cases "stream_append io st (wal_frame r) = (st', Some e) \<and> st_file st' \<noteq> st_file st")
  case True
  then obtain k where "st_file st' = st_file st @ take k (wal_frame r)"
    using stream_append_error_file [of io st "wal_frame r" st' e] by auto
  moreover have "length (st_file st) + length r + 256 \<le> WAL_LOG_MAX"
    using assms True by (auto simp: wal_append_def WAL_LOG_MAX_def WAL_FRAME_MAX_def split: if_splits)
  ultimately show ?thesis by blast
next
  case False
  then have "st_file st' = st_file st" using assms by (auto simp: wal_append_def split: if_splits)
  then show ?thesis by (intro exI [of _ 0]) simp
qed

lemma wal_reopen_failed:
  assumes "wal_replay cap fn l s = Some s'" "wal_append size_ok io l r = (l', Some e)" "wal_record cap r"
    and "fn s' r = (s'', None)"
  shows "wal_reopen cap fn l' s \<in> {Some s', Some s''}"
proof -
  obtain g where g: "wal_loop cap fn (st_file l) 0 s = (s', None, False, g)" and le: "length (st_file l) \<le> WAL_LOG_MAX"
    using assms(1) by (auto simp: wal_replay_def split: prod.splits option.splits bool.splits if_splits)
  obtain k where k: "st_file l' = st_file l @ take k (wal_frame r)" "k \<noteq> 0 \<longrightarrow> length (st_file l) + length r + 256 \<le> WAL_LOG_MAX"
    using wal_append_error_file [OF assms(2)] by blast
  have cap: "cap \<noteq> 0" "\<not> WAL_FRAME_MAX < cap" using assms(3) by (cases r; auto simp: wal_record_def)+
  have "length (take k (wal_frame r)) \<le> length r + 156" using wal_frame_length [OF assms(3)] by (simp add: min.coboundedI2)
  then have size: "\<not> WAL_LOG_MAX < length (st_file l')" using k le by (cases k) auto
  have loop: "wal_loop cap fn (st_file l') 0 s = wal_loop cap fn (take k (wal_frame r)) (length (st_file l)) s'"
    using wal_loop_append [OF g, of "take k (wal_frame r)"] k(1) by simp
  show ?thesis
  proof (cases "k < length (wal_frame r)")
    case True
    then have "wal_loop cap fn (st_file l') 0 s = (s', None, k \<noteq> 0, length (st_file l))"
      unfolding loop by (rule wal_loop_torn [OF assms(3)])
    then show ?thesis using cap size by (auto simp: wal_reopen_def wal_visit_def wal_scan_def repair_fine_def)
  next
    case False
    then have "wal_loop cap fn (st_file l') 0 s = wal_loop cap fn (wal_frame r @ []) (length (st_file l)) s'" using loop by simp
    also have "\<dots> = (s'', None, False, length (st_file l) + length (wal_frame r))"
      unfolding wal_loop_frame [OF assms(3)] using assms(4) by (simp add: wal_loop.simps [of cap fn "[]"])
    finally show ?thesis using cap size by (auto simp: wal_reopen_def wal_visit_def wal_scan_def)
  qed
qed

interpretation wal_log: event_log "wal_put cap" "wal_replay cap" "wal_reopen cap" st_open "wal_record cap"
proof
  fix fn :: "'a \<Rightarrow> string \<Rightarrow> 'a \<times> asngn_err option" and l s s' p r l' s''
  assume "wal_replay cap fn l s = Some s'" "wal_put cap p l r = (l', None)" "wal_record cap r" "fn s' r = (s'', None)"
  then show "wal_replay cap fn l' s = Some s''" unfolding wal_put_def by (rule wal_replay_append)
next
  fix fn :: "'a \<Rightarrow> string \<Rightarrow> 'a \<times> asngn_err option" and l s p r l' e
  assume "wal_put cap p l r = (l', Some e)" "st_open l'"
  then have "st_file l' = st_file l"
    using wal_append_error [of "fst p" "snd p" l r l' e] by (simp add: wal_put_def)
  then show "wal_replay cap fn l' s = wal_replay cap fn l s" unfolding wal_replay_def by (simp only:)
next
  fix fn :: "'a \<Rightarrow> string \<Rightarrow> 'a \<times> asngn_err option" and l s s' p r l' e s''
  assume "wal_replay cap fn l s = Some s'" "wal_put cap p l r = (l', Some e)" "wal_record cap r" "fn s' r = (s'', None)"
  then show "wal_reopen cap fn l' s \<in> {Some s', Some s''}" unfolding wal_put_def by (rule wal_reopen_failed)
qed

section \<open>Crash recovery and corruption\<close>

text \<open>
  C1. After a crash at any byte of a log, opening it delivers exactly the records whose frames
  were complete, in order, and truncates the file to those frames: no record is lost that was
  written in full and none is invented.
\<close>

theorem wal_crash_recovery:
  assumes "list_all (wal_record cap) rs" "0 < cap" "cap \<le> WAL_FRAME_MAX" "length (frames rs) \<le> WAL_LOG_MAX"
  shows "wal_visit repair_fine cap collect (Some (take k (frames rs))) [] =
    (Some (frames (take (complete_frames k rs) rs)), take (complete_frames k rs) rs, None)"
proof -
  define j where "j = complete_frames k rs"
  obtain torn where loop: "wal_loop cap collect (take k (frames rs)) 0 [] =
      (take j rs, None, torn, length (frames (take j rs)))"
    "\<not> torn \<longrightarrow> take k (frames rs) = frames (take j rs)"
    using wal_loop_prefix [OF assms(1), of collect "[]" k] by (auto simp: j_def)
  have "take (length (frames (take j rs))) (take k (frames rs)) = frames (take j rs)"
    using length_take_frames [of k rs] take_complete_frames [of j rs] by (simp add: j_def min_def)
  then show ?thesis using loop assms
    by (auto simp: wal_visit_def wal_scan_def repair_fine_def j_def)
qed

theorem wal_crash_recovery_witness:
  "wal_visit repair_fine 4096 collect (Some (take 20 (frames [''one'', ''two'']))) [] = (Some [], [], None)"
proof -
  have "length (frames [''one'', ''two'']) \<le> WAL_LOG_MAX"
    using wal_frame_length [of 4096 "''one''"] wal_frame_length [of 4096 "''two''"]
    by (simp add: wal_record_def no_nul_def WAL_FRAME_MAX_def WAL_LOG_MAX_def)
  moreover have "complete_frames 20 [''one'', ''two''] = 0"
    by (simp add: wal_frame_def wal_header_line_def wal_prefix_def Let_def)
  ultimately show ?thesis using wal_crash_recovery [of 4096 "[''one'', ''two'']" 20]
    by (simp add: wal_record_def no_nul_def WAL_FRAME_MAX_def)
qed

text \<open>
  C38. A complete frame whose payload does not match its checksum is reported as a parse error and
  never repaired away: the records before it are delivered, the file is left untouched.
\<close>

theorem wal_corruption_detected:
  assumes "list_all (wal_record cap) rs" "wal_record cap r" "length r' = length r"
    and "length (frames rs @ wal_header_line r @ r' @ NL # rest) \<le> WAL_LOG_MAX"
  shows "digest_hex r' = digest_hex r \<or>
    wal_visit rp cap collect (Some (frames rs @ wal_header_line r @ r' @ NL # rest)) [] =
    (Some (frames rs @ wal_header_line r @ r' @ NL # rest), rs, Some ERR_PARSE)"
proof (cases "digest_hex r' = digest_hex r")
  case False
  let ?bad = "wal_header_line r @ r' @ NL # rest"
  obtain h where h: "wal_header_line r = h @ [NL]" "NL \<notin> set h" by (rule wal_header_line_cases)
  have "length h < 223" using wal_header_line_length [OF assms(2)] h by simp
  then have line: "fgets_line 224 ?bad = wal_header_line r" using fgets_whole_line [of h] h by simp
  have rest: "drop (length (wal_header_line r)) ?bad = r' @ NL # rest" by simp
  have "wal_step cap collect ?bad rs = Inl (rs, Some ERR_PARSE, False)"
    unfolding wal_step_def Let_def line rest c_str_header wal_header_frame [OF assms(2)]
    using assms(3) False by simp
  moreover have "wal_header_line r \<noteq> []" using h by simp
  ultimately have "wal_loop cap collect (frames rs @ ?bad) 0 [] = (rs, Some ERR_PARSE, False, length (frames rs))"
    using wal_loop_frames [OF assms(1), of collect "[]" rs ?bad 0] by (simp add: wal_loop.simps [of cap collect ?bad])
  moreover have "0 < cap" "cap \<le> WAL_FRAME_MAX" using assms(2) by (cases r; simp add: wal_record_def)+
  ultimately show ?thesis using assms by (auto simp: wal_visit_def wal_scan_def)
qed simp

theorem wal_corruption_detected_witness:
  "digest_hex ''xy'' = digest_hex ''ab'' \<or>
   wal_visit repair_fine 4096 collect (Some (frames [''one''] @ wal_header_line ''ab'' @ ''xy'' @ NL # [])) [] =
     (Some (frames [''one''] @ wal_header_line ''ab'' @ ''xy'' @ NL # []), [''one''], Some ERR_PARSE)"
proof (rule wal_corruption_detected)
  have "length (wal_header_line ''ab'') \<le> 155"
    by (rule wal_header_line_length [of 4096]) (simp add: wal_record_def no_nul_def WAL_FRAME_MAX_def)
  then show "length (frames [''one''] @ wal_header_line ''ab'' @ ''xy'' @ NL # []) \<le> WAL_LOG_MAX"
    using wal_frame_length [of 4096 "''one''"] by (simp add: wal_record_def no_nul_def WAL_FRAME_MAX_def WAL_LOG_MAX_def)
qed (simp_all add: wal_record_def no_nul_def WAL_FRAME_MAX_def)

end
