(* ===== verification/Xutil.thy ===== *)
theory Xutil
  imports Timestamps
begin

text \<open>
  Values of the xCDN library as the program handles them, and the checked builders and typed
  field accessors of \<^verbatim>\<open>src/xutil.c\<close>.

  A node is a value with its tags.  The library's own parser and writer are arguments of the
  definitions that use them.  Builders are modelled with sufficient memory, so that they fail
  only on a missing argument; a text stored in a value has no NUL byte, as a C string.  A float is
  its mantissa and binary exponent.
\<close>

datatype xval =
    XNull | XBool bool | XInt int | XFloat int int | XString string | XDatetime string
  | XDuration string | XUuid string | XArray "xnode list" | XObject "(string \<times> xnode) list"
and xnode = XNode (xtags: "string list") (xvalue: xval)

definition xnode_new :: "xval \<Rightarrow> xnode" where
  "xnode_new v = XNode [] v"

definition xobj_put_node :: "xval \<Rightarrow> string \<Rightarrow> xnode option \<Rightarrow> xval option" where
  "xobj_put_node obj key node =
     (case node of
        None \<Rightarrow> None
      | Some n \<Rightarrow> (case obj of XObject es \<Rightarrow> Some (XObject (es @ [(key, n)])) | _ \<Rightarrow> None))"

definition xobj_put :: "xval \<Rightarrow> string \<Rightarrow> xval option \<Rightarrow> xval option" where
  "xobj_put obj key v =
     (case v of None \<Rightarrow> None | Some x \<Rightarrow> xobj_put_node obj key (Some (xnode_new x)))"

definition xarr_push :: "xval option \<Rightarrow> xval option \<Rightarrow> xval option" where
  "xarr_push arr v =
     (case arr of
        Some (XArray items) \<Rightarrow> (case v of None \<Rightarrow> None | Some x \<Rightarrow> Some (XArray (items @ [xnode_new x])))
      | _ \<Rightarrow> None)"

definition xnode_tag :: "xnode option \<Rightarrow> string option \<Rightarrow> xnode option" where
  "xnode_tag node name =
     (case (node, name) of (Some n, Some t) \<Rightarrow> Some (XNode (xtags n @ [t]) (xvalue n)) | _ \<Rightarrow> None)"

section \<open>Typed field access\<close>

fun xfind :: "(string \<times> xnode) list \<Rightarrow> string \<Rightarrow> xval option" where
  "xfind [] key = None"
| "xfind ((k, n) # es) key = (if k = key then Some (xvalue n) else xfind es key)"

fun xfield :: "xval option \<Rightarrow> string \<Rightarrow> xval option" where
  "xfield (Some (XObject es)) key = xfind es key"
| "xfield _ key = None"

fun xstr :: "xval option \<Rightarrow> string option" where
  "xstr (Some (XString s)) = Some s"
| "xstr _ = None"

fun xint :: "xval option \<Rightarrow> int option" where
  "xint (Some (XInt n)) = Some n"
| "xint _ = None"

fun xbool :: "xval option \<Rightarrow> bool option" where
  "xbool (Some (XBool b)) = Some b"
| "xbool _ = None"

fun xtime :: "xval option \<Rightarrow> int option" where
  "xtime (Some (XDatetime s)) = time_parse_rfc3339 (Some s)"
| "xtime _ = None"

fun xdur :: "xval option \<Rightarrow> int option" where
  "xdur (Some (XDuration s)) = asngn_duration_parse (Some s)"
| "xdur _ = None"

fun xuuid :: "xval option \<Rightarrow> string option" where
  "xuuid (Some (XUuid s)) = (if length s = 36 then Some s else None)"
| "xuuid _ = None"

text \<open>A record whose text is not what the writer gives for its decoded value is rejected.\<close>

definition xcanonical_match :: "(xnode \<Rightarrow> string option) \<Rightarrow> xval option \<Rightarrow> string \<Rightarrow> asngn_err option" where
  "xcanonical_match write encoded text =
     (case encoded of
        None \<Rightarrow> Some ERR_NOMEM
      | Some v \<Rightarrow> (case write (xnode_new v) of
            None \<Rightarrow> Some ERR_NOMEM
          | Some canonical \<Rightarrow> if canonical \<noteq> text then Some ERR_PARSE else None))"

section \<open>Objects built field by field\<close>

definition xobject :: "(string \<times> xval) list \<Rightarrow> xval" where
  "xobject fs = XObject (map (\<lambda>(k, v). (k, xnode_new v)) fs)"

fun put_all :: "xval \<Rightarrow> (string \<times> xval) list \<Rightarrow> xval option" where
  "put_all obj [] = Some obj"
| "put_all obj ((k, v) # fs) = (case xobj_put obj k (Some v) of None \<Rightarrow> None | Some obj' \<Rightarrow> put_all obj' fs)"

lemma put_all_object: "put_all (XObject es) fs = Some (XObject (es @ map (\<lambda>(k, v). (k, xnode_new v)) fs))"
  by (induction fs arbitrary: es) (auto simp: xobj_put_def xobj_put_node_def)

declare put_all.simps [simp del]

text \<open>The number of fields of an object, as the decoders check it.\<close>

fun xcount :: "xval option \<Rightarrow> nat option" where
  "xcount (Some (XObject es)) = Some (length es)"
| "xcount _ = None"

lemma xcount_xobject [simp]: "xcount (Some (xobject fs)) = Some (length fs)"
  by (simp add: xobject_def)

lemma put_all_empty [simp]: "put_all (XObject []) fs = Some (xobject fs)"
  by (simp add: put_all_object xobject_def)

lemma xfield_xobject [simp]: "xfield (Some (xobject fs)) key = map_of fs key"
  by (induction fs) (auto simp: xobject_def xnode_new_def)

lemma xfield_put:
  "xobj_put obj k (Some v) = Some obj' \<Longrightarrow>
   xfield (Some obj') k' = (case xfield (Some obj) k' of Some w \<Rightarrow> Some w | None \<Rightarrow> if k' = k then Some v else None)"
proof (cases obj)
  case (XObject es)
  have "xfind (es @ [(k, xnode_new v)]) k' =
      (case xfind es k' of Some w \<Rightarrow> Some w | None \<Rightarrow> if k' = k then Some v else None)"
    by (induction es k' rule: xfind.induct) (auto simp: xnode_new_def)
  then show "xobj_put obj k (Some v) = Some obj' \<Longrightarrow> ?thesis"
    using XObject by (auto simp: xobj_put_def xobj_put_node_def)
qed (simp_all add: xobj_put_def xobj_put_node_def)

end
