(* ===== verification/Consumption.thy ===== *)
theory Consumption
  imports Prelude "HOL-Library.Monad_Syntax" "HOL-Library.Signed_Division"
begin

text \<open>
  The consumption accounting of \<^verbatim>\<open>src/consumption.c\<close>: the totals of inference operations, the
  reducer that folds a journal record into them, and the day roll.  The totals are 64-bit
  counters; every addition is checked, so they are kept as integers and the checks written out.
\<close>

definition INT64_MAX :: int where "INT64_MAX = 2 ^ 63 - 1"
definition INT64_MIN :: int where "INT64_MIN = - (2 ^ 63)"

record totals =
  calls :: int
  unsettled_calls :: int
  unknown_calls :: int
  failed_calls :: int
  cancelled_calls :: int
  known_input_tokens :: int
  known_output_tokens :: int
  unsettled_tokens :: int
  unknown_tokens :: int
  charged_tokens :: int

definition zero_totals :: totals where
  "zero_totals = \<lparr>calls = 0, unsettled_calls = 0, unknown_calls = 0, failed_calls = 0, cancelled_calls = 0,
     known_input_tokens = 0, known_output_tokens = 0, unsettled_tokens = 0, unknown_tokens = 0, charged_tokens = 0\<rparr>"

record consumption =
  lifetime :: totals
  today :: totals
  utc_day :: int

text \<open>A decoded journal record (\<^verbatim>\<open>asngn_operation_record\<close>); no outcome is \<^verbatim>\<open>ASNGN_OK\<close>.\<close>

record op_record =
  rec_id :: string
  rec_identity :: string
  rec_day :: int
  rec_delta :: int
  rec_input :: int
  rec_output :: int
  rec_reserved :: bool
  rec_known :: bool
  rec_outcome :: "asngn_err option"

definition add_checked :: "int \<Rightarrow> int \<Rightarrow> int option" where
  "add_checked v d =
     (if (0 < d \<and> INT64_MAX - d < v) \<or> (d < 0 \<and> (v < 0 \<or> d < - v)) then None else Some (v + d))"

definition observe_reservation :: "totals \<Rightarrow> int \<Rightarrow> totals option" where
  "observe_reservation v reserved =
     do {
       c \<leftarrow> add_checked (calls v) 1;
       uc \<leftarrow> add_checked (unsettled_calls v) 1;
       ut \<leftarrow> add_checked (unsettled_tokens v) reserved;
       Some (v\<lparr>calls := c, unsettled_calls := uc, unsettled_tokens := ut\<rparr>)
     }"

definition observe_usage :: "totals \<Rightarrow> op_record \<Rightarrow> int \<Rightarrow> totals option" where
  "observe_usage v r reserved =
     (if rec_known r then
        do {
          i \<leftarrow> add_checked (known_input_tokens v) (rec_input r);
          out \<leftarrow> add_checked (known_output_tokens v) (rec_output r);
          Some (v\<lparr>known_input_tokens := i, known_output_tokens := out\<rparr>)
        }
      else
        do {
          uk \<leftarrow> add_checked (unknown_calls v) 1;
          ut \<leftarrow> add_checked (unknown_tokens v) reserved;
          Some (v\<lparr>unknown_calls := uk, unknown_tokens := ut\<rparr>)
        })"

definition observe_outcome :: "totals \<Rightarrow> op_record \<Rightarrow> totals option" where
  "observe_outcome v r =
     (if rec_outcome r = Some ERR_CANCELLED then
        do { n \<leftarrow> add_checked (cancelled_calls v) 1; Some (v\<lparr>cancelled_calls := n\<rparr>) }
      else if rec_outcome r = None then Some v
      else do { n \<leftarrow> add_checked (failed_calls v) 1; Some (v\<lparr>failed_calls := n\<rparr>) })"

definition observe_totals :: "totals \<Rightarrow> op_record \<Rightarrow> int \<Rightarrow> totals option" where
  "observe_totals v r reserved =
     do {
       require (\<not> reserved < 0);
       charged \<leftarrow> add_checked (charged_tokens v) (rec_delta r);
       let v = v\<lparr>charged_tokens := charged\<rparr>;
       if rec_reserved r then observe_reservation v reserved
       else
         do {
           uc \<leftarrow> add_checked (unsettled_calls v) (-1);
           ut \<leftarrow> add_checked (unsettled_tokens v) (- reserved);
           v \<leftarrow> observe_usage (v\<lparr>unsettled_calls := uc, unsettled_tokens := ut\<rparr>) r reserved;
           observe_outcome v r
         }
     }"

definition consumption_roll :: "consumption \<Rightarrow> int \<Rightarrow> consumption" where
  "consumption_roll u day =
     (if utc_day u < day then u\<lparr>utc_day := day, today := zero_totals\<rparr> else u)"

definition consumption_observe :: "consumption \<Rightarrow> op_record \<Rightarrow> int \<Rightarrow> consumption option" where
  "consumption_observe u row reserved =
     (let next = consumption_roll u (rec_day row) in
      case observe_totals (lifetime next) row reserved of
        None \<Rightarrow> None
      | Some life \<Rightarrow>
          if rec_day row = utc_day next then
            (case observe_totals (today next) row reserved of
               None \<Rightarrow> None
             | Some day \<Rightarrow> Some (next\<lparr>lifetime := life, today := day\<rparr>))
          else Some (next\<lparr>lifetime := life\<rparr>))"

text \<open>Reading the totals: nothing is told while the journal needs recovery, and the daily spend
  is then the largest number.  \<open>now\<close> is the clock in seconds.\<close>

definition get_consumption :: "bool \<Rightarrow> int \<Rightarrow> consumption \<Rightarrow> consumption \<times> consumption outcome" where
  "get_consumption recovery_required now u =
     (if recovery_required then (u, Err ERR_IO)
      else let u' = consumption_roll u (now sdiv 86400) in (u', Ok u'))"

definition daily_spend :: "bool \<Rightarrow> int \<Rightarrow> consumption \<Rightarrow> int" where
  "daily_spend recovery_required now u =
     (case snd (get_consumption recovery_required now u) of
        Ok usage \<Rightarrow> charged_tokens (today usage)
      | Err _ \<Rightarrow> INT64_MAX)"

section \<open>Balance\<close>

text \<open>What the totals mean: every counter is a non-negative 64-bit number, and the budget charge
  is exactly the known usage plus what unknown and unsettled operations hold reserved.\<close>

definition counters :: "totals \<Rightarrow> int list" where
  "counters v = [calls v, unsettled_calls v, unknown_calls v, failed_calls v, cancelled_calls v,
     known_input_tokens v, known_output_tokens v, unsettled_tokens v, unknown_tokens v, charged_tokens v]"

definition counter64 :: "int \<Rightarrow> bool" where
  "counter64 n \<longleftrightarrow> 0 \<le> n \<and> n \<le> INT64_MAX"

definition balanced :: "totals \<Rightarrow> bool" where
  "balanced v \<longleftrightarrow>
     list_all counter64 (counters v) \<and>
     charged_tokens v = known_input_tokens v + known_output_tokens v + unknown_tokens v + unsettled_tokens v \<and>
     unsettled_calls v + unknown_calls v \<le> calls v \<and>
     unsettled_calls v + cancelled_calls v + failed_calls v \<le> calls v"

text \<open>A record that the decoder and the replay checks let through, with its operation's reservation.\<close>

definition sound_row :: "op_record \<Rightarrow> int \<Rightarrow> bool" where
  "sound_row r reserved \<longleftrightarrow>
     0 \<le> rec_input r \<and> 0 \<le> rec_output r \<and>
     (if rec_reserved r then rec_delta r = reserved
      else rec_delta r = (if rec_known r then rec_input r + rec_output r - reserved else 0))"

lemma add_checked_eq: "add_checked v d = Some w \<Longrightarrow> w = v + d"
  by (simp add: add_checked_def split: if_splits)

lemma add_checked_counter: "counter64 v \<Longrightarrow> add_checked v d = Some w \<Longrightarrow> counter64 w"
  by (auto simp: add_checked_def counter64_def split: if_splits)

lemma balanced_zero [simp]: "balanced zero_totals"
  by (simp add: balanced_def counters_def counter64_def zero_totals_def INT64_MAX_def)

lemma observe_usage_eq:
  "observe_usage v r reserved = Some w \<Longrightarrow>
   w = (if rec_known r then v\<lparr>known_input_tokens := known_input_tokens v + rec_input r,
          known_output_tokens := known_output_tokens v + rec_output r\<rparr>
        else v\<lparr>unknown_calls := unknown_calls v + 1, unknown_tokens := unknown_tokens v + reserved\<rparr>)"
  by (auto simp: observe_usage_def bind_eq_Some_conv split: if_splits dest!: add_checked_eq)

lemma observe_outcome_eq:
  "observe_outcome v r = Some w \<Longrightarrow>
   w = (case rec_outcome r of None \<Rightarrow> v | Some e \<Rightarrow>
     if e = ERR_CANCELLED then v\<lparr>cancelled_calls := cancelled_calls v + 1\<rparr>
     else v\<lparr>failed_calls := failed_calls v + 1\<rparr>)"
  by (auto simp: observe_outcome_def bind_eq_Some_conv split: if_splits option.splits dest!: add_checked_eq)

lemma observe_reservation_eq:
  "observe_reservation v reserved = Some w \<Longrightarrow>
   w = v\<lparr>calls := calls v + 1, unsettled_calls := unsettled_calls v + 1, unsettled_tokens := unsettled_tokens v + reserved\<rparr>"
  by (auto simp: observe_reservation_def bind_eq_Some_conv dest!: add_checked_eq)

lemma observe_totals_cases:
  assumes "observe_totals v r reserved = Some w"
  obtains (reserve) "rec_reserved r" "0 \<le> reserved"
      "w = v\<lparr>charged_tokens := charged_tokens v + rec_delta r, calls := calls v + 1,
         unsettled_calls := unsettled_calls v + 1, unsettled_tokens := unsettled_tokens v + reserved\<rparr>"
    | (settle) v1 v2 where "\<not> rec_reserved r" "0 \<le> reserved"
      "v1 = v\<lparr>charged_tokens := charged_tokens v + rec_delta r, unsettled_calls := unsettled_calls v - 1,
         unsettled_tokens := unsettled_tokens v - reserved\<rparr>"
      "v2 = (if rec_known r then v1\<lparr>known_input_tokens := known_input_tokens v + rec_input r,
          known_output_tokens := known_output_tokens v + rec_output r\<rparr>
        else v1\<lparr>unknown_calls := unknown_calls v + 1, unknown_tokens := unknown_tokens v + reserved\<rparr>)"
      "w = (case rec_outcome r of None \<Rightarrow> v2 | Some e \<Rightarrow>
         if e = ERR_CANCELLED then v2\<lparr>cancelled_calls := cancelled_calls v + 1\<rparr>
         else v2\<lparr>failed_calls := failed_calls v + 1\<rparr>)"
proof (cases "rec_reserved r")
  case True
  with assms show ?thesis
    by (auto simp: observe_totals_def bind_eq_Some_conv Let_def split: if_splits dest!: add_checked_eq observe_reservation_eq intro!: reserve)
next
  case False
  with assms obtain c uc ut v2 where *: "0 \<le> reserved" "add_checked (charged_tokens v) (rec_delta r) = Some c"
      "add_checked (unsettled_calls v) (-1) = Some uc" "add_checked (unsettled_tokens v) (- reserved) = Some ut"
      "observe_usage (v\<lparr>charged_tokens := c, unsettled_calls := uc, unsettled_tokens := ut\<rparr>) r reserved = Some v2"
      "observe_outcome v2 r = Some w"
    by (auto simp: observe_totals_def bind_eq_Some_conv Let_def split: if_splits)
  have eqs: "c = charged_tokens v + rec_delta r" "uc = unsettled_calls v - 1" "ut = unsettled_tokens v - reserved"
    using *(2-4) by (auto dest!: add_checked_eq)
  note v2 = observe_usage_eq [OF *(5)]
  have kept: "cancelled_calls v2 = cancelled_calls v" "failed_calls v2 = failed_calls v" by (simp_all add: v2)
  have w: "w = (case rec_outcome r of None \<Rightarrow> v2 | Some e \<Rightarrow>
       if e = ERR_CANCELLED then v2\<lparr>cancelled_calls := cancelled_calls v + 1\<rparr>
       else v2\<lparr>failed_calls := failed_calls v + 1\<rparr>)"
    using observe_outcome_eq [OF *(6)] unfolding kept .
  show ?thesis
    by (rule settle [OF False *(1) refl _ w]) (simp add: v2 eqs)
qed

lemma counter_reservation:
  "observe_reservation v reserved = Some w \<Longrightarrow> list_all counter64 (counters v) \<Longrightarrow> list_all counter64 (counters w)"
proof -
  assume "observe_reservation v reserved = Some w" and v: "list_all counter64 (counters v)"
  then obtain c uc ut where *: "add_checked (calls v) 1 = Some c" "add_checked (unsettled_calls v) 1 = Some uc"
      "add_checked (unsettled_tokens v) reserved = Some ut"
      and w: "w = v\<lparr>calls := c, unsettled_calls := uc, unsettled_tokens := ut\<rparr>"
    unfolding observe_reservation_def bind_eq_Some_conv by blast
  have "counter64 c" "counter64 uc" "counter64 ut"
    by (rule add_checked_counter [OF _ *(1)] add_checked_counter [OF _ *(2)] add_checked_counter [OF _ *(3)],
        use v in \<open>simp add: counters_def\<close>)+
  then show ?thesis using v by (simp add: w counters_def)
qed

lemma counter_usage:
  "observe_usage v r reserved = Some w \<Longrightarrow> list_all counter64 (counters v) \<Longrightarrow> list_all counter64 (counters w)"
proof -
  assume obs: "observe_usage v r reserved = Some w" and v: "list_all counter64 (counters v)"
  have parts: "counter64 (known_input_tokens v)" "counter64 (known_output_tokens v)"
      "counter64 (unknown_calls v)" "counter64 (unknown_tokens v)"
    using v by (simp_all add: counters_def)
  show ?thesis
  proof (cases "rec_known r")
    case True
    with obs obtain i out where *: "add_checked (known_input_tokens v) (rec_input r) = Some i"
        "add_checked (known_output_tokens v) (rec_output r) = Some out"
        and w: "w = v\<lparr>known_input_tokens := i, known_output_tokens := out\<rparr>"
      by (auto simp: observe_usage_def bind_eq_Some_conv)
    from add_checked_counter [OF parts(1) *(1)] add_checked_counter [OF parts(2) *(2)]
    show ?thesis using v by (simp add: w counters_def)
  next
    case False
    with obs obtain uk ut where *: "add_checked (unknown_calls v) 1 = Some uk"
        "add_checked (unknown_tokens v) reserved = Some ut"
        and w: "w = v\<lparr>unknown_calls := uk, unknown_tokens := ut\<rparr>"
      by (auto simp: observe_usage_def bind_eq_Some_conv)
    from add_checked_counter [OF parts(3) *(1)] add_checked_counter [OF parts(4) *(2)]
    show ?thesis using v by (simp add: w counters_def)
  qed
qed

lemma counter_outcome:
  "observe_outcome v r = Some w \<Longrightarrow> list_all counter64 (counters v) \<Longrightarrow> list_all counter64 (counters w)"
proof -
  assume obs: "observe_outcome v r = Some w" and v: "list_all counter64 (counters v)"
  have parts: "counter64 (cancelled_calls v)" "counter64 (failed_calls v)" using v by (simp_all add: counters_def)
  show ?thesis
  proof (cases "rec_outcome r")
    case None
    with obs v show ?thesis by (simp add: observe_outcome_def)
  next
    case (Some e)
    with obs obtain n where "add_checked (cancelled_calls v) 1 = Some n \<and> w = v\<lparr>cancelled_calls := n\<rparr> \<or>
        add_checked (failed_calls v) 1 = Some n \<and> w = v\<lparr>failed_calls := n\<rparr>"
      by (auto simp: observe_outcome_def bind_eq_Some_conv split: if_splits)
    with parts v show ?thesis
      by (elim disjE conjE) (simp_all add: counters_def add_checked_counter)
  qed
qed

lemma counters_with:
  "list_all counter64 (counters v) \<Longrightarrow> counter64 c \<Longrightarrow> list_all counter64 (counters (v\<lparr>charged_tokens := c\<rparr>))"
  "list_all counter64 (counters v) \<Longrightarrow> counter64 uc \<Longrightarrow> counter64 ut \<Longrightarrow>
     list_all counter64 (counters (v\<lparr>unsettled_calls := uc, unsettled_tokens := ut\<rparr>))"
  by (simp_all add: counters_def)

lemma observe_counters:
  assumes "observe_totals v r reserved = Some w" "list_all counter64 (counters v)"
  shows "list_all counter64 (counters w)"
proof -
  have parts: "counter64 (charged_tokens v)" "counter64 (unsettled_calls v)" "counter64 (unsettled_tokens v)"
    using assms(2) by (simp_all add: counters_def)
  obtain c where c: "add_checked (charged_tokens v) (rec_delta r) = Some c"
    using assms(1) by (auto simp: observe_totals_def bind_eq_Some_conv split: if_splits)
  define v1 where "v1 = v\<lparr>charged_tokens := c\<rparr>"
  have v1: "list_all counter64 (counters v1)"
    unfolding v1_def by (rule counters_with(1) [OF assms(2) add_checked_counter [OF parts(1) c]])
  show ?thesis
  proof (cases "rec_reserved r")
    case True
    then have "observe_reservation v1 reserved = Some w"
      using assms(1) c by (simp add: observe_totals_def v1_def split: if_splits)
    then show ?thesis using v1 by (rule counter_reservation)
  next
    case False
    then obtain uc ut v2 where *: "add_checked (unsettled_calls v) (-1) = Some uc" "add_checked (unsettled_tokens v) (- reserved) = Some ut"
        "observe_usage (v1\<lparr>unsettled_calls := uc, unsettled_tokens := ut\<rparr>) r reserved = Some v2" "observe_outcome v2 r = Some w"
      using assms(1) c by (auto simp: observe_totals_def v1_def bind_eq_Some_conv Let_def split: if_splits)
    have "list_all counter64 (counters (v1\<lparr>unsettled_calls := uc, unsettled_tokens := ut\<rparr>))"
      by (rule counters_with(2) [OF v1 add_checked_counter [OF parts(2) *(1)] add_checked_counter [OF parts(3) *(2)]])
    then show ?thesis using counter_usage [OF *(3)] counter_outcome [OF *(4)] by blast
  qed
qed

lemma observe_effect:
  assumes "observe_totals v r reserved = Some w"
  shows "charged_tokens w = charged_tokens v + rec_delta r"
    "calls w = calls v + (if rec_reserved r then 1 else 0)"
    "unsettled_calls w = unsettled_calls v + (if rec_reserved r then 1 else -1)"
    "unsettled_tokens w = unsettled_tokens v + (if rec_reserved r then reserved else - reserved)"
    "known_input_tokens w = known_input_tokens v + (if \<not> rec_reserved r \<and> rec_known r then rec_input r else 0)"
    "known_output_tokens w = known_output_tokens v + (if \<not> rec_reserved r \<and> rec_known r then rec_output r else 0)"
    "unknown_tokens w = unknown_tokens v + (if \<not> rec_reserved r \<and> \<not> rec_known r then reserved else 0)"
    "unknown_calls w = unknown_calls v + (if \<not> rec_reserved r \<and> \<not> rec_known r then 1 else 0)"
    "cancelled_calls w + failed_calls w = cancelled_calls v + failed_calls v +
       (if \<not> rec_reserved r \<and> rec_outcome r \<noteq> None then 1 else 0)"
  by (rule observe_totals_cases [OF assms]; simp split: option.split)+

lemma balanced_observe:
  assumes "balanced v" "sound_row r reserved" "observe_totals v r reserved = Some w"
  shows "balanced w"
proof -
  have "list_all counter64 (counters w)"
    using observe_counters [OF assms(3)] assms(1) by (simp add: balanced_def)
  moreover have "charged_tokens w = known_input_tokens w + known_output_tokens w + unknown_tokens w + unsettled_tokens w"
    using assms(1,2) observe_effect(1,4,5,6,7) [OF assms(3)]
    by (simp add: balanced_def sound_row_def split: if_splits)
  moreover have "unsettled_calls w + unknown_calls w \<le> calls w"
    using assms(1) observe_effect(2,3,8) [OF assms(3)] by (simp add: balanced_def split: if_splits)
  moreover have "unsettled_calls w + cancelled_calls w + failed_calls w \<le> calls w"
    using assms(1) observe_effect(2,3,9) [OF assms(3)] by (simp add: balanced_def split: if_splits)
  ultimately show ?thesis by (simp add: balanced_def)
qed

definition balanced_usage :: "consumption \<Rightarrow> bool" where
  "balanced_usage u \<longleftrightarrow> balanced (lifetime u) \<and> balanced (today u)"

lemma balanced_roll [intro]: "balanced_usage u \<Longrightarrow> balanced_usage (consumption_roll u day)"
  by (simp add: balanced_usage_def consumption_roll_def)

lemma consumption_observe_balanced:
  assumes "balanced_usage u" "sound_row r reserved" "consumption_observe u r reserved = Some u'"
  shows "balanced_usage u'"
proof -
  have "balanced_usage (consumption_roll u (rec_day r))" using assms(1) by (rule balanced_roll)
  then show ?thesis
    using assms(2,3)
    by (auto simp: consumption_observe_def balanced_usage_def Let_def
        split: option.splits if_splits intro: balanced_observe)
qed

lemma observe_day: "consumption_observe u r reserved = Some u' \<Longrightarrow> utc_day u' = max (utc_day u) (rec_day r)"
  by (auto simp: consumption_observe_def consumption_roll_def Let_def max_def split: option.splits if_splits)

text \<open>
  Folding any sound journal record keeps the accounts balanced, for the lifetime and for the
  day: counters stay non-negative 64-bit numbers, the charge equals known usage plus
  outstanding and unknown reservations, and settled calls never outnumber calls.  A record that
  would overflow is refused instead.
\<close>

theorem consumption_observe_balance:
  assumes "balanced_usage u" "sound_row r reserved"
  shows "case consumption_observe u r reserved of None \<Rightarrow> True | Some u' \<Rightarrow> balanced_usage u'"
  using consumption_observe_balanced [OF assms] by (simp split: option.split)

theorem consumption_observe_balance_witness:
  "case consumption_observe \<lparr>lifetime = zero_totals, today = zero_totals, utc_day = 3\<rparr>
      \<lparr>rec_id = ''a'', rec_identity = [], rec_day = 4, rec_delta = 100, rec_input = 0, rec_output = 0,
       rec_reserved = True, rec_known = False, rec_outcome = None\<rparr> 100 of
     None \<Rightarrow> True | Some u' \<Rightarrow> balanced_usage u'"
  by (rule consumption_observe_balance) (simp_all add: balanced_usage_def sound_row_def)

end
