(* ===== verification/Reservations.thy ===== *)
theory Reservations
  imports Consumption
begin

text \<open>
  The reservation table of \<^verbatim>\<open>src/operation_replay.c\<close>: open addressing with linear probing over a
  power-of-two array that is at most half full.  The probe is bounded by the size of the array,
  which is enough because a free slot is always left; the table refines a partial map from
  operation ids to reservations.
\<close>

unbundle bit_operations_syntax

record reservation =
  rv_id :: string
  rv_identity :: string
  rv_day :: int
  rv_reserved :: int
  rv_settled :: bool

definition empty_slot :: reservation where
  "empty_slot = \<lparr>rv_id = [], rv_identity = [], rv_day = 0, rv_reserved = 0, rv_settled = False\<rparr>"

definition id_hash :: "string \<Rightarrow> 64 word" where
  "id_hash key = foldl (\<lambda>h c. (h XOR of_nat (byte c)) * 16777619) 2166136261 key"

text \<open>\<open>probe t id h n\<close>: from slot \<open>h\<close>, at most \<open>n\<close> steps to a free slot or the id's own.\<close>

fun probe :: "reservation list \<Rightarrow> string \<Rightarrow> nat \<Rightarrow> nat \<Rightarrow> nat" where
  "probe t key h 0 = h"
| "probe t key h (Suc n) =
     (if rv_id (t ! h) \<noteq> [] \<and> rv_id (t ! h) \<noteq> key then probe t key ((h + 1) AND (length t - 1)) n else h)"

definition slot_home :: "reservation list \<Rightarrow> string \<Rightarrow> nat" where
  "slot_home t key = unat (id_hash key) AND (length t - 1)"

definition slot_for :: "reservation list \<Rightarrow> string \<Rightarrow> nat" where
  "slot_for t key = probe t key (slot_home t key) (length t)"

definition table_put :: "reservation list \<Rightarrow> reservation \<Rightarrow> reservation list" where
  "table_put t r = t[slot_for t (rv_id r) := r]"

definition table_grow :: "reservation list \<Rightarrow> reservation list" where
  "table_grow t =
     (let cap = (if length t \<noteq> 0 then length t * 2 else 256) in
      foldl table_put (replicate cap empty_slot) (filter (\<lambda>r. rv_id r \<noteq> []) t))"

section \<open>The table as a map\<close>

definition table_map :: "reservation list \<Rightarrow> string \<Rightarrow> reservation option" where
  "table_map t key = (if length t = 0 \<or> rv_id (t ! slot_for t key) = [] then None else Some (t ! slot_for t key))"

text \<open>Slots on the way from a home slot.\<close>

definition walk :: "reservation list \<Rightarrow> nat \<Rightarrow> nat \<Rightarrow> nat" where
  "walk t h d = (h + d) mod length t"

definition used :: "reservation list \<Rightarrow> nat set" where
  "used t = {i. i < length t \<and> rv_id (t ! i) \<noteq> []}"

definition reached :: "reservation list \<Rightarrow> string \<Rightarrow> nat \<Rightarrow> bool" where
  "reached t key d \<longleftrightarrow> d < length t \<and> rv_id (t ! walk t (slot_home t key) d) \<in> {[], key} \<and>
     (\<forall>e < d. rv_id (t ! walk t (slot_home t key) e) \<notin> {[], key})"

text \<open>Well-formed: a power of two of slots, one of them free, and every used slot found by the
  probe for its id.\<close>

definition table_ok :: "reservation list \<Rightarrow> bool" where
  "table_ok t \<longleftrightarrow> (\<exists>k. length t = 2 ^ k) \<and> card (used t) < length t \<and>
     (\<forall>i \<in> used t. slot_for t (rv_id (t ! i)) = i)"

lemma and_cap: "length t = 2 ^ k \<Longrightarrow> n AND (length t - 1) = n mod length t"
proof -
  assume "length t = 2 ^ k"
  then have "length t - 1 = mask k" by (simp add: mask_eq_exp_minus_1)
  then have "n AND (length t - 1) = take_bit k n" by (simp only: take_bit_eq_mask)
  then show ?thesis using \<open>length t = 2 ^ k\<close> by (simp add: take_bit_eq_mod)
qed

lemma slot_home_less: "length t = 2 ^ k \<Longrightarrow> slot_home t key < length t"
  unfolding slot_home_def and_cap by (rule mod_less_divisor) simp

lemma walk_0 [simp]: "h < length t \<Longrightarrow> walk t h 0 = h"
  and walk_less [simp]: "t \<noteq> [] \<Longrightarrow> walk t h d < length t"
  and walk_Suc: "walk t h (Suc d) = (walk t h d + 1) mod length t"
  by (simp_all add: walk_def mod_Suc_eq)

lemma finite_used [simp]: "finite (used t)"
  by (simp add: used_def)

lemma walk_surj:
  assumes "h < length t" "i < length t" obtains d where "d < length t" "walk t h d = i"
proof (cases "h \<le> i")
  case True
  then have "i - h < length t" "walk t h (i - h) = i" using assms by (simp_all add: walk_def)
  then show ?thesis by (rule that)
next
  case False
  then have "length t - h + i < length t" using assms by simp
  moreover have eq: "h + (length t - h + i) = length t + i" using assms by simp
  have "walk t h (length t - h + i) = i" unfolding walk_def eq using assms(2) by simp
  ultimately show ?thesis by (rule that)
qed

lemma reached_exists:
  assumes "length t = 2 ^ k" "card (used t) < length t"
  shows "\<exists>d. reached t key d"
proof -
  have "\<not> {..<length t} \<subseteq> used t" using assms(2) by (metis card_lessThan card_mono finite_used not_less)
  then obtain i where i: "i < length t" "rv_id (t ! i) = []" by (auto simp: used_def)
  obtain d where d: "d < length t" "walk t (slot_home t key) d = i"
    using walk_surj [OF slot_home_less [OF assms(1)] i(1)] by blast
  let ?P = "\<lambda>d. rv_id (t ! walk t (slot_home t key) d) \<in> {[], key}"
  have P: "?P d" using d i by simp
  define m where "m = (LEAST d. ?P d)"
  have "?P m" unfolding m_def by (rule LeastI) (fact P)
  moreover have "m \<le> d" unfolding m_def by (rule Least_le) (fact P)
  moreover have "\<not> ?P e" if "e < m" for e using that not_less_Least unfolding m_def by blast
  ultimately have "reached t key m" using d(1) unfolding reached_def by simp
  then show ?thesis ..
qed

lemma probe_walk:
  assumes "length t = 2 ^ k"
    and "\<forall>e < d. rv_id (t ! walk t h e) \<notin> {[], key}" "rv_id (t ! walk t h d) \<in> {[], key}" "d \<le> n + e0" "e0 \<le> d"
  shows "probe t key (walk t h e0) n = walk t h d"
  using assms(2-)
proof (induction n arbitrary: e0)
  case (Suc n)
  show ?case
  proof (cases "e0 = d")
    case True
    with Suc.prems show ?thesis by auto
  next
    case False
    with Suc.prems have "rv_id (t ! walk t h e0) \<notin> {[], key}" by auto
    moreover have "(walk t h e0 + 1) AND (length t - 1) = walk t h (Suc e0)"
      using and_cap [OF assms(1)] by (simp add: walk_Suc)
    ultimately show ?thesis using Suc.IH [of "Suc e0"] Suc.prems False by simp
  qed
qed simp

lemma slot_for_reached:
  assumes "length t = 2 ^ k" "reached t key d"
  shows "slot_for t key = walk t (slot_home t key) d"
proof -
  have "walk t (slot_home t key) 0 = slot_home t key" by (simp add: slot_home_less [OF assms(1)])
  then show ?thesis
    using probe_walk [OF assms(1), of d "slot_home t key" key "length t" 0] assms(2)
    by (auto simp: slot_for_def reached_def)
qed

lemma slot_for_ok:
  assumes "length t = 2 ^ k" "card (used t) < length t"
  shows "slot_for t key < length t \<and> rv_id (t ! slot_for t key) \<in> {[], key}"
proof -
  obtain d where d: "reached t key d" using reached_exists [OF assms] by blast
  have "t \<noteq> []" using assms(2) by auto
  then show ?thesis using slot_for_reached [OF assms(1) d] d by (simp add: reached_def)
qed

lemma slot_home_update [simp]: "slot_home (t[i := r]) key = slot_home t key"
  by (simp add: slot_home_def)

lemma walk_update [simp]: "walk (t[i := r]) h d = walk t h d"
  by (simp add: walk_def)

text \<open>Storing in the slot found for an id changes no other probe.\<close>

lemma slot_for_put:
  assumes "length t = 2 ^ k" "card (used t) < length t" "rv_id r \<noteq> []"
  shows "rv_id (t ! slot_for t key) \<noteq> [] \<or> key = rv_id r \<Longrightarrow> slot_for (table_put t r) key = slot_for t key"
    and "slot_for t key \<noteq> slot_for t (rv_id r) \<Longrightarrow> slot_for (table_put t r) key = slot_for t key"
proof -
  let ?j = "slot_for t (rv_id r)"
  obtain d where d: "reached t key d" using reached_exists [OF assms(1,2)] by blast
  have j: "?j < length t" "rv_id (t ! ?j) \<in> {[], rv_id r}" using slot_for_ok [OF assms(1,2)] by simp_all
  have s: "slot_for t key = walk t (slot_home t key) d" by (rule slot_for_reached [OF assms(1) d])
  have ne: "t \<noteq> []" using assms(2) by auto
  have before: "walk t (slot_home t key) e \<noteq> ?j \<or> (rv_id (t ! ?j) = rv_id r \<and> key \<noteq> rv_id r)" if "e < d" for e
    using d that j(2) unfolding reached_def by auto
  have keep: "rv_id (table_put t r ! walk t (slot_home t key) e) \<notin> {[], key}" if "e < d" for e
    using before [OF that] d that j(1) assms(3) ne unfolding reached_def table_put_def
    by (cases "walk t (slot_home t key) e = ?j") auto
  have len: "length (table_put t r) = 2 ^ k" using assms(1) by (simp add: table_put_def)
  have final: "slot_for (table_put t r) key = slot_for t key"
    if "rv_id (table_put t r ! walk t (slot_home t key) d) \<in> {[], key}"
  proof -
    have "reached (table_put t r) key d"
      using keep that d unfolding reached_def by (auto simp: table_put_def)
    from slot_for_reached [OF len this] s show ?thesis by (simp add: table_put_def)
  qed
  show "slot_for (table_put t r) key = slot_for t key" if "slot_for t key \<noteq> ?j"
    by (rule final) (use that d s ne in \<open>auto simp: table_put_def reached_def\<close>)
  show "slot_for (table_put t r) key = slot_for t key" if "rv_id (t ! slot_for t key) \<noteq> [] \<or> key = rv_id r"
  proof (cases "slot_for t key = ?j")
    case True
    then have "key = rv_id r"
      using that j(2) slot_for_ok [OF assms(1,2), of key] by auto
    then show ?thesis by (intro final) (use True s j ne in \<open>simp add: table_put_def\<close>)
  next
    case False
    then show ?thesis by (intro final) (use d s ne in \<open>auto simp: table_put_def reached_def\<close>)
  qed
qed

lemma option_eqI: "(\<And>x. a = Some x \<longleftrightarrow> b = Some x) \<Longrightarrow> a = b"
  by (cases a; cases b) auto

lemma table_okD:
  "table_ok t \<Longrightarrow> \<exists>k. length t = 2 ^ k" "table_ok t \<Longrightarrow> card (used t) < length t"
  "table_ok t \<Longrightarrow> i < length t \<Longrightarrow> rv_id (t ! i) \<noteq> [] \<Longrightarrow> slot_for t (rv_id (t ! i)) = i"
  by (simp_all add: table_ok_def used_def)

lemma table_slot: "table_ok t \<Longrightarrow> slot_for t key < length t \<and> rv_id (t ! slot_for t key) \<in> {[], key}"
  using table_okD(1,2) [of t] slot_for_ok by blast

lemma table_map_iff:
  assumes "table_ok t" "key \<noteq> []"
  shows "table_map t key = Some r \<longleftrightarrow> r \<in> set t \<and> rv_id r = key"
proof
  assume m: "table_map t key = Some r"
  then have "t ! slot_for t key = r" "rv_id r \<noteq> []" by (auto simp: table_map_def split: if_splits)
  with table_slot [OF assms(1), of key] show "r \<in> set t \<and> rv_id r = key" by auto
next
  assume r: "r \<in> set t \<and> rv_id r = key"
  then obtain i where i: "i < length t" "t ! i = r" by (auto simp: in_set_conv_nth)
  then have "slot_for t key = i" using table_okD(3) [OF assms(1), of i] r assms(2) by simp
  then show "table_map t key = Some r" using i r assms(2) by (auto simp: table_map_def)
qed

lemma table_map_Nil [simp]: "table_ok t \<Longrightarrow> table_map t [] = None"
  using table_slot [of t "[]"] by (simp add: table_map_def)

lemma used_put:
  "slot_for t (rv_id r) < length t \<Longrightarrow> rv_id r \<noteq> [] \<Longrightarrow> used (table_put t r) = insert (slot_for t (rv_id r)) (used t)"
  by (auto simp: used_def table_put_def nth_list_update)

lemma table_ok_put:
  assumes "table_ok t" "rv_id r \<noteq> []" "card (used t) + 1 < length t"
  shows "table_ok (table_put t r)"
proof -
  obtain k where k: "length t = 2 ^ k" using table_okD(1) [OF assms(1)] by blast
  note slot = table_slot [OF assms(1), of "rv_id r"]
  have "card (used (table_put t r)) \<le> card (used t) + 1"
    using used_put [of t r] slot assms(2) card_insert_le_m1 [of "Suc (card (used t))"] by (simp add: card_insert_if)
  moreover have "slot_for (table_put t r) (rv_id (table_put t r ! i)) = i" if "i \<in> used (table_put t r)" for i
  proof (cases "i = slot_for t (rv_id r)")
    case True
    then have "rv_id (table_put t r ! i) = rv_id r" using slot by (simp add: table_put_def)
    then show ?thesis using slot_for_put(1) [OF k table_okD(2) [OF assms(1)] assms(2), of "rv_id r"] True by simp
  next
    case False
    then have i: "i < length t" "rv_id (t ! i) \<noteq> []" "table_put t r ! i = t ! i"
      using that by (auto simp: used_def table_put_def)
    then have s: "slot_for t (rv_id (t ! i)) = i" using table_okD(3) [OF assms(1)] by blast
    then show ?thesis
      using slot_for_put(1) [OF k table_okD(2) [OF assms(1)] assms(2), of "rv_id (t ! i)"] i by simp
  qed
  ultimately show ?thesis using k assms(3) by (auto simp: table_ok_def table_put_def)
qed

lemma table_map_put:
  assumes "table_ok t" "rv_id r \<noteq> []" "card (used t) + 1 < length t"
  shows "table_map (table_put t r) = (table_map t)(rv_id r \<mapsto> r)"
proof
  fix key
  have ok: "table_ok (table_put t r)" by (rule table_ok_put) fact+
  let ?j = "slot_for t (rv_id r)"
  have j: "?j < length t" "rv_id (t ! ?j) \<in> {[], rv_id r}" using table_slot [OF assms(1), of "rv_id r"] by simp_all
  show "table_map (table_put t r) key = ((table_map t)(rv_id r \<mapsto> r)) key"
  proof (cases "key = [] \<or> key = rv_id r")
    case True
    have "r \<in> set (table_put t r)" using j by (simp add: table_put_def set_update_memI)
    with True ok assms show ?thesis by (auto simp: table_map_iff)
  next
    case False
    then have k: "key \<noteq> []" "key \<noteq> rv_id r" by simp_all
    have "x \<in> set (table_put t r) \<longleftrightarrow> x \<in> set t" if "rv_id x = key" for x
    proof
      show "x \<in> set t" if "x \<in> set (table_put t r)"
        using set_update_subset_insert [of t ?j r] that k \<open>rv_id x = key\<close> by (auto simp: table_put_def)
      show "x \<in> set (table_put t r)" if "x \<in> set t"
      proof -
        from that obtain i where i: "i < length t" "t ! i = x" by (auto simp: in_set_conv_nth)
        then have "i \<noteq> ?j" using j k \<open>rv_id x = key\<close> by auto
        with i have "table_put t r ! i = x" "i < length (table_put t r)" by (simp_all add: table_put_def)
        then show ?thesis using nth_mem by blast
      qed
    qed
    then have "table_map (table_put t r) key = Some x \<longleftrightarrow> table_map t key = Some x" for x
      using table_map_iff [OF ok k(1)] table_map_iff [OF assms(1) k(1)] by blast
    then have "table_map (table_put t r) key = table_map t key" by (rule option_eqI)
    then show ?thesis using k by simp
  qed
qed

lemma length_table_put [simp]: "length (table_put t r) = length t"
  by (simp add: table_put_def)

lemma card_used_put: "table_ok t \<Longrightarrow> rv_id r \<noteq> [] \<Longrightarrow> card (used (table_put t r)) \<le> card (used t) + 1"
  using table_slot [of t "rv_id r"] used_put [of t r] by (simp add: card_insert_if)

lemma table_put_all:
  "table_ok t \<Longrightarrow> list_all (\<lambda>r. rv_id r \<noteq> []) rs \<Longrightarrow> card (used t) + length rs < length t \<Longrightarrow>
   table_ok (foldl table_put t rs) \<and> length (foldl table_put t rs) = length t \<and>
   card (used (foldl table_put t rs)) \<le> card (used t) + length rs \<and>
   table_map (foldl table_put t rs) = foldl (\<lambda>m r. m(rv_id r \<mapsto> r)) (table_map t) rs"
proof (induction rs arbitrary: t)
  case (Cons r rs)
  have c: "card (used (table_put t r)) \<le> card (used t) + 1" using card_used_put [of t r] Cons.prems by simp
  then have "card (used (table_put t r)) + length rs < length (table_put t r)" using Cons.prems by simp
  with Cons.IH [of "table_put t r"] Cons.prems c show ?case
    by (simp add: table_ok_put table_map_put)
qed simp

lemma table_ok_empty: "table_ok (replicate (2 ^ k) empty_slot)" "table_map (replicate (2 ^ k) empty_slot) = Map.empty"
  "used (replicate (2 ^ k) empty_slot) = {}"
proof -
  show u: "used (replicate (2 ^ k) empty_slot) = {}" by (auto simp: used_def empty_slot_def)
  show ok: "table_ok (replicate (2 ^ k) empty_slot)" using u by (auto simp: table_ok_def)
  show "table_map (replicate (2 ^ k) empty_slot) = Map.empty"
    using table_slot [OF ok] by (auto simp: table_map_def empty_slot_def)
qed

lemma foldl_upd_map_of:
  "foldl (\<lambda>m r. m(f r \<mapsto> r)) m rs = m ++ map_of (rev (map (\<lambda>r. (f r, r)) rs))"
  by (induction rs arbitrary: m) (simp_all add: map_add_def fun_eq_iff split: option.split)

lemma length_filter_used: "length (filter (\<lambda>r. rv_id r \<noteq> []) t) = card (used t)"
  by (simp add: used_def length_filter_conv_card)

lemma distinct_used_ids:
  assumes "table_ok t" shows "distinct (map rv_id (filter (\<lambda>r. rv_id r \<noteq> []) t))"
proof -
  have "i = j" if "i < length t" "j < length t" "rv_id (t ! i) \<noteq> []" "rv_id (t ! i) = rv_id (t ! j)" for i j
    using table_okD(3) [OF assms, of i] table_okD(3) [OF assms, of j] that by simp
  then show ?thesis
  proof (induction t)
    case (Cons r t)
    have IH: "distinct (map rv_id (filter (\<lambda>r. rv_id r \<noteq> []) t))"
      by (rule Cons.IH) (use Cons.prems [of "Suc _" "Suc _"] in fastforce)
    have "rv_id r \<noteq> rv_id x" if "x \<in> set t" "rv_id r \<noteq> []" for x
      using that Cons.prems [of 0 "Suc _"] by (fastforce simp: in_set_conv_nth)
    with IH show ?case by auto
  qed simp
qed

lemma table_grow:
  assumes "table_ok t \<or> t = []"
  shows "table_ok (table_grow t) \<and> table_map (table_grow t) = table_map t \<and>
    length (table_grow t) = (if t = [] then 256 else 2 * length t) \<and> card (used (table_grow t)) \<le> card (used t)"
proof (cases "t = []")
  case True
  have "(256::nat) = 2 ^ 8" by simp
  then have "replicate 256 empty_slot = replicate (2 ^ 8) empty_slot" by simp
  with True show ?thesis using table_ok_empty [of 8]
    by (simp add: table_grow_def used_def) (auto simp: table_map_def)
next
  case False
  then have ok: "table_ok t" using assms by simp
  then obtain k where k: "length t = 2 ^ k" using table_okD(1) by blast
  then have cap: "(if length t \<noteq> 0 then length t * 2 else 256) = 2 ^ Suc k" using False by simp
  let ?rs = "filter (\<lambda>r. rv_id r \<noteq> []) t"
  have grow: "table_grow t = foldl table_put (replicate (2 ^ Suc k) empty_slot) ?rs"
    unfolding table_grow_def cap Let_def ..
  have "card (used t) < 2 ^ Suc k" using table_okD(2) [OF ok] k by simp
  then have all: "table_ok (table_grow t)" "length (table_grow t) = 2 ^ Suc k"
      "card (used (table_grow t)) \<le> card (used t)"
      "table_map (table_grow t) = foldl (\<lambda>m r. m(rv_id r \<mapsto> r)) Map.empty ?rs"
    using table_put_all [of "replicate (2 ^ Suc k) empty_slot" ?rs] table_ok_empty [of "Suc k"]
    unfolding grow by (simp_all add: length_filter_used list_all_iff)
  have "table_map (table_grow t) key = table_map t key" for key
  proof (cases "key = []")
    case True
    then show ?thesis using ok all(1) by simp
  next
    case False
    have d: "distinct (map fst (rev (map (\<lambda>r. (rv_id r, r)) ?rs)))"
      using distinct_used_ids [OF ok] by (simp add: rev_map [symmetric] comp_def)
    have "map_of (rev (map (\<lambda>r. (rv_id r, r)) ?rs)) key = Some x \<longleftrightarrow> table_map t key = Some x" for x
      unfolding map_of_eq_Some_iff [OF d] table_map_iff [OF ok False] using False by auto
    then have "map_of (rev (map (\<lambda>r. (rv_id r, r)) ?rs)) key = table_map t key" by (rule option_eqI)
    then show ?thesis unfolding all(4) foldl_upd_map_of by simp
  qed
  then have "table_map (table_grow t) = table_map t" by (rule ext)
  moreover have "length (table_grow t) = (if t = [] then 256 else 2 * length t)" unfolding all(2) k
    using False by (simp only: if_False power_Suc)
  ultimately show ?thesis using all(1,3) by blast
qed

end
