(* ===== verification/Json.thy ===== *)
theory Json
  imports Prelude
begin

text \<open>
  The JSON library (\<^verbatim>\<open>asmodel_json\<close>) as the program calls it.  Its values and functions are
  parameters: a record \<open>json_api\<close> over an unknown type of values, each accessor taking a
  missing value as the C functions take \<^verbatim>\<open>NULL\<close>.  Objects the program writes are lists of
  fields with scalar values.
\<close>

datatype json_kind = J_NULL | J_BOOL | J_INT | J_DOUBLE | J_STRING | J_ARRAY | J_OBJECT

datatype json_scalar = JsInt int | JsString string | JsBool bool

record 'j json_api =
  j_parse :: "string \<Rightarrow> 'j option"
  j_write :: "(string \<times> json_scalar) list \<Rightarrow> string option"
  j_kind :: "'j option \<Rightarrow> json_kind"
  j_count :: "'j option \<Rightarrow> nat"
  j_get :: "'j option \<Rightarrow> string \<Rightarrow> 'j option"
  j_at :: "'j option \<Rightarrow> nat \<Rightarrow> 'j option"
  j_length :: "'j option \<Rightarrow> nat"
  j_text :: "'j option \<Rightarrow> string option"
  j_is_int :: "'j option \<Rightarrow> bool"
  j_int :: "'j option \<Rightarrow> int"
  j_bool :: "'j option \<Rightarrow> bool"

text \<open>That the library reads an object it wrote: the value has the fields that were set, and
  the accessors give back the scalars.\<close>

definition scalar_reads :: "'j json_api \<Rightarrow> 'j option \<Rightarrow> json_scalar \<Rightarrow> bool" where
  "scalar_reads api v s =
     (case s of
        JsInt n \<Rightarrow> j_is_int api v \<and> j_int api v = n
      | JsString t \<Rightarrow> j_text api v = Some t
      | JsBool b \<Rightarrow> j_kind api v = J_BOOL \<and> j_bool api v = b)"

definition json_reads :: "'j json_api \<Rightarrow> string \<Rightarrow> (string \<times> json_scalar) list \<Rightarrow> bool" where
  "json_reads api text fs =
     (case j_parse api text of
        None \<Rightarrow> False
      | Some v \<Rightarrow> j_count api (Some v) = length fs \<and>
          list_all (\<lambda>(k, s). scalar_reads api (j_get api (Some v) k) s) fs)"

section \<open>Error names\<close>

definition all_errors :: "asngn_err list" where
  "all_errors = [ERR_IO, ERR_PARSE, ERR_CONFIG, ERR_MODEL, ERR_NOT_FOUND, ERR_INVALID, ERR_DENIED,
     ERR_TIMEOUT, ERR_CANCELLED, ERR_BUSY, ERR_PROTOCOL, ERR_CONTEXT, ERR_UNSUPPORTED, ERR_SIBLING,
     ERR_NOMEM, ERR_LIMIT]"

fun err_name :: "asngn_err option \<Rightarrow> string" where
  "err_name None = ''ASNGN_OK''"
| "err_name (Some ERR_IO) = ''ASNGN_ERR_IO''"
| "err_name (Some ERR_PARSE) = ''ASNGN_ERR_PARSE''"
| "err_name (Some ERR_CONFIG) = ''ASNGN_ERR_CONFIG''"
| "err_name (Some ERR_MODEL) = ''ASNGN_ERR_MODEL''"
| "err_name (Some ERR_NOT_FOUND) = ''ASNGN_ERR_NOT_FOUND''"
| "err_name (Some ERR_INVALID) = ''ASNGN_ERR_INVALID''"
| "err_name (Some ERR_DENIED) = ''ASNGN_ERR_DENIED''"
| "err_name (Some ERR_TIMEOUT) = ''ASNGN_ERR_TIMEOUT''"
| "err_name (Some ERR_CANCELLED) = ''ASNGN_ERR_CANCELLED''"
| "err_name (Some ERR_BUSY) = ''ASNGN_ERR_BUSY''"
| "err_name (Some ERR_PROTOCOL) = ''ASNGN_ERR_PROTOCOL''"
| "err_name (Some ERR_CONTEXT) = ''ASNGN_ERR_CONTEXT''"
| "err_name (Some ERR_UNSUPPORTED) = ''ASNGN_ERR_UNSUPPORTED''"
| "err_name (Some ERR_SIBLING) = ''ASNGN_ERR_SIBLING''"
| "err_name (Some ERR_NOMEM) = ''ASNGN_ERR_NOMEM''"
| "err_name (Some ERR_LIMIT) = ''ASNGN_ERR_LIMIT''"

definition outcomes :: "asngn_err option list" where
  "outcomes = None # map Some all_errors"

text \<open>The outcome a name stands for, as the decoders search it.\<close>

definition outcome_named :: "string \<Rightarrow> asngn_err option option" where
  "outcome_named name = find (\<lambda>e. err_name e = name) outcomes"

lemma outcome_named_name [simp]: "outcome_named (err_name e) = Some e"
proof (cases e)
  case (Some x)
  then show ?thesis by (cases x) (simp_all add: outcome_named_def outcomes_def all_errors_def)
qed (simp add: outcome_named_def outcomes_def)

lemma err_name_bounds: "err_name e \<noteq> [] \<and> length (err_name e) \<le> 32 \<and> no_nul (err_name e)"
proof (cases e)
  case (Some x)
  then show ?thesis by (cases x) (simp_all add: no_nul_def)
qed (simp add: no_nul_def)

section \<open>A library for one object\<close>

text \<open>A concrete library that knows one text and the object it stands for; it shows that the
  hypotheses on the library can hold.\<close>

definition fixed_api :: "string \<Rightarrow> (string \<times> json_scalar) list \<Rightarrow> (json_scalar + (string \<times> json_scalar) list) json_api" where
  "fixed_api text fs =
     \<lparr>j_parse = (\<lambda>t. if t = text then Some (Inr fs) else None),
      j_write = (\<lambda>g. if g = fs then Some text else None),
      j_kind = (\<lambda>v. case v of None \<Rightarrow> J_NULL | Some (Inr _) \<Rightarrow> J_OBJECT | Some (Inl s) \<Rightarrow>
        (case s of JsInt _ \<Rightarrow> J_INT | JsString _ \<Rightarrow> J_STRING | JsBool _ \<Rightarrow> J_BOOL)),
      j_count = (\<lambda>v. case v of Some (Inr ob) \<Rightarrow> length ob | _ \<Rightarrow> 0),
      j_get = (\<lambda>v k. case v of Some (Inr ob) \<Rightarrow> map_option Inl (map_of ob k) | _ \<Rightarrow> None),
      j_at = (\<lambda>v i. None),
      j_length = (\<lambda>v. 0),
      j_text = (\<lambda>v. case v of Some (Inl (JsString t)) \<Rightarrow> Some t | _ \<Rightarrow> None),
      j_is_int = (\<lambda>v. case v of Some (Inl (JsInt _)) \<Rightarrow> True | _ \<Rightarrow> False),
      j_int = (\<lambda>v. case v of Some (Inl (JsInt n)) \<Rightarrow> n | _ \<Rightarrow> 0),
      j_bool = (\<lambda>v. case v of Some (Inl (JsBool b)) \<Rightarrow> b | _ \<Rightarrow> False)\<rparr>"

lemma fixed_api_reads:
  "distinct (map fst fs) \<Longrightarrow> json_reads (fixed_api text fs) text fs \<and> j_write (fixed_api text fs) fs = Some text"
  by (auto simp: json_reads_def fixed_api_def scalar_reads_def list_all_iff split: json_scalar.split)

end
