(* ===== verification/Operations.thy ===== *)
theory Operations
  imports Reservations Json Uuid Wal Util
begin

text \<open>
  The consumption journal: the record codec (\<^verbatim>\<open>src/operation_codec.c\<close>), its replay with the
  reservation table (\<^verbatim>\<open>src/operation_replay.c\<close>), and the admission and settlement of an inference
  operation (\<^verbatim>\<open>src/operations.c\<close>).  The JSON library is a \<open>json_api\<close>, and \<open>id_max\<close> and
  \<open>request_max\<close> are its limits on model and request ids.
\<close>

section \<open>Record codec\<close>

record operation =
  op_id :: string
  op_request :: string
  op_model :: string
  op_kind :: string
  op_reserve :: int
  op_day :: int
  op_active :: bool

definition op_fields ::
    "operation \<Rightarrow> string \<Rightarrow> int \<Rightarrow> int \<Rightarrow> int \<Rightarrow> bool \<Rightarrow> asngn_err option \<Rightarrow> (string \<times> json_scalar) list" where
  "op_fields op state delta input output known outcome =
     [(''schema'', JsInt 2), (''id'', JsString (op_id op)), (''request_id'', JsString (op_request op)),
      (''state'', JsString state), (''model'', JsString (op_model op)), (''kind'', JsString (op_kind op)),
      (''day'', JsInt (op_day op)), (''budget_delta'', JsInt delta), (''input_tokens'', JsInt input),
      (''output_tokens'', JsInt output), (''usage_known'', JsBool known), (''outcome'', JsString (err_name outcome))]"

definition operation_encode where
  "operation_encode api op state delta input output known outcome =
     j_write api (op_fields op state delta input output known outcome)"

definition op_string :: "'j json_api \<Rightarrow> 'j option \<Rightarrow> string \<Rightarrow> nat \<Rightarrow> bool \<Rightarrow> string option" where
  "op_string api v key cap blank =
     (case j_text api (j_get api v key) of
        None \<Rightarrow> None
      | Some t \<Rightarrow> if length t \<le> cap \<and> (blank \<or> t \<noteq> []) \<and> no_nul t then Some t else None)"

definition op_number :: "'j json_api \<Rightarrow> 'j option \<Rightarrow> string \<Rightarrow> int option" where
  "op_number api v key =
     (let field = j_get api v key in if j_is_int api field then Some (j_int api field) else None)"

text \<open>Each field enters the hash with its length in one byte before it.\<close>

definition op_identity :: "string list \<Rightarrow> string" where
  "op_identity parts =
     sha256_final (foldl (\<lambda>ctx f. sha256_update (sha256_update ctx [char_of (length f)]) f) sha256_init parts)"

definition operation_valid :: "'j json_api \<Rightarrow> nat \<Rightarrow> 'j \<Rightarrow> op_record option" where
  "operation_valid api id_max j =
     (let v = Some j; text = op_string api v; number = op_number api v in
      do {
        require (j_count api v = 12);
        key \<leftarrow> text ''id'' 36 False;
        require (uuid_valid (Some key));
        request \<leftarrow> text ''request_id'' 128 True;
        model \<leftarrow> text ''model'' id_max False;
        kind \<leftarrow> text ''kind'' 32 False;
        state \<leftarrow> text ''state'' 16 False;
        require (state = ''reserved'' \<or> state = ''settled'');
        outcome_text \<leftarrow> text ''outcome'' 32 False;
        outcome \<leftarrow> outcome_named outcome_text;
        schema \<leftarrow> number ''schema'';
        require (schema = 2);
        day \<leftarrow> number ''day'';
        require (INT64_MIN sdiv 86400 \<le> day \<and> day \<le> INT64_MAX sdiv 86400);
        delta \<leftarrow> number ''budget_delta'';
        input \<leftarrow> number ''input_tokens'';
        require (0 \<le> input \<and> input \<le> int INT_MAX);
        output \<leftarrow> number ''output_tokens'';
        require (0 \<le> output \<and> output \<le> int INT_MAX);
        require (j_kind api (j_get api v ''usage_known'') = J_BOOL);
        let reserved = (state = ''reserved'');
        require (\<not> (reserved \<and> outcome_text \<noteq> ''ASNGN_OK''));
        Some \<lparr>rec_id = key, rec_identity = op_identity [model, kind, request], rec_day = day,
          rec_delta = delta, rec_input = input, rec_output = output, rec_reserved = reserved,
          rec_known = j_bool api (j_get api v ''usage_known''), rec_outcome = outcome\<rparr>
      })"

definition operation_decode :: "'j json_api \<Rightarrow> nat \<Rightarrow> string \<Rightarrow> op_record outcome" where
  "operation_decode api id_max text =
     (if 4096 < length text then Err ERR_LIMIT
      else case j_parse api text of
        None \<Rightarrow> Err ERR_PARSE
      | Some v \<Rightarrow> (case operation_valid api id_max v of None \<Rightarrow> Err ERR_PARSE | Some row \<Rightarrow> Ok row))"

section \<open>Replay\<close>

definition OPERATIONS_MAX :: nat where "OPERATIONS_MAX = 131072"

record replay_state =
  rp_table :: "reservation list"
  rp_count :: nat
  rp_usage :: consumption

definition observe_row :: "replay_state \<Rightarrow> op_record \<Rightarrow> replay_state \<times> asngn_err option" where
  "observe_row p0 row =
     (if rec_reserved row \<and> OPERATIONS_MAX \<le> rp_count p0 then (p0, Some ERR_LIMIT)
      else
        let p = (if rec_reserved row \<and> length (rp_table p0) div 2 \<le> rp_count p0
                 then p0\<lparr>rp_table := table_grow (rp_table p0)\<rparr> else p0) in
        if length (rp_table p) = 0 then (p, Some ERR_PARSE)
        else
          let i = slot_for (rp_table p) (rec_id row); r = rp_table p ! i in
          if rec_reserved row \<and>
             (rv_id r \<noteq> [] \<or> rec_delta row < 0 \<or> rec_known row \<or> rec_input row \<noteq> 0 \<or> rec_output row \<noteq> 0)
            then (p, Some ERR_PARSE)
          else if \<not> rec_reserved row \<and>
             (rv_id r = [] \<or> rv_settled r \<or> rv_day r \<noteq> rec_day row \<or> rv_identity r \<noteq> rec_identity row \<or>
              rec_delta row \<noteq> (if rec_known row then rec_input row + rec_output row - rv_reserved r else 0))
            then (p, Some ERR_PARSE)
          else
            let r' = (if rec_reserved row
                      then r\<lparr>rv_id := rec_id row, rv_identity := rec_identity row, rv_day := rec_day row,
                             rv_reserved := rec_delta row\<rparr>
                      else r\<lparr>rv_settled := True\<rparr>);
                p' = p\<lparr>rp_table := (rp_table p)[i := r'],
                       rp_count := (if rec_reserved row then rp_count p + 1 else rp_count p)\<rparr> in
            (case consumption_observe (rp_usage p') row (rv_reserved r') of
               None \<Rightarrow> (p', Some ERR_PARSE)
             | Some u \<Rightarrow> (p'\<lparr>rp_usage := u\<rparr>, None)))"

definition operation_observe :: "'j json_api \<Rightarrow> nat \<Rightarrow> replay_state \<Rightarrow> string \<Rightarrow> replay_state \<times> asngn_err option" where
  "operation_observe api id_max p text =
     (case operation_decode api id_max text of Err e \<Rightarrow> (p, Some e) | Ok row \<Rightarrow> observe_row p row)"

definition replay_start :: "int \<Rightarrow> replay_state" where
  "replay_start now =
     \<lparr>rp_table = [], rp_count = 0,
      rp_usage = \<lparr>lifetime = zero_totals, today = zero_totals, utc_day = now sdiv 86400\<rparr>\<rparr>"

section \<open>Admission and settlement\<close>

record usage_ctx =
  uc_usage :: consumption
  uc_recovery :: bool
  uc_log :: stream
  uc_daily :: int

definition operations_load ::
    "'j json_api \<Rightarrow> nat \<Rightarrow> repair_plan \<Rightarrow> int \<Rightarrow> string option \<Rightarrow> usage_ctx \<Rightarrow>
     string option \<times> usage_ctx \<times> asngn_err option" where
  "operations_load api id_max rp now file ctx =
     (case wal_visit rp 4096 (operation_observe api id_max) file (replay_start now) of
        (file', p, e) \<Rightarrow>
          (file', ctx\<lparr>uc_usage := (if e = None then rp_usage p else uc_usage ctx), uc_recovery := (e \<noteq> None)\<rparr>, e))"

text \<open>The outside of one journal write: does opening the stream fail, can the file's size be
  read, and what happens to the append.\<close>

record journal_io =
  jio_open_err :: "asngn_err option"
  jio_size_ok :: bool
  jio_append :: io_plan

definition operation_row ::
    "operation \<Rightarrow> bool \<Rightarrow> int \<Rightarrow> int \<Rightarrow> int \<Rightarrow> bool \<Rightarrow> asngn_err option \<Rightarrow> op_record" where
  "operation_row op reserved delta ti to known outcome =
     \<lparr>rec_id = [], rec_identity = [], rec_day = op_day op, rec_delta = delta, rec_input = ti,
      rec_output = to, rec_reserved = reserved, rec_known = known, rec_outcome = outcome\<rparr>"

definition operation_record ::
    "'j json_api \<Rightarrow> journal_io \<Rightarrow> usage_ctx \<Rightarrow> operation \<Rightarrow> string \<Rightarrow> int \<Rightarrow> int \<Rightarrow> int \<Rightarrow> bool \<Rightarrow>
     asngn_err option \<Rightarrow> usage_ctx \<times> asngn_err option" where
  "operation_record api io ctx op state delta ti to known outcome =
     (case consumption_observe (uc_usage ctx) (operation_row op (state = ''reserved'') delta ti to known outcome)
             (op_reserve op) of
        None \<Rightarrow> (ctx, Some ERR_LIMIT)
      | Some next \<Rightarrow>
          (case operation_encode api op state delta ti to known outcome of
             None \<Rightarrow> (ctx\<lparr>uc_recovery := True\<rparr>, Some ERR_NOMEM)
           | Some text \<Rightarrow>
               (case jio_open_err io of
                  Some e \<Rightarrow> (ctx\<lparr>uc_recovery := True\<rparr>, Some e)
                | None \<Rightarrow>
                    (case wal_append (jio_size_ok io) (jio_append io) ((uc_log ctx)\<lparr>st_open := True\<rparr>) text of
                       (log', Some e) \<Rightarrow> (ctx\<lparr>uc_log := log', uc_recovery := True\<rparr>, Some e)
                     | (log', None) \<Rightarrow> (ctx\<lparr>uc_log := log', uc_usage := next\<rparr>, None)))))"

definition operation_text_ok :: "string \<Rightarrow> nat \<Rightarrow> bool" where
  "operation_text_ok s cap \<longleftrightarrow> s \<noteq> [] \<and> length s \<le> cap \<and> utf8_valid s"

definition operation_begin ::
    "'j json_api \<Rightarrow> nat \<Rightarrow> nat \<Rightarrow> journal_io \<Rightarrow> string \<Rightarrow> int \<Rightarrow> usage_ctx \<Rightarrow> string option \<Rightarrow> string option \<Rightarrow>
     string option \<Rightarrow> int \<Rightarrow> usage_ctx \<times> operation option \<times> asngn_err option" where
  "operation_begin api id_max request_max io random now ctx model kind request reserve =
     (case (model, kind) of
        (Some m, Some k) \<Rightarrow>
          if \<not> operation_text_ok m id_max \<or> \<not> operation_text_ok k 32 \<or> reserve < 0 \<or>
             (case request of None \<Rightarrow> False | Some r \<Rightarrow> \<not> operation_text_ok r request_max)
            then (ctx, None, Some ERR_INVALID)
          else
            let usage = consumption_roll (uc_usage ctx) (now sdiv 86400);
                ctx1 = ctx\<lparr>uc_usage := usage\<rparr>;
                op = \<lparr>op_id = uuid_v4 random, op_request = (case request of None \<Rightarrow> [] | Some r \<Rightarrow> r),
                      op_model = m, op_kind = k, op_reserve = reserve, op_day = utc_day usage, op_active = False\<rparr>;
                (ctx2, e) =
                  (if uc_recovery ctx then (ctx1, Some ERR_IO)
                   else if int OPERATIONS_MAX \<le> calls (lifetime usage) then (ctx1, Some ERR_LIMIT)
                   else if 0 < uc_daily ctx \<and> uc_daily ctx - charged_tokens (today usage) < reserve
                     then (ctx1, Some ERR_LIMIT)
                   else operation_record api io ctx1 op ''reserved'' reserve 0 0 False None)
            in (ctx2, Some (op\<lparr>op_active := (e = None)\<rparr>), e)
      | _ \<Rightarrow> (ctx, None, Some ERR_INVALID))"

definition operation_end ::
    "'j json_api \<Rightarrow> journal_io \<Rightarrow> int \<Rightarrow> usage_ctx \<Rightarrow> operation \<Rightarrow> int \<Rightarrow> int \<Rightarrow> bool \<Rightarrow> asngn_err option \<Rightarrow>
     usage_ctx \<times> operation \<times> asngn_err option" where
  "operation_end api io now ctx op ti to known outcome =
     (if \<not> op_active op \<or> ti < 0 \<or> to < 0 then (ctx, op, Some ERR_INVALID)
      else
        let delta = (if known then ti + to - op_reserve op else 0);
            op' = op\<lparr>op_active := False\<rparr> in
        if uc_recovery ctx then (ctx, op', Some ERR_IO)
        else
          let ctx1 = ctx\<lparr>uc_usage := consumption_roll (uc_usage ctx) (now sdiv 86400)\<rparr>;
              (ctx2, e) = operation_record api io ctx1 op' ''settled'' delta ti to known outcome in
          (if e \<noteq> None then ctx2\<lparr>uc_recovery := True\<rparr> else ctx2, op', e))"

section \<open>The codec reads its own records\<close>

text \<open>What an operation's strings have to satisfy; \<open>operation_begin\<close> checks it.\<close>

definition op_ok :: "nat \<Rightarrow> operation \<Rightarrow> bool" where
  "op_ok id_max op \<longleftrightarrow>
     uuid_valid (Some (op_id op)) \<and> length (op_id op) \<le> 36 \<and> no_nul (op_id op) \<and> op_id op \<noteq> [] \<and>
     op_model op \<noteq> [] \<and> length (op_model op) \<le> id_max \<and> no_nul (op_model op) \<and>
     op_kind op \<noteq> [] \<and> length (op_kind op) \<le> 32 \<and> no_nul (op_kind op) \<and>
     length (op_request op) \<le> 128 \<and> no_nul (op_request op) \<and>
     INT64_MIN sdiv 86400 \<le> op_day op \<and> op_day op \<le> INT64_MAX sdiv 86400"

definition op_identity_of :: "operation \<Rightarrow> string" where
  "op_identity_of op = op_identity [op_model op, op_kind op, op_request op]"

lemma operation_decode_written:
  assumes "operation_encode api op (if reserved then ''reserved'' else ''settled'') delta ti to known outcome = Some text"
    and "json_reads api text (op_fields op (if reserved then ''reserved'' else ''settled'') delta ti to known outcome)"
    and "op_ok id_max op" "length text \<le> 4096" "0 \<le> ti" "ti \<le> int INT_MAX" "0 \<le> to" "to \<le> int INT_MAX"
    and "reserved \<Longrightarrow> outcome = None"
  shows "operation_decode api id_max text =
    Ok ((operation_row op reserved delta ti to known outcome)\<lparr>rec_id := op_id op, rec_identity := op_identity_of op\<rparr>)"
proof -
  obtain v where v: "j_parse api text = Some v" "j_count api (Some v) = 12"
      "list_all (\<lambda>(k, s). scalar_reads api (j_get api (Some v) k) s)
        (op_fields op (if reserved then ''reserved'' else ''settled'') delta ti to known outcome)"
    using assms(2) by (auto simp: json_reads_def op_fields_def split: option.splits)
  have "operation_valid api id_max v =
    Some ((operation_row op reserved delta ti to known outcome)\<lparr>rec_id := op_id op, rec_identity := op_identity_of op\<rparr>)"
    using v(2,3) assms(3,5-) err_name_bounds [of outcome]
    by (auto simp: operation_valid_def op_fields_def scalar_reads_def op_string_def op_number_def op_ok_def
        operation_row_def op_identity_of_def no_nul_def Let_def)
  then show ?thesis using v(1) assms(4) by (simp add: operation_decode_def)
qed

text \<open>
  C36. The journal codec reads back what it writes: for an operation within the limits, decoding
  the text the JSON library wrote for its fields gives exactly the record, with the identity
  hash over model, kind and request.
\<close>

theorem operation_codec_round_trip:
  assumes "operation_encode api op (if reserved then ''reserved'' else ''settled'') delta ti to known outcome = Some text"
    and "json_reads api text (op_fields op (if reserved then ''reserved'' else ''settled'') delta ti to known outcome)"
    and "op_ok id_max op" "length text \<le> 4096" "0 \<le> ti" "ti \<le> int INT_MAX" "0 \<le> to" "to \<le> int INT_MAX"
    and "reserved \<Longrightarrow> outcome = None"
  shows "operation_decode api id_max text =
    Ok ((operation_row op reserved delta ti to known outcome)\<lparr>rec_id := op_id op, rec_identity := op_identity_of op\<rparr>)"
  using operation_decode_written [OF assms] .

definition sample_operation :: operation where
  "sample_operation =
     \<lparr>op_id = ''00000000-0000-4000-8000-000000000000'', op_request = [], op_model = ''m'', op_kind = ''chat'',
      op_reserve = 10, op_day = 20000, op_active = True\<rparr>"

theorem operation_codec_round_trip_witness:
  "operation_decode (fixed_api ''{}'' (op_fields sample_operation ''settled'' 5 7 8 True None)) 128 ''{}'' =
    Ok ((operation_row sample_operation False 5 7 8 True None)\<lparr>rec_id := op_id sample_operation,
      rec_identity := op_identity_of sample_operation\<rparr>)"
proof (rule operation_codec_round_trip [where reserved = False, simplified if_False])
  let ?fs = "op_fields sample_operation ''settled'' 5 7 8 True None"
  have "distinct (map fst ?fs)" by (simp add: op_fields_def)
  then show "operation_encode (fixed_api ''{}'' ?fs) sample_operation ''settled'' 5 7 8 True None = Some ''{}''"
      "json_reads (fixed_api ''{}'' ?fs) ''{}'' ?fs"
    using fixed_api_reads [of ?fs "''{}''"] by (simp_all add: operation_encode_def)
  show "op_ok 128 sample_operation" by code_simp
qed (simp_all add: INT_MAX_def)

section \<open>Replay refines a map of reservations\<close>

type_synonym ledger = "(string \<Rightarrow> reservation option) \<times> nat \<times> consumption"

definition spec_row :: "ledger \<Rightarrow> op_record \<Rightarrow> ledger outcome" where
  "spec_row l row =
     (case l of (m, n, u) \<Rightarrow>
        if rec_reserved row then
          (if OPERATIONS_MAX \<le> n then Err ERR_LIMIT
           else if m (rec_id row) \<noteq> None \<or> rec_delta row < 0 \<or> rec_known row \<or> rec_input row \<noteq> 0 \<or> rec_output row \<noteq> 0
             then Err ERR_PARSE
           else case consumption_observe u row (rec_delta row) of
             None \<Rightarrow> Err ERR_PARSE
           | Some u' \<Rightarrow> Ok (m(rec_id row \<mapsto> \<lparr>rv_id = rec_id row, rv_identity = rec_identity row, rv_day = rec_day row,
                                rv_reserved = rec_delta row, rv_settled = False\<rparr>), n + 1, u'))
        else
          (case m (rec_id row) of
             None \<Rightarrow> Err ERR_PARSE
           | Some r \<Rightarrow>
               if rv_settled r \<or> rv_day r \<noteq> rec_day row \<or> rv_identity r \<noteq> rec_identity row \<or>
                  rec_delta row \<noteq> (if rec_known row then rec_input row + rec_output row - rv_reserved r else 0)
                 then Err ERR_PARSE
               else case consumption_observe u row (rv_reserved r) of
                 None \<Rightarrow> Err ERR_PARSE
               | Some u' \<Rightarrow> Ok (m(rec_id row \<mapsto> r\<lparr>rv_settled := True\<rparr>), n, u')))"

definition ledger_of :: "replay_state \<Rightarrow> ledger" where
  "ledger_of p = (table_map (rp_table p), rp_count p, rp_usage p)"

definition clean_slots :: "reservation list \<Rightarrow> bool" where
  "clean_slots t \<longleftrightarrow> (\<forall>r \<in> set t. rv_id r = [] \<longrightarrow> r = empty_slot)"

definition replay_ok :: "replay_state \<Rightarrow> bool" where
  "replay_ok p \<longleftrightarrow>
     (if rp_table p = [] then rp_count p = 0
      else table_ok (rp_table p) \<and> clean_slots (rp_table p) \<and> 256 \<le> length (rp_table p) \<and>
        card (used (rp_table p)) \<le> rp_count p \<and> rp_count p \<le> length (rp_table p) div 2)"

lemma table_map_none [simp]: "table_map [] = Map.empty"
  by (rule ext) (simp add: table_map_def)

lemma clean_put: "clean_slots t \<Longrightarrow> rv_id r \<noteq> [] \<Longrightarrow> clean_slots (table_put t r)"
  using set_update_subset_insert [of t "slot_for t (rv_id r)" r] by (auto simp: clean_slots_def table_put_def)

lemma clean_grow: "clean_slots (table_grow t)"
proof -
  have "clean_slots (foldl table_put s rs)" if "clean_slots s" "list_all (\<lambda>r. rv_id r \<noteq> []) rs" for s rs
    using that by (induction rs arbitrary: s) (simp_all add: clean_put)
  moreover have "clean_slots (replicate n empty_slot)" for n by (auto simp: clean_slots_def)
  ultimately show ?thesis by (simp add: table_grow_def Let_def list_all_iff)
qed

text \<open>Making room leaves the ledger as it was and a table that is less than half full.\<close>

definition make_room :: "replay_state \<Rightarrow> op_record \<Rightarrow> replay_state" where
  "make_room p row =
     (if rec_reserved row \<and> length (rp_table p) div 2 \<le> rp_count p
      then p\<lparr>rp_table := table_grow (rp_table p)\<rparr> else p)"

lemma make_room_ok:
  assumes "replay_ok p"
  shows "replay_ok (make_room p row)" "ledger_of (make_room p row) = ledger_of p"
    "rec_reserved row \<Longrightarrow> rp_table (make_room p row) \<noteq> [] \<and>
       rp_count (make_room p row) < length (rp_table (make_room p row)) div 2"
proof -
  have grow: "table_ok (table_grow (rp_table p)) \<and> table_map (table_grow (rp_table p)) = table_map (rp_table p) \<and>
    length (table_grow (rp_table p)) = (if rp_table p = [] then 256 else 2 * length (rp_table p)) \<and>
    card (used (table_grow (rp_table p))) \<le> card (used (rp_table p))"
    by (rule table_grow) (use assms in \<open>auto simp: replay_ok_def split: if_splits\<close>)
  have ne: "table_grow (rp_table p) \<noteq> []" using grow by (auto split: if_splits)
  show "replay_ok (make_room p row)"
    using assms grow ne clean_grow [of "rp_table p"]
    by (auto simp: replay_ok_def make_room_def used_def split: if_splits)
  show "ledger_of (make_room p row) = ledger_of p" using grow by (simp add: ledger_of_def make_room_def)
  show "rec_reserved row \<Longrightarrow> rp_table (make_room p row) \<noteq> [] \<and>
       rp_count (make_room p row) < length (rp_table (make_room p row)) div 2"
    using assms grow ne by (auto simp: replay_ok_def make_room_def split: if_splits)
qed

lemma slot_lookup:
  assumes "replay_ok p" "rp_table p \<noteq> []" "key \<noteq> []"
  defines "r \<equiv> rp_table p ! slot_for (rp_table p) key"
  shows "(rv_id r = [] \<longleftrightarrow> table_map (rp_table p) key = None) \<and> (rv_id r = [] \<longrightarrow> r = empty_slot) \<and>
    (rv_id r \<noteq> [] \<longrightarrow> table_map (rp_table p) key = Some r \<and> rv_id r = key)"
  using assms table_slot [of "rp_table p" key]
  by (auto simp: table_map_def replay_ok_def clean_slots_def)

lemma replay_put:
  assumes "replay_ok p" "rp_table p \<noteq> []" "rv_id r \<noteq> []" "n = rp_count p \<or> (n = rp_count p + 1 \<and> n \<le> length (rp_table p) div 2)"
    and "n = rp_count p \<Longrightarrow> table_map (rp_table p) (rv_id r) \<noteq> None"
  shows "replay_ok (p\<lparr>rp_table := table_put (rp_table p) r, rp_count := n\<rparr>)"
    "table_map (table_put (rp_table p) r) = (table_map (rp_table p))(rv_id r \<mapsto> r)"
proof -
  have p: "table_ok (rp_table p)" "clean_slots (rp_table p)" "256 \<le> length (rp_table p)"
      "card (used (rp_table p)) \<le> rp_count p" "rp_count p \<le> length (rp_table p) div 2"
    using assms(1,2) by (simp_all add: replay_ok_def)
  have room: "card (used (rp_table p)) + 1 < length (rp_table p)" using p by linarith
  have "card (used (table_put (rp_table p) r)) \<le> n"
  proof (cases "n = rp_count p")
    case True
    then have "slot_for (rp_table p) (rv_id r) \<in> used (rp_table p)"
      using assms(2,5) table_slot [OF p(1), of "rv_id r"] by (auto simp: table_map_def used_def split: if_splits)
    then have "used (table_put (rp_table p) r) = used (rp_table p)"
      using used_put [of "rp_table p" r] table_slot [OF p(1), of "rv_id r"] assms(3) by auto
    then show ?thesis using p True by simp
  next
    case False
    then show ?thesis using card_used_put [OF p(1) assms(3)] assms(4) p by linarith
  qed
  then show "replay_ok (p\<lparr>rp_table := table_put (rp_table p) r, rp_count := n\<rparr>)"
    using p assms(2,4) table_ok_put [OF p(1) assms(3) room] clean_put [OF p(2) assms(3)]
    by (auto simp: replay_ok_def table_put_def)
  show "table_map (table_put (rp_table p) r) = (table_map (rp_table p))(rv_id r \<mapsto> r)"
    by (rule table_map_put) fact+
qed

text \<open>The replayed record, once the table has room.\<close>

definition store_row :: "replay_state \<Rightarrow> reservation \<Rightarrow> nat \<Rightarrow> op_record \<Rightarrow> replay_state \<times> asngn_err option" where
  "store_row p r' n row =
     (let p' = p\<lparr>rp_table := (rp_table p)[slot_for (rp_table p) (rec_id row) := r'], rp_count := n\<rparr> in
      case consumption_observe (rp_usage p') row (rv_reserved r') of
        None \<Rightarrow> (p', Some ERR_PARSE)
      | Some u \<Rightarrow> (p'\<lparr>rp_usage := u\<rparr>, None))"

lemma observe_row_alt:
  "observe_row p0 row =
     (if rec_reserved row \<and> OPERATIONS_MAX \<le> rp_count p0 then (p0, Some ERR_LIMIT)
      else
        let p = make_room p0 row in
        if rp_table p = [] then (p, Some ERR_PARSE)
        else
          let r = rp_table p ! slot_for (rp_table p) (rec_id row) in
          if rec_reserved row then
            (if rv_id r \<noteq> [] \<or> rec_delta row < 0 \<or> rec_known row \<or> rec_input row \<noteq> 0 \<or> rec_output row \<noteq> 0
               then (p, Some ERR_PARSE)
             else store_row p (r\<lparr>rv_id := rec_id row, rv_identity := rec_identity row, rv_day := rec_day row,
                             rv_reserved := rec_delta row\<rparr>) (rp_count p + 1) row)
          else
            (if rv_id r = [] \<or> rv_settled r \<or> rv_day r \<noteq> rec_day row \<or> rv_identity r \<noteq> rec_identity row \<or>
                rec_delta row \<noteq> (if rec_known row then rec_input row + rec_output row - rv_reserved r else 0)
               then (p, Some ERR_PARSE)
             else store_row p (r\<lparr>rv_settled := True\<rparr>) (rp_count p) row))"
  by (simp add: observe_row_def store_row_def make_room_def Let_def)

lemma store_row_refines:
  assumes "replay_ok p" "rp_table p \<noteq> []" "rv_id r = rec_id row" "rec_id row \<noteq> []"
    and "n = rp_count p \<or> (n = rp_count p + 1 \<and> n \<le> length (rp_table p) div 2)"
    and "n = rp_count p \<Longrightarrow> table_map (rp_table p) (rec_id row) \<noteq> None"
  shows "case store_row p r n row of (p', e) \<Rightarrow> replay_ok p' \<and>
    (case consumption_observe (rp_usage p) row (rv_reserved r) of
       None \<Rightarrow> e = Some ERR_PARSE
     | Some u \<Rightarrow> e = None \<and> ledger_of p' = ((table_map (rp_table p))(rec_id row \<mapsto> r), n, u))"
proof -
  have eq: "(rp_table p)[slot_for (rp_table p) (rec_id row) := r] = table_put (rp_table p) r"
    using assms(3) by (simp add: table_put_def)
  have put: "replay_ok (p\<lparr>rp_table := table_put (rp_table p) r, rp_count := n\<rparr>)"
    "table_map (table_put (rp_table p) r) = (table_map (rp_table p))(rec_id row \<mapsto> r)"
    using replay_put [OF assms(1,2), of r n] assms(3-) by simp_all
  have "replay_ok (q\<lparr>rp_usage := u\<rparr>) = replay_ok q" for q u by (simp add: replay_ok_def)
  then show ?thesis using put unfolding store_row_def eq
    by (auto simp: Let_def ledger_of_def split: option.split)
qed

lemma observe_row_refines:
  assumes "replay_ok p" "rec_id row \<noteq> []"
  shows "case observe_row p row of (p', e) \<Rightarrow> replay_ok p' \<and>
    (case spec_row (ledger_of p) row of
       Err err \<Rightarrow> e = Some err
     | Ok l \<Rightarrow> e = None \<and> ledger_of p' = l)"
proof -
  define q where "q = make_room p row"
  have q: "replay_ok q" "ledger_of q = ledger_of p"
    "rec_reserved row \<Longrightarrow> rp_table q \<noteq> [] \<and> rp_count q < length (rp_table q) div 2"
    using make_room_ok [OF assms(1), of row] by (simp_all add: q_def)
  have eqs: "table_map (rp_table p) = table_map (rp_table q)" "rp_count p = rp_count q" "rp_usage p = rp_usage q"
    using q(2) by (simp_all add: ledger_of_def)
  show ?thesis
  proof (cases "rp_table q = []")
    case True
    moreover from this have "\<not> rec_reserved row" using q(3) by auto
    ultimately show ?thesis using q assms by (simp add: observe_row_alt q_def [symmetric] spec_row_def ledger_of_def eqs)
  next
    case False
    define r where "r = rp_table q ! slot_for (rp_table q) (rec_id row)"
    note slot = slot_lookup [OF q(1) False assms(2), folded r_def]
    show ?thesis
    proof (cases "rec_reserved row")
      case True
      let ?r = "r\<lparr>rv_id := rec_id row, rv_identity := rec_identity row, rv_day := rec_day row, rv_reserved := rec_delta row\<rparr>"
      have "case store_row q ?r (rp_count q + 1) row of (p', e) \<Rightarrow> replay_ok p' \<and>
        (case consumption_observe (rp_usage q) row (rv_reserved ?r) of
           None \<Rightarrow> e = Some ERR_PARSE
         | Some u \<Rightarrow> e = None \<and> ledger_of p' = ((table_map (rp_table q))(rec_id row \<mapsto> ?r), rp_count q + 1, u))"
        by (rule store_row_refines [OF q(1) False _ assms(2)]) (use q(3) [OF True] in auto)
      moreover define bad where "bad \<longleftrightarrow> rec_delta row < 0 \<or> rec_known row \<or> rec_input row \<noteq> 0 \<or> rec_output row \<noteq> 0"
      moreover have "observe_row p row = (if OPERATIONS_MAX \<le> rp_count q then (p, Some ERR_LIMIT)
          else if rv_id r \<noteq> [] \<or> bad then (q, Some ERR_PARSE) else store_row q ?r (rp_count q + 1) row)"
        using True False by (simp add: observe_row_alt q_def [symmetric] r_def [symmetric] eqs bad_def Let_def)
      moreover have "spec_row (ledger_of p) row = (if OPERATIONS_MAX \<le> rp_count q then Err ERR_LIMIT
          else if rv_id r \<noteq> [] \<or> bad then Err ERR_PARSE
          else case consumption_observe (rp_usage q) row (rec_delta row) of
             None \<Rightarrow> Err ERR_PARSE
           | Some u' \<Rightarrow> Ok ((table_map (rp_table q))(rec_id row \<mapsto> ?r), rp_count q + 1, u'))"
      proof (cases "rv_id r = []")
        case True
        then have "table_map (rp_table q) (rec_id row) = None" "r = empty_slot" using slot by blast+
        then show ?thesis using \<open>rec_reserved row\<close> True
          by (simp add: spec_row_def ledger_of_def eqs bad_def empty_slot_def split: option.split)
      next
        case False
        then have "table_map (rp_table q) (rec_id row) = Some r" using slot by blast
        then show ?thesis using \<open>rec_reserved row\<close> False by (simp add: spec_row_def ledger_of_def eqs)
      qed
      ultimately show ?thesis using assms(1) q(1) by (auto split: option.splits)
    next
      case settle: False
      let ?r = "r\<lparr>rv_settled := True\<rparr>"
      have "case store_row q ?r (rp_count q) row of (p', e) \<Rightarrow> replay_ok p' \<and>
        (case consumption_observe (rp_usage q) row (rv_reserved ?r) of
           None \<Rightarrow> e = Some ERR_PARSE
         | Some u \<Rightarrow> e = None \<and> ledger_of p' = ((table_map (rp_table q))(rec_id row \<mapsto> ?r), rp_count q, u))"
        if "rv_id r \<noteq> []"
        by (rule store_row_refines [OF q(1) False _ assms(2)]) (use slot that in auto)
      moreover define bad where "bad \<longleftrightarrow> rv_settled r \<or> rv_day r \<noteq> rec_day row \<or> rv_identity r \<noteq> rec_identity row \<or>
        rec_delta row \<noteq> (if rec_known row then rec_input row + rec_output row - rv_reserved r else 0)"
      moreover have "observe_row p row = (if rv_id r = [] \<or> bad then (q, Some ERR_PARSE) else store_row q ?r (rp_count q) row)"
        using settle False by (simp add: observe_row_alt q_def [symmetric] r_def [symmetric] bad_def Let_def)
      moreover have "spec_row (ledger_of p) row = (if rv_id r = [] \<or> bad then Err ERR_PARSE
          else case consumption_observe (rp_usage q) row (rv_reserved r) of
             None \<Rightarrow> Err ERR_PARSE
           | Some u' \<Rightarrow> Ok ((table_map (rp_table q))(rec_id row \<mapsto> ?r), rp_count q, u'))"
      proof (cases "rv_id r = []")
        case True
        then have "table_map (rp_table q) (rec_id row) = None" using slot by blast
        then show ?thesis using settle True by (simp add: spec_row_def ledger_of_def eqs)
      next
        case False
        then have "table_map (rp_table q) (rec_id row) = Some r" using slot by blast
        then show ?thesis using settle False by (simp add: spec_row_def ledger_of_def eqs bad_def)
      qed
      ultimately show ?thesis using assms(1) q(1) by (auto split: option.splits)
    qed
  qed
qed

section \<open>What a replayed journal accounts for\<close>

definition open_ids :: "(string \<Rightarrow> reservation option) \<Rightarrow> string set" where
  "open_ids m = {key. \<exists>r. m key = Some r \<and> \<not> rv_settled r}"

definition open_tokens :: "(string \<Rightarrow> reservation option) \<Rightarrow> int" where
  "open_tokens m = (\<Sum>key \<in> open_ids m. rv_reserved (the (m key)))"

text \<open>The totals are those of the reservations: calls counts them, the unsettled ones are the
  open ones with the tokens they reserve.\<close>

definition accounts_for :: "consumption \<Rightarrow> (string \<Rightarrow> reservation option) \<Rightarrow> bool" where
  "accounts_for u m \<longleftrightarrow>
     finite (dom m) \<and> balanced_usage u \<and> calls (lifetime u) = int (card (dom m)) \<and>
     unsettled_calls (lifetime u) = int (card (open_ids m)) \<and> unsettled_tokens (lifetime u) = open_tokens m"

lemma open_ids_dom: "open_ids m \<subseteq> dom m"
  by (auto simp: open_ids_def)

lemma open_ids_reserve: "m key = None \<Longrightarrow> \<not> rv_settled r \<Longrightarrow> open_ids (m(key \<mapsto> r)) = insert key (open_ids m)"
  and open_ids_settle: "rv_settled r \<Longrightarrow> open_ids (m(key \<mapsto> r)) = open_ids m - {key}"
  by (auto simp: open_ids_def)

lemma open_tokens_other:
  "open_ids m' = A \<Longrightarrow> (\<And>k. k \<in> A \<Longrightarrow> m' k = m k) \<Longrightarrow> open_tokens m' = (\<Sum>k \<in> A. rv_reserved (the (m k)))"
  by (simp add: open_tokens_def)

lemma consumption_observe_lifetime:
  "consumption_observe u row reserved = Some u' \<Longrightarrow> observe_totals (lifetime u) row reserved = Some (lifetime u')"
  by (auto simp: consumption_observe_def consumption_roll_def Let_def split: option.splits if_splits)

lemma consumption_observe_today:
  "consumption_observe u row reserved = Some u' \<Longrightarrow> utc_day u = rec_day row \<Longrightarrow>
   observe_totals (today u) row reserved = Some (today u')"
  by (auto simp: consumption_observe_def consumption_roll_def Let_def split: option.splits if_splits)

lemma accounts_spec_row:
  assumes "accounts_for u m" "0 \<le> rec_input row" "0 \<le> rec_output row" "spec_row (m, n, u) row = Ok (m', n', u')"
  shows "accounts_for u' m'"
proof (cases "rec_reserved row")
  case True
  let ?key = "rec_id row"
  let ?r = "\<lparr>rv_id = ?key, rv_identity = rec_identity row, rv_day = rec_day row,
    rv_reserved = rec_delta row, rv_settled = False\<rparr>"
  from True assms(4) have new: "m ?key = None" "m' = m(?key \<mapsto> ?r)" "consumption_observe u row (rec_delta row) = Some u'"
    by (auto simp: spec_row_def split: if_splits option.splits)
  have fin: "finite (open_ids m)" using assms(1) open_ids_dom [of m] finite_subset by (auto simp: accounts_for_def)
  have notin: "?key \<notin> open_ids m" using new(1) by (simp add: open_ids_def)
  have ids: "open_ids m' = insert ?key (open_ids m)" using open_ids_reserve [of m ?key ?r] new(1,2) by simp
  have tokens: "open_tokens m' = open_tokens m + rec_delta row"
  proof -
    have "open_tokens m' = (\<Sum>k \<in> insert ?key (open_ids m). rv_reserved (the (m' k)))" unfolding open_tokens_def ids ..
    also have "\<dots> = rec_delta row + (\<Sum>k \<in> open_ids m. rv_reserved (the (m' k)))" using fin notin new(2) by simp
    also have "(\<Sum>k \<in> open_ids m. rv_reserved (the (m' k))) = open_tokens m"
      unfolding open_tokens_def by (rule sum.cong) (use notin new(2) in auto)
    finally show ?thesis by simp
  qed
  have "balanced_usage u'"
    by (rule consumption_observe_balanced [OF _ _ new(3)]) (use assms True in \<open>auto simp: accounts_for_def sound_row_def\<close>)
  then show ?thesis
    using assms(1) observe_effect(2,3,4) [OF consumption_observe_lifetime [OF new(3)]] True tokens ids fin notin new(1,2)
    by (simp add: accounts_for_def card_insert_if domIff)
next
  case False
  let ?key = "rec_id row"
  from False assms(4) obtain r where r: "m ?key = Some r" "\<not> rv_settled r" "m' = m(?key \<mapsto> r\<lparr>rv_settled := True\<rparr>)"
      "consumption_observe u row (rv_reserved r) = Some u'"
      "rec_delta row = (if rec_known row then rec_input row + rec_output row - rv_reserved r else 0)"
    by (auto simp: spec_row_def split: if_splits option.splits)
  have fin: "finite (open_ids m)" using assms(1) open_ids_dom [of m] finite_subset by (auto simp: accounts_for_def)
  have mem: "?key \<in> open_ids m" using r(1,2) by (simp add: open_ids_def)
  have ids: "open_ids m' = open_ids m - {?key}" unfolding r(3) by (rule open_ids_settle) simp
  have tokens: "open_tokens m' = open_tokens m - rv_reserved r"
  proof -
    have "open_tokens m' = (\<Sum>k \<in> open_ids m - {?key}. rv_reserved (the (m' k)))" unfolding open_tokens_def ids ..
    also have "\<dots> = (\<Sum>k \<in> open_ids m - {?key}. rv_reserved (the (m k)))"
      by (rule sum.cong) (use r(3) in auto)
    also have "\<dots> = open_tokens m - rv_reserved r" using fin mem r(1) by (simp add: open_tokens_def sum_diff1)
    finally show ?thesis .
  qed
  have "balanced_usage u'"
    by (rule consumption_observe_balanced [OF _ _ r(4)]) (use assms False r(5) in \<open>auto simp: accounts_for_def sound_row_def\<close>)
  moreover have "0 < card (open_ids m)" using fin mem card_gt_0_iff by blast
  moreover have "dom m' = dom m" using r(1,3) by auto
  ultimately show ?thesis
    using assms(1) observe_effect(2,3,4) [OF consumption_observe_lifetime [OF r(4)]] False tokens ids fin mem
    by (simp add: accounts_for_def card_Diff_singleton of_nat_diff)
qed

section \<open>The books of a journal\<close>

text \<open>What the records of a journal say by themselves.  The totals counted from the records alone:\<close>

definition tallied :: "totals \<Rightarrow> op_record list \<Rightarrow> bool" where
  "tallied v rows \<longleftrightarrow>
     (let settled = filter (\<lambda>r. \<not> rec_reserved r) rows; known = filter rec_known settled in
      calls v = int (length (filter rec_reserved rows)) \<and>
      unsettled_calls v = int (length (filter rec_reserved rows)) - int (length settled) \<and>
      unknown_calls v = int (length settled) - int (length known) \<and>
      cancelled_calls v = int (length (filter (\<lambda>r. rec_outcome r = Some ERR_CANCELLED) settled)) \<and>
      failed_calls v = int (length (filter (\<lambda>r. rec_outcome r \<noteq> None \<and> rec_outcome r \<noteq> Some ERR_CANCELLED) settled)) \<and>
      known_input_tokens v = sum_list (map rec_input known) \<and>
      known_output_tokens v = sum_list (map rec_output known) \<and>
      charged_tokens v = sum_list (map rec_delta rows))"

text \<open>The reservation an operation holds, if it ever made one, and whether it was settled:\<close>

definition reservation_of :: "op_record list \<Rightarrow> string \<Rightarrow> reservation option" where
  "reservation_of rows key =
     map_option (\<lambda>r. \<lparr>rv_id = key, rv_identity = rec_identity r, rv_day = rec_day r, rv_reserved = rec_delta r,
         rv_settled = list_ex (\<lambda>s. \<not> rec_reserved s \<and> rec_id s = key) rows\<rparr>)
       (find (\<lambda>r. rec_reserved r \<and> rec_id r = key) rows)"

text \<open>And that the records are in order: an operation is reserved once, and settled at most once,
  after its reservation, for the same day and the same request, at the difference to its reservation.\<close>

definition row_in_order :: "op_record list \<Rightarrow> op_record \<Rightarrow> bool" where
  "row_in_order before row \<longleftrightarrow>
     (if rec_reserved row then reservation_of before (rec_id row) = None \<and> 0 \<le> rec_delta row
      else case reservation_of before (rec_id row) of
        None \<Rightarrow> False
      | Some r \<Rightarrow> \<not> rv_settled r \<and> rv_day r = rec_day row \<and> rv_identity r = rec_identity row \<and>
          rec_delta row = (if rec_known row then rec_input row + rec_output row - rv_reserved r else 0))"

definition in_order :: "op_record list \<Rightarrow> bool" where
  "in_order rows \<longleftrightarrow> (\<forall>i < length rows. row_in_order (take i rows) (rows ! i))"

lemma in_order_snoc: "in_order (rows @ [row]) \<longleftrightarrow> in_order rows \<and> row_in_order rows row"
  by (auto simp: in_order_def nth_append less_Suc_eq)

lemma tallied_none [simp]: "tallied zero_totals []"
  by (simp add: tallied_def zero_totals_def)

lemma tallied_snoc:
  assumes "tallied v rows" "observe_totals v row reserved = Some w"
  shows "tallied w (rows @ [row])"
  using assms(2)
proof (cases rule: observe_totals_cases)
  case reserve
  then show ?thesis using assms(1) by (simp add: tallied_def Let_def)
next
  case (settle v1 v2)
  show ?thesis
    using settle(1) assms(1) unfolding settle(3-5)
    by (cases "rec_known row"; cases "rec_outcome row") (simp_all add: tallied_def Let_def)
qed

lemma find_snoc: "find P (xs @ [x]) = (case find P xs of None \<Rightarrow> if P x then Some x else None | Some y \<Rightarrow> Some y)"
  by (induction xs) auto

lemma reservation_of_other: "rec_id row \<noteq> key \<Longrightarrow> reservation_of (rows @ [row]) key = reservation_of rows key"
  by (simp add: reservation_of_def find_snoc split: option.split)

lemma reservation_of_settle:
  "\<not> rec_reserved row \<Longrightarrow> reservation_of rows (rec_id row) = Some r \<Longrightarrow>
   reservation_of (rows @ [row]) = (reservation_of rows)(rec_id row \<mapsto> r\<lparr>rv_settled := True\<rparr>)"
proof
  fix key
  assume row: "\<not> rec_reserved row" "reservation_of rows (rec_id row) = Some r"
  show "reservation_of (rows @ [row]) key = ((reservation_of rows)(rec_id row \<mapsto> r\<lparr>rv_settled := True\<rparr>)) key"
  proof (cases "key = rec_id row")
    case True
    then show ?thesis using row by (auto simp: reservation_of_def find_snoc split: option.split)
  next
    case False
    then show ?thesis by (simp add: reservation_of_other)
  qed
qed

text \<open>In a journal that is in order, every settlement has its reservation.\<close>

lemma find_none_all: "find P xs = None \<longleftrightarrow> (\<forall>x \<in> set xs. \<not> P x)"
  by (induction xs) auto

lemma reservation_of_mono: "reservation_of rows key \<noteq> None \<Longrightarrow> reservation_of (rows @ [row]) key \<noteq> None"
  by (auto simp: reservation_of_def find_snoc split: option.splits)

lemma in_order_settled:
  "in_order rows \<Longrightarrow> s \<in> set rows \<Longrightarrow> \<not> rec_reserved s \<Longrightarrow> reservation_of rows (rec_id s) \<noteq> None"
proof (induction rows rule: rev_induct)
  case (snoc row rows)
  show ?case
  proof (cases "s = row")
    case True
    then have "reservation_of rows (rec_id s) \<noteq> None"
      using snoc.prems by (auto simp: in_order_snoc row_in_order_def split: option.splits)
    then show ?thesis by (rule reservation_of_mono)
  next
    case False
    then have "reservation_of rows (rec_id s) \<noteq> None" using snoc by (simp add: in_order_snoc del: not_None_eq)
    then show ?thesis by (rule reservation_of_mono)
  qed
qed simp

lemma reservation_of_reserve:
  assumes "in_order rows" "rec_reserved row" "reservation_of rows (rec_id row) = None"
  shows "reservation_of (rows @ [row]) = (reservation_of rows)(rec_id row \<mapsto> \<lparr>rv_id = rec_id row,
    rv_identity = rec_identity row, rv_day = rec_day row, rv_reserved = rec_delta row, rv_settled = False\<rparr>)"
proof
  fix key
  have "\<not> list_ex (\<lambda>s. \<not> rec_reserved s \<and> rec_id s = rec_id row) rows"
    using in_order_settled [OF assms(1)] assms(3) unfolding list_ex_iff by metis
  moreover have "find (\<lambda>r. rec_reserved r \<and> rec_id r = rec_id row) rows = None"
    using assms(3) by (simp add: reservation_of_def)
  ultimately show "reservation_of (rows @ [row]) key = ((reservation_of rows)(rec_id row \<mapsto> \<lparr>rv_id = rec_id row,
    rv_identity = rec_identity row, rv_day = rec_day row, rv_reserved = rec_delta row, rv_settled = False\<rparr>)) key"
    using assms(2) by (cases "key = rec_id row") (simp_all add: reservation_of_other, simp add: reservation_of_def find_snoc)
qed

lemma spec_row_books:
  assumes "spec_row (reservation_of rows, n, u) row = Ok (m', n', u')" "in_order rows"
  shows "m' = reservation_of (rows @ [row])" "in_order (rows @ [row])"
proof -
  have "m' = reservation_of (rows @ [row]) \<and> in_order (rows @ [row])"
  proof (cases "rec_reserved row")
    case True
    then show ?thesis
      using assms reservation_of_reserve [OF assms(2) True]
      by (auto simp: spec_row_def in_order_snoc row_in_order_def split: if_splits option.splits)
  next
    case False
    then show ?thesis
      using assms reservation_of_settle [OF False]
      by (auto simp: spec_row_def in_order_snoc row_in_order_def split: if_splits option.splits)
  qed
  then show "m' = reservation_of (rows @ [row])" "in_order (rows @ [row])" by blast+
qed

lemma spec_row_observes: "spec_row (m, n, u) row = Ok (m', n', u') \<Longrightarrow> \<exists>reserved. consumption_observe u row reserved = Some u'"
  by (auto simp: spec_row_def split: if_splits option.splits)

text \<open>The totals of a day that started at the clock's: its own records, whatever came before or after.\<close>

definition day_of :: "int \<Rightarrow> op_record list \<Rightarrow> int" where
  "day_of start rows = foldl max start (map rec_day rows)"

definition of_day :: "int \<Rightarrow> op_record list \<Rightarrow> op_record list" where
  "of_day day rows = filter (\<lambda>r. rec_day r = day) rows"

definition books :: "int \<Rightarrow> consumption \<Rightarrow> op_record list \<Rightarrow> bool" where
  "books start u rows \<longleftrightarrow>
     in_order rows \<and> tallied (lifetime u) rows \<and> utc_day u = day_of start rows \<and>
     tallied (today u) (of_day (utc_day u) rows) \<and>
     accounts_for u (reservation_of rows)"

lemma day_of_ge: "r \<in> set rows \<Longrightarrow> rec_day r \<le> day_of start rows"
  by (induction rows rule: rev_induct) (auto simp: day_of_def)

lemma consumption_observe_day:
  assumes "consumption_observe u row reserved = Some u'"
  shows "utc_day u' = max (utc_day u) (rec_day row)"
    "utc_day u < rec_day row \<Longrightarrow> observe_totals zero_totals row reserved = Some (today u')"
    "rec_day row < utc_day u \<Longrightarrow> today u' = today u"
  using assms by (auto simp: consumption_observe_def consumption_roll_def Let_def split: option.splits if_splits)

lemma books_snoc:
  assumes "books start u rows" "spec_row (reservation_of rows, n, u) row = Ok (m', n', u')"
    and "0 \<le> rec_input row" "0 \<le> rec_output row"
  shows "books start u' (rows @ [row])" "m' = reservation_of (rows @ [row])"
proof -
  have b: "in_order rows" "tallied (lifetime u) rows" "utc_day u = day_of start rows"
    "tallied (today u) (of_day (utc_day u) rows)" "accounts_for u (reservation_of rows)"
    using assms(1) unfolding books_def by blast+
  obtain reserved where obs: "consumption_observe u row reserved = Some u'" using spec_row_observes [OF assms(2)] by blast
  note day = consumption_observe_day [OF obs]
  show m': "m' = reservation_of (rows @ [row])" by (rule spec_row_books(1) [OF assms(2) b(1)])
  have "tallied (lifetime u') (rows @ [row])" by (rule tallied_snoc [OF b(2) consumption_observe_lifetime [OF obs]])
  moreover have "utc_day u' = day_of start (rows @ [row])" using day(1) b(3) by (simp add: day_of_def)
  moreover have "tallied (today u') (of_day (utc_day u') (rows @ [row]))"
  proof (cases "utc_day u" "rec_day row" rule: linorder_cases)
    case less
    have "rec_day r \<noteq> rec_day row" if "r \<in> set rows" for r using day_of_ge [OF that, of start] b(3) less by simp
    then have "of_day (rec_day row) rows = []" by (auto simp: of_day_def filter_empty_conv)
    then show ?thesis using tallied_snoc [OF tallied_none day(2) [OF less]] day(1) less by (simp add: of_day_def)
  next
    case equal
    then show ?thesis using tallied_snoc [OF b(4) consumption_observe_today [OF obs equal]] day(1) by (simp add: of_day_def)
  next
    case greater
    then show ?thesis using b(4) day(1,3) by (simp add: of_day_def)
  qed
  ultimately show "books start u' (rows @ [row])"
    using spec_row_books(2) [OF assms(2) b(1)] accounts_spec_row [OF b(5) assms(3,4,2)] m' by (simp add: books_def)
qed

lemma operation_valid_bounds:
  "operation_valid api id_max v = Some row \<Longrightarrow> rec_id row \<noteq> [] \<and> 0 \<le> rec_input row \<and> 0 \<le> rec_output row"
proof -
  assume "operation_valid api id_max v = Some row"
  then obtain key where "op_string api (Some v) ''id'' 36 False = Some key" "rec_id row = key"
      "0 \<le> rec_input row" "0 \<le> rec_output row"
    by (auto simp: operation_valid_def Let_def bind_eq_Some_conv split: if_split_asm)
  then show ?thesis by (auto simp: op_string_def split: option.splits if_splits)
qed

lemma operation_observe_books:
  assumes "replay_ok p" "books start (rp_usage p) rows" "table_map (rp_table p) = reservation_of rows"
    and "operation_observe api id_max p tx = (p', None)"
  obtains row where "operation_decode api id_max tx = Ok row" "replay_ok p'" "books start (rp_usage p') (rows @ [row])"
    "table_map (rp_table p') = reservation_of (rows @ [row])"
proof -
  obtain row v where row: "operation_valid api id_max v = Some row" "observe_row p row = (p', None)"
      "operation_decode api id_max tx = Ok row"
    using assms(4) by (auto simp: operation_observe_def operation_decode_def split: sum.splits if_splits option.splits)
  note b = operation_valid_bounds [OF row(1)]
  from observe_row_refines [of p row] assms(1) b row(2) have ok: "replay_ok p'"
    "spec_row (reservation_of rows, rp_count p, rp_usage p) row = Ok (table_map (rp_table p'), rp_count p', rp_usage p')"
    by (auto simp: ledger_of_def assms(3) split: sum.splits)
  show thesis using that [OF row(3) ok(1)] books_snoc [OF assms(2) ok(2)] b by blast
qed

text \<open>The records a journal's frames hold.\<close>

definition decodes :: "'j json_api \<Rightarrow> nat \<Rightarrow> string list \<Rightarrow> op_record list \<Rightarrow> bool" where
  "decodes api id_max texts rows \<longleftrightarrow> list_all2 (\<lambda>text row. operation_decode api id_max text = Ok row) texts rows"

lemma feed_books:
  "feed (operation_observe api id_max) (replay_start now) texts = (p, None) \<Longrightarrow>
   \<exists>rows. decodes api id_max texts rows \<and> replay_ok p \<and> books (now sdiv 86400) (rp_usage p) rows \<and>
     table_map (rp_table p) = reservation_of rows"
proof (induction texts arbitrary: p rule: rev_induct)
  case Nil
  have "reservation_of [] = Map.empty" by (rule ext) (simp add: reservation_of_def)
  moreover from this have "books (now sdiv 86400) (rp_usage (replay_start now)) []"
    by (simp add: books_def replay_start_def in_order_def of_day_def day_of_def accounts_for_def balanced_usage_def
      open_ids_def open_tokens_def) (simp add: zero_totals_def)
  ultimately show ?case using Nil
    by (intro exI [of _ "[]"]) (auto simp: decodes_def replay_start_def replay_ok_def)
next
  case (snoc tx texts)
  obtain q where q: "feed (operation_observe api id_max) (replay_start now) texts = (q, None)"
    "operation_observe api id_max q tx = (p, None)"
    using snoc.prems by (auto simp: feed_append split: prod.splits option.splits)
  from snoc.IH [OF q(1)] obtain rows where rows: "decodes api id_max texts rows" "replay_ok q"
    "books (now sdiv 86400) (rp_usage q) rows" "table_map (rp_table q) = reservation_of rows" by blast
  obtain row where "operation_decode api id_max tx = Ok row" "replay_ok p" "books (now sdiv 86400) (rp_usage p) (rows @ [row])"
    "table_map (rp_table p) = reservation_of (rows @ [row])" by (rule operation_observe_books [OF rows(2-4) q(2)])
  then show ?case using rows(1) by (intro exI [of _ "rows @ [row]"]) (simp add: decodes_def list_all2_appendI)
qed

text \<open>
  C22. After any journal is loaded without error, the totals the engine starts with are those of
  the journal's own records.  These are the complete frames of the file, decoded: they are in order (every
  operation reserved once, and settled at most once after that, for the same day and request), the
  lifetime totals count them all, today's totals count those of the newest day, and the
  calls and tokens still open are those of the reservations without a settlement.
\<close>

theorem operations_load_accounts:
  assumes "operations_load api id_max rp now contents ctx = (contents', ctx', None)"
  shows "\<not> uc_recovery ctx' \<and> (\<exists>texts rows.
    wal_visit rp 4096 collect contents [] = (contents', texts, None) \<and> decodes api id_max texts rows \<and>
    in_order rows \<and> tallied (lifetime (uc_usage ctx')) rows \<and>
    utc_day (uc_usage ctx') = day_of (now sdiv 86400) rows \<and>
    tallied (today (uc_usage ctx')) (of_day (utc_day (uc_usage ctx')) rows) \<and>
    accounts_for (uc_usage ctx') (reservation_of rows))"
proof -
  obtain p where p: "wal_visit rp 4096 (operation_observe api id_max) contents (replay_start now) = (contents', p, None)"
      "uc_usage ctx' = rp_usage p" "\<not> uc_recovery ctx'"
    using assms by (auto simp: operations_load_def split: prod.splits)
  from wal_visit_records [OF p(1)] obtain texts where
    "wal_visit rp 4096 collect contents [] = (contents', texts, None)"
    "feed (operation_observe api id_max) (replay_start now) texts = (p, None)" by blast
  with feed_books [of api id_max now texts p] p(2,3) show ?thesis by (auto simp: books_def)
qed

text \<open>A journal that holds one reservation.\<close>

definition sample_api :: "(json_scalar + (string \<times> json_scalar) list) json_api" where
  "sample_api = fixed_api ''{}'' (op_fields sample_operation ''reserved'' 10 0 0 False None)"

definition sample_usage :: usage_ctx where
  "sample_usage = \<lparr>uc_usage = rp_usage (replay_start 0), uc_recovery = True,
    uc_log = \<lparr>st_path = ''operations.xcdn'', st_open = True, st_sync = True, st_file = []\<rparr>, uc_daily = 0\<rparr>"

definition sample_row :: op_record where
  "sample_row = (operation_row sample_operation True 10 0 0 False None)\<lparr>rec_id := op_id sample_operation,
     rec_identity := op_identity_of sample_operation\<rparr>"

lemma sample_api_decodes: "operation_decode sample_api 128 ''{}'' = Ok sample_row"
proof -
  let ?fs = "op_fields sample_operation ''reserved'' 10 0 0 False None"
  have "distinct (map fst ?fs)" by (simp add: op_fields_def)
  then have "operation_encode sample_api sample_operation ''reserved'' 10 0 0 False None = Some ''{}''"
      "json_reads sample_api ''{}'' ?fs"
    using fixed_api_reads [of ?fs "''{}''"] by (simp_all add: sample_api_def operation_encode_def)
  moreover have "op_ok 128 sample_operation" by code_simp
  ultimately show ?thesis
    using operation_decode_written [where reserved = True and api = sample_api and op = sample_operation and delta = 10
      and ti = 0 and to = 0 and known = False and outcome = None, of "''{}''" 128]
    by (simp add: sample_row_def)
qed

lemma sample_journal_visit:
  "fn st ''{}'' = (st', None) \<Longrightarrow>
   wal_visit repair_fine 4096 fn (Some (wal_frame ''{}'')) st = (Some (wal_frame ''{}''), st', None)"
proof -
  assume fn: "fn st ''{}'' = (st', None)"
  have rec: "wal_record 4096 ''{}''" by (simp add: wal_record_def no_nul_def WAL_FRAME_MAX_def)
  have "wal_loop 4096 fn (wal_frame ''{}'' @ []) 0 st = (st', None, False, length (wal_frame ''{}''))"
    unfolding wal_loop_frame [OF rec] using fn by (simp add: wal_loop.simps [of 4096 fn "[]"])
  then show ?thesis using wal_frame_length [OF rec]
    by (simp add: wal_visit_def wal_scan_def WAL_FRAME_MAX_def WAL_LOG_MAX_def)
qed

theorem operations_load_accounts_witness:
  "\<exists>ctx'. operations_load sample_api 128 repair_fine (20000 * 86400) (Some (wal_frame ''{}'')) sample_usage =
      (Some (wal_frame ''{}''), ctx', None) \<and>
    tallied (lifetime (uc_usage ctx')) [sample_row] \<and> accounts_for (uc_usage ctx') (reservation_of [sample_row])"
proof -
  define now :: int where "now = 20000 * 86400"
  have start: "ledger_of (replay_start now) = (Map.empty, 0, rp_usage (replay_start now))"
    by (simp add: ledger_of_def replay_start_def)
  have "now sdiv 86400 = 20000" unfolding now_def by code_simp
  then have "consumption_observe (rp_usage (replay_start now)) sample_row 10 \<noteq> None"
    by (simp add: consumption_observe_def consumption_roll_def observe_totals_def observe_reservation_def add_checked_def
      INT64_MAX_def replay_start_def zero_totals_def sample_row_def operation_row_def sample_operation_def require_def Let_def)
  moreover have row: "rec_reserved sample_row" "rec_delta sample_row = 10" "\<not> rec_known sample_row" "rec_input sample_row = 0"
    "rec_output sample_row = 0" "rec_id sample_row \<noteq> []"
    by (simp_all add: sample_row_def operation_row_def sample_operation_def)
  ultimately have "\<exists>l. spec_row (ledger_of (replay_start now)) sample_row = Ok l"
    by (auto simp: spec_row_def start OPERATIONS_MAX_def)
  moreover have "replay_ok (replay_start now)" by (simp add: replay_start_def replay_ok_def)
  ultimately have "snd (observe_row (replay_start now) sample_row) = None"
    using observe_row_refines [of "replay_start now" sample_row] row(6) by (auto split: prod.splits)
  then obtain p where "operation_observe sample_api 128 (replay_start now) ''{}'' = (p, None)"
    by (metis operation_observe_def sample_api_decodes sum.case(2) prod.collapse)
  from sample_journal_visit [where fn = "operation_observe sample_api 128", OF this] obtain ctx' where
    load: "operations_load sample_api 128 repair_fine now (Some (wal_frame ''{}'')) sample_usage =
      (Some (wal_frame ''{}''), ctx', None)"
    by (simp add: operations_load_def)
  have "wal_visit repair_fine 4096 collect (Some (wal_frame ''{}'')) [] = (Some (wal_frame ''{}''), [''{}''], None)"
    by (rule sample_journal_visit) (simp add: collect_def)
  with operations_load_accounts [OF load] obtain rows where
    "decodes sample_api 128 [''{}''] rows" "tallied (lifetime (uc_usage ctx')) rows"
    "accounts_for (uc_usage ctx') (reservation_of rows)" by auto
  moreover from this(1) have "rows = [sample_row]"
    by (auto simp: decodes_def list_all2_Cons1 sample_api_decodes)
  ultimately show ?thesis using load unfolding now_def by blast
qed

text \<open>
  C23. The open-addressing table of the replay is a faithful map: one journal record is accepted
  or refused exactly as a finite map from operation ids to reservations says, and leaves the
  table representing the updated map (a free slot always remains, so every probe ends).
\<close>

theorem replay_table_refines_map:
  assumes "replay_ok p" "rec_id row \<noteq> []"
  shows "case observe_row p row of (p', e) \<Rightarrow> replay_ok p' \<and>
    (case spec_row (ledger_of p) row of
       Err err \<Rightarrow> e = Some err
     | Ok l \<Rightarrow> e = None \<and> ledger_of p' = l)"
  using observe_row_refines [OF assms] .

theorem replay_table_refines_map_witness:
  "case observe_row (replay_start 0) (operation_row sample_operation False 5 7 8 True None\<lparr>rec_id := ''x''\<rparr>) of
     (p', e) \<Rightarrow> replay_ok p' \<and>
    (case spec_row (ledger_of (replay_start 0)) (operation_row sample_operation False 5 7 8 True None\<lparr>rec_id := ''x''\<rparr>) of
       Err err \<Rightarrow> e = Some err
     | Ok l \<Rightarrow> e = None \<and> ledger_of p' = l)"
  by (rule replay_table_refines_map) (simp_all add: replay_start_def replay_ok_def)

section \<open>Admission\<close>

lemma operation_record_ok:
  assumes "operation_record api io ctx op state delta ti to known outcome = (ctx', None)"
  shows "\<exists>text. operation_encode api op state delta ti to known outcome = Some text \<and>
    st_file (uc_log ctx') = st_file (uc_log ctx) @ wal_frame text \<and>
    consumption_observe (uc_usage ctx) (operation_row op (state = ''reserved'') delta ti to known outcome) (op_reserve op)
      = Some (uc_usage ctx')"
  using assms
  by (auto simp: operation_record_def split: option.splits prod.splits if_splits dest!: wal_append_ok)

lemma operation_record_error:
  assumes "operation_record api io ctx op state delta ti to known outcome = (ctx', Some e)"
  shows "uc_usage ctx' = uc_usage ctx \<and> (uc_recovery ctx' \<or> e = ERR_LIMIT)"
  using assms by (auto simp: operation_record_def split: option.splits prod.splits if_splits)

lemma operation_encode_active [simp]: "operation_encode api (op\<lparr>op_active := b\<rparr>) = operation_encode api op"
  by (rule ext)+ (simp add: operation_encode_def op_fields_def)

text \<open>The operation that was asked for.\<close>

definition asked_for :: "string \<Rightarrow> string option \<Rightarrow> string option \<Rightarrow> string option \<Rightarrow> int \<Rightarrow> operation \<Rightarrow> bool" where
  "asked_for random model kind request reserve op \<longleftrightarrow>
     op_id op = uuid_v4 random \<and> model = Some (op_model op) \<and> kind = Some (op_kind op) \<and>
     op_request op = (case request of None \<Rightarrow> [] | Some r \<Rightarrow> r) \<and> op_reserve op = reserve"

text \<open>
  C24. Admission control: an operation is admitted only while the journal needs no recovery, with a
  daily limit set only within it, and only after its own reservation is the last frame of the
  journal: the record of this operation and day in the state reserved, for the tokens asked for,
  which are then charged.  A refused one is not active and charges nothing (only the day may have
  rolled over).
\<close>

theorem operation_begin_admission:
  assumes "operation_begin api id_max request_max io random now ctx model kind request reserve = (ctx', op, e)"
  shows "if e = None then
      (\<exists>p w. op = Some p \<and> op_active p \<and> asked_for random model kind request reserve p \<and>
        op_day p = utc_day (consumption_roll (uc_usage ctx) (now sdiv 86400)) \<and> \<not> uc_recovery ctx \<and>
        operation_encode api p ''reserved'' reserve 0 0 False None = Some w \<and>
        st_file (uc_log ctx') = st_file (uc_log ctx) @ wal_frame w) \<and>
      (0 < uc_daily ctx \<longrightarrow> charged_tokens (today (uc_usage ctx')) \<le> uc_daily ctx) \<and>
      charged_tokens (lifetime (uc_usage ctx')) = charged_tokens (lifetime (uc_usage ctx)) + reserve
    else uc_usage ctx' \<in> {uc_usage ctx, consumption_roll (uc_usage ctx) (now sdiv 86400)} \<and>
      (\<forall>p. op = Some p \<longrightarrow> \<not> op_active p)"
proof (cases "model = None \<or> kind = None")
  case True
  then show ?thesis using assms by (auto simp: operation_begin_def split: option.splits)
next
  case False
  define usage where "usage = consumption_roll (uc_usage ctx) (now sdiv 86400)"
  obtain m k where mk: "model = Some m" "kind = Some k" using False by auto
  define op1 where "op1 = \<lparr>op_id = uuid_v4 random, op_request = (case request of None \<Rightarrow> [] | Some r \<Rightarrow> r),
    op_model = m, op_kind = k, op_reserve = reserve, op_day = utc_day usage, op_active = False\<rparr>"
  show ?thesis
  proof (cases e)
    case (Some err)
    then show ?thesis
      using assms mk
      by (auto simp: operation_begin_def Let_def split: if_splits prod.splits dest: operation_record_error)
  next
    case None
    have rec: "operation_record api io (ctx\<lparr>uc_usage := usage\<rparr>) op1 ''reserved'' reserve 0 0 False None = (ctx', None)"
      and op: "op = Some (op1\<lparr>op_active := True\<rparr>)" "\<not> uc_recovery ctx"
      and daily: "0 < uc_daily ctx \<longrightarrow> reserve \<le> uc_daily ctx - charged_tokens (today usage)"
      using assms mk None
      by (auto simp: operation_begin_def Let_def usage_def op1_def split: if_splits prod.splits)
    from operation_record_ok [OF rec] obtain w where
      w: "operation_encode api op1 ''reserved'' reserve 0 0 False None = Some w"
      and frame: "st_file (uc_log ctx') = st_file (uc_log ctx) @ wal_frame w"
      and obs: "consumption_observe usage (operation_row op1 True reserve 0 0 False None) reserve = Some (uc_usage ctx')"
      by (auto simp: op1_def)
    have life: "lifetime usage = lifetime (uc_usage ctx)" by (simp add: usage_def consumption_roll_def)
    have day: "utc_day usage = rec_day (operation_row op1 True reserve 0 0 False None)"
      by (simp add: operation_row_def op1_def)
    note totals = consumption_observe_lifetime [OF obs] consumption_observe_today [OF obs day]
    have "asked_for random model kind request reserve (op1\<lparr>op_active := True\<rparr>)" "op_day (op1\<lparr>op_active := True\<rparr>) = utc_day usage"
      by (simp_all add: asked_for_def op1_def mk)
    moreover have "charged_tokens (today (uc_usage ctx')) = charged_tokens (today usage) + reserve"
      "charged_tokens (lifetime (uc_usage ctx')) = charged_tokens (lifetime (uc_usage ctx)) + reserve"
      using observe_effect(1) [OF totals(1)] observe_effect(1) [OF totals(2)] life by (simp_all add: operation_row_def)
    ultimately show ?thesis using None op w frame daily unfolding usage_def by auto
  qed
qed

definition sample_open :: usage_ctx where
  "sample_open = sample_usage\<lparr>uc_recovery := False, uc_daily := 100\<rparr>"

theorem operation_begin_admission_witness:
  "\<exists>fs ctx' p. operation_begin (fixed_api ''{}'' fs) 128 128 \<lparr>jio_open_err = None, jio_size_ok = True, jio_append = io_fine\<rparr> []
      0 sample_open (Some ''m'') (Some ''chat'') None 10 = (ctx', Some p, None) \<and>
    op_active p \<and> charged_tokens (today (uc_usage ctx')) \<le> 100 \<and> st_file (uc_log ctx') = wal_frame ''{}''"
proof -
  define p where "p = \<lparr>op_id = uuid_v4 [], op_request = [], op_model = ''m'', op_kind = ''chat'', op_reserve = 10, op_day = 0,
    op_active = False\<rparr>"
  define api where "api = fixed_api ''{}'' (op_fields p ''reserved'' 10 0 0 False None)"
  have enc: "operation_encode api p ''reserved'' 10 0 0 False None = Some ''{}''"
    by (simp add: api_def fixed_api_def operation_encode_def)
  have day: "consumption_roll (uc_usage sample_usage) (0 sdiv 86400) = uc_usage sample_usage" "utc_day (uc_usage sample_usage) = 0"
    by (simp_all add: sample_usage_def replay_start_def consumption_roll_def)
  have "consumption_observe (uc_usage sample_usage) (operation_row p True 10 0 0 False None) 10 \<noteq> None"
    by (simp add: consumption_observe_def consumption_roll_def observe_totals_def observe_reservation_def add_checked_def
      INT64_MAX_def replay_start_def zero_totals_def operation_row_def sample_usage_def p_def require_def Let_def)
  then obtain u where u: "consumption_observe (uc_usage sample_usage) (operation_row p True 10 0 0 False None) 10 = Some u" by auto
  have "wal_append True io_fine ((uc_log sample_usage)\<lparr>st_open := True\<rparr>) ''{}'' =
      ((uc_log sample_usage)\<lparr>st_open := True, st_file := wal_frame ''{}''\<rparr>, None)"
    using wal_append_fine [of "(uc_log sample_usage)\<lparr>st_open := True\<rparr>" "''{}''"]
    by (simp add: sample_usage_def WAL_FRAME_MAX_def WAL_LOG_MAX_def)
  then obtain ctx' where rec: "operation_record api \<lparr>jio_open_err = None, jio_size_ok = True, jio_append = io_fine\<rparr>
      (sample_open\<lparr>uc_usage := uc_usage sample_usage\<rparr>) p ''reserved'' 10 0 0 False None = (ctx', None)"
    using u enc by (simp add: operation_record_def sample_open_def) (simp add: p_def)
  have fit: "operation_text_ok ''m'' 128" "operation_text_ok ''chat'' 32" by code_simp+
  have zero: "calls (lifetime (uc_usage sample_usage)) = 0" "charged_tokens (today (uc_usage sample_usage)) = 0"
    by (simp_all add: sample_usage_def replay_start_def zero_totals_def)
  have run: "operation_begin api 128 128 \<lparr>jio_open_err = None, jio_size_ok = True, jio_append = io_fine\<rparr> []
      0 sample_open (Some ''m'') (Some ''chat'') None 10 = (ctx', Some (p\<lparr>op_active := True\<rparr>), None)"
    using rec fit day zero
    by (simp add: operation_begin_def sample_open_def Let_def OPERATIONS_MAX_def p_def [symmetric])
      (simp add: p_def)
  from operation_begin_admission [OF this] enc
  have "charged_tokens (today (uc_usage ctx')) \<le> 100" "st_file (uc_log ctx') = wal_frame ''{}''"
    by (simp_all add: sample_open_def) (simp add: sample_usage_def)
  moreover have "op_active (p\<lparr>op_active := True\<rparr>)" by simp
  ultimately show ?thesis using run unfolding api_def by blast
qed

end
