(* ===== verification/Approvals.thy ===== *)
theory Approvals
  imports Xutil Uuid Wal
begin

text \<open>
  Durable approvals of mutating actions: the record and its codec and transition check
  (\<^verbatim>\<open>src/approval_codec.c\<close>), the store over the write-ahead log (\<^verbatim>\<open>src/approval_store.c\<close>), its
  replay when a session opens (\<^verbatim>\<open>src/approval_replay.c\<close>) and the construction of a request
  (\<^verbatim>\<open>src/approval_request.c\<close>).  The xCDN parser and writer, the redactor and the workspace
  fingerprint are arguments.
\<close>

section \<open>Records\<close>

datatype approval_status = A_PENDING | A_APPROVED | A_DENIED | A_CONSUMED | A_INVALIDATED | A_INTERRUPTED

fun status_code :: "approval_status \<Rightarrow> nat" where
  "status_code A_PENDING = 0"
| "status_code A_APPROVED = 1"
| "status_code A_DENIED = 2"
| "status_code A_CONSUMED = 3"
| "status_code A_INVALIDATED = 4"
| "status_code A_INTERRUPTED = 5"

definition status_of_code :: "int \<Rightarrow> approval_status option" where
  "status_of_code n = find (\<lambda>s. int (status_code s) = n)
     [A_PENDING, A_APPROVED, A_DENIED, A_CONSUMED, A_INVALIDATED, A_INTERRUPTED]"

text \<open>The enumeration's order, which the code compares statuses with.\<close>

instantiation approval_status :: linorder
begin

definition less_eq_approval_status :: "approval_status \<Rightarrow> approval_status \<Rightarrow> bool" where
  "less_eq_approval_status a b \<longleftrightarrow> status_code a \<le> status_code b"

definition less_approval_status :: "approval_status \<Rightarrow> approval_status \<Rightarrow> bool" where
  "less_approval_status a b \<longleftrightarrow> status_code a < status_code b"

instance
proof
  fix a b :: approval_status
  show "a \<le> b \<Longrightarrow> b \<le> a \<Longrightarrow> a = b"
    by (cases a; cases b) (simp_all add: less_eq_approval_status_def)
qed (auto simp: less_eq_approval_status_def less_approval_status_def)

end

lemma status_of_code_code [simp]: "status_of_code (int (status_code s)) = Some s"
  by (cases s) (simp_all add: status_of_code_def)

datatype security_profile = CHAT | CODING_READONLY | CODING_SANDBOXED | AUTOMATION_CI

fun profile_code :: "security_profile \<Rightarrow> nat" where
  "profile_code CHAT = 0"
| "profile_code CODING_READONLY = 1"
| "profile_code CODING_SANDBOXED = 2"
| "profile_code AUTOMATION_CI = 3"

definition profile_of_code :: "int \<Rightarrow> security_profile option" where
  "profile_of_code n = find (\<lambda>p. int (profile_code p) = n) [CHAT, CODING_READONLY, CODING_SANDBOXED, AUTOMATION_CI]"

lemma profile_of_code_code [simp]: "profile_of_code (int (profile_code p)) = Some p"
  by (cases p) (simp_all add: profile_of_code_def)

record approval =
  ap_sequence :: int
  ap_id :: string
  ap_turn :: string
  ap_tool :: string
  ap_command :: string
  ap_args_sha :: string
  ap_package_sha :: string
  ap_snapshot :: string
  ap_workspace :: string
  ap_profile :: security_profile
  ap_status :: approval_status
  ap_wide :: bool
  ap_arguments :: string

definition APPROVAL_ARGS_MAX :: nat where "APPROVAL_ARGS_MAX = 256 * 1024"
definition APPROVAL_FRAME_MAX :: nat where "APPROVAL_FRAME_MAX = 2 * 1024 * 1024"

definition ap_field :: "xval option \<Rightarrow> string \<Rightarrow> nat \<Rightarrow> string option" where
  "ap_field v key cap =
     (case xstr (xfield v key) of
        None \<Rightarrow> None
      | Some s \<Rightarrow> if s = [] \<or> cap \<le> length s then None else Some s)"

definition hash_valid :: "string \<Rightarrow> bool" where
  "hash_valid s \<longleftrightarrow> length s = 64 \<and> list_all hex_lower s"

definition approval_encode :: "approval \<Rightarrow> xval option" where
  "approval_encode a = put_all (XObject [])
     [(''schema'', XInt 1), (''sequence'', XInt (ap_sequence a)), (''profile'', XInt (int (profile_code (ap_profile a)))),
      (''status'', XInt (int (status_code (ap_status a)))), (''session_wide'', XBool (ap_wide a)),
      (''id'', XString (ap_id a)), (''turn_id'', XString (ap_turn a)), (''tool_ref'', XString (ap_tool a)),
      (''command'', XString (ap_command a)), (''arguments_sha256'', XString (ap_args_sha a)),
      (''package_sha256'', XString (ap_package_sha a)), (''snapshot'', XString (ap_snapshot a)),
      (''workspace'', XString (ap_workspace a)), (''arguments'', XString (ap_arguments a))]"

definition approval_decode :: "xval option \<Rightarrow> approval outcome" where
  "approval_decode v =
     (case (do {
        require (xcount v = Some 14);
        schema \<leftarrow> xint (xfield v ''schema'');
        require (schema = 1);
        sequence \<leftarrow> xint (xfield v ''sequence'');
        require (0 < sequence);
        profile \<leftarrow> Option.bind (xint (xfield v ''profile'')) profile_of_code;
        status \<leftarrow> Option.bind (xint (xfield v ''status'')) status_of_code;
        wide \<leftarrow> xbool (xfield v ''session_wide'');
        key \<leftarrow> ap_field v ''id'' 37;
        turn \<leftarrow> ap_field v ''turn_id'' 37;
        tool \<leftarrow> ap_field v ''tool_ref'' 128;
        command \<leftarrow> ap_field v ''command'' 64;
        args_sha \<leftarrow> ap_field v ''arguments_sha256'' 65;
        package_sha \<leftarrow> ap_field v ''package_sha256'' 65;
        snapshot \<leftarrow> ap_field v ''snapshot'' 65;
        workspace \<leftarrow> ap_field v ''workspace'' 4096;
        require (uuid_valid (Some key) \<and> uuid_valid (Some turn));
        require (hash_valid args_sha \<and> hash_valid package_sha \<and> hash_valid snapshot);
        args \<leftarrow> xstr (xfield v ''arguments'');
        require (length args \<le> APPROVAL_ARGS_MAX);
        Some \<lparr>ap_sequence = sequence, ap_id = key, ap_turn = turn, ap_tool = tool, ap_command = command,
          ap_args_sha = args_sha, ap_package_sha = package_sha, ap_snapshot = snapshot, ap_workspace = workspace,
          ap_profile = profile, ap_status = status, ap_wide = wide, ap_arguments = args\<rparr>
      }) of None \<Rightarrow> Err ERR_PARSE | Some a \<Rightarrow> Ok a)"

text \<open>Two records about the same reviewed action.\<close>

definition same_binding :: "approval \<Rightarrow> approval \<Rightarrow> bool" where
  "same_binding a b \<longleftrightarrow>
     ap_turn a = ap_turn b \<and> ap_tool a = ap_tool b \<and> ap_command a = ap_command b \<and>
     ap_args_sha a = ap_args_sha b \<and> ap_package_sha a = ap_package_sha b \<and> ap_snapshot a = ap_snapshot b \<and>
     ap_workspace a = ap_workspace b \<and> ap_arguments a = ap_arguments b \<and> ap_profile a = ap_profile b"

definition approval_follows :: "approval option \<Rightarrow> approval \<Rightarrow> bool" where
  "approval_follows before next =
     (case before of
        None \<Rightarrow> ap_sequence next = 1 \<and> ap_status next = A_PENDING \<and> \<not> ap_wide next
      | Some b \<Rightarrow>
          if ap_sequence next \<noteq> ap_sequence b + 1 then False
          else if ap_id b \<noteq> ap_id next then
            A_DENIED \<le> ap_status b \<and> ap_status next = A_PENDING \<and> \<not> ap_wide next
          else if \<not> same_binding b next then False
          else if ap_status b = A_PENDING then
            (ap_status next = A_APPROVED \<or> ap_status next = A_DENIED \<or> ap_status next = A_INTERRUPTED) \<and>
            (\<not> ap_wide next \<or> ap_status next = A_APPROVED)
          else if ap_status b = A_APPROVED then
            ap_wide next = ap_wide b \<and>
            (ap_status next = A_CONSUMED \<or> ap_status next = A_INVALIDATED \<or> ap_status next = A_INTERRUPTED)
          else False)"

section \<open>The store\<close>

record approval_store =
  as_current :: "approval option"
  as_log :: stream
  as_recovery :: bool

text \<open>The outside of one save: the journal's size query and append.\<close>

definition approval_save ::
    "(xnode \<Rightarrow> string option) \<Rightarrow> bool \<times> io_plan \<Rightarrow> approval_store \<Rightarrow> approval \<Rightarrow> approval_store \<times> asngn_err option" where
  "approval_save write io s next0 =
     (if as_recovery s then (s, Some ERR_IO)
      else if (case as_current s of Some b \<Rightarrow> 2 ^ 63 - 1 \<le> ap_sequence b | None \<Rightarrow> False) then (s, Some ERR_LIMIT)
      else
        let next = next0\<lparr>ap_sequence := (case as_current s of Some b \<Rightarrow> ap_sequence b + 1 | None \<Rightarrow> 1)\<rparr> in
        if \<not> approval_follows (as_current s) next then (s, Some ERR_INVALID)
        else case Option.bind (approval_encode next) (\<lambda>v. write (xnode_new v)) of
          None \<Rightarrow> (s, Some ERR_NOMEM)
        | Some text \<Rightarrow>
            if APPROVAL_FRAME_MAX < length text then (s, Some ERR_LIMIT)
            else if \<not> utf8_valid text then (s, Some ERR_INVALID)
            else case wal_put APPROVAL_FRAME_MAX io (as_log s) text of
              (log', None) \<Rightarrow> (s\<lparr>as_log := log', as_current := Some next\<rparr>, None)
            | (log', Some e) \<Rightarrow>
                (s\<lparr>as_log := log', as_recovery := (as_recovery s \<or> e = ERR_IO)\<rparr>, Some e))"

definition approval_transition ::
    "(xnode \<Rightarrow> string option) \<Rightarrow> bool \<times> io_plan \<Rightarrow> approval_store option \<Rightarrow> approval_status \<Rightarrow> bool \<Rightarrow>
     approval_store option \<times> asngn_err option" where
  "approval_transition write io store status wide =
     (case store of
        None \<Rightarrow> (None, Some ERR_NOT_FOUND)
      | Some s \<Rightarrow> (case as_current s of
            None \<Rightarrow> (Some s, Some ERR_NOT_FOUND)
          | Some b \<Rightarrow> (case approval_save write io s (b\<lparr>ap_status := status, ap_wide := wide\<rparr>) of
                (s', e) \<Rightarrow> (Some s', e))))"

definition approval_get :: "approval_store option \<Rightarrow> approval outcome" where
  "approval_get store =
     (case store of
        None \<Rightarrow> Err ERR_NOT_FOUND
      | Some s \<Rightarrow> (case as_current s of None \<Rightarrow> Err ERR_NOT_FOUND | Some a \<Rightarrow> Ok a))"

text \<open>Replaying one frame onto the current record.\<close>

definition approval_replay ::
    "(string \<Rightarrow> xnode list option) \<Rightarrow> (xnode \<Rightarrow> string option) \<Rightarrow> approval option \<Rightarrow> string \<Rightarrow>
     approval option \<times> asngn_err option" where
  "approval_replay parse write current text =
     (if \<not> utf8_valid text then (current, Some ERR_PARSE)
      else case parse text of
        Some [node] \<Rightarrow>
          (case approval_decode (Some (xvalue node)) of
             Err e \<Rightarrow> (current, Some e)
           | Ok next \<Rightarrow>
               (case xcanonical_match write (approval_encode next) text of
                  Some e \<Rightarrow> (current, Some e)
                | None \<Rightarrow>
                    if \<not> approval_follows current next then (current, Some ERR_PARSE) else (Some next, None)))
      | _ \<Rightarrow> (current, Some ERR_PARSE))"

text \<open>Opening the store: the stream is opened after the replay, and an undecided or unused
  approval is interrupted.\<close>

definition approval_load ::
    "(string \<Rightarrow> xnode list option) \<Rightarrow> (xnode \<Rightarrow> string option) \<Rightarrow> repair_plan \<Rightarrow> asngn_err option \<Rightarrow> bool \<times> io_plan \<Rightarrow>
     string \<Rightarrow> string option \<Rightarrow> approval_store option \<times> asngn_err option" where
  "approval_load parse write rp open_err io path contents =
     (case wal_visit rp APPROVAL_FRAME_MAX (approval_replay parse write) contents None of
        (contents', current, Some e) \<Rightarrow> (None, Some e)
      | (contents', current, None) \<Rightarrow>
          (case open_err of
             Some e \<Rightarrow> (None, Some e)
           | None \<Rightarrow>
               let store = \<lparr>as_current = current,
                     as_log = \<lparr>st_path = path, st_open = True, st_sync = True,
                       st_file = (case contents' of None \<Rightarrow> [] | Some t \<Rightarrow> t)\<rparr>,
                     as_recovery = False\<rparr> in
               (case current of
                  Some a \<Rightarrow>
                    if ap_status a = A_PENDING \<or> ap_status a = A_APPROVED
                    then approval_transition write io (Some store) A_INTERRUPTED (ap_wide a)
                    else (Some store, None)
                | None \<Rightarrow> (Some store, None))))"

section \<open>Requests\<close>

record selected_command =
  sc_ref :: string
  sc_command :: string
  sc_sha :: string

definition grant_fields :: "security_profile \<Rightarrow> string \<Rightarrow> selected_command \<Rightarrow> string list" where
  "grant_fields profile base tool =
     [''asngn-tool-grant-v1'', sc_ref tool, sc_command tool, sc_sha tool, base, decimal (profile_code profile)]"

definition approval_grant_key :: "security_profile \<Rightarrow> string \<Rightarrow> selected_command \<Rightarrow> string" where
  "approval_grant_key profile base tool =
     sha256_hex (Some (sha256_final
       (fold (\<lambda>f ctx. sha256_update ctx (f @ [NUL])) (grant_fields profile base tool) sha256_init))) 32"

text \<open>Building a request: \<open>random\<close> feeds the new id, \<open>redact\<close> is the display masker (None when
  nothing was masked), \<open>fingerprint\<close> the workspace snapshot.\<close>

definition approval_prepare ::
    "(xnode \<Rightarrow> string option) \<Rightarrow> bool \<times> io_plan \<Rightarrow> (string \<Rightarrow> string option outcome) \<Rightarrow> string outcome \<Rightarrow> string \<Rightarrow>
     string \<Rightarrow> security_profile \<Rightarrow> string \<Rightarrow> approval_store \<Rightarrow> selected_command \<Rightarrow> string option \<Rightarrow>
     approval_store \<times> (string \<times> string) outcome" where
  "approval_prepare write io redact fingerprint random turn profile base store tool args =
     (case args of
        None \<Rightarrow> (store, Err ERR_LIMIT)
      | Some text \<Rightarrow>
          if APPROVAL_ARGS_MAX < length text then (store, Err ERR_LIMIT)
          else case redact text of
            Err e \<Rightarrow> (store, Err e)
          | Ok masked \<Rightarrow>
              let shown = (case masked of None \<Rightarrow> text | Some m \<Rightarrow> m) in
              if APPROVAL_ARGS_MAX < length shown then (store, Err ERR_LIMIT)
              else case fingerprint of
                Err e \<Rightarrow> (store, Err e)
              | Ok snapshot \<Rightarrow>
                  let a = \<lparr>ap_sequence = 0, ap_id = uuid_v4 random, ap_turn = turn, ap_tool = take 127 (sc_ref tool),
                        ap_command = take 63 (sc_command tool), ap_args_sha = digest_hex text,
                        ap_package_sha = take 64 (sc_sha tool), ap_snapshot = snapshot, ap_workspace = take 4095 base,
                        ap_profile = profile, ap_status = A_PENDING, ap_wide = False, ap_arguments = shown\<rparr> in
                  (case approval_save write io store a of
                     (store', None) \<Rightarrow> (store', Ok (uuid_v4 random, snapshot))
                   | (store', Some e) \<Rightarrow> (store', Err e)))"

section \<open>Codec\<close>

definition approval_ok :: "approval \<Rightarrow> bool" where
  "approval_ok a \<longleftrightarrow>
     0 < ap_sequence a \<and>
     list_all (\<lambda>(s, cap). s \<noteq> [] \<and> length s < cap)
       [(ap_id a, 37), (ap_turn a, 37), (ap_tool a, 128), (ap_command a, 64), (ap_args_sha a, 65),
        (ap_package_sha a, 65), (ap_snapshot a, 65), (ap_workspace a, 4096)] \<and>
     uuid_valid (Some (ap_id a)) \<and> uuid_valid (Some (ap_turn a)) \<and>
     hash_valid (ap_args_sha a) \<and> hash_valid (ap_package_sha a) \<and> hash_valid (ap_snapshot a) \<and>
     length (ap_arguments a) \<le> APPROVAL_ARGS_MAX"

lemma approval_encode_object: "\<exists>fs. approval_encode a = Some (xobject fs)"
  unfolding approval_encode_def put_all_empty by blast

lemma approval_decode_encode:
  assumes "approval_ok a" shows "approval_decode (approval_encode a) = Ok a"
  using assms unfolding approval_decode_def approval_encode_def put_all_empty
  by (simp add: ap_field_def approval_ok_def)

lemma ap_field_Some: "ap_field v key cap = Some s \<Longrightarrow> s \<noteq> [] \<and> length s < cap"
  by (auto simp: ap_field_def split: option.splits if_splits)

lemma approval_decode_ok: "approval_decode v = Ok a \<Longrightarrow> approval_ok a"
  by (auto simp: approval_decode_def approval_ok_def bind_eq_Some_conv split: option.splits if_split_asm
      dest!: ap_field_Some)

section \<open>Histories\<close>

text \<open>The records of a log, newest first.\<close>

inductive approval_history :: "approval list \<Rightarrow> bool" where
  first_request: "approval_follows None a \<Longrightarrow> approval_history [a]"
| next_record: "approval_history (b # h) \<Longrightarrow> approval_follows (Some b) a \<Longrightarrow> approval_history (a # b # h)"

inductive_cases approval_history_cases: "approval_history (a # h)"
inductive_simps approval_history_Nil [simp]: "approval_history []"

lemma follows_consumed:
  "approval_follows (Some b) a \<Longrightarrow> ap_status a = A_CONSUMED \<Longrightarrow>
     ap_status b = A_APPROVED \<and> ap_id b = ap_id a \<and> same_binding b a \<and> ap_wide a = ap_wide b"
  by (auto simp: approval_follows_def less_eq_approval_status_def split: if_splits)

lemma follows_approved:
  "approval_follows (Some b) a \<Longrightarrow> ap_status a = A_APPROVED \<Longrightarrow>
     ap_status b = A_PENDING \<and> ap_id b = ap_id a \<and> same_binding b a"
  by (auto simp: approval_follows_def split: if_splits)

lemma follows_terminal:
  "approval_follows (Some b) a \<Longrightarrow> A_DENIED \<le> ap_status b \<Longrightarrow> ap_id a \<noteq> ap_id b \<and> ap_status a = A_PENDING"
  by (cases "ap_status b") (auto simp: approval_follows_def less_eq_approval_status_def split: if_splits)

lemmas follows_facts = follows_consumed follows_approved follows_terminal

lemma history_sequence: "approval_history h \<Longrightarrow> ap_sequence (hd h) = int (length h)"
  by (induction rule: approval_history.induct) (auto simp: approval_follows_def split: if_splits)

lemma history_consumed:
  assumes "approval_history (a # h)" "ap_status a = A_CONSUMED"
  shows "\<exists>b p h'. h = b # p # h' \<and> ap_status b = A_APPROVED \<and> ap_status p = A_PENDING \<and>
    ap_id b = ap_id a \<and> ap_id p = ap_id a \<and> same_binding b a \<and> same_binding p a \<and> ap_wide b = ap_wide a"
  using assms(1)
proof (rule approval_history_cases)
  assume "approval_follows None a"
  with assms(2) show ?thesis by (simp add: approval_follows_def)
next
  fix b h1
  assume h: "h = b # h1" "approval_history (b # h1)" "approval_follows (Some b) a"
  note b = follows_consumed [OF h(3) assms(2)]
  from h(2) show ?thesis
  proof (rule approval_history_cases)
    assume "approval_follows None b"
    with b show ?thesis by (simp add: approval_follows_def)
  next
    fix p h2
    assume p: "h1 = p # h2" "approval_follows (Some p) b"
    with b h(1) follows_approved [OF p(2)] show ?thesis by (auto simp: same_binding_def)
  qed
qed

text \<open>What a store's current record is the end of.\<close>

definition as_history :: "approval option \<Rightarrow> approval list \<Rightarrow> bool" where
  "as_history current h \<longleftrightarrow>
     (case current of None \<Rightarrow> h = [] | Some a \<Rightarrow> h \<noteq> [] \<and> hd h = a \<and> approval_history h)"

lemma as_history_step: "as_history current h \<Longrightarrow> approval_follows current a \<Longrightarrow> as_history (Some a) (a # h)"
  by (cases h) (auto simp: as_history_def split: option.splits intro: approval_history.intros)

text \<open>A frame holds a record as the library writes it.\<close>

definition frame_of :: "(xnode \<Rightarrow> string option) \<Rightarrow> string \<Rightarrow> approval \<Rightarrow> bool" where
  "frame_of write text a \<longleftrightarrow> Option.bind (approval_encode a) (\<lambda>v. write (xnode_new v)) = Some text"

lemma approval_replay_accepts:
  assumes "approval_replay parse write c text = (c', None)"
  shows "\<exists>a. c' = Some a \<and> approval_follows c a \<and> frame_of write text a"
  using assms
  by (auto simp: approval_replay_def frame_of_def xcanonical_match_def split: if_splits option.splits list.splits sum.splits)

lemma feed_history:
  "feed (approval_replay parse write) None texts = (c, None) \<Longrightarrow>
   \<exists>h. as_history c h \<and> list_all2 (frame_of write) texts (rev h)"
proof (induction texts arbitrary: c rule: rev_induct)
  case Nil
  then show ?case by (intro exI [of _ "[]"]) (auto simp: as_history_def)
next
  case (snoc tx texts)
  obtain d where d: "feed (approval_replay parse write) None texts = (d, None)" "approval_replay parse write d tx = (c, None)"
    using snoc.prems by (auto simp: feed_append split: prod.splits option.splits)
  obtain h where h: "as_history d h" "list_all2 (frame_of write) texts (rev h)" using snoc.IH [OF d(1)] by blast
  obtain a where a: "c = Some a" "approval_follows d a" "frame_of write tx a" using approval_replay_accepts [OF d(2)] by blast
  have "as_history c (a # h)" using as_history_step [OF h(1) a(2)] a(1) by simp
  moreover have "list_all2 (frame_of write) (texts @ [tx]) (rev (a # h))" using h(2) a(3) by (simp add: list_all2_appendI)
  ultimately show ?case by blast
qed

lemma approval_save_cases:
  assumes "approval_save write io s a = (s', e)"
  obtains (saved) a' tx where "e = None" "as_current s' = Some a'" "approval_follows (as_current s) a'"
      "Option.bind (approval_encode a') (\<lambda>v. write (xnode_new v)) = Some tx"
      "wal_put APPROVAL_FRAME_MAX io (as_log s) tx = (as_log s', None)"
      "a' = a\<lparr>ap_sequence := ap_sequence a'\<rparr>" "length tx \<le> APPROVAL_FRAME_MAX" "utf8_valid tx"
      "as_recovery s' = as_recovery s"
    | (failed) err where "e = Some err" "as_current s' = as_current s" "as_log s' = as_log s"
    | (unwritten) err a' tx where "e = Some err" "as_current s' = as_current s" "approval_follows (as_current s) a'"
      "Option.bind (approval_encode a') (\<lambda>v. write (xnode_new v)) = Some tx"
      "wal_put APPROVAL_FRAME_MAX io (as_log s) tx = (as_log s', Some err)"
      "a' = a\<lparr>ap_sequence := ap_sequence a'\<rparr>" "length tx \<le> APPROVAL_FRAME_MAX" "utf8_valid tx"
      "as_recovery s' \<longleftrightarrow> err = ERR_IO"
proof -
  define nx where "nx = a\<lparr>ap_sequence := (case as_current s of Some b \<Rightarrow> ap_sequence b + 1 | None \<Rightarrow> 1)\<rparr>"
  have eq: "nx = a\<lparr>ap_sequence := ap_sequence nx\<rparr>" by (simp add: nx_def)
  show ?thesis
  proof (cases e)
    case None
    then obtain tx where "approval_follows (as_current s) nx"
        "Option.bind (approval_encode nx) (\<lambda>v. write (xnode_new v)) = Some tx"
        "wal_put APPROVAL_FRAME_MAX io (as_log s) tx = (as_log s', None)" "as_current s' = Some nx"
        "length tx \<le> APPROVAL_FRAME_MAX" "utf8_valid tx" "as_recovery s' = as_recovery s"
      using assms by (auto simp: approval_save_def Let_def nx_def [symmetric] split: if_splits option.splits prod.splits)
    then show ?thesis using saved [of nx tx] None eq by blast
  next
    case (Some err)
    then have cur: "as_current s' = as_current s"
      using assms by (auto simp: approval_save_def Let_def split: if_splits option.splits prod.splits)
    show ?thesis
    proof (cases "as_log s' = as_log s \<and> s' = s")
      case True
      then show ?thesis using failed [OF Some cur] by blast
    next
      case False
      then obtain tx where "approval_follows (as_current s) nx"
        "Option.bind (approval_encode nx) (\<lambda>v. write (xnode_new v)) = Some tx"
        "wal_put APPROVAL_FRAME_MAX io (as_log s) tx = (as_log s', Some err)"
        "length tx \<le> APPROVAL_FRAME_MAX" "utf8_valid tx" "as_recovery s' \<longleftrightarrow> err = ERR_IO"
        using assms Some
        by (auto simp: approval_save_def Let_def nx_def [symmetric] split: if_splits option.splits prod.splits)
      then show ?thesis using unwritten [of err nx tx] Some cur eq by blast
    qed
  qed
qed

text \<open>
  The history of a store is on its log: the first \<open>n\<close> bytes of the file, all of them while the log is
  open, are the frames of its records.  Behind them there is at most what a failed append left.
\<close>

definition logged :: "(xnode \<Rightarrow> string option) \<Rightarrow> stream \<Rightarrow> approval list \<Rightarrow> bool" where
  "logged write log h \<longleftrightarrow>
     (\<exists>n texts. n \<le> length (st_file log) \<and> (st_open log \<longrightarrow> n = length (st_file log)) \<and>
        wal_replay APPROVAL_FRAME_MAX collect (log\<lparr>st_file := take n (st_file log)\<rparr>) [] = Some texts \<and>
        list_all2 (frame_of write) texts (rev h))"

lemma logged_open:
  "st_open log \<Longrightarrow> logged write log h \<longleftrightarrow>
     (\<exists>texts. wal_replay APPROVAL_FRAME_MAX collect log [] = Some texts \<and> list_all2 (frame_of write) texts (rev h))"
  by (auto simp: logged_def)

lemma logged_failed:
  assumes "logged write log h" "wal_put cap io log tx = (log', Some e)"
  shows "logged write log' h"
proof -
  obtain n texts where n: "n \<le> length (st_file log)" "st_open log \<longrightarrow> n = length (st_file log)"
    "wal_replay APPROVAL_FRAME_MAX collect (log\<lparr>st_file := take n (st_file log)\<rparr>) [] = Some texts" "list_all2 (frame_of write) texts (rev h)"
    using assms(1) by (auto simp: logged_def)
  obtain k where k: "st_file log' = st_file log @ take k (wal_frame tx)"
    using wal_append_error_file assms(2) unfolding wal_put_def by blast
  have "st_open log' \<longrightarrow> st_open log \<and> st_file log' = st_file log"
    using assms(2) wal_append_error [of "fst io" "snd io" log tx log' e] stream_append_closed [of log "snd io" "wal_frame tx"]
    unfolding wal_put_def by (cases "st_open log") (auto simp: wal_append_def split: if_splits)
  moreover have "wal_replay APPROVAL_FRAME_MAX collect (log'\<lparr>st_file := f\<rparr>) [] =
      wal_replay APPROVAL_FRAME_MAX collect (log\<lparr>st_file := f\<rparr>) []" for f
  proof -
    have bytes: "st_file (l\<lparr>st_file := f\<rparr>) = f" for l :: stream by simp
    show ?thesis unfolding wal_replay_def bytes ..
  qed
  ultimately show ?thesis using n k unfolding logged_def by (intro exI [of _ n] exI [of _ texts]) auto
qed

lemma approval_save_logged:
  assumes "as_history (as_current s) h" "logged write (as_log s) h" "approval_save write io s a = (s', e)"
    and "\<forall>n t. write n = Some t \<longrightarrow> no_nul t"
  shows "\<exists>h. as_history (as_current s') h \<and> logged write (as_log s') h"
  using assms(3)
proof (cases rule: approval_save_cases)
  case (saved a' tx)
  have "as_history (as_current s') (a' # h)" using as_history_step [OF assms(1) saved(3)] saved(2) by simp
  moreover have "logged write (as_log s') (a' # h)"
  proof -
    have put: "wal_append (fst io) (snd io) (as_log s) tx = (as_log s', None)" using saved(5) by (simp add: wal_put_def)
    note ok = wal_append_ok [OF put]
    then have op: "st_open (as_log s)" "st_open (as_log s')" by (metis stream.select_convs(2) stream.surjective stream.update_convs(4))+
    obtain texts where t: "wal_replay APPROVAL_FRAME_MAX collect (as_log s) [] = Some texts" "list_all2 (frame_of write) texts (rev h)"
      using assms(2) logged_open [OF op(1)] by blast
    have "tx \<noteq> []" using put by (auto simp: wal_append_def)
    moreover have "no_nul tx" using saved(4) assms(4) by (auto simp: bind_eq_Some_conv)
    ultimately have "wal_record APPROVAL_FRAME_MAX tx"
      using saved(7) by (simp add: wal_record_def APPROVAL_FRAME_MAX_def WAL_FRAME_MAX_def)
    from wal_replay_append [OF t(1) put this, of "texts @ [tx]"]
    have "wal_replay APPROVAL_FRAME_MAX collect (as_log s') [] = Some (texts @ [tx])" by (simp add: collect_def)
    moreover have "list_all2 (frame_of write) (texts @ [tx]) (rev (a' # h))"
      using t(2) saved(4) by (simp add: list_all2_appendI frame_of_def)
    ultimately show ?thesis using logged_open [OF op(2)] by blast
  qed
  ultimately show ?thesis by blast
next
  case (failed err)
  then show ?thesis using assms(1,2) by auto
next
  case (unwritten err a' tx)
  then show ?thesis using assms(1) logged_failed [OF assms(2) unwritten(5)] by auto
qed

text \<open>Stores as the program gets them: opened from a log, then changed by saves.  The recovery flag
  is the session's, and other stores set it too.\<close>

inductive approval_reachable ::
    "(string \<Rightarrow> xnode list option) \<Rightarrow> (xnode \<Rightarrow> string option) \<Rightarrow> approval_store \<Rightarrow> bool"
  for parse :: "string \<Rightarrow> xnode list option" and "write" :: "xnode \<Rightarrow> string option" where
  opened: "approval_load parse write rp open_err io path contents = (Some s, e) \<Longrightarrow> approval_reachable parse write s"
| saved: "approval_reachable parse write s \<Longrightarrow> approval_save write io s a = (s', e) \<Longrightarrow>
    approval_reachable parse write s'"
| flagged: "approval_reachable parse write s \<Longrightarrow> approval_reachable parse write (s\<lparr>as_recovery := b\<rparr>)"

lemma approval_load_logged:
  assumes "approval_load parse write rp open_err io path contents = (Some s, e)"
    and "\<forall>n t. write n = Some t \<longrightarrow> no_nul t"
  shows "\<exists>h. as_history (as_current s) h \<and> logged write (as_log s) h"
proof -
  obtain contents' current where visit: "wal_visit rp APPROVAL_FRAME_MAX (approval_replay parse write) contents None = (contents', current, None)"
    using assms(1) by (auto simp: approval_load_def split: prod.splits option.splits)
  define store where "store = \<lparr>as_current = current,
    as_log = \<lparr>st_path = path, st_open = True, st_sync = True, st_file = (case contents' of None \<Rightarrow> [] | Some t \<Rightarrow> t)\<rparr>,
    as_recovery = False\<rparr>"
  have c: "as_current store = current" "st_open (as_log store)"
    "st_file (as_log store) = (case contents' of None \<Rightarrow> [] | Some t \<Rightarrow> t)" by (simp_all add: store_def)
  obtain texts where texts: "wal_visit rp APPROVAL_FRAME_MAX collect contents [] = (contents', texts, None)"
    "feed (approval_replay parse write) None texts = (current, None)"
    using wal_visit_records [OF visit] by blast
  obtain h where h: "as_history current h" "list_all2 (frame_of write) texts (rev h)" using feed_history [OF texts(2)] by blast
  have "logged write (as_log store) h"
    using wal_visit_replay [OF texts(1) c(3)] h(2) logged_open [OF c(2)] by blast
  with h(1) c(1) have ok: "as_history (as_current store) h" "logged write (as_log store) h" by simp_all
  from assms(1) visit consider "s = store" | a where "approval_save write io store a = (s, e)"
    unfolding approval_load_def store_def [symmetric]
    by (auto simp: Let_def store_def [symmetric] c(1) approval_transition_def split: option.splits if_splits prod.splits)
  then show ?thesis
  proof cases
    case 2
    then show ?thesis by (rule approval_save_logged [OF ok _ assms(2)])
  qed (use ok in blast)
qed

lemma approval_reachable_logged:
  assumes "approval_reachable parse write s" "\<forall>n t. write n = Some t \<longrightarrow> no_nul t"
  shows "\<exists>h. as_history (as_current s) h \<and> logged write (as_log s) h"
  using assms(1)
proof (induction rule: approval_reachable.induct)
  case (opened rp open_err io path contents s e)
  then show ?case by (rule approval_load_logged [OF _ assms(2)])
next
  case (saved s io a s' e)
  then show ?case using approval_save_logged [OF _ _ saved(2) assms(2)] by blast
qed simp

section \<open>Properties\<close>

text \<open>
  The approval codec loses nothing: a well-formed record decodes from its encoded value to
  itself, and whatever decodes is well-formed (positive sequence, bounded non-empty fields, valid
  ids and hashes).
\<close>

theorem approval_codec_round_trip:
  "(approval_ok a \<longrightarrow> approval_decode (approval_encode a) = Ok a) \<and>
   (\<forall>v b. approval_decode v = Ok b \<longrightarrow> approval_ok b)"
  using approval_decode_encode approval_decode_ok by blast

section \<open>A sample run\<close>

definition sample_hash :: string where
  "sample_hash = replicate 64 (CHR ''0'')"

definition sample_approval :: "nat \<Rightarrow> int \<Rightarrow> approval_status \<Rightarrow> approval" where
  "sample_approval n seq status =
     \<lparr>ap_sequence = seq, ap_id = ''00000000-0000-4000-8000-00000000000'' @ [digit_char n],
      ap_turn = ''00000000-0000-4000-8000-000000000000'', ap_tool = ''fs'', ap_command = ''write'',
      ap_args_sha = sample_hash, ap_package_sha = sample_hash, ap_snapshot = sample_hash, ap_workspace = ''/w'',
      ap_profile = CHAT, ap_status = status, ap_wide = False, ap_arguments = ''{}''\<rparr>"

definition empty_store :: approval_store where
  "empty_store = \<lparr>as_current = None, as_log = \<lparr>st_path = ''approvals.xcdn'', st_open = True, st_sync = True, st_file = []\<rparr>,
     as_recovery = False\<rparr>"

text \<open>A save whose text is one byte, in a small open log.\<close>

lemma approval_save_fine:
  assumes "\<not> as_recovery s" "st_open (as_log s)" "length (st_file (as_log s)) \<le> 10000"
    and "n = (case as_current s of Some b \<Rightarrow> ap_sequence b + 1 | None \<Rightarrow> 1)" "n < 100"
    and "approval_follows (as_current s) (a\<lparr>ap_sequence := n\<rparr>)"
    and "\<And>fs. approval_encode (a\<lparr>ap_sequence := n\<rparr>) = Some (xobject fs) \<Longrightarrow> write (xnode_new (xobject fs)) = Some ''x''"
  shows "approval_save write (True, io_fine) s a =
    (s\<lparr>as_log := (as_log s)\<lparr>st_file := st_file (as_log s) @ wal_frame ''x''\<rparr>,
       as_current := Some (a\<lparr>ap_sequence := n\<rparr>)\<rparr>, None)"
proof -
  obtain fs where enc: "approval_encode (a\<lparr>ap_sequence := n\<rparr>) = Some (xobject fs)" using approval_encode_object by blast
  have "wal_append True io_fine (as_log s) ''x'' = ((as_log s)\<lparr>st_file := st_file (as_log s) @ wal_frame ''x''\<rparr>, None)"
    by (rule wal_append_fine) (use assms(2,3) in \<open>simp_all add: WAL_FRAME_MAX_def WAL_LOG_MAX_def\<close>)
  moreover have "utf8_valid ''x''" by code_simp
  moreover have "\<not> (case as_current s of Some b \<Rightarrow> 2 ^ 63 - 1 \<le> ap_sequence b | None \<Rightarrow> False)"
    using assms(4,5) by (auto split: option.splits)
  ultimately show ?thesis
    using assms(1,6) assms(7) [OF enc] enc
    unfolding approval_save_def Let_def assms(4) [symmetric]
    by (simp add: wal_put_def APPROVAL_FRAME_MAX_def)
qed

definition sample_store :: "approval_store \<Rightarrow> approval \<Rightarrow> approval_store" where
  "sample_store s a = s\<lparr>as_log := (as_log s)\<lparr>st_file := st_file (as_log s) @ wal_frame ''x''\<rparr>, as_current := Some a\<rparr>"

abbreviation "sample_pending \<equiv> sample_store empty_store (sample_approval 1 1 A_PENDING)"
abbreviation "sample_approved \<equiv> sample_store sample_pending (sample_approval 1 2 A_APPROVED)"
abbreviation "sample_consumed \<equiv> sample_store sample_approved (sample_approval 1 3 A_CONSUMED)"

lemma sample_frame: "length (wal_frame ''x'') \<le> 157"
  using wal_frame_length [of 4096 "''x''"] by (simp add: wal_record_def no_nul_def WAL_FRAME_MAX_def)

lemma sample_digits: "digit_char 0 = CHR ''0''" "digit_char 1 = CHR ''1''" "digit_char 2 = CHR ''2''" "digit_char (Suc 0) = CHR ''1''"
  by code_simp+

lemma sample_seq [simp]: "sample_approval n k st\<lparr>ap_sequence := j\<rparr> = sample_approval n j st"
  by (simp add: sample_approval_def)

lemma sample_run:
  "approval_save (\<lambda>_. Some ''x'') (True, io_fine) empty_store (sample_approval 1 0 A_PENDING) = (sample_pending, None)"
  "approval_save (\<lambda>_. Some ''x'') (True, io_fine) sample_pending (sample_approval 1 0 A_APPROVED) = (sample_approved, None)"
  "approval_save (\<lambda>_. Some ''x'') (True, io_fine) sample_approved (sample_approval 1 0 A_CONSUMED) = (sample_consumed, None)"
proof -
  show "approval_save (\<lambda>_. Some ''x'') (True, io_fine) empty_store (sample_approval 1 0 A_PENDING) = (sample_pending, None)"
    by (subst approval_save_fine [where n = 1])
      (simp_all add: sample_store_def empty_store_def approval_follows_def, simp_all add: sample_approval_def)
  show "approval_save (\<lambda>_. Some ''x'') (True, io_fine) sample_pending (sample_approval 1 0 A_APPROVED) = (sample_approved, None)"
    using sample_frame
    by (subst approval_save_fine [where n = 2])
      (simp_all add: sample_store_def empty_store_def approval_follows_def sample_approval_def same_binding_def)
  show "approval_save (\<lambda>_. Some ''x'') (True, io_fine) sample_approved (sample_approval 1 0 A_CONSUMED) = (sample_consumed, None)"
    using sample_frame
    by (subst approval_save_fine [where n = 3])
      (simp_all add: sample_store_def empty_store_def approval_follows_def sample_approval_def same_binding_def)
qed

lemma sample_reachable: "approval_reachable (\<lambda>_. None) (\<lambda>_. Some ''x'') sample_consumed"
proof -
  have "approval_load (\<lambda>_. None) (\<lambda>_. Some ''x'') repair_fine None (True, io_fine) ''approvals.xcdn'' None = (Some empty_store, None)"
    by (simp add: approval_load_def wal_visit_def wal_scan_def APPROVAL_FRAME_MAX_def WAL_FRAME_MAX_def empty_store_def)
  then have "approval_reachable (\<lambda>_. None) (\<lambda>_. Some ''x'') empty_store" by (rule approval_reachable.opened)
  then show ?thesis using sample_run by (blast intro: approval_reachable.saved)
qed

text \<open>
  C25. An action is consumed only after its own review: whenever the current record of a store is
  CONSUMED, the frames of its log end with a request, its approval and this record, with the same
  id, turn, tool, command, argument hash, package hash, workspace snapshot and displayed
  arguments.  These are the frames any scan of the file delivers, all of the file while the log is
  open; after a failed append has closed it, all but what that append left at the end.  This holds for every
  store opened from any log and changed by any saves, failed ones included.
\<close>

theorem approval_consumed_was_reviewed:
  assumes "approval_reachable parse write s" "as_current s = Some a" "ap_status a = A_CONSUMED"
    and "\<And>n t. write n = Some t \<Longrightarrow> no_nul t"
  shows "\<exists>n texts t1 t2 t3 p b. (st_open (as_log s) \<longrightarrow> n = length (st_file (as_log s))) \<and>
    wal_replay APPROVAL_FRAME_MAX collect ((as_log s)\<lparr>st_file := take n (st_file (as_log s))\<rparr>) [] = Some (texts @ [t1, t2, t3]) \<and>
    frame_of write t1 p \<and> frame_of write t2 b \<and> frame_of write t3 a \<and>
    ap_status p = A_PENDING \<and> ap_status b = A_APPROVED \<and>
    ap_id p = ap_id a \<and> ap_id b = ap_id a \<and> same_binding p a \<and> same_binding b a \<and> ap_wide b = ap_wide a"
proof -
  obtain h1 where "as_history (as_current s) h1" "logged write (as_log s) h1"
    using approval_reachable_logged [OF assms(1)] assms(4) by blast
  then obtain h where h: "approval_history (a # h)" "logged write (as_log s) (a # h)"
    using assms(2) by (cases h1) (auto simp: as_history_def)
  obtain b p h' where r: "h = b # p # h'" "ap_status b = A_APPROVED" "ap_status p = A_PENDING" "ap_id b = ap_id a"
    "ap_id p = ap_id a" "same_binding b a" "same_binding p a" "ap_wide b = ap_wide a"
    using history_consumed [OF h(1) assms(3)] by blast
  obtain n all where n: "st_open (as_log s) \<longrightarrow> n = length (st_file (as_log s))"
    "wal_replay APPROVAL_FRAME_MAX collect ((as_log s)\<lparr>st_file := take n (st_file (as_log s))\<rparr>) [] = Some all"
    "list_all2 (frame_of write) all (rev h' @ [p, b, a])" using h(2) r(1) by (auto simp: logged_def)
  obtain texts t1 t2 t3 where "all = texts @ [t1, t2, t3]" "frame_of write t1 p" "frame_of write t2 b" "frame_of write t3 a"
    using n(3) by (auto simp: list_all2_append2 list_all2_Cons2)
  then show ?thesis using n(1,2) r by blast
qed

theorem approval_consumed_was_reviewed_witness:
  "\<exists>p b. frame_of (\<lambda>_. Some ''x'') ''x'' p \<and> frame_of (\<lambda>_. Some ''x'') ''x'' b \<and> ap_status p = A_PENDING \<and> ap_status b = A_APPROVED \<and>
    ap_id p = ap_id (sample_approval 1 3 A_CONSUMED) \<and> same_binding p (sample_approval 1 3 A_CONSUMED) \<and>
    wal_replay APPROVAL_FRAME_MAX collect (as_log sample_consumed) [] = Some [''x'', ''x'', ''x'']"
proof -
  have fr: "wal_record APPROVAL_FRAME_MAX ''x''" by (simp add: wal_record_def no_nul_def APPROVAL_FRAME_MAX_def WAL_FRAME_MAX_def)
  have scan: "wal_loop APPROVAL_FRAME_MAX collect (frames [''x'', ''x'', ''x''] @ []) 0 [] =
      wal_loop APPROVAL_FRAME_MAX collect [] (0 + length (frames [''x'', ''x'', ''x''])) [''x'', ''x'', ''x'']"
    by (rule wal_loop_frames) (use fr in \<open>simp_all add: collect_def\<close>)
  have whole: "st_file (as_log sample_consumed) = frames [''x'', ''x'', ''x'']" and op: "st_open (as_log sample_consumed)"
    by (simp_all add: sample_store_def empty_store_def)
  have log: "wal_replay APPROVAL_FRAME_MAX collect (as_log sample_consumed) [] = Some [''x'', ''x'', ''x'']"
    using scan sample_frame unfolding wal_replay_def whole
    by (simp add: wal_loop.simps [of _ _ "[]"] WAL_LOG_MAX_def)
  have status: "as_current sample_consumed = Some (sample_approval 1 3 A_CONSUMED)" "ap_status (sample_approval 1 3 A_CONSUMED) = A_CONSUMED"
    by (simp_all add: sample_store_def sample_approval_def)
  have plain: "no_nul t" if "(\<lambda>_. Some ''x'') n = Some t" for n :: xnode and t using that by (auto simp: no_nul_def)
  obtain n texts t1 t2 t3 p b where r: "st_open (as_log sample_consumed) \<longrightarrow> n = length (st_file (as_log sample_consumed))"
    "wal_replay APPROVAL_FRAME_MAX collect ((as_log sample_consumed)\<lparr>st_file := take n (st_file (as_log sample_consumed))\<rparr>) [] =
      Some (texts @ [t1, t2, t3])"
    "frame_of (\<lambda>_. Some ''x'') t1 p" "frame_of (\<lambda>_. Some ''x'') t2 b" "ap_status p = A_PENDING" "ap_status b = A_APPROVED"
    "ap_id p = ap_id (sample_approval 1 3 A_CONSUMED)" "same_binding p (sample_approval 1 3 A_CONSUMED)"
    using approval_consumed_was_reviewed [OF sample_reachable status plain] by blast
  have "(as_log sample_consumed)\<lparr>st_file := take n (st_file (as_log sample_consumed))\<rparr> = as_log sample_consumed"
    using r(1) op by simp
  with r(2) log have "Some (texts @ [t1, t2, t3]) = Some [''x'', ''x'', ''x'']" by metis
  then have "t1 = ''x''" "t2 = ''x''" by (auto simp: append_eq_Cons_conv)
  with r log show ?thesis by blast
qed

text \<open>
  A decided approval is never revived: once a record is denied, consumed, invalidated or
  interrupted, the only record a store accepts next is a fresh request with another id.
\<close>

theorem approval_terminal_is_final:
  assumes "as_current s = Some b" "A_DENIED \<le> ap_status b" "approval_save write io s a = (s', None)"
  shows "\<exists>a'. as_current s' = Some a' \<and> ap_id a' \<noteq> ap_id b \<and> ap_status a' = A_PENDING \<and> \<not> ap_wide a' \<and>
    ap_sequence a' = ap_sequence b + 1"
  using assms(3)
proof (cases rule: approval_save_cases)
  case (saved a' tx)
  then have f: "approval_follows (Some b) a'" using assms(1) by simp
  then show ?thesis using follows_terminal [OF f assms(2)] saved
    by (auto simp: approval_follows_def split: if_splits)
qed simp_all

theorem approval_terminal_is_final_witness:
  "\<exists>a'. as_current (sample_store sample_consumed (sample_approval 2 4 A_PENDING)) = Some a' \<and>
    ap_id a' \<noteq> ap_id (sample_approval 1 3 A_CONSUMED) \<and> ap_status a' = A_PENDING \<and> \<not> ap_wide a' \<and>
    ap_sequence a' = ap_sequence (sample_approval 1 3 A_CONSUMED) + 1"
proof (rule approval_terminal_is_final)
  show "approval_save (\<lambda>_. Some ''x'') (True, io_fine) sample_consumed (sample_approval 2 0 A_PENDING) =
    (sample_store sample_consumed (sample_approval 2 4 A_PENDING), None)"
    using sample_frame
    by (subst approval_save_fine [where n = 4])
      (simp_all add: sample_store_def empty_store_def approval_follows_def sample_approval_def sample_digits
        less_eq_approval_status_def)
qed (simp_all add: sample_store_def sample_approval_def less_eq_approval_status_def)

text \<open>
  C27. Log and memory agree.  If replaying the store's open log gives its current record, then a save
  that succeeds has put the new record into both, with the log still open; and a save that fails
  leaves the record in memory as it was.  While the log stays open after a failure, replaying it still gives that
  record; if the failure closed the log, every later save is refused.  Either way a log opened anew
  gives the record in memory or the very record the failed save was to add, and nothing else.  The
  library is assumed to parse what it wrote.
\<close>

theorem approval_save_durable:
  assumes "approval_save write io s a = (s', e)" "st_open (as_log s)"
    and "wal_replay APPROVAL_FRAME_MAX (approval_replay parse write) (as_log s) None = Some (as_current s)"
    and "\<And>v text. write (xnode_new v) = Some text \<Longrightarrow> parse text = Some [xnode_new v] \<and> text \<noteq> [] \<and> no_nul text"
    and "\<And>n. 0 < n \<Longrightarrow> approval_ok (a\<lparr>ap_sequence := n\<rparr>)" "\<forall>b. as_current s = Some b \<longrightarrow> 0 < ap_sequence b"
  shows "if e = None
    then (\<exists>n. as_current s' = Some (a\<lparr>ap_sequence := n\<rparr>) \<and> approval_follows (as_current s) (a\<lparr>ap_sequence := n\<rparr>)) \<and>
      st_open (as_log s') \<and>
      wal_replay APPROVAL_FRAME_MAX (approval_replay parse write) (as_log s') None = Some (as_current s')
    else as_current s' = as_current s \<and>
      (if st_open (as_log s')
       then wal_replay APPROVAL_FRAME_MAX (approval_replay parse write) (as_log s') None = Some (as_current s')
       else (\<forall>io b. approval_save write io s' b = (s', Some ERR_IO))) \<and>
      (\<exists>c. wal_reopen APPROVAL_FRAME_MAX (approval_replay parse write) (as_log s') None = Some c \<and>
        (c = as_current s \<or> (\<exists>n. c = Some (a\<lparr>ap_sequence := n\<rparr>) \<and> approval_follows (as_current s) (a\<lparr>ap_sequence := n\<rparr>))))"
proof -
  have cap: "0 < APPROVAL_FRAME_MAX" "APPROVAL_FRAME_MAX \<le> WAL_FRAME_MAX" by (simp_all add: APPROVAL_FRAME_MAX_def WAL_FRAME_MAX_def)
  have step: "approval_replay parse write (as_current s) tx = (Some a', None) \<and> wal_record APPROVAL_FRAME_MAX tx"
    if follows: "approval_follows (as_current s) a'" and written: "Option.bind (approval_encode a') (\<lambda>v. write (xnode_new v)) = Some tx"
      and eq: "a' = a\<lparr>ap_sequence := ap_sequence a'\<rparr>" and fit: "length tx \<le> APPROVAL_FRAME_MAX" "utf8_valid tx" for a' tx
  proof -
    have "0 < ap_sequence a'"
      using follows assms(6) by (auto simp: approval_follows_def split: option.splits if_splits)
    then have ok: "approval_ok a'" using assms(5) eq by metis
    obtain fs where enc: "approval_encode a' = Some (xobject fs)" using approval_encode_object by blast
    then have w: "write (xnode_new (xobject fs)) = Some tx" using written by simp
    note lib = assms(4) [OF w]
    have "approval_decode (Some (xobject fs)) = Ok a'" using approval_decode_encode [OF ok] enc by simp
    then have "approval_replay parse write (as_current s) tx = (Some a', None)"
      using follows fit(2) lib w enc by (simp add: approval_replay_def xcanonical_match_def xnode_new_def)
    then show ?thesis using lib fit(1) cap by (simp add: wal_record_def)
  qed
  from assms(1) show ?thesis
  proof (cases rule: approval_save_cases)
    case (saved a' tx)
    note st = step [OF saved(3,4,6,7,8)]
    have "st_open (as_log s')" using wal_append_ok saved(5) unfolding wal_put_def by (metis assms(2) stream.select_convs(2) stream.surjective stream.update_convs(4))
    moreover have "wal_replay APPROVAL_FRAME_MAX (approval_replay parse write) (as_log s') None = Some (as_current s')"
      using wal_log.in_sync_append [unfolded wal_log.in_sync_def, OF assms(3) saved(5)] st saved(2) by simp
    ultimately show ?thesis using saved(1,2,3,6) by metis
  next
    case (failed err)
    then show ?thesis using assms(2,3) wal_replay_reopen [OF assms(3) cap] by simp
  next
    case (unwritten err a' tx)
    note st = step [OF unwritten(3,4,6,7,8)]
    have "wal_reopen APPROVAL_FRAME_MAX (approval_replay parse write) (as_log s') None \<in> {Some (as_current s), Some (Some a')}"
      using wal_log.in_sync_reopen [unfolded wal_log.in_sync_def, OF assms(3) unwritten(5)] st by simp
    then have "\<exists>c. wal_reopen APPROVAL_FRAME_MAX (approval_replay parse write) (as_log s') None = Some c \<and>
        (c = as_current s \<or> (\<exists>n. c = Some (a\<lparr>ap_sequence := n\<rparr>) \<and> approval_follows (as_current s) (a\<lparr>ap_sequence := n\<rparr>)))"
      using unwritten(3,6) by (metis insertE empty_iff)
    moreover have "as_recovery s'" if "\<not> st_open (as_log s')"
      using unwritten(5,9) that assms(2) stream_append_error by (auto simp: wal_put_def wal_append_def split: if_splits)
    moreover have "wal_replay APPROVAL_FRAME_MAX (approval_replay parse write) (as_log s') None = Some (as_current s')" if "st_open (as_log s')"
      using wal_log.in_sync_failed [unfolded wal_log.in_sync_def, OF assms(3) unwritten(5) that] unwritten(2) by simp
    ultimately show ?thesis using unwritten(1,2) by (auto simp: approval_save_def)
  qed
qed

text \<open>A store whose second save is written but not synced: the log is closed, and holds a frame more
  than the memory.\<close>

theorem approval_save_durable_witness:
  "\<exists>parse write s. approval_save write (True, io_fine\<lparr>io_sync_ok := False\<rparr>) empty_store (sample_approval 1 0 A_PENDING) = (s, Some ERR_IO) \<and>
    as_current s = None \<and> approval_save write (True, io_fine) s (sample_approval 1 0 A_PENDING) = (s, Some ERR_IO) \<and>
    (\<exists>c. wal_reopen APPROVAL_FRAME_MAX (approval_replay parse write) (as_log s) None = Some c)"
proof -
  obtain fs where enc: "approval_encode (sample_approval 1 1 A_PENDING) = Some (xobject fs)"
    using approval_encode_object by blast
  let ?wr = "\<lambda>n. if n = xnode_new (xobject fs) then Some ''x'' else None"
  let ?parse = "\<lambda>_. Some [xnode_new (xobject fs)]"
  have uuid: "uuid_valid (Some ''00000000-0000-4000-8000-000000000001'')" "uuid_valid (Some ''00000000-0000-4000-8000-000000000000'')"
    by code_simp+
  have hash: "hash_valid sample_hash" "length sample_hash = 64"
    by (simp_all add: hash_valid_def sample_hash_def list_all_iff hex_lower_def bytes)
  then have ne: "sample_hash \<noteq> []" by (metis length_0_conv zero_neq_numeral)
  define s where "s = empty_store\<lparr>as_log := (as_log empty_store)\<lparr>st_file := wal_frame ''x'', st_open := False\<rparr>, as_recovery := True\<rparr>"
  have "utf8_valid ''x''" by code_simp
  moreover have "wal_append True (io_fine\<lparr>io_sync_ok := False\<rparr>) (as_log empty_store) ''x'' =
      ((as_log empty_store)\<lparr>st_file := wal_frame ''x'', st_open := False\<rparr>, Some ERR_IO)"
    by (simp add: wal_append_def stream_append_def io_fine_def empty_store_def WAL_FRAME_MAX_def WAL_LOG_MAX_def Let_def)
  moreover have none: "as_recovery empty_store = False" "as_current empty_store = None" by (simp_all add: empty_store_def)
  moreover have "approval_follows None (sample_approval 1 1 A_PENDING)" by (simp add: approval_follows_def sample_approval_def)
  ultimately have run: "approval_save ?wr (True, io_fine\<lparr>io_sync_ok := False\<rparr>) empty_store (sample_approval 1 0 A_PENDING) = (s, Some ERR_IO)"
    using enc by (simp add: approval_save_def Let_def wal_put_def s_def APPROVAL_FRAME_MAX_def none)
  have start: "st_open (as_log empty_store)" "as_current empty_store = None" "\<not> st_open (as_log s)"
    "wal_replay APPROVAL_FRAME_MAX (approval_replay ?parse ?wr) (as_log empty_store) None = Some (as_current empty_store)"
    by (simp_all add: empty_store_def s_def wal_replay_def wal_loop.simps [of _ _ "[]"])
  have lib: "?wr (xnode_new v) = Some tx \<Longrightarrow> ?parse tx = Some [xnode_new v] \<and> tx \<noteq> [] \<and> no_nul tx" for v tx
    by (auto simp: no_nul_def split: if_splits)
  have ok: "approval_ok (sample_approval 1 0 A_PENDING\<lparr>ap_sequence := n\<rparr>)" if "0 < n" for n
    using that uuid hash ne by (simp add: approval_ok_def sample_approval_def sample_digits APPROVAL_ARGS_MAX_def)
  from approval_save_durable [OF run start(1,4) lib ok] start(2,3)
  have "as_current s = None" "\<forall>io b. approval_save ?wr io s b = (s, Some ERR_IO)"
    "\<exists>c. wal_reopen APPROVAL_FRAME_MAX (approval_replay ?parse ?wr) (as_log s) None = Some c" by auto
  with run show ?thesis by blast
qed

text \<open>The text a grant key is the hash of.\<close>

definition framed :: "string list \<Rightarrow> string" where
  "framed fs = concat (map (\<lambda>f. f @ [NUL]) fs)"

lemma framed_inj:
  "list_all no_nul fs \<Longrightarrow> list_all no_nul gs \<Longrightarrow> framed fs = framed gs \<longleftrightarrow> fs = gs"
proof (induction fs arbitrary: gs)
  case Nil
  then show ?case by (cases gs) (simp_all add: framed_def)
next
  case (Cons f fs)
  show ?case
  proof (cases gs)
    case (Cons g gs')
    have "f @ NUL # framed fs = g @ NUL # framed gs' \<longleftrightarrow> f = g \<and> framed fs = framed gs'"
    proof
      assume eq: "f @ NUL # framed fs = g @ NUL # framed gs'"
      then have "takeWhile (\<lambda>c. c \<noteq> NUL) (f @ NUL # framed fs) = takeWhile (\<lambda>c. c \<noteq> NUL) (g @ NUL # framed gs')" by simp
      then have "f = g" using Cons.prems Cons by (simp add: takeWhile_before no_nul_def)
      with eq show "f = g \<and> framed fs = framed gs'" by simp
    qed simp
    then show ?thesis using Cons.IH [of gs'] Cons.prems Cons by (auto simp: framed_def)
  qed (simp add: framed_def)
qed

lemma grant_key_hash: "approval_grant_key profile base tool = digest_hex (framed (grant_fields profile base tool))"
proof -
  have "fold (\<lambda>f ctx. sha256_update ctx (f @ [NUL])) fs ctx = fold (\<lambda>piece ctx. sha256_update ctx piece) (map (\<lambda>f. f @ [NUL]) fs) ctx"
    for fs ctx by (induction fs arbitrary: ctx) simp_all
  then show ?thesis
    using sha256_streaming [OF sha_absorbed_pieces [OF sha_absorbed_init]]
    by (simp add: approval_grant_key_def digest_hex_def framed_def sha256_one_shot)
qed

text \<open>
  A session-wide grant covers one tool package only: two selections have the same grant key
  only if reference, command, package hash, workspace and profile all agree, or else SHA-256
  itself collides.
\<close>

theorem grant_key_binds:
  assumes "list_all no_nul (grant_fields profile base tool)" "list_all no_nul (grant_fields profile' base' tool')"
    and "approval_grant_key profile base tool = approval_grant_key profile' base' tool'"
  shows "(profile = profile' \<and> base = base' \<and> tool = tool') \<or>
    (\<exists>x y. x \<noteq> y \<and> asngn_sha256 x = asngn_sha256 y)"
proof (cases "framed (grant_fields profile base tool) = framed (grant_fields profile' base' tool')")
  case True
  then have "grant_fields profile base tool = grant_fields profile' base' tool'"
    using framed_inj [OF assms(1,2)] by simp
  then have "sc_ref tool = sc_ref tool'" "sc_command tool = sc_command tool'" "sc_sha tool = sc_sha tool'"
      "base = base'" "profile_code profile = profile_code profile'"
    by (simp_all add: grant_fields_def decimal_inj)
  moreover from this have "profile = profile'" by (metis option.inject profile_of_code_code)
  ultimately show ?thesis by simp
next
  case False
  then show ?thesis using assms(3) unfolding grant_key_hash digest_hex_inj by blast
qed

theorem grant_key_binds_witness:
  "(CHAT = CHAT \<and> ''/w'' = ''/w'' \<and> \<lparr>sc_ref = ''fs'', sc_command = ''write'', sc_sha = ''0''\<rparr> = \<lparr>sc_ref = ''fs'', sc_command = ''write'', sc_sha = ''0''\<rparr>) \<or>
    (\<exists>x y. x \<noteq> y \<and> asngn_sha256 x = asngn_sha256 y)"
  by (rule grant_key_binds) (simp_all add: grant_fields_def no_nul_def decimal.simps sample_digits)

theorem approval_codec_round_trip_witness:
  "approval_ok (sample_approval 1 1 A_PENDING) \<and>
   approval_decode (approval_encode (sample_approval 1 1 A_PENDING)) = Ok (sample_approval 1 1 A_PENDING)"
proof -
  have "uuid_valid (Some ''00000000-0000-4000-8000-000000000001'')" "uuid_valid (Some ''00000000-0000-4000-8000-000000000000'')"
    by code_simp+
  moreover have hash: "hash_valid sample_hash" "length sample_hash = 64"
    by (simp_all add: hash_valid_def sample_hash_def list_all_iff hex_lower_def bytes)
  moreover from this have "sample_hash \<noteq> []" by (metis length_0_conv zero_neq_numeral)
  ultimately have "approval_ok (sample_approval 1 1 A_PENDING)"
    by (simp add: approval_ok_def sample_approval_def sample_digits APPROVAL_ARGS_MAX_def)
  then show ?thesis using approval_codec_round_trip [of "sample_approval 1 1 A_PENDING"] by blast
qed

end
