(* ===== verification/Confirmation.thy ===== *)
theory Confirmation
  imports Approvals
begin

text \<open>
  The confirmation gate of a mutating action: \<^verbatim>\<open>asngn_call_confirm\<close> in \<^verbatim>\<open>src/confirmation.c\<close>, which
  persists a request, publishes it and waits, and \<^verbatim>\<open>asngn_confirm\<close> in \<^verbatim>\<open>src/api.c\<close>, which another
  thread answers with.  The waiting thread and the host interleave at the timed waits: each
  \<open>poll\<close> is what happens during one of them (answers, cancellation, expiry, a session that needs
  recovery).  The gate's lock makes an answer one step.
\<close>

section \<open>Answering a confirmation\<close>

record confirm_cell =
  cf_id :: string
  cf_decided :: bool
  cf_allow :: bool
  cf_wide :: bool
  cf_session :: bool

record lane =
  ln_cell :: confirm_cell
  ln_store :: approval_store

definition confirm_lane ::
    "(xnode \<Rightarrow> string option) \<Rightarrow> bool \<times> io_plan \<Rightarrow> lane \<Rightarrow> string \<Rightarrow> bool \<Rightarrow> bool \<Rightarrow> lane \<times> asngn_err option" where
  "confirm_lane write io ln confirm_id allow wide =
     (let cell = ln_cell ln in
      if cf_id cell = [] \<or> cf_id cell \<noteq> confirm_id then (ln, Some ERR_NOT_FOUND)
      else if cf_decided cell then
        (ln, if cf_allow cell = allow \<and> cf_wide cell = (allow \<and> wide) then None else Some ERR_BUSY)
      else if \<not> cf_session cell then (ln, Some ERR_NOT_FOUND)
      else case approval_transition write io (Some (ln_store ln)) (if allow then A_APPROVED else A_DENIED) (allow \<and> wide) of
        (store', Some e) \<Rightarrow> (ln\<lparr>ln_store := (case store' of Some s \<Rightarrow> s | None \<Rightarrow> ln_store ln)\<rparr>, Some e)
      | (store', None) \<Rightarrow>
          (ln\<lparr>ln_store := (case store' of Some s \<Rightarrow> s | None \<Rightarrow> ln_store ln),
              ln_cell := cell\<lparr>cf_decided := True, cf_allow := allow, cf_wide := allow \<and> wide\<rparr>\<rparr>, None))"

text \<open>Several engine lanes are asked in turn until one knows the id.\<close>

fun confirm_lanes ::
    "(xnode \<Rightarrow> string option) \<Rightarrow> bool \<times> io_plan \<Rightarrow> lane list \<Rightarrow> string \<Rightarrow> bool \<Rightarrow> bool \<Rightarrow> lane list \<times> asngn_err option" where
  "confirm_lanes write io [] confirm_id allow wide = ([], Some ERR_NOT_FOUND)"
| "confirm_lanes write io (ln # lns) confirm_id allow wide =
     (case confirm_lane write io ln confirm_id allow wide of
        (ln', e) \<Rightarrow>
          if e \<noteq> Some ERR_NOT_FOUND then (ln' # lns, e)
          else (case confirm_lanes write io lns confirm_id allow wide of (lns', e') \<Rightarrow> (ln' # lns', e')))"

section \<open>Waiting\<close>

record poll =
  po_answers :: "(string \<times> bool \<times> bool \<times> (bool \<times> io_plan)) list"
  po_cancel :: bool
  po_expired :: bool
  po_broken :: bool

fun answer_all :: "(xnode \<Rightarrow> string option) \<Rightarrow> lane \<Rightarrow> (string \<times> bool \<times> bool \<times> (bool \<times> io_plan)) list \<Rightarrow> lane" where
  "answer_all write ln [] = ln"
| "answer_all write ln ((cid, allow, wide, io) # as) = answer_all write (fst (confirm_lane write io ln cid allow wide)) as"

text \<open>The waiting loop; None while it is still waiting after the given polls.  The flags are
  cancellation and expiry.\<close>

fun confirm_wait ::
    "(xnode \<Rightarrow> string option) \<Rightarrow> lane \<Rightarrow> bool \<Rightarrow> bool \<Rightarrow> poll list \<Rightarrow> (lane \<times> bool \<times> bool \<times> asngn_err option) option" where
  "confirm_wait write ln cancel expired [] =
     (if cf_decided (ln_cell ln) \<or> cancel \<or> expired then Some (ln, cancel, expired, None)
      else if as_recovery (ln_store ln) then Some (ln, cancel, expired, Some ERR_IO) else None)"
| "confirm_wait write ln cancel expired (p # ps) =
     (if cf_decided (ln_cell ln) \<or> cancel \<or> expired then Some (ln, cancel, expired, None)
      else if as_recovery (ln_store ln) then Some (ln, cancel, expired, Some ERR_IO)
      else
        let ln1 = answer_all write ln (po_answers p);
            ln2 = (if po_broken p then ln1\<lparr>ln_store := (ln_store ln1)\<lparr>as_recovery := True\<rparr>\<rparr> else ln1)
        in confirm_wait write ln2 (cancel \<or> po_cancel p) (expired \<or> po_expired p) ps)"

section \<open>The gate\<close>

datatype confirm_mode = CONFIRM_PROMPT | CONFIRM_DENY | CONFIRM_ALLOW

record tool_note =
  tn_read_only :: bool
  tn_destructive :: bool

record gate_result =
  gr_store :: approval_store
  gr_grants :: "string list"
  gr_allowed :: bool
  gr_code :: string
  gr_approval :: string
  gr_err :: "asngn_err option"

definition no_review_needed :: "confirm_mode \<Rightarrow> security_profile \<Rightarrow> tool_note \<Rightarrow> bool" where
  "no_review_needed mode profile note \<longleftrightarrow>
     (tn_read_only note \<and> \<not> tn_destructive note) \<or> mode = CONFIRM_ALLOW \<or>
     (mode = CONFIRM_PROMPT \<and> profile = AUTOMATION_CI \<and> \<not> tn_destructive note)"

text \<open>The end of the gate, after waiting: \<open>e\<close> is the error so far; \<open>fresh\<close> the workspace
  fingerprint taken now; \<open>valid\<close> whether the selected tool is still the reviewed one.\<close>

definition confirm_finish ::
    "(xnode \<Rightarrow> string option) \<Rightarrow> bool \<times> io_plan \<Rightarrow> lane \<Rightarrow> string list \<Rightarrow> string \<Rightarrow> string \<Rightarrow> string \<Rightarrow> bool \<Rightarrow> bool \<Rightarrow>
     asngn_err option \<Rightarrow> string outcome \<Rightarrow> bool \<Rightarrow> gate_result" where
  "confirm_finish write io ln grants grant cid snapshot cancel expired e fresh valid =
     (let cell = ln_cell ln;
          stop = (\<lambda>store code err. \<lparr>gr_store = store, gr_grants = grants, gr_allowed = False, gr_code = code,
             gr_approval = [], gr_err = err\<rparr>)
      in
      if e = None \<and> cf_decided cell \<and> \<not> cancel \<and> \<not> expired \<and> \<not> cf_allow cell
        then stop (ln_store ln) ''astools/denied'' None
      else
        let (status, code, e1) =
              (if e = None \<and> cf_decided cell \<and> \<not> cancel \<and> \<not> expired then
                 (case fresh of
                    Err err \<Rightarrow> (A_INVALIDATED, ''asngn/approval-stale'', Some err)
                  | Ok current \<Rightarrow>
                      if snapshot = current \<and> valid then (A_CONSUMED, ''astools/denied'', None)
                      else (A_INVALIDATED, ''asngn/approval-stale'', None))
               else (A_INTERRUPTED, if cancel then ''astools/cancelled'' else ''asngn/confirm-timeout'', e));
            (store1, saved) =
              (case as_current (ln_store ln) of
                 Some a \<Rightarrow>
                   if ap_status a = A_PENDING \<or> ap_status a = A_APPROVED
                   then approval_transition write io (Some (ln_store ln)) status (ap_wide a)
                   else (Some (ln_store ln), None)
               | None \<Rightarrow> (Some (ln_store ln), None));
            store = (case store1 of Some s \<Rightarrow> s | None \<Rightarrow> ln_store ln)
        in
        if e1 \<noteq> None then stop store code e1
        else if saved \<noteq> None then stop store code saved
        else \<lparr>gr_store = store,
              gr_grants = (if status = A_CONSUMED \<and> cf_wide cell then grants @ [grant] else grants),
              gr_allowed = (status = A_CONSUMED), gr_code = code,
              gr_approval = (if status = A_CONSUMED then cid else []), gr_err = None\<rparr>)"

text \<open>The outside of one gate: the journal calls of the request and of the final transition, the
  publication's error and the answers given from its callback, the polls, late flags, and the two fingerprints.\<close>

record gate_env =
  ge_io_request :: "bool \<times> io_plan"
  ge_io_finish :: "bool \<times> io_plan"
  ge_publish :: "asngn_err option"
  ge_answers :: "(string \<times> bool \<times> bool \<times> (bool \<times> io_plan)) list"
  ge_polls :: "poll list"
  ge_cancel :: bool
  ge_expired :: bool
  ge_late_cancel :: bool
  ge_late_expired :: bool
  ge_first :: "string outcome"
  ge_fresh :: "string outcome"
  ge_valid :: bool

definition call_confirm ::
    "(xnode \<Rightarrow> string option) \<Rightarrow> (string \<Rightarrow> string option outcome) \<Rightarrow> gate_env \<Rightarrow> string \<Rightarrow> confirm_mode \<Rightarrow>
     security_profile \<Rightarrow> string \<Rightarrow> string \<Rightarrow> approval_store \<Rightarrow> string list \<Rightarrow> selected_command \<Rightarrow> string option \<Rightarrow>
     tool_note \<Rightarrow> gate_result option" where
  "call_confirm write redact env random mode profile turn base store grants tool args note =
     (let stop = (\<lambda>s allowed code err. \<lparr>gr_store = s, gr_grants = grants, gr_allowed = allowed, gr_code = code,
            gr_approval = [], gr_err = err\<rparr>);
          grant = approval_grant_key profile base tool
      in
      if no_review_needed mode profile note then Some (stop store True ''astools/denied'' None)
      else if mode = CONFIRM_DENY then Some (stop store False ''asngn/confirm-required'' None)
      else if grant \<in> set grants then Some (stop store True ''astools/denied'' None)
      else case approval_prepare write (ge_io_request env) redact (ge_first env) random turn profile base store tool args of
        (store1, Err e) \<Rightarrow> Some (stop store1 False ''astools/denied'' (Some e))
      | (store1, Ok (cid, snapshot)) \<Rightarrow>
          let ln = answer_all write \<lparr>ln_cell = \<lparr>cf_id = cid, cf_decided = False, cf_allow = False, cf_wide = False,
                      cf_session = True\<rparr>, ln_store = store1\<rparr> (ge_answers env);
              waited = (if ge_publish env \<noteq> None then Some (ln, ge_cancel env, ge_expired env, ge_publish env)
                        else confirm_wait write ln (ge_cancel env) (ge_expired env) (ge_polls env))
          in
          (case waited of
             None \<Rightarrow> None
           | Some (ln', cancel, expired, e) \<Rightarrow>
               Some (confirm_finish write (ge_io_finish env) ln' grants grant cid snapshot
                 (cancel \<or> ge_late_cancel env) (expired \<or> ge_late_expired env) e (ge_fresh env) (ge_valid env))))"

section \<open>What the wait preserves\<close>

text \<open>While a request waits, the store's current record is that request, and a decision in the
  cell is the decision in the log.\<close>

definition awaiting :: "approval \<Rightarrow> lane \<Rightarrow> bool" where
  "awaiting a ln \<longleftrightarrow>
     (\<exists>c. as_current (ln_store ln) = Some c \<and> ap_id c = ap_id a \<and> same_binding a c \<and>
        (if cf_decided (ln_cell ln)
         then ap_status c = (if cf_allow (ln_cell ln) then A_APPROVED else A_DENIED) \<and> ap_wide c = cf_wide (ln_cell ln)
         else ap_status c = A_PENDING))"

lemma same_binding_status [simp]: "same_binding a (c\<lparr>ap_status := s, ap_wide := w\<rparr>) = same_binding a c"
  "same_binding a (c\<lparr>ap_sequence := n\<rparr>) = same_binding a c"
  by (simp_all add: same_binding_def)

lemma transition_cases:
  assumes "approval_transition write io (Some s) status wide = (store', e)" "as_current s = Some c"
  shows "\<exists>s'. store' = Some s' \<and>
    (if e = None then as_current s' = Some (c\<lparr>ap_status := status, ap_wide := wide, ap_sequence := ap_sequence c + 1\<rparr>)
     else as_current s' = Some c)"
proof -
  obtain s' where s': "approval_save write io s (c\<lparr>ap_status := status, ap_wide := wide\<rparr>) = (s', e)" "store' = Some s'"
    using assms by (auto simp: approval_transition_def split: prod.splits)
  from s'(1) show ?thesis
  proof (cases rule: approval_save_cases)
    case (saved a' tx)
    then have "approval_follows (Some c) a'" using assms(2) by simp
    then have "ap_sequence a' = ap_sequence c + 1" by (simp add: approval_follows_def split: if_splits)
    then show ?thesis using saved s'(2) by (metis approval.simps(26) approval.update_convs(1))
  qed (use s'(2) assms(2) in simp_all)
qed

lemma awaiting_confirm: "awaiting a ln \<Longrightarrow> awaiting a (fst (confirm_lane write io ln cid allow wide))"
proof -
  assume aw: "awaiting a ln"
  then obtain c where c: "as_current (ln_store ln) = Some c" by (auto simp: awaiting_def)
  obtain st e where tr: "approval_transition write io (Some (ln_store ln)) (if allow then A_APPROVED else A_DENIED) (allow \<and> wide) = (st, e)"
    by (metis surj_pair)
  from transition_cases [OF tr c] obtain s' where "st = Some s'"
      "if e = None then as_current s' = Some (c\<lparr>ap_status := (if allow then A_APPROVED else A_DENIED), ap_wide := allow \<and> wide,
         ap_sequence := ap_sequence c + 1\<rparr>) else as_current s' = Some c"
    by blast
  then show ?thesis using aw c tr
    by (cases e) (auto simp: confirm_lane_def Let_def awaiting_def same_binding_def)
qed

lemma awaiting_answers: "awaiting a ln \<Longrightarrow> awaiting a (answer_all write ln as)"
  by (induction "write" ln as rule: answer_all.induct) (simp_all add: awaiting_confirm)

lemma awaiting_recovery [simp]:
  "awaiting a (ln\<lparr>ln_store := (ln_store ln)\<lparr>as_recovery := x\<rparr>\<rparr>) = awaiting a ln"
  unfolding awaiting_def by simp

lemma awaiting_wait:
  "confirm_wait write ln cancel expired ps = Some (ln', cancel', expired', e) \<Longrightarrow> awaiting a ln \<Longrightarrow> awaiting a ln'"
proof (induction "write" ln cancel expired ps rule: confirm_wait.induct)
  case (2 "write" ln cancel expired p ps)
  have "awaiting a (answer_all write ln (po_answers p))" using 2(3) by (rule awaiting_answers)
  then show ?case
    using 2 by (auto simp: Let_def split: if_splits)
qed (auto split: if_splits)

text \<open>What an allowing end of the gate rests on.\<close>

lemma confirm_finish_allowed:
  assumes aw: "awaiting a ln" and allowed: "gr_allowed (confirm_finish write io ln grants grant cid snapshot cancel expired e fresh valid)"
  shows "\<exists>c. as_current (ln_store ln) = Some c \<and> ap_status c = A_APPROVED \<and> ap_wide c = cf_wide (ln_cell ln) \<and>
    fresh = Ok snapshot \<and> valid \<and> \<not> cancel \<and> \<not> expired \<and> e = None \<and>
    as_current (gr_store (confirm_finish write io ln grants grant cid snapshot cancel expired e fresh valid)) =
      Some (c\<lparr>ap_status := A_CONSUMED, ap_sequence := ap_sequence c + 1\<rparr>) \<and>
    gr_approval (confirm_finish write io ln grants grant cid snapshot cancel expired e fresh valid) = cid"
proof -
  obtain c where c: "as_current (ln_store ln) = Some c"
    and d: "cf_decided (ln_cell ln) \<Longrightarrow> ap_status c = (if cf_allow (ln_cell ln) then A_APPROVED else A_DENIED) \<and> ap_wide c = cf_wide (ln_cell ln)"
    using aw by (auto simp: awaiting_def)
  have live: "e = None" "cf_decided (ln_cell ln)" "\<not> cancel" "\<not> expired" "cf_allow (ln_cell ln)" "fresh = Ok snapshot" "valid"
    using allowed by (auto simp: confirm_finish_def Let_def split: if_split_asm prod.splits sum.splits)
  then have st: "ap_status c = A_APPROVED" "ap_wide c = cf_wide (ln_cell ln)" using d by simp_all
  obtain st' e' where tr: "approval_transition write io (Some (ln_store ln)) A_CONSUMED (ap_wide c) = (st', e')"
    by (metis surj_pair)
  have e': "e' = None"
    using allowed c live st tr by (simp add: confirm_finish_def Let_def split: if_split_asm)
  with transition_cases [OF tr c] obtain s' where "st' = Some s'"
      "as_current s' = Some (c\<lparr>ap_status := A_CONSUMED, ap_wide := ap_wide c, ap_sequence := ap_sequence c + 1\<rparr>)"
    by auto
  then show ?thesis
    using c live st tr e' by (simp add: confirm_finish_def Let_def)
qed

text \<open>What a prepared request leaves as the current record.\<close>

lemma approval_prepare_current:
  assumes "approval_prepare write io redact fp random turn profile base store tool args = (store', Ok (cid, snapshot))"
  shows "\<exists>a text. as_current store' = Some a \<and> args = Some text \<and> ap_id a = cid \<and> cid = uuid_v4 random \<and> fp = Ok snapshot \<and>
    ap_snapshot a = snapshot \<and> ap_args_sha a = digest_hex text \<and> ap_tool a = take 127 (sc_ref tool) \<and>
    ap_command a = take 63 (sc_command tool) \<and> ap_package_sha a = take 64 (sc_sha tool) \<and>
    ap_workspace a = take 4095 base \<and> ap_turn a = turn \<and> ap_profile a = profile \<and> ap_status a = A_PENDING"
proof -
  obtain tx shown where ok: "args = Some tx" "fp = Ok snapshot" "cid = uuid_v4 random" and
    save: "approval_save write io store \<lparr>ap_sequence = 0, ap_id = uuid_v4 random, ap_turn = turn, ap_tool = take 127 (sc_ref tool),
       ap_command = take 63 (sc_command tool), ap_args_sha = digest_hex tx,
       ap_package_sha = take 64 (sc_sha tool), ap_snapshot = snapshot, ap_workspace = take 4095 base,
       ap_profile = profile, ap_status = A_PENDING, ap_wide = False, ap_arguments = shown\<rparr> = (store', None)"
    using assms by (auto simp: approval_prepare_def Let_def split: option.splits if_split_asm sum.splits prod.splits)
  from save show ?thesis
  proof (cases rule: approval_save_cases)
    case (saved a' tx')
    then obtain n where a': "a' = \<lparr>ap_sequence = n, ap_id = uuid_v4 random, ap_turn = turn, ap_tool = take 127 (sc_ref tool),
       ap_command = take 63 (sc_command tool), ap_args_sha = digest_hex tx,
       ap_package_sha = take 64 (sc_sha tool), ap_snapshot = snapshot, ap_workspace = take 4095 base,
       ap_profile = profile, ap_status = A_PENDING, ap_wide = False, ap_arguments = shown\<rparr>" by simp
    show ?thesis using saved(2) ok by (intro exI [of _ a'] exI [of _ tx]) (simp add: a')
  qed simp_all
qed

section \<open>Properties\<close>

text \<open>
  C26. The gate lets an action that needs review run only when it was reviewed and nothing changed
  meanwhile: the store's current record is then CONSUMED, carries the gate's own approval id, the
  hash of exactly these arguments, this tool, command, package, workspace, profile and turn, and
  its workspace snapshot equals the fingerprint taken after the answer; the wait was neither
  cancelled nor expired and the selection still validates.  Whatever the other threads answered
  during the wait, for this id or others, with any journal failures.
\<close>

theorem confirm_allows_only_reviewed:
  assumes "call_confirm write redact env random mode profile turn base store grants tool args note = Some r"
    and "gr_allowed r" "\<not> no_review_needed mode profile note" "approval_grant_key profile base tool \<notin> set grants"
  shows "\<exists>a text. as_current (gr_store r) = Some a \<and> ap_status a = A_CONSUMED \<and> ap_id a = gr_approval r \<and>
    args = Some text \<and> ap_args_sha a = digest_hex text \<and> ap_turn a = turn \<and> ap_profile a = profile \<and>
    ap_tool a = take 127 (sc_ref tool) \<and> ap_command a = take 63 (sc_command tool) \<and>
    ap_package_sha a = take 64 (sc_sha tool) \<and> ap_workspace a = take 4095 base \<and>
    ge_fresh env = Ok (ap_snapshot a) \<and> ge_valid env \<and> \<not> ge_late_cancel env \<and> \<not> ge_late_expired env"
proof -
  obtain store1 cid snapshot where prep:
      "approval_prepare write (ge_io_request env) redact (ge_first env) random turn profile base store tool args = (store1, Ok (cid, snapshot))"
    using assms by (cases "approval_prepare write (ge_io_request env) redact (ge_first env) random turn profile base store tool args")
      (auto simp: call_confirm_def Let_def split: if_split_asm sum.splits)
  define ln where "ln = answer_all write \<lparr>ln_cell = \<lparr>cf_id = cid, cf_decided = False, cf_allow = False, cf_wide = False,
     cf_session = True\<rparr>, ln_store = store1\<rparr> (ge_answers env)"
  obtain a tx where a: "as_current store1 = Some a" "args = Some tx" "ap_id a = cid" "ap_snapshot a = snapshot"
      "ap_args_sha a = digest_hex tx" "ap_tool a = take 127 (sc_ref tool)" "ap_command a = take 63 (sc_command tool)"
      "ap_package_sha a = take 64 (sc_sha tool)" "ap_workspace a = take 4095 base" "ap_turn a = turn"
      "ap_profile a = profile" "ap_status a = A_PENDING"
    using approval_prepare_current [OF prep] by blast
  have "awaiting a ln" unfolding ln_def by (rule awaiting_answers) (simp add: awaiting_def a same_binding_def)
  obtain ln' cancel expired e where waited:
      "(if ge_publish env \<noteq> None then Some (ln, ge_cancel env, ge_expired env, ge_publish env)
        else confirm_wait write ln (ge_cancel env) (ge_expired env) (ge_polls env)) = Some (ln', cancel, expired, e)"
    and r: "r = confirm_finish write (ge_io_finish env) ln' grants (approval_grant_key profile base tool) cid snapshot
      (cancel \<or> ge_late_cancel env) (expired \<or> ge_late_expired env) e (ge_fresh env) (ge_valid env)"
    using assms prep unfolding call_confirm_def Let_def ln_def [symmetric]
    by (auto simp: ln_def [symmetric] split: if_split_asm option.splits)
  have "awaiting a ln'"
    using waited \<open>awaiting a ln\<close> awaiting_wait by (metis (no_types, lifting) Pair_inject option.inject)
  then obtain c where c: "as_current (ln_store ln') = Some c" "ap_id c = ap_id a" "same_binding a c"
    by (auto simp: awaiting_def)
  note fin = confirm_finish_allowed [OF \<open>awaiting a ln'\<close> assms(2) [unfolded r], folded r]
  show ?thesis
    using fin a c by (intro exI [of _ "c\<lparr>ap_status := A_CONSUMED, ap_sequence := ap_sequence c + 1\<rparr>"] exI [of _ tx])
      (auto simp: same_binding_def)
qed

text \<open>A reviewed run: the host answers from the publication's callback.\<close>

abbreviation "sample_random \<equiv> ''0123456789abcdef''"

definition sample_env :: gate_env where
  "sample_env = \<lparr>ge_io_request = (True, io_fine), ge_io_finish = (True, io_fine), ge_publish = None,
     ge_answers = [(uuid_v4 sample_random, True, False, (True, io_fine))], ge_polls = [], ge_cancel = False, ge_expired = False,
     ge_late_cancel = False, ge_late_expired = False, ge_first = Ok sample_hash, ge_fresh = Ok sample_hash, ge_valid = True\<rparr>"

abbreviation "sample_tool \<equiv> \<lparr>sc_ref = ''fs'', sc_command = ''write'', sc_sha = sample_hash\<rparr>"
abbreviation "sample_note \<equiv> \<lparr>tn_read_only = False, tn_destructive = True\<rparr>"

definition sample_request :: "int \<Rightarrow> approval_status \<Rightarrow> approval" where
  "sample_request n status = \<lparr>ap_sequence = n, ap_id = uuid_v4 sample_random, ap_turn = ''t'', ap_tool = ''fs'',
     ap_command = ''write'', ap_args_sha = digest_hex ''{}'', ap_package_sha = sample_hash, ap_snapshot = sample_hash,
     ap_workspace = ''/w'', ap_profile = CHAT, ap_status = status, ap_wide = False, ap_arguments = ''{}''\<rparr>"

lemma sample_request_simps [simp]:
  "ap_id (sample_request n s) = uuid_v4 sample_random" "ap_sequence (sample_request n s) = n" "ap_status (sample_request n s) = s"
  "ap_wide (sample_request n s) = False" "same_binding (sample_request n s) (sample_request m s')"
  "sample_request n s\<lparr>ap_sequence := m\<rparr> = sample_request m s"
  "sample_request n s\<lparr>ap_status := s', ap_wide := False\<rparr> = sample_request n s'"
  by (simp_all add: sample_request_def same_binding_def)

abbreviation "gate1 \<equiv> sample_store empty_store (sample_request 1 A_PENDING)"
abbreviation "gate2 \<equiv> sample_store gate1 (sample_request 2 A_APPROVED)"
abbreviation "gate3 \<equiv> sample_store gate2 (sample_request 3 A_CONSUMED)"

lemma sample_store_simps [simp]:
  "as_current (sample_store s a) = Some a" "as_recovery (sample_store s a) = as_recovery s"
  "st_open (as_log (sample_store s a)) = st_open (as_log s)"
  "length (st_file (as_log (sample_store s a))) = length (st_file (as_log s)) + length (wal_frame ''x'')"
  by (simp_all add: sample_store_def)

lemma empty_store_simps [simp]:
  "as_current empty_store = None" "\<not> as_recovery empty_store" "st_open (as_log empty_store)" "st_file (as_log empty_store) = []"
  by (simp_all add: empty_store_def)

lemma gate_saves:
  "approval_save (\<lambda>_. Some ''x'') (True, io_fine) empty_store (sample_request n A_PENDING) = (gate1, None)"
  "approval_save (\<lambda>_. Some ''x'') (True, io_fine) gate1 (sample_request n A_APPROVED) = (gate2, None)"
  "approval_save (\<lambda>_. Some ''x'') (True, io_fine) gate2 (sample_request n A_CONSUMED) = (gate3, None)"
proof -
  show "approval_save (\<lambda>_. Some ''x'') (True, io_fine) empty_store (sample_request n A_PENDING) = (gate1, None)"
    by (subst approval_save_fine [where n = 1]) (simp_all add: approval_follows_def sample_store_def)
  show "approval_save (\<lambda>_. Some ''x'') (True, io_fine) gate1 (sample_request n A_APPROVED) = (gate2, None)"
    using sample_frame by (subst approval_save_fine [where n = 2]) (simp_all add: approval_follows_def, simp_all add: sample_store_def)
  show "approval_save (\<lambda>_. Some ''x'') (True, io_fine) gate2 (sample_request n A_CONSUMED) = (gate3, None)"
    using sample_frame by (subst approval_save_fine [where n = 3]) (simp_all add: approval_follows_def, simp_all add: sample_store_def)
qed

lemma sample_id_nonempty [simp]: "uuid_v4 sample_random \<noteq> []"
  by code_simp

lemma sample_gate:
  "call_confirm (\<lambda>_. Some ''x'') (\<lambda>_. Ok None) sample_env sample_random CONFIRM_PROMPT CHAT ''t'' ''/w'' empty_store [] sample_tool
     (Some ''{}'') sample_note =
   Some \<lparr>gr_store = gate3, gr_grants = [], gr_allowed = True, gr_code = ''astools/denied'', gr_approval = uuid_v4 sample_random, gr_err = None\<rparr>"
proof -
  have hash: "take 64 sample_hash = sample_hash" by (simp add: sample_hash_def)
  have "\<lparr>ap_sequence = 0, ap_id = uuid_v4 sample_random, ap_turn = ''t'', ap_tool = ''fs'',
     ap_command = ''write'', ap_args_sha = digest_hex ''{}'', ap_package_sha = sample_hash, ap_snapshot = sample_hash,
     ap_workspace = ''/w'', ap_profile = CHAT, ap_status = A_PENDING, ap_wide = False, ap_arguments = ''{}''\<rparr> = sample_request 0 A_PENDING"
    by (simp add: sample_request_def)
  then have "approval_prepare (\<lambda>_. Some ''x'') (True, io_fine) (\<lambda>_. Ok None) (Ok sample_hash) sample_random ''t'' CHAT ''/w'' empty_store sample_tool
     (Some ''{}'') = (gate1, Ok (uuid_v4 sample_random, sample_hash))"
    using gate_saves(1) [of 0] by (simp add: approval_prepare_def APPROVAL_ARGS_MAX_def hash)
  then show ?thesis
    using gate_saves(2) [of 1] gate_saves(3) [of 2]
    by (simp add: call_confirm_def sample_env_def no_review_needed_def confirm_lane_def approval_transition_def confirm_finish_def)
qed

theorem confirm_allows_only_reviewed_witness:
  "\<exists>a text. as_current gate3 = Some a \<and> ap_status a = A_CONSUMED \<and> ap_id a = uuid_v4 sample_random \<and>
    Some ''{}'' = Some text \<and> ap_args_sha a = digest_hex text \<and> ap_turn a = ''t'' \<and> ap_profile a = CHAT \<and>
    ap_tool a = take 127 ''fs'' \<and> ap_command a = take 63 ''write'' \<and>
    ap_package_sha a = take 64 sample_hash \<and> ap_workspace a = take 4095 ''/w'' \<and>
    ge_fresh sample_env = Ok (ap_snapshot a) \<and> ge_valid sample_env \<and> \<not> ge_late_cancel sample_env \<and> \<not> ge_late_expired sample_env"
  using confirm_allows_only_reviewed [OF sample_gate] by (simp add: no_review_needed_def)

text \<open>
  One confirmation, one decision: after any answer to the waiting request the decision never
  changes, whatever is answered later; repeating the same answer succeeds and a different one is
  refused as busy.
\<close>

theorem confirm_decides_once:
  assumes "cf_decided (ln_cell ln)" "cf_id (ln_cell ln) = cid" "cid \<noteq> []"
  shows "answer_all write ln as = ln \<and>
    confirm_lane write io ln cid allow wide =
      (ln, if cf_allow (ln_cell ln) = allow \<and> cf_wide (ln_cell ln) = (allow \<and> wide) then None else Some ERR_BUSY)"
proof
  have "fst (confirm_lane write io ln cid' allow' wide') = ln" for io cid' allow' wide'
    using assms by (simp add: confirm_lane_def Let_def)
  then show "answer_all write ln as = ln"
    by (induction "as") auto
qed (use assms in \<open>simp add: confirm_lane_def Let_def\<close>)

theorem confirm_decides_once_witness:
  "answer_all (\<lambda>_. None) \<lparr>ln_cell = \<lparr>cf_id = ''a'', cf_decided = True, cf_allow = False, cf_wide = False, cf_session = True\<rparr>,
      ln_store = empty_store\<rparr> [(''a'', True, True, (True, io_fine))] =
    \<lparr>ln_cell = \<lparr>cf_id = ''a'', cf_decided = True, cf_allow = False, cf_wide = False, cf_session = True\<rparr>, ln_store = empty_store\<rparr>"
  by (rule confirm_decides_once [where cid = "''a''", THEN conjunct1]) simp_all

end
