(* ===== verification/Work.thy ===== *)
theory Work
  imports Xutil Uuid Util Wal Consumption
begin

text \<open>
  Acceptance contracts: definitions and their validation (\<^verbatim>\<open>src/work_definition.c\<close>), the refresh of
  proofs against a workspace snapshot, the state codec (\<^verbatim>\<open>src/work_codec.c\<close>), the durable store and
  its replay (\<^verbatim>\<open>src/work_store.c\<close>, \<^verbatim>\<open>src/work_replay.c\<close>) and the public updates
  (\<^verbatim>\<open>src/work_api.c\<close>).

  A fixed-size character array is the list of its bytes before the first NUL; a list at least as long
  as the array is an array without one.  The array of proofs is the list of its first \<open>count\<close>
  entries.  The xCDN parser and writer are arguments.
\<close>

section \<open>Definitions\<close>

definition WORK_CRITERIA_MAX :: nat where "WORK_CRITERIA_MAX = 16"
definition WORK_FRAME_MAX :: nat where "WORK_FRAME_MAX = 256 * 1024"

record criterion =
  cr_id :: string
  cr_requirement :: string
  cr_command :: string
  cr_path :: string
  cr_adapter :: string
  cr_depends :: "32 word"

record work_definition =
  wd_goal :: string
  wd_constraints :: string
  wd_criteria :: "criterion list"

datatype proof_status =
    NOT_RUN | PROOF_PASSED | PROOF_FAILED | INCONCLUSIVE | INFRASTRUCTURE_ERROR | STALE | BLOCKED

record work_proof =
  wp_status :: proof_status
  wp_action :: string
  wp_snapshot :: string
  wp_receipt :: string

record work_state =
  wk_revision :: int
  wk_sequence :: int
  wk_definition :: work_definition
  wk_proofs :: "work_proof list"
  wk_succeeded :: bool

definition no_proof :: work_proof where
  "no_proof = \<lparr>wp_status = NOT_RUN, wp_action = [], wp_snapshot = [], wp_receipt = []\<rparr>"

definition work_zero :: work_state where
  "work_zero = \<lparr>wk_revision = 0, wk_sequence = 0,
     wk_definition = \<lparr>wd_goal = [], wd_constraints = [], wd_criteria = []\<rparr>, wk_proofs = [], wk_succeeded = False\<rparr>"

definition work_text :: "string \<Rightarrow> nat \<Rightarrow> bool \<Rightarrow> bool" where
  "work_text s cap required \<longleftrightarrow> length s < cap \<and> (\<not> required \<or> s \<noteq> []) \<and> utf8_valid s"

definition path_is_abs :: "string \<Rightarrow> bool" where
  "path_is_abs p \<longleftrightarrow> p \<noteq> [] \<and> hd p = CHR ''/''"

definition path_join :: "string option \<Rightarrow> string option \<Rightarrow> string" where
  "path_join a b =
     (if a = None \<or> a = Some [] then (case b of None \<Rightarrow> [] | Some t \<Rightarrow> t)
      else if b = None \<or> b = Some [] then the a
      else the a @ (if last (the a) \<noteq> CHR ''/'' \<and> last (the a) \<noteq> BSLASH then ''/'' else []) @ the b)"

function path_segments :: "string \<Rightarrow> bool" where
  "path_segments p =
     (let seg = takeWhile (\<lambda>c. c \<noteq> CHR ''/'') p; rest = drop (length seg) p in
      if seg = [] \<or> seg = ''.'' \<or> seg = ''..'' then False
      else if rest = [] then True
      else path_segments (tl rest))"
  by pat_completeness auto
termination
  by (relation "measure length") (auto simp: Let_def)

declare path_segments.simps [simp del]

definition path_valid :: "string \<Rightarrow> bool" where
  "path_valid s \<longleftrightarrow>
     s = ''.'' \<or>
     (\<not> path_is_abs s \<and> BSLASH \<notin> set s \<and> CHR '':'' \<notin> set s \<and> path_segments s)"

definition work_commands :: "string list" where
  "work_commands = [''build'', ''test'', ''lint'', ''diagnostics'']"

definition work_adapters :: "string list" where
  "work_adapters = [''auto'', ''cmake'', ''cargo'', ''npm'', ''python'']"

definition criterion_valid :: "criterion list \<Rightarrow> nat \<Rightarrow> criterion \<Rightarrow> bool" where
  "criterion_valid cs i c \<longleftrightarrow>
     work_text (cr_id c) 33 True \<and> slug_valid (Some (cr_id c)) \<and>
     work_text (cr_requirement c) 257 True \<and>
     work_text (cr_command c) 16 True \<and> cr_command c \<in> set work_commands \<and>
     work_text (cr_adapter c) 16 True \<and> cr_adapter c \<in> set work_adapters \<and>
     work_text (cr_path c) 257 True \<and> path_valid (cr_path c) \<and>
     cr_depends c < push_bit i 1 \<and>
     list_all (\<lambda>b. cr_id c \<noteq> cr_id b) (take i cs)"

definition work_definition_valid :: "work_definition option \<Rightarrow> bool" where
  "work_definition_valid d =
     (case d of
        None \<Rightarrow> False
      | Some w \<Rightarrow>
          wd_criteria w \<noteq> [] \<and> length (wd_criteria w) \<le> WORK_CRITERIA_MAX \<and>
          work_text (wd_goal w) 513 True \<and> work_text (wd_constraints w) 513 False \<and>
          list_all (\<lambda>i. criterion_valid (wd_criteria w) i (wd_criteria w ! i)) [0..<length (wd_criteria w)])"

definition criterion_equal :: "criterion \<Rightarrow> criterion \<Rightarrow> bool" where
  "criterion_equal a b \<longleftrightarrow>
     cr_id a = cr_id b \<and> cr_requirement a = cr_requirement b \<and> cr_command a = cr_command b \<and>
     cr_adapter a = cr_adapter b \<and> cr_path a = cr_path b \<and> cr_depends a = cr_depends b"

lemma criterion_equal_iff [simp]: "criterion_equal a b \<longleftrightarrow> a = b"
  by (auto simp: criterion_equal_def)

fun proof_status_name :: "proof_status \<Rightarrow> string" where
  "proof_status_name NOT_RUN = ''not_run''"
| "proof_status_name PROOF_PASSED = ''passed''"
| "proof_status_name PROOF_FAILED = ''failed''"
| "proof_status_name INCONCLUSIVE = ''inconclusive''"
| "proof_status_name INFRASTRUCTURE_ERROR = ''infrastructure_error''"
| "proof_status_name STALE = ''stale''"
| "proof_status_name BLOCKED = ''blocked''"

section \<open>Refreshing proofs\<close>

definition proof_fresh :: "string option \<Rightarrow> work_proof \<Rightarrow> bool" where
  "proof_fresh snapshot p \<longleftrightarrow> snapshot \<noteq> None \<and> snapshot \<noteq> Some [] \<and> snapshot = Some (wp_snapshot p)"

fun refresh_proofs :: "string option \<Rightarrow> nat \<Rightarrow> 32 word \<Rightarrow> criterion list \<Rightarrow> work_proof list \<Rightarrow> work_proof list" where
  "refresh_proofs snapshot i passed (c # cs) (p # ps) =
     (let p1 = (if wp_status p \<noteq> NOT_RUN \<and> wp_status p \<noteq> STALE \<and> \<not> proof_fresh snapshot p
                then p\<lparr>wp_status := STALE\<rparr> else p);
          p2 = (if wp_status p1 = PROOF_PASSED \<and> (cr_depends c AND passed) \<noteq> cr_depends c
                then p1\<lparr>wp_status := BLOCKED\<rparr> else p1)
      in p2 # refresh_proofs snapshot (Suc i)
           (if wp_status p2 = PROOF_PASSED then passed OR push_bit i 1 else passed) cs ps)"
| "refresh_proofs snapshot i passed cs ps = []"

definition work_refresh :: "work_state \<Rightarrow> string option \<Rightarrow> work_state" where
  "work_refresh w snapshot =
     (let cs = wd_criteria (wk_definition w); ps = refresh_proofs snapshot 0 0 cs (wk_proofs w) in
      w\<lparr>wk_proofs := ps, wk_succeeded := (cs \<noteq> [] \<and> list_all (\<lambda>p. wp_status p = PROOF_PASSED) ps)\<rparr>)"

section \<open>Codec\<close>

definition work_row_fields :: "criterion \<Rightarrow> work_proof \<Rightarrow> (string \<times> xval) list" where
  "work_row_fields c p =
     [(''id'', XString (cr_id c)), (''requirement'', XString (cr_requirement c)),
      (''command'', XString (cr_command c)), (''path'', XString (cr_path c)), (''adapter'', XString (cr_adapter c)),
      (''depends_on'', XInt (uint (cr_depends c))), (''status'', XString (proof_status_name (wp_status p))),
      (''action_id'', XString (wp_action p)), (''snapshot'', XString (wp_snapshot p)),
      (''receipt_sha256'', XString (wp_receipt p))]"

fun work_rows :: "xval option \<Rightarrow> (criterion \<times> work_proof) list \<Rightarrow> xval option" where
  "work_rows arr [] = arr"
| "work_rows arr ((c, p) # rows) = work_rows (xarr_push arr (put_all (XObject []) (work_row_fields c p))) rows"

definition work_encode :: "work_state \<Rightarrow> xval option" where
  "work_encode w =
     (case work_rows (Some (XArray [])) (zip (wd_criteria (wk_definition w)) (wk_proofs w)) of
        None \<Rightarrow> None
      | Some arr \<Rightarrow> put_all (XObject [])
          [(''schema'', XInt 1), (''revision'', XInt (wk_revision w)), (''sequence'', XInt (wk_sequence w)),
           (''goal'', XString (wd_goal (wk_definition w))), (''constraints'', XString (wd_constraints (wk_definition w))),
           (''criteria'', arr)])"

definition work_object :: "xval option \<Rightarrow> nat \<Rightarrow> bool" where
  "work_object v n = (case v of Some (XObject es) \<Rightarrow> length es = n \<and> distinct (map fst es) | _ \<Rightarrow> False)"

definition work_string :: "xval option \<Rightarrow> string \<Rightarrow> nat \<Rightarrow> string option" where
  "work_string v key cap =
     (case xstr (xfield v key) of None \<Rightarrow> None | Some s \<Rightarrow> if cap \<le> length s then None else Some s)"

definition work_number :: "xval option \<Rightarrow> string \<Rightarrow> int option" where
  "work_number v key = (case xint (xfield v key) of None \<Rightarrow> None | Some n \<Rightarrow> if n < 0 then None else Some n)"

definition work_hash :: "string \<Rightarrow> bool" where
  "work_hash s \<longleftrightarrow> length s = 64 \<and> list_all hex_lower s"

definition all_statuses :: "proof_status list" where
  "all_statuses = [NOT_RUN, PROOF_PASSED, PROOF_FAILED, INCONCLUSIVE, INFRASTRUCTURE_ERROR, STALE, BLOCKED]"

definition status_named :: "string \<Rightarrow> proof_status option" where
  "status_named s = find (\<lambda>st. s = proof_status_name st) all_statuses"

definition work_decode_row :: "xval option \<Rightarrow> (criterion \<times> work_proof) option" where
  "work_decode_row row =
     do {
       require (work_object row 10);
       key \<leftarrow> work_string row ''id'' 33;
       requirement \<leftarrow> work_string row ''requirement'' 257;
       command \<leftarrow> work_string row ''command'' 16;
       path \<leftarrow> work_string row ''path'' 257;
       adapter \<leftarrow> work_string row ''adapter'' 16;
       deps \<leftarrow> work_number row ''depends_on'';
       require (deps < 2 ^ 32);
       status_text \<leftarrow> work_string row ''status'' 32;
       action \<leftarrow> work_string row ''action_id'' 37;
       snapshot \<leftarrow> work_string row ''snapshot'' 65;
       receipt \<leftarrow> work_string row ''receipt_sha256'' 65;
       status \<leftarrow> status_named status_text;
       require (action = [] \<or> uuid_valid (Some action));
       require (snapshot = [] \<or> work_hash snapshot);
       require (receipt = [] \<or> work_hash receipt);
       require (status \<noteq> PROOF_PASSED \<or> (action \<noteq> [] \<and> snapshot \<noteq> [] \<and> receipt \<noteq> []));
       Some (\<lparr>cr_id = key, cr_requirement = requirement, cr_command = command, cr_path = path,
               cr_adapter = adapter, cr_depends = word_of_int deps\<rparr>,
             \<lparr>wp_status = status, wp_action = action, wp_snapshot = snapshot, wp_receipt = receipt\<rparr>)
     }"

fun work_decode_rows :: "xnode list \<Rightarrow> (criterion \<times> work_proof) list option" where
  "work_decode_rows [] = Some []"
| "work_decode_rows (n # ns) =
     do { r \<leftarrow> work_decode_row (Some (xvalue n)); rs \<leftarrow> work_decode_rows ns; Some (r # rs) }"

definition work_decode :: "xval option \<Rightarrow> work_state outcome" where
  "work_decode v =
     (case (do {
        require (work_object v 6);
        schema \<leftarrow> work_number v ''schema'';
        require (schema = 1);
        revision \<leftarrow> work_number v ''revision'';
        require (revision \<noteq> 0);
        sequence \<leftarrow> work_number v ''sequence'';
        require (sequence \<noteq> 0);
        goal \<leftarrow> work_string v ''goal'' 513;
        constraints \<leftarrow> work_string v ''constraints'' 513;
        items \<leftarrow> (case xfield v ''criteria'' of Some (XArray ns) \<Rightarrow> Some ns | _ \<Rightarrow> None);
        require (items \<noteq> [] \<and> length items \<le> WORK_CRITERIA_MAX);
        rows \<leftarrow> work_decode_rows items;
        let d = \<lparr>wd_goal = goal, wd_constraints = constraints, wd_criteria = map fst rows\<rparr>;
        require (work_definition_valid (Some d));
        Some \<lparr>wk_revision = revision, wk_sequence = sequence, wk_definition = d, wk_proofs = map snd rows,
          wk_succeeded = False\<rparr>
      }) of None \<Rightarrow> Err ERR_PARSE | Some w \<Rightarrow> Ok w)"

section \<open>Replay\<close>

definition work_follows :: "work_state \<Rightarrow> work_state \<Rightarrow> bool" where
  "work_follows before next =
     (if wk_sequence next \<noteq> wk_sequence before + 1 \<or> wk_revision next < wk_revision before \<or>
         wk_revision before + 1 < wk_revision next then False
      else if wk_revision next \<noteq> wk_revision before then True
      else
        let a = wk_definition next; b = wk_definition before in
        if length (wd_criteria a) \<noteq> length (wd_criteria b) \<or> wd_goal a \<noteq> wd_goal b \<or>
           wd_constraints a \<noteq> wd_constraints b then False
        else list_all2 criterion_equal (wd_criteria a) (wd_criteria b))"

definition work_replay ::
    "(string \<Rightarrow> xnode list option) \<Rightarrow> (xnode \<Rightarrow> string option) \<Rightarrow> work_state \<Rightarrow> string \<Rightarrow>
     work_state \<times> asngn_err option" where
  "work_replay parse write state text =
     (if \<not> utf8_valid text then (state, Some ERR_PARSE)
      else case parse text of
        Some [node] \<Rightarrow>
          (case work_decode (Some (xvalue node)) of
             Err e \<Rightarrow> (state, Some e)
           | Ok next \<Rightarrow>
               (case xcanonical_match write (work_encode next) text of
                  Some e \<Rightarrow> (state, Some e)
                | None \<Rightarrow> if \<not> work_follows state next then (state, Some ERR_PARSE) else (next, None)))
      | _ \<Rightarrow> (state, Some ERR_PARSE))"

record work_store =
  wr_state :: work_state
  wr_log :: stream

text \<open>The part of a session that holds a contract.\<close>

record work_session =
  ws_store :: "work_store option"
  ws_recovery :: bool
  ws_busy :: bool
  ws_root :: string

definition work_load ::
    "(string \<Rightarrow> xnode list option) \<Rightarrow> (xnode \<Rightarrow> string option) \<Rightarrow> repair_plan \<Rightarrow> asngn_err option \<Rightarrow>
     string \<Rightarrow> string option \<Rightarrow> work_session \<Rightarrow> work_session \<times> asngn_err option" where
  "work_load parse write rp open_err path contents s =
     (case wal_visit rp WORK_FRAME_MAX (work_replay parse write) contents work_zero of
        (contents', state, Some e) \<Rightarrow> (s, Some e)
      | (contents', state, None) \<Rightarrow>
          (case open_err of
             Some e \<Rightarrow> (s, Some e)
           | None \<Rightarrow> (s\<lparr>ws_store := Some \<lparr>wr_state = state,
               wr_log = \<lparr>st_path = path, st_open = True, st_sync = True,
                 st_file = (case contents' of None \<Rightarrow> [] | Some t \<Rightarrow> t)\<rparr>\<rparr>\<rparr>, None)))"

section \<open>Saving\<close>

definition work_save ::
    "(xnode \<Rightarrow> string option) \<Rightarrow> bool \<times> io_plan \<Rightarrow> work_session \<Rightarrow> work_state \<Rightarrow> work_session \<times> asngn_err option" where
  "work_save write io s next0 =
     (if ws_recovery s then (s, Some ERR_IO)
      else case ws_store s of
        None \<Rightarrow> (s, Some ERR_LIMIT)
      | Some st \<Rightarrow>
          if INT64_MAX < wk_revision next0 \<or> INT64_MAX \<le> wk_sequence (wr_state st) then (s, Some ERR_LIMIT)
          else
            let next = next0\<lparr>wk_sequence := wk_sequence (wr_state st) + 1\<rparr> in
            (case Option.bind (work_encode next) (\<lambda>v. write (xnode_new v)) of
               None \<Rightarrow> (s, Some ERR_NOMEM)
             | Some text \<Rightarrow>
                 if WORK_FRAME_MAX < length text then (s, Some ERR_LIMIT)
                 else if \<not> utf8_valid text then (s, Some ERR_INVALID)
                 else (case wal_put WORK_FRAME_MAX io (wr_log st) text of
                   (log', None) \<Rightarrow> (s\<lparr>ws_store := Some \<lparr>wr_state = next, wr_log = log'\<rparr>\<rparr>, None)
                 | (log', Some e) \<Rightarrow> (s\<lparr>ws_store := Some (st\<lparr>wr_log := log'\<rparr>), ws_recovery := True\<rparr>, Some e))))"

definition work_revoke ::
    "(xnode \<Rightarrow> string option) \<Rightarrow> bool \<times> io_plan \<Rightarrow> work_session \<Rightarrow> work_session \<times> asngn_err option" where
  "work_revoke write io s =
     (case ws_store s of
        None \<Rightarrow> (s, None)
      | Some st \<Rightarrow>
          let w = wr_state st; live = (\<lambda>p. wp_status p \<noteq> NOT_RUN \<and> wp_status p \<noteq> STALE) in
          if wk_revision w = 0 then (s, None)
          else if list_ex live (wk_proofs w) then
            work_save write io s (w\<lparr>wk_succeeded := False,
              wk_proofs := map (\<lambda>p. if live p then p\<lparr>wp_status := STALE\<rparr> else p) (wk_proofs w)\<rparr>)
          else (s, None))"

section \<open>Public updates\<close>

text \<open>The proofs a new definition keeps, with the set of kept indices.\<close>

fun retain_proofs :: "bool \<Rightarrow> nat \<Rightarrow> 32 word \<Rightarrow> criterion list \<Rightarrow> criterion list \<Rightarrow> work_proof list \<Rightarrow> work_proof list" where
  "retain_proofs same i retained [] olds ps = []"
| "retain_proofs same i retained (c # cs) (b # olds) (p # ps) =
     (if same \<and> criterion_equal c b \<and> (cr_depends c AND retained) = cr_depends c
      then p # retain_proofs same (Suc i) (retained OR push_bit i 1) cs olds ps
      else no_proof # retain_proofs same (Suc i) retained cs olds ps)"
| "retain_proofs same i retained (c # cs) olds ps = no_proof # retain_proofs same (Suc i) retained cs [] []"

definition work_define ::
    "(xnode \<Rightarrow> string option) \<Rightarrow> bool \<times> io_plan \<Rightarrow> work_session \<Rightarrow> int \<Rightarrow> work_definition \<Rightarrow>
     work_session \<times> asngn_err option" where
  "work_define write io s revision d =
     (if \<not> work_definition_valid (Some d) then (s, Some ERR_INVALID)
      else case ws_store s of
        None \<Rightarrow> (s, Some ERR_BUSY)
      | Some st \<Rightarrow>
          let old = wr_state st in
          if ws_busy s \<or> wk_revision old \<noteq> revision then (s, Some ERR_BUSY)
          else if INT64_MAX \<le> revision then (s, Some ERR_LIMIT)
          else work_save write io s
            \<lparr>wk_revision = revision + 1, wk_sequence = 0, wk_definition = d,
             wk_proofs = retain_proofs (wd_constraints d = wd_constraints (wk_definition old)) 0 0
               (wd_criteria d) (wd_criteria (wk_definition old)) (wk_proofs old),
             wk_succeeded = False\<rparr>)"

definition work_invalidate ::
    "(xnode \<Rightarrow> string option) \<Rightarrow> bool \<times> io_plan \<Rightarrow> work_session \<Rightarrow> int \<Rightarrow> work_session \<times> asngn_err option" where
  "work_invalidate write io s revision =
     (case ws_store s of
        None \<Rightarrow> (s, Some ERR_BUSY)
      | Some st \<Rightarrow>
          let w = wr_state st in
          if ws_busy s \<or> wk_revision w \<noteq> revision then (s, Some ERR_BUSY)
          else if revision = 0 then (s, Some ERR_NOT_FOUND)
          else if INT64_MAX \<le> revision then (s, Some ERR_LIMIT)
          else work_save write io s
            (w\<lparr>wk_revision := wk_revision w + 1, wk_succeeded := False,
               wk_proofs := map (\<lambda>_. no_proof) (wk_proofs w)\<rparr>))"

text \<open>\<open>fingerprint\<close>: the snapshot taken now, or its error.\<close>

definition work_get :: "string outcome \<Rightarrow> work_session \<Rightarrow> work_state outcome" where
  "work_get fingerprint s =
     (if ws_recovery s then Err ERR_IO
      else case ws_store s of
        None \<Rightarrow> Err ERR_NOT_FOUND
      | Some st \<Rightarrow>
          if wk_revision (wr_state st) = 0 then Err ERR_NOT_FOUND
          else Ok (work_refresh (wr_state st) (Some (case fingerprint of Ok f \<Rightarrow> f | Err _ \<Rightarrow> []))))"

definition work_render_row :: "work_definition \<Rightarrow> nat \<Rightarrow> criterion \<Rightarrow> work_proof \<Rightarrow> string" where
  "work_render_row d i c p =
     ''['' @ proof_status_name (wp_status p) @ ''] '' @ cr_id c @ '': '' @ cr_requirement c @ ''; project.'' @ cr_command c @
     '' path='' @ cr_path c @ '' adapter='' @ cr_adapter c @ ''; requires='' @
     concat (map (\<lambda>j. if bit (cr_depends c) j then '' '' @ cr_id (wd_criteria d ! j) else []) [0..<i]) @ [NL]"

definition work_render :: "string outcome \<Rightarrow> work_session \<Rightarrow> string outcome" where
  "work_render fingerprint s =
     (if (case ws_store s of None \<Rightarrow> True | Some st \<Rightarrow> wk_revision (wr_state st) = 0) then Ok []
      else case work_get fingerprint s of
        Err ERR_NOT_FOUND \<Rightarrow> Ok []
      | Err e \<Rightarrow> Err e
      | Ok w \<Rightarrow>
          let d = wk_definition w in
          Ok ([NL] @ ''## Acceptance contract (revision '' @ decimal (nat (wk_revision w)) @ '')'' @ [NL] @
            ''Goal: '' @ wd_goal d @ [NL] @ ''Constraints: '' @ wd_constraints d @ [NL] @
            ''Declared checks: '' @ (if wk_succeeded w then ''passed'' else ''incomplete'') @
            ''. Their coverage is limited to these requirements.'' @ [NL] @
            concat (map (\<lambda>i. work_render_row d i (wd_criteria d ! i) (wk_proofs w ! i)) [0..<length (wd_criteria d)])))"

section \<open>Accepted definitions\<close>

lemma bit_below:
  fixes w :: "32 word"
  assumes "w < push_bit i 1" "bit w j"
  shows "j < i"
proof -
  have "w AND mask i = w" using assms(1) less_mask_eq [of w i] by simp
  then show ?thesis using assms(2) by (metis bit_and_iff bit_mask_iff)
qed

definition slash_join :: "string list \<Rightarrow> string" where
  "slash_join segs = concat (map (\<lambda>s. s @ ''/'') (butlast segs)) @ last segs"

definition path_segment :: "string \<Rightarrow> bool" where
  "path_segment s \<longleftrightarrow> s \<noteq> [] \<and> s \<noteq> ''.'' \<and> s \<noteq> ''..'' \<and> CHR ''/'' \<notin> set s"

lemma path_segments_join:
  "path_segments p \<Longrightarrow> \<exists>segs. segs \<noteq> [] \<and> list_all path_segment segs \<and> p = slash_join segs"
proof (induction p rule: path_segments.induct)
  case (1 p)
  define seg where "seg = takeWhile (\<lambda>c. c \<noteq> CHR ''/'') p"
  define rest where "rest = drop (length seg) p"
  have p: "p = seg @ rest" unfolding seg_def rest_def by (metis takeWhile_dropWhile_id dropWhile_eq_drop)
  have seg: "path_segment seg"
    using 1(2) set_takeWhileD [of _ "\<lambda>c. c \<noteq> CHR ''/''" p]
    by (subst (asm) path_segments.simps) (auto simp: Let_def path_segment_def seg_def split: if_splits)
  show ?case
  proof (cases "rest = []")
    case True
    then show ?thesis using p seg by (intro exI [of _ "[seg]"]) (simp add: slash_join_def)
  next
    case False
    have hd: "hd rest = CHR ''/''"
      using False hd_dropWhile [of "\<lambda>c. c \<noteq> CHR ''/''" p] unfolding rest_def seg_def
      by (metis dropWhile_eq_drop)
    have "path_segments (tl rest)"
      using 1(2) False by (subst (asm) path_segments.simps) (auto simp: Let_def seg_def rest_def split: if_splits)
    moreover have "\<not> (seg = [] \<or> seg = ''.'' \<or> seg = ''..'')" using seg by (simp add: path_segment_def)
    ultimately obtain segs where segs: "segs \<noteq> []" "list_all path_segment segs" "tl rest = slash_join segs"
      using 1(1) [OF seg_def rest_def _ False] by blast
    have "p = seg @ CHR ''/'' # slash_join segs" using p hd False segs(3) by (metis list.collapse)
    then show ?thesis
      using segs seg by (intro exI [of _ "seg # segs"]) (simp add: slash_join_def)
  qed
qed

lemma definition_valid_criterion:
  assumes "work_definition_valid (Some d)" "i < length (wd_criteria d)"
  shows "criterion_valid (wd_criteria d) i (wd_criteria d ! i)"
  using assms by (auto simp: work_definition_valid_def list_all_iff)

text \<open>
  An accepted definition has at most sixteen criteria with distinct ids, its dependencies only
  point backwards, so that they cannot form a cycle, and every path is the workspace itself or a
  relative path none of whose segments is empty, dot or dot-dot, so that it cannot leave it.
\<close>

theorem work_definition_accepts:
  assumes "work_definition_valid (Some d)"
  shows "0 < length (wd_criteria d) \<and> length (wd_criteria d) \<le> 16 \<and> distinct (map cr_id (wd_criteria d)) \<and>
    (\<forall>i < length (wd_criteria d).
       (\<forall>j. bit (cr_depends (wd_criteria d ! i)) j \<longrightarrow> j < i) \<and>
       (cr_path (wd_criteria d ! i) = ''.'' \<or>
        (\<exists>segs. segs \<noteq> [] \<and> list_all path_segment segs \<and> cr_path (wd_criteria d ! i) = slash_join segs)))"
proof -
  have "distinct (map cr_id (wd_criteria d))"
  proof (rule distinct_conv_nth [THEN iffD2], intro allI impI)
    have less: "cr_id (wd_criteria d ! i) \<noteq> cr_id (wd_criteria d ! j)" if "j < i" "i < length (wd_criteria d)" for i j
      using definition_valid_criterion [OF assms that(2)] that by (auto simp: criterion_valid_def list_all_length)
    fix i j assume "i < length (map cr_id (wd_criteria d))" "j < length (map cr_id (wd_criteria d))" "i \<noteq> j"
    then show "map cr_id (wd_criteria d) ! i \<noteq> map cr_id (wd_criteria d) ! j"
      using less [of i j] less [of j i] by (cases i j rule: linorder_cases) auto
  qed
  moreover have "(\<forall>j. bit (cr_depends c) j \<longrightarrow> j < i) \<and>
      (cr_path c = ''.'' \<or> (\<exists>segs. segs \<noteq> [] \<and> list_all path_segment segs \<and> cr_path c = slash_join segs))"
    if "criterion_valid cs i c" for cs i c
    using that bit_below path_segments_join unfolding criterion_valid_def path_valid_def by metis
  moreover have "wd_criteria d \<noteq> [] \<and> length (wd_criteria d) \<le> 16"
    using assms by (simp add: work_definition_valid_def WORK_CRITERIA_MAX_def)
  ultimately show ?thesis using definition_valid_criterion [OF assms] by blast
qed

section \<open>Refreshed proofs\<close>

lemma refresh_length [simp]: "length (refresh_proofs snapshot i passed cs ps) = min (length cs) (length ps)"
  by (induction snapshot i passed cs ps rule: refresh_proofs.induct) (simp_all add: Let_def)

lemma bit_subset: "(a AND b = a) \<longleftrightarrow> (\<forall>j. bit a j \<longrightarrow> bit b j)" for a b :: "32 word"
proof
  assume "a AND b = a"
  then show "\<forall>j. bit a j \<longrightarrow> bit b j" by (metis bit_and_iff)
qed (auto intro: bit_word_eqI simp: bit_simps)

lemma bit_with:
  fixes m :: "32 word"
  shows "bit (m OR 2 ^ i) j \<longleftrightarrow> bit m j \<or> (j = i \<and> i < 32)"
  by (auto simp: bit_simps)

lemma refresh_nth:
  assumes "length ps = length cs" "k < length cs" "i + length cs \<le> 32"
  shows "wp_status (refresh_proofs snapshot i passed cs ps ! k) = PROOF_PASSED \<longleftrightarrow>
    wp_status (ps ! k) = PROOF_PASSED \<and> proof_fresh snapshot (ps ! k) \<and>
    (\<forall>j. bit (cr_depends (cs ! k)) j \<longrightarrow> bit passed j \<or>
       (i \<le> j \<and> j < i + k \<and> wp_status (refresh_proofs snapshot i passed cs ps ! (j - i)) = PROOF_PASSED))"
  using assms
proof (induction snapshot i passed cs ps arbitrary: k rule: refresh_proofs.induct)
  case (1 snapshot i passed c cs p ps)
  define p1 where "p1 = (if wp_status p \<noteq> NOT_RUN \<and> wp_status p \<noteq> STALE \<and> \<not> proof_fresh snapshot p then p\<lparr>wp_status := STALE\<rparr> else p)"
  define p2 where "p2 = (if wp_status p1 = PROOF_PASSED \<and> (cr_depends c AND passed) \<noteq> cr_depends c then p1\<lparr>wp_status := BLOCKED\<rparr> else p1)"
  define m where "m = (if wp_status p2 = PROOF_PASSED then passed OR push_bit i 1 else passed)"
  have eq: "refresh_proofs snapshot i passed (c # cs) (p # ps) = p2 # refresh_proofs snapshot (Suc i) m cs ps"
    by (simp add: Let_def p1_def [symmetric] p2_def [symmetric] m_def)
  have p2: "wp_status p2 = PROOF_PASSED \<longleftrightarrow> wp_status p = PROOF_PASSED \<and> proof_fresh snapshot p \<and> (\<forall>j. bit (cr_depends c) j \<longrightarrow> bit passed j)"
    unfolding bit_subset [symmetric] by (auto simp: p2_def p1_def)
  show ?case
  proof (cases k)
    case 0
    then show ?thesis using p2 unfolding eq by auto
  next
    case (Suc k')
    have m: "bit m j \<longleftrightarrow> bit passed j \<or> (j = i \<and> wp_status p2 = PROOF_PASSED)" for j
      using 1(4) by (auto simp: m_def bit_with)
    have IH: "wp_status (refresh_proofs snapshot (Suc i) m cs ps ! k') = PROOF_PASSED \<longleftrightarrow>
      wp_status (ps ! k') = PROOF_PASSED \<and> proof_fresh snapshot (ps ! k') \<and>
      (\<forall>j. bit (cr_depends (cs ! k')) j \<longrightarrow> bit m j \<or>
       (Suc i \<le> j \<and> j < Suc i + k' \<and> wp_status (refresh_proofs snapshot (Suc i) m cs ps ! (j - Suc i)) = PROOF_PASSED))"
      using 1(1) [OF p1_def p2_def, of k'] 1(2-4) Suc unfolding m_def by simp
    have step: "bit m j \<or> (Suc i \<le> j \<and> j < Suc i + k' \<and> wp_status (refresh_proofs snapshot (Suc i) m cs ps ! (j - Suc i)) = PROOF_PASSED)
      \<longleftrightarrow> bit passed j \<or> (i \<le> j \<and> j < i + Suc k' \<and> wp_status ((p2 # refresh_proofs snapshot (Suc i) m cs ps) ! (j - i)) = PROOF_PASSED)" for j
      unfolding m by (cases "j = i") (auto simp: nth_Cons' Suc_diff_Suc)
    show ?thesis using IH unfolding step Suc eq by simp
  qed
qed auto

text \<open>States as the program keeps them: a valid contract with one proof per criterion, or none.\<close>

definition work_ok :: "work_state \<Rightarrow> bool" where
  "work_ok w \<longleftrightarrow>
     length (wk_proofs w) = length (wd_criteria (wk_definition w)) \<and>
     (wk_revision w = 0 \<or> work_definition_valid (Some (wk_definition w)))"

text \<open>
  C30. What a refresh reports as passed: a criterion's proof is passed after a refresh exactly when it
  was passed before, it was made on the given non-empty snapshot, and every criterion it depends
  on is passed after the refresh; the contract has succeeded exactly when all its criteria are.
\<close>

theorem work_refresh_passed:
  assumes "work_ok w" "wk_revision w \<noteq> 0" "w' = work_refresh w snapshot"
  shows "(\<forall>k < length (wk_proofs w).
      wp_status (wk_proofs w' ! k) = PROOF_PASSED \<longleftrightarrow>
        wp_status (wk_proofs w ! k) = PROOF_PASSED \<and> snapshot = Some (wp_snapshot (wk_proofs w ! k)) \<and>
        wp_snapshot (wk_proofs w ! k) \<noteq> [] \<and>
        (\<forall>j. bit (cr_depends (wd_criteria (wk_definition w) ! k)) j \<longrightarrow> j < k \<and> wp_status (wk_proofs w' ! j) = PROOF_PASSED)) \<and>
    (wk_succeeded w' \<longleftrightarrow> (\<forall>k < length (wk_proofs w). wp_status (wk_proofs w' ! k) = PROOF_PASSED))"
proof -
  let ?cs = "wd_criteria (wk_definition w)"
  have valid: "work_definition_valid (Some (wk_definition w))" and len: "length (wk_proofs w) = length ?cs"
    using assms by (auto simp: work_ok_def)
  then have n: "?cs \<noteq> []" "length ?cs \<le> 16" by (auto simp: work_definition_valid_def WORK_CRITERIA_MAX_def)
  show ?thesis
    using refresh_nth [OF len, of _ 0 snapshot 0] n len assms(3)
    by (auto simp: work_refresh_def Let_def proof_fresh_def list_all_length)
qed

section \<open>Codec\<close>

definition proof_ok :: "work_proof \<Rightarrow> bool" where
  "proof_ok p \<longleftrightarrow>
     (wp_action p = [] \<or> uuid_valid (Some (wp_action p))) \<and>
     (wp_snapshot p = [] \<or> work_hash (wp_snapshot p)) \<and> (wp_receipt p = [] \<or> work_hash (wp_receipt p)) \<and>
     length (wp_action p) < 37 \<and> length (wp_snapshot p) < 65 \<and> length (wp_receipt p) < 65 \<and>
     (wp_status p = PROOF_PASSED \<longrightarrow> wp_action p \<noteq> [] \<and> wp_snapshot p \<noteq> [] \<and> wp_receipt p \<noteq> [])"

definition codec_ok :: "work_state \<Rightarrow> bool" where
  "codec_ok w \<longleftrightarrow>
     0 < wk_revision w \<and> 0 < wk_sequence w \<and> work_ok w \<and> list_all proof_ok (wk_proofs w)"

lemma status_named_name [simp]: "status_named (proof_status_name st) = Some st"
  by (cases st) (simp_all add: status_named_def all_statuses_def)

lemma status_name_length: "length (proof_status_name st) < 32"
  by (cases st) simp_all

lemma work_object_xobject [simp]: "work_object (Some (xobject fs)) n \<longleftrightarrow> length fs = n \<and> distinct (map fst fs)"
  by (simp add: work_object_def xobject_def case_prod_unfold comp_def)

lemma work_rows_list:
  "work_rows (Some (XArray ns)) rows = Some (XArray (ns @ map (\<lambda>(c, p). xnode_new (xobject (work_row_fields c p))) rows))"
  by (induction rows arbitrary: ns) (auto simp: xarr_push_def)

lemma work_decode_row_fields:
  assumes "criterion_valid cs i c" "proof_ok p"
  shows "work_decode_row (Some (xobject (work_row_fields c p))) = Some (c, p)"
proof -
  have "0 \<le> uint (cr_depends c)" "uint (cr_depends c) < 2 ^ 32"
    using uint_lt2p [of "cr_depends c"] by simp_all
  moreover have "length (cr_id c) < 33" "length (cr_requirement c) < 257" "length (cr_command c) < 16"
      "length (cr_adapter c) < 16" "length (cr_path c) < 257"
    using assms(1) by (auto simp: criterion_valid_def work_text_def)
  ultimately show ?thesis
    using assms(2) status_name_length [of "wp_status p"]
    unfolding work_decode_row_def work_row_fields_def
    by (auto simp: work_string_def work_number_def proof_ok_def)
qed

lemma work_decode_rows_fields:
  assumes "\<forall>(c, p) \<in> set rows. (\<exists>cs i. criterion_valid cs i c) \<and> proof_ok p"
  shows "work_decode_rows (map (\<lambda>(c, p). xnode_new (xobject (work_row_fields c p))) rows) = Some rows"
  using assms by (induction rows) (auto simp: xnode_new_def work_decode_row_fields)

lemma work_encode_object:
  "work_encode w = Some (xobject
     [(''schema'', XInt 1), (''revision'', XInt (wk_revision w)), (''sequence'', XInt (wk_sequence w)),
      (''goal'', XString (wd_goal (wk_definition w))), (''constraints'', XString (wd_constraints (wk_definition w))),
      (''criteria'', XArray (map (\<lambda>(c, p). xnode_new (xobject (work_row_fields c p)))
         (zip (wd_criteria (wk_definition w)) (wk_proofs w))))])"
  by (simp add: work_encode_def work_rows_list)

lemma work_decode_encode:
  assumes "codec_ok w" shows "work_decode (work_encode w) = Ok (w\<lparr>wk_succeeded := False\<rparr>)"
proof -
  let ?d = "wk_definition w" and ?rows = "zip (wd_criteria (wk_definition w)) (wk_proofs w)"
  have valid: "work_definition_valid (Some ?d)" and len: "length (wk_proofs w) = length (wd_criteria ?d)"
    using assms by (auto simp: codec_ok_def work_ok_def)
  have d: "wd_criteria ?d \<noteq> []" "length (wd_criteria ?d) \<le> WORK_CRITERIA_MAX" "length (wd_goal ?d) < 513"
      "length (wd_constraints ?d) < 513"
    using valid by (auto simp: work_definition_valid_def work_text_def)
  have "(\<exists>cs i. criterion_valid cs i c) \<and> proof_ok p" if "(c, p) \<in> set ?rows" for c p
  proof -
    obtain k where "k < length ?rows" "?rows ! k = (c, p)" using \<open>(c, p) \<in> set ?rows\<close> by (meson in_set_conv_nth)
    then show ?thesis
      using definition_valid_criterion [OF valid, of k] assms len by (auto simp: codec_ok_def list_all_length)
  qed
  then have "work_decode_rows (map (\<lambda>(c, p). xnode_new (xobject (work_row_fields c p))) ?rows) = Some ?rows"
    using work_decode_rows_fields by blast
  moreover have "?rows \<noteq> []" using d(1) len by (cases "wd_criteria ?d"; cases "wk_proofs w") auto
  moreover have deq: "\<lparr>wd_goal = wd_goal ?d, wd_constraints = wd_constraints ?d, wd_criteria = wd_criteria ?d\<rparr> = ?d"
    by simp
  ultimately show ?thesis
    using d valid assms len unfolding work_encode_object work_decode_def
    by (simp add: work_string_def work_number_def codec_ok_def Let_def deq)
qed

lemma work_string_Some: "work_string v key cap = Some s \<Longrightarrow> length s < cap"
  by (auto simp: work_string_def split: option.splits if_splits)

lemma work_decode_row_ok: "work_decode_row row = Some (c, p) \<Longrightarrow> proof_ok p"
  unfolding work_decode_row_def bind_eq_Some_conv require_bind
  by (auto simp: bind_eq_Some_conv proof_ok_def split: if_split_asm dest!: work_string_Some)

lemma work_decode_rows_ok: "work_decode_rows ns = Some rows \<Longrightarrow> list_all proof_ok (map snd rows)"
  by (induction ns arbitrary: rows) (auto simp: bind_eq_Some_conv dest: work_decode_row_ok)

lemma work_number_Some: "work_number v key = Some n \<Longrightarrow> 0 \<le> n"
  by (auto simp: work_number_def split: option.splits if_splits)

lemma work_decode_ok: "work_decode v = Ok w \<Longrightarrow> codec_ok w \<and> \<not> wk_succeeded w"
  by (auto simp: work_decode_def codec_ok_def work_ok_def bind_eq_Some_conv Let_def split: option.splits if_split_asm
      dest!: work_number_Some dest: work_decode_rows_ok)

text \<open>
  The contract codec: a well-formed state decodes from its encoding to itself, except that
  success is not stored but recomputed; whatever decodes has a valid definition, one proof per
  criterion, and complete evidence (action, snapshot and receipt) for each passed one.
\<close>

theorem work_codec_round_trip:
  "(codec_ok w \<longrightarrow> work_decode (work_encode w) = Ok (w\<lparr>wk_succeeded := False\<rparr>)) \<and>
   (\<forall>v w'. work_decode v = Ok w' \<longrightarrow> codec_ok w' \<and> \<not> wk_succeeded w')"
  using work_decode_encode work_decode_ok by blast

section \<open>Saving and replaying\<close>

lemma work_save_cases:
  assumes "work_save write io s w = (s', e)"
  obtains (saved) st log' tx where "e = None" "ws_store s = Some st"
      "ws_store s' = Some \<lparr>wr_state = w\<lparr>wk_sequence := wk_sequence (wr_state st) + 1\<rparr>, wr_log = log'\<rparr>"
      "Option.bind (work_encode (w\<lparr>wk_sequence := wk_sequence (wr_state st) + 1\<rparr>)) (\<lambda>v. write (xnode_new v)) = Some tx"
      "wal_put WORK_FRAME_MAX io (wr_log st) tx = (log', None)" "length tx \<le> WORK_FRAME_MAX" "utf8_valid tx"
      "ws_recovery s' = ws_recovery s" "ws_root s' = ws_root s" "ws_busy s' = ws_busy s"
    | (failed) err where "e = Some err"
      "map_option wr_state (ws_store s') = map_option wr_state (ws_store s)"
      "s' = s \<or> (\<exists>st log' tx. ws_store s = Some st \<and> ws_store s' = Some (st\<lparr>wr_log := log'\<rparr>) \<and>
          wal_put WORK_FRAME_MAX io (wr_log st) tx = (log', Some err) \<and> ws_recovery s' \<and> \<not> ws_recovery s \<and>
          Option.bind (work_encode (w\<lparr>wk_sequence := wk_sequence (wr_state st) + 1\<rparr>)) (\<lambda>v. write (xnode_new v)) = Some tx \<and>
          length tx \<le> WORK_FRAME_MAX \<and> utf8_valid tx)"
proof (cases e)
  case None
  then show ?thesis
    using assms by (auto simp: work_save_def Let_def split: if_split_asm option.splits prod.splits intro!: saved)
next
  case (Some err)
  show ?thesis
    by (rule failed [OF Some])
      (use assms Some in \<open>auto simp: work_save_def Let_def split: if_split_asm option.splits prod.splits\<close>)
qed

lemma retain_length [simp]: "length (retain_proofs same i retained cs olds ps) = length cs"
  by (induction same i retained cs olds ps rule: retain_proofs.induct) auto

lemma retain_unchanged: "\<not> same \<Longrightarrow> retain_proofs same i retained cs olds ps = map (\<lambda>_. no_proof) cs"
  by (induction same i retained cs olds ps rule: retain_proofs.induct) simp_all

lemma retain_none [simp]: "retain_proofs same i retained cs [] ps = map (\<lambda>_. no_proof) cs"
  "retain_proofs same i retained cs olds [] = map (\<lambda>_. no_proof) cs"
proof -
  have "retain_proofs same i retained cs [] [] = map (\<lambda>_. no_proof) cs" for i retained
    by (induction cs arbitrary: i retained) simp_all
  then show "retain_proofs same i retained cs [] ps = map (\<lambda>_. no_proof) cs"
    "retain_proofs same i retained cs olds [] = map (\<lambda>_. no_proof) cs"
    by (cases cs; simp)+
qed

text \<open>A kept proof is the old one, of an equal criterion at the same place, and everything the
  criterion depends on was kept too.\<close>

definition kept :: "criterion list \<Rightarrow> criterion list \<Rightarrow> work_proof list \<Rightarrow> work_proof list \<Rightarrow> nat \<Rightarrow> bool" where
  "kept cs olds ps qs k \<longleftrightarrow> k < length olds \<and> k < length ps \<and> cs ! k = olds ! k \<and> qs ! k = ps ! k"

lemma retain_nth:
  assumes "k < length cs" "i + length cs \<le> 32"
  shows "retain_proofs same i retained cs olds ps ! k = no_proof \<or>
    (same \<and> kept cs olds ps (retain_proofs same i retained cs olds ps) k \<and>
     (\<forall>j. bit (cr_depends (cs ! k)) j \<longrightarrow> bit retained j \<or>
        (i \<le> j \<and> j < i + k \<and> kept cs olds ps (retain_proofs same i retained cs olds ps) (j - i))))"
  using assms
proof (induction same i retained cs olds ps arbitrary: k rule: retain_proofs.induct)
  case (2 same i retained c cs b olds p ps)
  define keep where "keep \<longleftrightarrow> same \<and> criterion_equal c b \<and> (cr_depends c AND retained) = cr_depends c"
  define m where "m = (if keep then retained OR push_bit i 1 else retained)"
  define qs where "qs = retain_proofs same (Suc i) m cs olds ps"
  have eq: "retain_proofs same i retained (c # cs) (b # olds) (p # ps) = (if keep then p else no_proof) # qs"
    unfolding retain_proofs.simps(2) keep_def [symmetric] m_def qs_def by simp
  show ?case
  proof (cases k)
    case 0
    have "same" "c = b" "\<forall>j. bit (cr_depends c) j \<longrightarrow> bit retained j" if keep
      using that by (simp_all add: keep_def bit_subset)
    then show ?thesis using 0 unfolding eq by (cases keep) (simp_all add: kept_def)
  next
    case (Suc k')
    have IH: "qs ! k' = no_proof \<or> (same \<and> kept cs olds ps qs k' \<and>
        (\<forall>j. bit (cr_depends (cs ! k')) j \<longrightarrow> bit m j \<or> (Suc i \<le> j \<and> j < Suc i + k' \<and> kept cs olds ps qs (j - Suc i))))"
    proof (cases keep)
      case True
      show ?thesis using 2(1) [OF True [unfolded keep_def], of k'] 2(3,4) Suc True by (simp add: m_def qs_def)
    next
      case False
      show ?thesis using 2(2) [OF False [unfolded keep_def], of k'] 2(3,4) Suc False by (simp add: m_def qs_def)
    qed
    have m: "bit m j \<Longrightarrow> bit retained j \<or> (j = i \<and> keep)" for j
      by (auto simp: m_def bit_with split: if_splits)
    have shift: "kept (c # cs) (b # olds) (p # ps) (r # qs) (Suc n) = kept cs olds ps qs n" for r n
      by (simp add: kept_def)
    have here: "kept (c # cs) (b # olds) (p # ps) ((if keep then p else no_proof) # qs) 0" if keep
    proof -
      have "c = b" using that by (simp add: keep_def)
      then show ?thesis using that by (simp add: kept_def)
    qed
    have "bit retained j \<or> (i \<le> j \<and> j < i + Suc k' \<and> kept (c # cs) (b # olds) (p # ps) ((if keep then p else no_proof) # qs) (j - i))"
      if "bit m j \<or> (Suc i \<le> j \<and> j < Suc i + k' \<and> kept cs olds ps qs (j - Suc i))" for j
      using that m [of j] here shift [of _ "j - Suc i"] by (cases "j = i") (auto simp: Suc_diff_Suc)
    then show ?thesis using IH shift unfolding Suc eq nth_Cons_Suc by blast
  qed
qed (auto simp: nth_Cons' split: if_splits)

lemma retain_valid:
  assumes "length cs \<le> 32" "k < length cs" "retain_proofs same 0 0 cs olds ps ! k \<noteq> no_proof"
  shows "same \<and> kept cs olds ps (retain_proofs same 0 0 cs olds ps) k \<and>
    (\<forall>j. bit (cr_depends (cs ! k)) j \<longrightarrow> kept cs olds ps (retain_proofs same 0 0 cs olds ps) j)"
  using retain_nth [of k cs 0 same 0 olds ps] assms by auto

text \<open>
  A new definition keeps evidence only where nothing it rests on changed: when the host
  redefines the contract the revision and the sequence advance by one, and every proof that is not
  reset belongs to a criterion equal to the one at the same place before, under equal constraints,
  and every criterion it depends on is also unchanged and keeps its proof.
\<close>

theorem work_define_keeps:
  assumes "work_define write io s revision d = (s', None)" "ws_store s = Some st"
  shows "\<exists>st'. ws_store s' = Some st' \<and> wk_definition (wr_state st') = d \<and> work_definition_valid (Some d) \<and>
    wk_revision (wr_state st') = revision + 1 \<and> wk_revision (wr_state st) = revision \<and>
    wk_sequence (wr_state st') = wk_sequence (wr_state st) + 1 \<and>
    (\<forall>k < length (wd_criteria d). wk_proofs (wr_state st') ! k \<noteq> no_proof \<longrightarrow>
       wd_constraints d = wd_constraints (wk_definition (wr_state st)) \<and>
       (\<forall>j. j = k \<or> bit (cr_depends (wd_criteria d ! k)) j \<longrightarrow>
          kept (wd_criteria d) (wd_criteria (wk_definition (wr_state st))) (wk_proofs (wr_state st)) (wk_proofs (wr_state st')) j))"
proof -
  let ?old = "wr_state st"
  let ?w = "\<lparr>wk_revision = revision + 1, wk_sequence = 0, wk_definition = d,
    wk_proofs = retain_proofs (wd_constraints d = wd_constraints (wk_definition ?old)) 0 0
      (wd_criteria d) (wd_criteria (wk_definition ?old)) (wk_proofs ?old), wk_succeeded = False\<rparr>"
  have valid: "work_definition_valid (Some d)" "wk_revision ?old = revision" and save: "work_save write io s ?w = (s', None)"
    using assms by (auto simp: work_define_def Let_def split: if_split_asm)
  have "length (wd_criteria d) \<le> 32" using valid(1) by (simp add: work_definition_valid_def WORK_CRITERIA_MAX_def)
  note kept = retain_valid [OF this]
  from save show ?thesis
  proof (cases rule: work_save_cases)
    case (saved st0 log' tx)
    then show ?thesis using kept valid assms(2) by auto
  qed simp
qed

section \<open>A sample contract\<close>

definition sample_contract :: work_definition where
  "sample_contract = \<lparr>wd_goal = ''ship'', wd_constraints = [], wd_criteria =
     [\<lparr>cr_id = ''compiles'', cr_requirement = ''r'', cr_command = ''build'', cr_path = ''.'', cr_adapter = ''auto'', cr_depends = 0\<rparr>,
      \<lparr>cr_id = ''tested'', cr_requirement = ''r'', cr_command = ''test'', cr_path = ''src/a'', cr_adapter = ''cmake'', cr_depends = 1\<rparr>]\<rparr>"

lemma sample_contract_valid: "work_definition_valid (Some sample_contract)"
  by code_simp

theorem work_definition_accepts_witness:
  "distinct (map cr_id (wd_criteria sample_contract)) \<and> cr_path (wd_criteria sample_contract ! 1) = ''src/a'' \<and>
    (\<exists>segs. segs \<noteq> [] \<and> list_all path_segment segs \<and> ''src/a'' = slash_join segs)"
proof -
  have "1 < length (wd_criteria sample_contract)" "cr_path (wd_criteria sample_contract ! 1) = ''src/a''"
    by (simp_all add: sample_contract_def)
  then show ?thesis using work_definition_accepts [OF sample_contract_valid] by (metis list.distinct(1) list.inject)
qed

definition sample_proof :: "proof_status \<Rightarrow> work_proof" where
  "sample_proof st = \<lparr>wp_status = st, wp_action = ''00000000-0000-4000-8000-000000000001'',
     wp_snapshot = replicate 64 (CHR ''0''), wp_receipt = replicate 64 (CHR ''1'')\<rparr>"

definition sample_state :: "int \<Rightarrow> work_proof list \<Rightarrow> work_state" where
  "sample_state n ps = \<lparr>wk_revision = 1, wk_sequence = n, wk_definition = sample_contract, wk_proofs = ps, wk_succeeded = False\<rparr>"

lemma sample_state_ok: "length ps = 2 \<Longrightarrow> work_ok (sample_state n ps)"
  using sample_contract_valid by (simp add: work_ok_def sample_state_def, simp add: sample_contract_def)

text \<open>The second criterion passed and the first failed: a refresh blocks the second.\<close>

theorem work_refresh_passed_witness:
  "wp_status (wk_proofs (work_refresh (sample_state 1 [sample_proof PROOF_FAILED, sample_proof PROOF_PASSED])
      (Some (replicate 64 (CHR ''0'')))) ! 1) \<noteq> PROOF_PASSED \<and>
   \<not> wk_succeeded (work_refresh (sample_state 1 [sample_proof PROOF_FAILED, sample_proof PROOF_PASSED])
      (Some (replicate 64 (CHR ''0''))))"
proof -
  define w where "w = sample_state 1 [sample_proof PROOF_FAILED, sample_proof PROOF_PASSED]"
  have ok: "work_ok w" "wk_revision w \<noteq> 0"
    using sample_state_ok [of "[sample_proof PROOF_FAILED, sample_proof PROOF_PASSED]" 1] by (simp_all add: w_def sample_state_def)
  note r = work_refresh_passed [OF ok refl, of "Some (replicate 64 (CHR ''0''))"]
  have n: "length (wk_proofs w) = 2" "bit (cr_depends (wd_criteria (wk_definition w) ! 1)) 0"
      "wp_status (wk_proofs w ! 0) \<noteq> PROOF_PASSED"
    by (simp_all add: w_def sample_state_def sample_contract_def sample_proof_def)
  note at = r [THEN conjunct1, rule_format] and all = r [THEN conjunct2]
  have zero: "wp_status (wk_proofs (work_refresh w (Some (replicate 64 (CHR ''0'')))) ! 0) \<noteq> PROOF_PASSED"
    using at [of 0] n(1,3) by (metis zero_less_numeral)
  then have "wp_status (wk_proofs (work_refresh w (Some (replicate 64 (CHR ''0'')))) ! 1) \<noteq> PROOF_PASSED"
    using at [of 1] n(1,2) by force
  moreover have "\<not> wk_succeeded (work_refresh w (Some (replicate 64 (CHR ''0''))))"
    using all zero n(1) by (metis zero_less_numeral)
  ultimately show ?thesis unfolding w_def ..
qed

theorem work_codec_round_trip_witness:
  "work_decode (work_encode (sample_state 1 [sample_proof PROOF_PASSED, no_proof])) =
    Ok (sample_state 1 [sample_proof PROOF_PASSED, no_proof])"
proof -
  let ?w = "sample_state 1 [sample_proof PROOF_PASSED, no_proof]"
  have "uuid_valid (Some ''00000000-0000-4000-8000-000000000001'')" by code_simp
  then have "codec_ok ?w"
    using sample_state_ok [of "[sample_proof PROOF_PASSED, no_proof]" 1]
    by (simp add: codec_ok_def, simp add: sample_state_def sample_proof_def proof_ok_def no_proof_def work_hash_def
        list_all_iff hex_lower_def bytes)
  then have "work_decode (work_encode ?w) = Ok (?w\<lparr>wk_succeeded := False\<rparr>)" using work_codec_round_trip [of ?w] by blast
  then show ?thesis by (simp add: sample_state_def)
qed

text \<open>A save whose text is one byte, in a small open log.\<close>

lemma work_save_fine:
  assumes "\<not> ws_recovery s" "ws_store s = Some st" "wk_revision w < 100" "wk_sequence (wr_state st) < 100"
    and "st_open (wr_log st)" "length (st_file (wr_log st)) \<le> 10000"
    and "\<And>v. work_encode (w\<lparr>wk_sequence := wk_sequence (wr_state st) + 1\<rparr>) = Some v \<Longrightarrow> write (xnode_new v) = Some ''x''"
  shows "work_save write (True, io_fine) s w =
    (s\<lparr>ws_store := Some \<lparr>wr_state = w\<lparr>wk_sequence := wk_sequence (wr_state st) + 1\<rparr>,
       wr_log = (wr_log st)\<lparr>st_file := st_file (wr_log st) @ wal_frame ''x''\<rparr>\<rparr>\<rparr>, None)"
proof -
  obtain v where enc: "work_encode (w\<lparr>wk_sequence := wk_sequence (wr_state st) + 1\<rparr>) = Some v"
    using work_encode_object by blast
  have "wal_append True io_fine (wr_log st) ''x'' = ((wr_log st)\<lparr>st_file := st_file (wr_log st) @ wal_frame ''x''\<rparr>, None)"
    by (rule wal_append_fine) (use assms(5,6) in \<open>simp_all add: WAL_FRAME_MAX_def WAL_LOG_MAX_def\<close>)
  moreover have "utf8_valid ''x''" by code_simp
  moreover have "\<not> (INT64_MAX < wk_revision w \<or> INT64_MAX \<le> wk_sequence (wr_state st))"
    using assms(3,4) by (simp add: INT64_MAX_def)
  ultimately show ?thesis
    using assms(1,2) assms(7) [OF enc] enc unfolding work_save_def Let_def
    by (simp add: wal_put_def WORK_FRAME_MAX_def)
qed

definition sample_session :: "work_state \<Rightarrow> string \<Rightarrow> work_session" where
  "sample_session w file0 = \<lparr>ws_store = Some \<lparr>wr_state = w,
     wr_log = \<lparr>st_path = ''work.xcdn'', st_open = True, st_sync = True, st_file = file0\<rparr>\<rparr>,
     ws_recovery = False, ws_busy = False, ws_root = ''/w''\<rparr>"

text \<open>Redefining with the same first criterion and a changed second one keeps the first proof.\<close>

definition changed_contract :: work_definition where
  "changed_contract = sample_contract\<lparr>wd_criteria := [wd_criteria sample_contract ! 0,
     (wd_criteria sample_contract ! 1)\<lparr>cr_requirement := ''more''\<rparr>]\<rparr>"

lemma sample_redefine:
  "work_define (\<lambda>_. Some ''x'') (True, io_fine) (sample_session (sample_state 1 [sample_proof PROOF_PASSED, sample_proof PROOF_PASSED]) []) 1
     changed_contract =
   (sample_session \<lparr>wk_revision = 2, wk_sequence = 2, wk_definition = changed_contract,
      wk_proofs = [sample_proof PROOF_PASSED, no_proof], wk_succeeded = False\<rparr> (wal_frame ''x''), None)"
proof -
  let ?s = "sample_session (sample_state 1 [sample_proof PROOF_PASSED, sample_proof PROOF_PASSED]) []"
  have valid: "work_definition_valid (Some changed_contract)" by code_simp
  have "retain_proofs True 0 0 (wd_criteria changed_contract) (wd_criteria sample_contract)
      [sample_proof PROOF_PASSED, sample_proof PROOF_PASSED] = [sample_proof PROOF_PASSED, no_proof]"
    by (simp add: changed_contract_def sample_contract_def)
  moreover have "wd_constraints changed_contract = wd_constraints sample_contract" by (simp add: changed_contract_def)
  ultimately have "work_define (\<lambda>_. Some ''x'') (True, io_fine) ?s 1 changed_contract =
      work_save (\<lambda>_. Some ''x'') (True, io_fine) ?s \<lparr>wk_revision = 2, wk_sequence = 0, wk_definition = changed_contract,
        wk_proofs = [sample_proof PROOF_PASSED, no_proof], wk_succeeded = False\<rparr>"
    using valid by (simp add: work_define_def Let_def sample_session_def sample_state_def INT64_MAX_def)
  also have "\<dots> = (sample_session \<lparr>wk_revision = 2, wk_sequence = 2, wk_definition = changed_contract,
      wk_proofs = [sample_proof PROOF_PASSED, no_proof], wk_succeeded = False\<rparr> (wal_frame ''x''), None)"
    by (subst work_save_fine [where st = "\<lparr>wr_state = sample_state 1 [sample_proof PROOF_PASSED, sample_proof PROOF_PASSED],
        wr_log = \<lparr>st_path = ''work.xcdn'', st_open = True, st_sync = True, st_file = []\<rparr>\<rparr>"])
      (simp_all add: sample_session_def sample_state_def)
  finally show ?thesis .
qed

theorem work_define_keeps_witness:
  "wk_proofs \<lparr>wk_revision = 2, wk_sequence = 2, wk_definition = changed_contract,
      wk_proofs = [sample_proof PROOF_PASSED, no_proof], wk_succeeded = False\<rparr> ! 0 \<noteq> no_proof \<and>
   kept (wd_criteria changed_contract) (wd_criteria sample_contract)
     [sample_proof PROOF_PASSED, sample_proof PROOF_PASSED] [sample_proof PROOF_PASSED, no_proof] 0"
proof -
  have "0 < length (wd_criteria changed_contract)" "sample_proof PROOF_PASSED \<noteq> no_proof"
    by (simp_all add: changed_contract_def sample_proof_def no_proof_def)
  then show ?thesis
    using work_define_keeps [OF sample_redefine, of "the (ws_store (sample_session (sample_state 1 [sample_proof PROOF_PASSED, sample_proof PROOF_PASSED]) []))"]
    by (auto simp: sample_session_def sample_state_def)
qed

end
