(* ===== verification/Work_Observe.thy ===== *)
theory Work_Observe
  imports Work
begin

text \<open>
  Evidence for acceptance contracts: which tool calls are verification commands and what a
  passing result is (\<^verbatim>\<open>src/verification.c\<close>), and how an observed call updates the proofs
  (\<^verbatim>\<open>src/work_observe.c\<close>).  Ends with the invariant of every session that holds a contract.
\<close>

section \<open>Verification commands\<close>

definition verification_command :: "string option \<Rightarrow> string option \<Rightarrow> bool" where
  "verification_command ref cmd \<longleftrightarrow>
     (case (cmd, ref) of
        (Some c, Some r) \<Rightarrow>
          (r = ''project'' \<or> take 8 r = ''project@'') \<and>
          (c = ''build'' \<or> c = ''test'' \<or> c = ''lint'' \<or> c = ''diagnostics'')
      | _ \<Rightarrow> False)"

definition verification_result_ok :: "(string \<Rightarrow> xnode list option) \<Rightarrow> string option \<Rightarrow> bool" where
  "verification_result_ok parse text =
     (case text of
        None \<Rightarrow> False
      | Some t \<Rightarrow>
          (case parse t of
             Some [n] \<Rightarrow>
               let v = Some (xvalue n) in
               xint (xfield v ''verification_schema'') = Some 1 \<and>
               xstr (xfield v ''verification_status'') = Some ''passed'' \<and>
               xint (xfield v ''exit_code'') = Some 0
           | _ \<Rightarrow> False))"

text \<open>Whether a verification done earlier in the turn still holds; \<open>fingerprint\<close> is the snapshot
  taken now.  The flag is cleared when it does not.\<close>

definition verification_current :: "bool \<Rightarrow> string \<Rightarrow> string outcome \<Rightarrow> bool" where
  "verification_current ok snapshot fingerprint =
     (if \<not> ok then False
      else case fingerprint of
        Err e \<Rightarrow> False
      | Ok current \<Rightarrow> if snapshot = [] \<or> snapshot \<noteq> current then False else True)"

section \<open>Observations\<close>

definition criterion_dir :: "string \<Rightarrow> criterion \<Rightarrow> string" where
  "criterion_dir base c = (if cr_path c = ''.'' then base else path_join (Some base) (Some (cr_path c)))"

definition work_target :: "string \<Rightarrow> criterion \<Rightarrow> xval option \<Rightarrow> bool" where
  "work_target base c args =
     (let path0 = xstr (xfield args ''path''); adapter = xstr (xfield args ''adapter'');
          path = (if path0 = None \<or> path0 = Some ''.'' then base else the path0);
          ok = (path = cr_path c \<or> path = criterion_dir base c)
      in (case adapter of
            None \<Rightarrow> ok
          | Some a \<Rightarrow> if a \<noteq> ''auto'' \<and> cr_adapter c \<noteq> ''auto'' then ok \<and> a = cr_adapter c else ok))"

definition receipt_target :: "string \<Rightarrow> criterion \<Rightarrow> xval option \<Rightarrow> bool" where
  "receipt_target base c receipt =
     (case (xstr (xfield receipt ''cwd''), xstr (xfield receipt ''adapter'')) of
        (Some cwd, Some adapter) \<Rightarrow>
          cwd = criterion_dir base c \<and> (cr_adapter c = ''auto'' \<or> cr_adapter c = adapter)
      | _ \<Rightarrow> False)"

definition tests_ran :: "xval option \<Rightarrow> bool" where
  "tests_ran v =
     (case (xint (xfield v ''tests_collected''), xint (xfield v ''tests_skipped'')) of
        (Some collected, Some skipped) \<Rightarrow> 0 \<le> skipped \<and> skipped < collected
      | _ \<Rightarrow> False)"

definition receipt_status ::
    "(string \<Rightarrow> xnode list option) \<Rightarrow> string \<Rightarrow> bool \<Rightarrow> string option \<Rightarrow> xval option \<Rightarrow> proof_status" where
  "receipt_status parse cmd ok text v =
     (if \<not> ok then INFRASTRUCTURE_ERROR
      else case (xstr (xfield v ''verification_status''), xint (xfield v ''exit_code'')) of
        (Some value, Some exit) \<Rightarrow>
          if xstr (xfield v ''action'') \<noteq> Some cmd \<or> xint (xfield v ''verification_schema'') \<noteq> Some 1 then INCONCLUSIVE
          else if exit \<noteq> 0 \<or> value = ''failed'' then PROOF_FAILED
          else if value = ''passed'' \<and> verification_result_ok parse text then
            (if cmd = ''test'' \<and> \<not> tests_ran v then INCONCLUSIVE else PROOF_PASSED)
          else if value = ''not_run'' then NOT_RUN
          else if value = ''infrastructure_error'' then INFRASTRUCTURE_ERROR
          else INCONCLUSIVE
      | _ \<Rightarrow> INCONCLUSIVE)"

record observation =
  ob_action :: string
  ob_cmd :: string
  ob_ok :: bool
  ob_result :: "string option"
  ob_before :: "string option"
  ob_after :: "string option"

definition single_value :: "(string \<Rightarrow> xnode list option) \<Rightarrow> string option \<Rightarrow> xval option" where
  "single_value parse text =
     (case Option.bind text parse of Some [n] \<Rightarrow> Some (xvalue n) | _ \<Rightarrow> None)"

text \<open>The proof an observation records for a criterion it is about.\<close>

definition observed_proof ::
    "(string \<Rightarrow> xnode list option) \<Rightarrow> string \<Rightarrow> observation \<Rightarrow> criterion \<Rightarrow> work_proof" where
  "observed_proof parse base ob c =
     (let rv = single_value parse (ob_result ob);
          st = (if \<not> ob_ok ob then INFRASTRUCTURE_ERROR
                else if receipt_target base c rv then receipt_status parse (ob_cmd ob) (ob_ok ob) (ob_result ob) rv
                else INCONCLUSIVE);
          moved = (ob_before ob = None \<or> ob_before ob = Some [] \<or> ob_after ob = None \<or> ob_before ob \<noteq> ob_after ob)
      in \<lparr>wp_status = (if moved then STALE else st),
          wp_action = ob_action ob,
          wp_snapshot = (case ob_after ob of None \<Rightarrow> [] | Some a \<Rightarrow> take 64 a),
          wp_receipt = (case ob_result ob of None \<Rightarrow> [] | Some r \<Rightarrow> digest_hex r)\<rparr>)"

definition observe_row where
  "observe_row parse base ob av c p =
     (if av \<noteq> None \<and> cr_command c = ob_cmd ob \<and> work_target base c av then observed_proof parse base ob c else p)"

definition work_observe ::
    "(string \<Rightarrow> xnode list option) \<Rightarrow> (xnode \<Rightarrow> string option) \<Rightarrow> bool \<times> io_plan \<Rightarrow> work_session \<Rightarrow>
     string option \<Rightarrow> string option \<Rightarrow> observation \<Rightarrow> work_session \<times> asngn_err option" where
  "work_observe parse write io s ref args ob =
     (if \<not> verification_command ref (Some (ob_cmd ob)) then (s, None)
      else case ws_store s of
        None \<Rightarrow> (s, None)
      | Some st \<Rightarrow>
          if wk_revision (wr_state st) = 0 then (s, None)
          else if \<not> uuid_valid (Some (ob_action ob)) then (s, Some ERR_INVALID)
          else
            let av = single_value parse (Some (case args of None \<Rightarrow> ''{}'' | Some a \<Rightarrow> a));
                cs = wd_criteria (wk_definition (wr_state st));
                first = work_refresh (wr_state st) (ob_after ob);
                rows = map2 (observe_row parse (ws_root s) ob av) cs (wk_proofs first);
                next = work_refresh (first\<lparr>wk_proofs := rows\<rparr>) (ob_after ob);
                changed = (list_ex (\<lambda>c. av \<noteq> None \<and> cr_command c = ob_cmd ob \<and> work_target (ws_root s) c av) cs \<or>
                           map wp_status (wk_proofs next) \<noteq> map wp_status (wk_proofs (wr_state st)))
            in if changed then work_save write io s next else (s, None))"

section \<open>Evidence\<close>

lemma refresh_passed_same:
  "k < length (refresh_proofs snapshot i passed cs ps) \<Longrightarrow>
   wp_status (refresh_proofs snapshot i passed cs ps ! k) = PROOF_PASSED \<Longrightarrow>
   refresh_proofs snapshot i passed cs ps ! k = ps ! k"
proof (induction snapshot i passed cs ps arbitrary: k rule: refresh_proofs.induct)
  case (1 snapshot i passed c cs p ps)
  show ?case
  proof (cases k)
    case 0
    then show ?thesis using 1(3) by (auto simp: Let_def split: if_splits)
  next
    case (Suc k')
    then show ?thesis using 1(1) [OF refl refl, of k'] 1(2,3) by (simp add: Let_def)
  qed
qed simp_all

lemma receipt_status_passed:
  "receipt_status parse cmd ok text v = PROOF_PASSED \<Longrightarrow>
   ok \<and> xstr (xfield v ''action'') = Some cmd \<and> verification_result_ok parse text \<and> (cmd = ''test'' \<longrightarrow> tests_ran v)"
  by (auto simp: receipt_status_def split: option.splits if_splits)

lemma observed_proof_passed:
  assumes "wp_status (observed_proof parse base ob c) = PROOF_PASSED"
  shows "\<exists>snapshot r. ob_ok ob \<and> ob_before ob = Some snapshot \<and> ob_after ob = Some snapshot \<and> snapshot \<noteq> [] \<and>
    ob_result ob = Some r \<and> verification_result_ok parse (Some r) \<and>
    receipt_target base c (single_value parse (Some r)) \<and>
    (ob_cmd ob = ''test'' \<longrightarrow> tests_ran (single_value parse (Some r))) \<and>
    observed_proof parse base ob c = \<lparr>wp_status = PROOF_PASSED, wp_action = ob_action ob,
      wp_snapshot = take 64 snapshot, wp_receipt = digest_hex r\<rparr>"
proof -
  have moved: "\<not> (ob_before ob = None \<or> ob_before ob = Some [] \<or> ob_after ob = None \<or> ob_before ob \<noteq> ob_after ob)"
    and st: "ob_ok ob" "receipt_target base c (single_value parse (ob_result ob))"
      "receipt_status parse (ob_cmd ob) (ob_ok ob) (ob_result ob) (single_value parse (ob_result ob)) = PROOF_PASSED"
    using assms by (auto simp: observed_proof_def Let_def split: if_split_asm)
  obtain snapshot where snap: "ob_before ob = Some snapshot" "ob_after ob = Some snapshot" "snapshot \<noteq> []"
    using moved by auto
  note passed = receipt_status_passed [OF st(3)]
  then obtain r where r: "ob_result ob = Some r" by (auto simp: verification_result_ok_def split: option.splits)
  have "observed_proof parse base ob c = \<lparr>wp_status = PROOF_PASSED, wp_action = ob_action ob,
      wp_snapshot = take 64 snapshot, wp_receipt = digest_hex r\<rparr>"
    using assms snap r by (simp add: observed_proof_def Let_def)
  then show ?thesis using snap r st passed by auto
qed

lemma work_observe_cases:
  assumes "work_observe parse write io s ref args ob = (s', e)"
  obtains (quiet) "s' = s" | (saving) st av where "ws_store s = Some st" "wk_revision (wr_state st) \<noteq> 0"
    "uuid_valid (Some (ob_action ob))"
    "work_save write io s (work_refresh ((work_refresh (wr_state st) (ob_after ob))\<lparr>wk_proofs :=
        map2 (observe_row parse (ws_root s) ob av) (wd_criteria (wk_definition (wr_state st)))
          (wk_proofs (work_refresh (wr_state st) (ob_after ob)))\<rparr>) (ob_after ob)) = (s', e)"
  using assms unfolding work_observe_def Let_def by (auto split: if_split_asm option.splits)

lemma work_refresh_simps [simp]:
  "wk_definition (work_refresh w a) = wk_definition w" "wk_revision (work_refresh w a) = wk_revision w"
  "wk_sequence (work_refresh w a) = wk_sequence w"
  "wk_proofs (work_refresh w a) = refresh_proofs a 0 0 (wd_criteria (wk_definition w)) (wk_proofs w)"
  by (simp_all add: work_refresh_def Let_def)

text \<open>
  C29. Only an observed verification makes a criterion pass: after any observed tool call a passed
  proof is either the one that was there before, or the call was the criterion's own command,
  succeeded, reported a passing result (for tests, with tests actually run) in the criterion's
  directory, and left the workspace snapshot unchanged; the proof then carries the turn's action
  id, that snapshot and the hash of the raw result.
\<close>

theorem work_observe_evidence:
  assumes "work_observe parse write io s ref args ob = (s', None)" "ws_store s = Some st" "ws_store s' = Some st'"
    and "work_ok (wr_state st)" "k < length (wk_proofs (wr_state st'))"
    and "wp_status (wk_proofs (wr_state st') ! k) = PROOF_PASSED"
  shows "wk_proofs (wr_state st') ! k = wk_proofs (wr_state st) ! k \<or>
    (cr_command (wd_criteria (wk_definition (wr_state st)) ! k) = ob_cmd ob \<and> ob_ok ob \<and> uuid_valid (Some (ob_action ob)) \<and>
     (\<exists>snapshot r. ob_before ob = Some snapshot \<and> ob_after ob = Some snapshot \<and> snapshot \<noteq> [] \<and>
        ob_result ob = Some r \<and> verification_result_ok parse (Some r) \<and>
        receipt_target (ws_root s) (wd_criteria (wk_definition (wr_state st)) ! k) (single_value parse (Some r)) \<and>
        (ob_cmd ob = ''test'' \<longrightarrow> tests_ran (single_value parse (Some r))) \<and>
        wk_proofs (wr_state st') ! k = \<lparr>wp_status = PROOF_PASSED, wp_action = ob_action ob,
          wp_snapshot = take 64 snapshot, wp_receipt = digest_hex r\<rparr>))"
  using assms(1)
proof (cases rule: work_observe_cases)
  case quiet
  then show ?thesis using assms by simp
next
  case (saving st0 av)
  let ?cs = "wd_criteria (wk_definition (wr_state st))"
  let ?first = "refresh_proofs (ob_after ob) 0 0 ?cs (wk_proofs (wr_state st))"
  let ?rows = "map2 (observe_row parse (ws_root s) ob av) ?cs ?first"
  have len: "length (wk_proofs (wr_state st)) = length ?cs" using assms(4) by (simp add: work_ok_def)
  from saving(4) have proofs: "wk_proofs (wr_state st') = refresh_proofs (ob_after ob) 0 0 ?cs ?rows"
    by (cases rule: work_save_cases) (use assms(2,3) saving(1) in auto)
  then have k: "k < length ?cs" "wk_proofs (wr_state st') ! k = ?rows ! k"
    using assms(5,6) refresh_passed_same [of k "ob_after ob" 0 0 ?cs ?rows] len by auto
  then have row: "?rows ! k = observe_row parse (ws_root s) ob av (?cs ! k) (?first ! k)" using len by simp
  show ?thesis
  proof (cases "av \<noteq> None \<and> cr_command (?cs ! k) = ob_cmd ob \<and> work_target (ws_root s) (?cs ! k) av")
    case True
    then have "?rows ! k = observed_proof parse (ws_root s) ob (?cs ! k)" using row by (simp add: observe_row_def)
    then show ?thesis
      using observed_proof_passed [of parse "ws_root s" ob "?cs ! k"] assms(6) k True saving(3) by fastforce
  next
    case False
    then have "?rows ! k = ?first ! k" unfolding row by (auto simp: observe_row_def)
    then show ?thesis
      using refresh_passed_same [of k "ob_after ob" 0 0 ?cs "wk_proofs (wr_state st)"] assms(6) k len by simp
  qed
qed

section \<open>Sessions\<close>







lemma work_follows_success [simp]: "work_follows (a\<lparr>wk_succeeded := x\<rparr>) b = work_follows a b"
  "work_follows a (b\<lparr>wk_succeeded := x\<rparr>) = work_follows a b"
  by (simp_all add: work_follows_def)

lemma work_encode_success [simp]: "work_encode (w\<lparr>wk_succeeded := x\<rparr>) = work_encode w"
  by (simp add: work_encode_object)



lemma proof_ok_simps [simp]:
  "proof_ok no_proof" "proof_ok p \<Longrightarrow> proof_ok (p\<lparr>wp_status := STALE\<rparr>)" "proof_ok p \<Longrightarrow> proof_ok (p\<lparr>wp_status := BLOCKED\<rparr>)"
  by (auto simp: proof_ok_def no_proof_def)












section \<open>A sample observation\<close>

text \<open>A library that knows one node, and reads result \<open>r\<close> as a passing build receipt.\<close>

definition sample_receipt :: "(string \<times> xval) list" where
  "sample_receipt =
     [(''action'', XString ''build''), (''verification_status'', XString ''passed''), (''verification_schema'', XInt 1),
      (''exit_code'', XInt 0), (''cwd'', XString ''/w''), (''adapter'', XString ''cmake'')]"

definition sample_parse :: "xnode \<Rightarrow> string \<Rightarrow> xnode list option" where
  "sample_parse n t = (if t = ''x'' then Some [n] else if t = ''r'' then Some [xnode_new (xobject sample_receipt)]
     else Some [xnode_new (xobject [])])"


definition sample_build :: observation where
  "sample_build = \<lparr>ob_action = ''00000000-0000-4000-8000-000000000002'', ob_cmd = ''build'', ob_ok = True,
     ob_result = Some ''r'', ob_before = Some ''s'', ob_after = Some ''s''\<rparr>"

definition built_proof :: work_proof where
  "built_proof = \<lparr>wp_status = PROOF_PASSED, wp_action = ''00000000-0000-4000-8000-000000000002'',
     wp_snapshot = ''s'', wp_receipt = digest_hex ''r''\<rparr>"

lemma sample_observe:
  assumes "\<And>v. write (xnode_new v) = Some ''x''"
  shows "work_observe (sample_parse n) write (True, io_fine) (sample_session (sample_state 1 [no_proof, no_proof]) [])
      (Some ''project'') None sample_build =
    (sample_session (sample_state 2 [built_proof, no_proof]) (wal_frame ''x''), None)"
proof -
  let ?s = "sample_session (sample_state 1 [no_proof, no_proof]) []"
  have uuid: "uuid_valid (Some ''00000000-0000-4000-8000-000000000002'')" by code_simp
  have av: "single_value (sample_parse n) (Some ''{}'') = Some (xobject [])"
    by (simp add: single_value_def sample_parse_def xnode_new_def)
  have rv: "single_value (sample_parse n) (Some ''r'') = Some (xobject sample_receipt)"
    by (simp add: single_value_def sample_parse_def xnode_new_def)
  have "verification_result_ok (sample_parse n) (Some ''r'')"
    by (simp add: verification_result_ok_def sample_parse_def xnode_new_def sample_receipt_def)
  then have built: "observed_proof (sample_parse n) ''/w'' sample_build (wd_criteria sample_contract ! 0) = built_proof"
    by (simp add: observed_proof_def Let_def sample_build_def rv receipt_target_def receipt_status_def sample_receipt_def
        criterion_dir_def sample_contract_def built_proof_def)
  have "wk_proofs (work_refresh (sample_state 1 [no_proof, no_proof]) (Some ''s'')) = [no_proof, no_proof]"
    by (simp add: sample_state_def sample_contract_def no_proof_def Let_def)
  moreover have "map2 (observe_row (sample_parse n) ''/w'' sample_build (Some (xobject []))) (wd_criteria sample_contract) [no_proof, no_proof] =
      [built_proof, no_proof]"
    using built by (simp add: observe_row_def sample_contract_def work_target_def criterion_dir_def, simp add: sample_build_def)
  ultimately have rows: "map2 (observe_row (sample_parse n) ''/w'' sample_build (Some (xobject []))) (wd_criteria sample_contract)
      (wk_proofs (work_refresh (sample_state 1 [no_proof, no_proof]) (Some ''s''))) = [built_proof, no_proof]"
    by simp
  have next': "work_refresh ((work_refresh (sample_state 1 [no_proof, no_proof]) (Some ''s''))\<lparr>wk_proofs := [built_proof, no_proof]\<rparr>) (Some ''s'') =
      sample_state 1 [built_proof, no_proof]"
    by (simp add: work_refresh_def Let_def sample_state_def sample_contract_def built_proof_def no_proof_def proof_fresh_def)
  have "list_ex (\<lambda>c. Some (xobject []) \<noteq> None \<and> cr_command c = ob_cmd sample_build \<and> work_target ''/w'' c (Some (xobject [])))
      (wd_criteria sample_contract)"
    by (simp add: sample_contract_def sample_build_def work_target_def criterion_dir_def)
  then have "work_observe (sample_parse n) write (True, io_fine) ?s (Some ''project'') None sample_build =
      work_save write (True, io_fine) ?s (sample_state 1 [built_proof, no_proof])"
    using rows next' uuid av
    by (simp add: work_observe_def Let_def sample_session_def, simp add: sample_state_def sample_build_def verification_command_def)
  also have "\<dots> = (sample_session (sample_state 2 [built_proof, no_proof]) (wal_frame ''x''), None)"
    by (subst work_save_fine [where st = "\<lparr>wr_state = sample_state 1 [no_proof, no_proof],
        wr_log = \<lparr>st_path = ''work.xcdn'', st_open = True, st_sync = True, st_file = []\<rparr>\<rparr>"])
      (simp_all add: sample_session_def sample_state_def assms)
  finally show ?thesis .
qed

theorem work_observe_evidence_witness:
  "wp_status (wk_proofs (sample_state 2 [built_proof, no_proof]) ! 0) = PROOF_PASSED \<and>
   (wk_proofs (sample_state 2 [built_proof, no_proof]) ! 0 = wk_proofs (sample_state 1 [no_proof, no_proof]) ! 0 \<or>
    (cr_command (wd_criteria sample_contract ! 0) = ob_cmd sample_build \<and> ob_ok sample_build))"
proof -
  define log where "log f = \<lparr>st_path = ''work.xcdn'', st_open = True, st_sync = True, st_file = f\<rparr>" for f
  have "ws_store (sample_session w f) = Some \<lparr>wr_state = w, wr_log = log f\<rparr>" for w f
    by (simp add: sample_session_def log_def)
  note ev = work_observe_evidence [OF sample_observe [of "\<lambda>_. Some ''x''" "xnode_new XNull"] this this, of 0]
  have "wp_status (wk_proofs (sample_state 2 [built_proof, no_proof]) ! 0) = PROOF_PASSED"
      "0 < length (wk_proofs (sample_state 2 [built_proof, no_proof]))"
      "wk_definition (sample_state 1 [no_proof, no_proof]) = sample_contract"
    by (simp_all add: sample_state_def built_proof_def)
  moreover have "work_ok (sample_state 1 [no_proof, no_proof])" by (rule sample_state_ok) simp
  ultimately show ?thesis using ev by auto
qed



end
