(* ===== verification/Toolcache.thy ===== *)
theory Toolcache
  imports Xutil Uuid Streams
begin

text \<open>
  The tool-result cache (\<^verbatim>\<open>src/toolcache.c\<close>): exact keys, expiry, least-recently-used eviction, and
  the file the entries are replayed from.  A key is a string of 32 bytes; \<open>now\<close> is the wall clock
  in seconds and \<open>tick\<close> the monotonic clock in milliseconds, both far from the limits of their
  64-bit types.  The interface \<open>kv_cache\<close> is what a caller relies on.
\<close>

section \<open>The interface\<close>

datatype ('k, 'v) cache_op = CacheGet int int 'k | CachePut int int 'k 'v | CacheClear

text \<open>The last accepted put of each key since the last clear.\<close>

definition written :: "('v \<Rightarrow> bool) \<Rightarrow> ('k, 'v) cache_op list \<Rightarrow> 'k \<rightharpoonup> ('v \<times> int)" where
  "written fits ops =
     foldl (\<lambda>m op. case op of
         CacheGet now tick k \<Rightarrow> m
       | CachePut now tick k v \<Rightarrow> if fits v then m(k \<mapsto> (v, now)) else m
       | CacheClear \<Rightarrow> Map.empty) Map.empty ops"

lemma written_Nil [simp]: "written fits [] = Map.empty"
  by (simp add: written_def)

lemma written_snoc [simp]:
  "written fits (ops @ [op]) =
     (case op of
        CacheGet now tick k \<Rightarrow> written fits ops
      | CachePut now tick k v \<Rightarrow> if fits v then (written fits ops)(k \<mapsto> (v, now)) else written fits ops
      | CacheClear \<Rightarrow> Map.empty)"
  by (cases op) (simp_all add: written_def)

locale kv_cache =
  fixes valid :: "'c \<Rightarrow> bool"
    and view :: "'c \<Rightarrow> 'k \<rightharpoonup> ('v \<times> int)"
    and get :: "int \<Rightarrow> int \<Rightarrow> 'k \<Rightarrow> 'c \<Rightarrow> 'c \<times> 'v option"
    and put :: "int \<Rightarrow> int \<Rightarrow> 'k \<Rightarrow> 'v \<Rightarrow> 'c \<Rightarrow> 'c"
    and clear :: "'c \<Rightarrow> 'c"
    and fits :: "'v \<Rightarrow> bool"
    and alive :: "int \<Rightarrow> int \<Rightarrow> bool"
  assumes get_hit: "valid c \<Longrightarrow> get now tick k c = (c', Some v) \<Longrightarrow> \<exists>at. view c k = Some (v, at) \<and> alive now at"
    and get_keeps: "valid c \<Longrightarrow> get now tick k c = (c', r) \<Longrightarrow> valid c' \<and> view c' \<subseteq>\<^sub>m view c"
    and put_keeps: "valid c \<Longrightarrow>
      valid (put now tick k v c) \<and> view (put now tick k v c) \<subseteq>\<^sub>m (if fits v then (view c)(k \<mapsto> (v, now)) else view c)"
    and clear_empty: "valid c \<Longrightarrow> valid (clear c) \<and> view (clear c) = Map.empty"
begin

definition step :: "'c \<Rightarrow> ('k, 'v) cache_op \<Rightarrow> 'c" where
  "step c op =
     (case op of
        CacheGet now tick k \<Rightarrow> fst (get now tick k c)
      | CachePut now tick k v \<Rightarrow> put now tick k v c
      | CacheClear \<Rightarrow> clear c)"

lemma step_written:
  assumes "valid c" "view c \<subseteq>\<^sub>m written fits ops"
  shows "valid (step c op) \<and> view (step c op) \<subseteq>\<^sub>m written fits (ops @ [op])"
proof (cases op)
  case (CacheGet now tick k)
  obtain c' r where eq: "get now tick k c = (c', r)" by (metis surj_pair)
  show ?thesis
    using get_keeps [OF assms(1) eq] assms(2) CacheGet eq by (auto simp: step_def intro: map_le_trans)
next
  case (CachePut now tick k v)
  have "(view c)(k \<mapsto> (v, now)) \<subseteq>\<^sub>m (written fits ops)(k \<mapsto> (v, now))" using assms(2) by (rule map_le_upd)
  then show ?thesis
    using put_keeps [OF assms(1), of now tick k v] assms(2) CachePut
    by (auto simp: step_def split: if_splits intro: map_le_trans)
next
  case CacheClear
  then show ?thesis using clear_empty [OF assms(1)] by (simp add: step_def)
qed

lemma run_written:
  assumes "valid c" "view c = Map.empty"
  shows "valid (foldl step c ops) \<and> view (foldl step c ops) \<subseteq>\<^sub>m written fits ops"
proof (induction ops rule: rev_induct)
  case Nil
  then show ?case using assms by simp
next
  case (snoc op ops)
  then show ?case using step_written [of "foldl step c ops" ops op] by simp
qed

lemma hit_is_last_put:
  assumes "valid c" "view c = Map.empty" "get now tick k (foldl step c ops) = (c', Some v)"
  shows "\<exists>at. written fits ops k = Some (v, at) \<and> alive now at"
  using run_written [OF assms(1,2), of ops] get_hit [OF _ assms(3)] by (fastforce simp: map_le_def dom_def)

end

section \<open>The cache\<close>

record tc_entry =
  te_key :: string
  te_result :: string
  te_at :: int
  te_used :: int

record tc_config =
  tc_on :: bool
  tc_ttl :: int
  tc_max :: int

definition TOOLCACHE_RESULT_MAX :: nat where "TOOLCACHE_RESULT_MAX = 64 * 1024"

definition tc_remove_at :: "tc_entry list \<Rightarrow> nat \<Rightarrow> tc_entry list" where
  "tc_remove_at c i = take i c @ drop (Suc i) c"

definition tc_victim :: "tc_entry list \<Rightarrow> nat" where
  "tc_victim c = foldl (\<lambda>v i. if te_used (c ! i) < te_used (c ! v) then i else v) 0 [1..<length c]"

definition tc_evict_lru :: "tc_entry list \<Rightarrow> tc_entry list" where
  "tc_evict_lru c = (if c = [] then c else tc_remove_at c (tc_victim c))"

function tc_make_room :: "int \<Rightarrow> tc_entry list \<Rightarrow> tc_entry list" where
  "tc_make_room most c =
     (if 0 < most \<and> nat most \<le> length c then tc_make_room most (tc_evict_lru c) else c)"
  by pat_completeness auto

fun tc_find :: "string \<Rightarrow> tc_entry list \<Rightarrow> nat option" where
  "tc_find k [] = None"
| "tc_find k (e # c) = (if te_key e = k then Some 0 else map_option Suc (tc_find k c))"

definition tc_expired :: "tc_config \<Rightarrow> int \<Rightarrow> int \<Rightarrow> bool" where
  "tc_expired cfg now at \<longleftrightarrow> 0 < tc_ttl cfg \<and> at + tc_ttl cfg \<le> now"

text \<open>Storing an entry: over the one with its key, or at the end after making room.\<close>

definition tc_store :: "tc_config \<Rightarrow> tc_entry \<Rightarrow> tc_entry list \<Rightarrow> tc_entry list" where
  "tc_store cfg e c =
     (case tc_find (te_key e) c of
        Some i \<Rightarrow> c[i := e]
      | None \<Rightarrow> tc_make_room (tc_max cfg) c @ [e])"

definition tc_get :: "tc_config \<Rightarrow> int \<Rightarrow> int \<Rightarrow> string \<Rightarrow> tc_entry list \<Rightarrow> tc_entry list \<times> string option" where
  "tc_get cfg now tick k c =
     (if \<not> tc_on cfg then (c, None)
      else case tc_find k c of
        None \<Rightarrow> (c, None)
      | Some i \<Rightarrow>
          if tc_expired cfg now (te_at (c ! i)) then (tc_remove_at c i, None)
          else (c[i := (c ! i)\<lparr>te_used := tick\<rparr>], Some (te_result (c ! i))))"

definition tc_fits :: "tc_config \<Rightarrow> string \<Rightarrow> bool" where
  "tc_fits cfg result \<longleftrightarrow> tc_on cfg \<and> length result \<le> TOOLCACHE_RESULT_MAX"

definition tc_put :: "tc_config \<Rightarrow> int \<Rightarrow> int \<Rightarrow> string \<Rightarrow> string \<Rightarrow> tc_entry list \<Rightarrow> tc_entry list" where
  "tc_put cfg now tick k result c =
     (if \<not> tc_fits cfg result then c
      else tc_store cfg \<lparr>te_key = k, te_result = result, te_at = now, te_used = tick\<rparr> c)"

definition tc_clear :: "tc_entry list \<Rightarrow> tc_entry list" where
  "tc_clear c = []"

section \<open>The file\<close>

text \<open>The node of one entry.\<close>

definition tc_entry_node :: "string \<Rightarrow> string \<Rightarrow> int \<Rightarrow> xnode option" where
  "tc_entry_node k result at =
     (case put_all (XObject [])
        [(''key'', XString (sha256_hex (Some k) 32)), (''result'', XString result),
         (''at'', XDatetime (time_format_rfc3339 at))] of
        None \<Rightarrow> None
      | Some obj \<Rightarrow> xnode_tag (Some (xnode_new obj)) (Some ''tool_cache_entry''))"

text \<open>What a put leaves in the file: best effort, \<open>open_ok\<close> whether the stream opens.\<close>

definition tc_persist ::
    "(xnode \<Rightarrow> string option) \<Rightarrow> bool \<Rightarrow> io_plan \<Rightarrow> stream \<Rightarrow> string \<Rightarrow> string \<Rightarrow> int \<Rightarrow> stream" where
  "tc_persist write open_ok io st k result now =
     (case Option.bind (tc_entry_node k result now) write of
        None \<Rightarrow> st
      | Some line \<Rightarrow>
          if line = [] \<or> \<not> open_ok then st
          else (fst (stream_append io (st\<lparr>st_open := True, st_sync := False\<rparr>) line))\<lparr>st_open := False\<rparr>)"

fun tc_key_bytes :: "string \<Rightarrow> string option" where
  "tc_key_bytes (hi # lo # s) =
     (if hex_val hi < 0 \<or> hex_val lo < 0 then None
      else map_option (\<lambda>r. hex_byte hi lo # r) (tc_key_bytes s))"
| "tc_key_bytes s = Some []"

definition tc_key_parse :: "string option \<Rightarrow> string option" where
  "tc_key_parse s =
     (case s of None \<Rightarrow> None | Some t \<Rightarrow> if length t \<noteq> 64 then None else tc_key_bytes t)"

definition tc_load_node :: "xnode \<Rightarrow> (string \<times> string \<times> int) option" where
  "tc_load_node node =
     (if ''tool_cache_entry'' \<notin> set (xtags node) then None
      else case xvalue node of
        XObject es \<Rightarrow>
          (let obj = Some (XObject es) in
           do {
             k \<leftarrow> tc_key_parse (xstr (xfield obj ''key''));
             result \<leftarrow> xstr (xfield obj ''result'');
             at \<leftarrow> xtime (xfield obj ''at'');
             Some (k, result, at)
           })
      | _ \<Rightarrow> None)"

definition tc_load_step :: "tc_config \<Rightarrow> int \<Rightarrow> int \<Rightarrow> nat \<Rightarrow> tc_entry list \<Rightarrow> nat \<times> xnode \<Rightarrow> tc_entry list" where
  "tc_load_step cfg now tick n c row =
     (case row of (i, node) \<Rightarrow>
        (case tc_load_node node of
           None \<Rightarrow> c
         | Some (k, result, at) \<Rightarrow>
             if tc_expired cfg now at then c
             else tc_store cfg \<lparr>te_key = k, te_result = result, te_at = at, te_used = tick - int (n - i)\<rparr> c))"

definition tc_init ::
    "tc_config \<Rightarrow> int \<Rightarrow> int \<Rightarrow> xnode list option outcome \<Rightarrow> tc_entry list outcome" where
  "tc_init cfg now tick doc =
     (if \<not> tc_on cfg then Ok []
      else case doc of
        Err e \<Rightarrow> Err e
      | Ok None \<Rightarrow> Ok []
      | Ok (Some nodes) \<Rightarrow> Ok (foldl (tc_load_step cfg now tick (length nodes)) [] (zip [0..<length nodes] nodes)))"

section \<open>Eviction\<close>

lemma tc_victim_bound: "c \<noteq> [] \<Longrightarrow> tc_victim c < length c"
proof -
  assume ne: "c \<noteq> []"
  have "v < length c \<Longrightarrow> set is \<subseteq> {..<length c} \<Longrightarrow>
      foldl (\<lambda>v i. if te_used (c ! i) < te_used (c ! v) then i else v) v is < length c" for v "is"
    by (induction "is" arbitrary: v) auto
  moreover have "set [1..<length c] \<subseteq> {..<length c}" by auto
  ultimately show ?thesis using ne unfolding tc_victim_def by blast
qed

lemma tc_victim_least:
  assumes "i < length c" shows "te_used (c ! tc_victim c) \<le> te_used (c ! i)"
proof -
  have least: "te_used (c ! foldl (\<lambda>v i. if te_used (c ! i) < te_used (c ! v) then i else v) v is) \<le> te_used (c ! j)"
    if "j = v \<or> j \<in> set is" for v "is" j
    using that
  proof (induction "is" arbitrary: v j)
    case (Cons i "is")
    let ?w = "if te_used (c ! i) < te_used (c ! v) then i else v"
    have "te_used (c ! ?w) \<le> te_used (c ! v)" "te_used (c ! ?w) \<le> te_used (c ! i)" by simp_all
    then show ?case using Cons.IH [of ?w ?w] Cons.IH [of j ?w] Cons.prems by (auto intro: order_trans)
  qed simp
  from least [of i 0 "[1..<length c]"] show ?thesis using assms by (cases "i = 0") (auto simp: tc_victim_def)
qed

lemma tc_evict_length: "c \<noteq> [] \<Longrightarrow> length (tc_evict_lru c) < length c"
  using tc_victim_bound [of c] by (simp add: tc_evict_lru_def tc_remove_at_def)

termination tc_make_room
  by (relation "measure (\<lambda>(most, c). length c)") (auto intro!: tc_evict_length)

declare tc_make_room.simps [simp del]

section \<open>The cache meets its interface\<close>

definition tc_valid :: "tc_entry list \<Rightarrow> bool" where
  "tc_valid c \<longleftrightarrow> distinct (map te_key c)"

definition tc_view :: "tc_entry list \<Rightarrow> string \<rightharpoonup> (string \<times> int)" where
  "tc_view c = map_of (map (\<lambda>e. (te_key e, (te_result e, te_at e))) c)"

lemma tc_view_iff: "tc_valid c \<Longrightarrow> tc_view c k = Some (r, at) \<longleftrightarrow> (\<exists>e \<in> set c. te_key e = k \<and> te_result e = r \<and> te_at e = at)"
  unfolding tc_view_def tc_valid_def by (subst map_of_eq_Some_iff) (force simp: comp_def)+

lemma tc_view_mono:
  assumes "tc_valid c" "tc_valid c'" "\<And>e. e \<in> set c' \<Longrightarrow> \<exists>e' \<in> set c. te_key e' = te_key e \<and> te_result e' = te_result e \<and> te_at e' = te_at e"
  shows "tc_view c' \<subseteq>\<^sub>m tc_view c"
  unfolding map_le_def
proof
  fix k assume "k \<in> dom (tc_view c')"
  then obtain r at where k: "tc_view c' k = Some (r, at)" by auto
  then obtain e where "e \<in> set c'" "te_key e = k" "te_result e = r" "te_at e = at" using tc_view_iff [OF assms(2)] by blast
  then have "tc_view c k = Some (r, at)" using assms(3) [of e] tc_view_iff [OF assms(1)] by metis
  then show "tc_view c' k = tc_view c k" using k by simp
qed

lemma tc_find_Some: "tc_find k c = Some i \<Longrightarrow> i < length c \<and> te_key (c ! i) = k"
  by (induction k c arbitrary: i rule: tc_find.induct) (auto split: if_splits)

lemma tc_find_None: "tc_find k c = None \<longleftrightarrow> k \<notin> te_key ` set c"
  by (induction k c rule: tc_find.induct) auto

lemma set_tc_remove_at: "set (tc_remove_at c i) \<subseteq> set c"
  by (auto simp: tc_remove_at_def dest: in_set_takeD in_set_dropD)

lemma tc_valid_remove: "tc_valid c \<Longrightarrow> tc_valid (tc_remove_at c i)"
proof (cases "i < length c")
  case True
  assume "tc_valid c"
  then have "distinct (map te_key (take i c @ c ! i # drop (Suc i) c))"
    unfolding tc_valid_def using id_take_nth_drop [OF True] by metis
  then show ?thesis by (auto simp: tc_valid_def tc_remove_at_def)
qed (simp add: tc_valid_def tc_remove_at_def)

lemma tc_make_room_set: "set (tc_make_room most c) \<subseteq> set c \<and> (tc_valid c \<longrightarrow> tc_valid (tc_make_room most c))"
proof (induction most c rule: tc_make_room.induct)
  case (1 most c)
  have "set (tc_evict_lru c) \<subseteq> set c" "tc_valid c \<longrightarrow> tc_valid (tc_evict_lru c)"
    using set_tc_remove_at [of c] tc_valid_remove by (auto simp: tc_evict_lru_def)
  then show ?case using 1 by (cases "0 < most \<and> nat most \<le> length c") (auto simp: tc_make_room.simps [of most c])
qed

lemma tc_store_valid: "tc_valid c \<Longrightarrow> tc_valid (tc_store cfg e c)"
proof (cases "tc_find (te_key e) c")
  case None
  then show "tc_valid c \<Longrightarrow> ?thesis"
    using tc_make_room_set [of "tc_max cfg" c] tc_find_None [THEN iffD1, OF None] by (auto simp: tc_store_def tc_valid_def None)
next
  case (Some i)
  then show "tc_valid c \<Longrightarrow> ?thesis"
    using Some tc_find_Some [OF Some]
    by (simp add: tc_store_def tc_valid_def map_update) (metis length_map list_update_id nth_map)
qed

lemma tc_store_member: "x \<in> set (tc_store cfg e c) \<Longrightarrow> tc_valid c \<Longrightarrow> x = e \<or> (x \<in> set c \<and> te_key x \<noteq> te_key e)"
proof (cases "tc_find (te_key e) c")
  case None
  assume "x \<in> set (tc_store cfg e c)"
  then have "x = e \<or> x \<in> set c" using tc_make_room_set [of "tc_max cfg" c] by (auto simp: tc_store_def None)
  then show ?thesis using tc_find_None [THEN iffD1, OF None] by (metis image_eqI)
next
  case (Some i)
  assume x: "x \<in> set (tc_store cfg e c)" and v: "tc_valid c"
  note i = tc_find_Some [OF Some]
  from x Some obtain j where j: "j < length c" "x = c[i := e] ! j" by (auto simp: tc_store_def in_set_conv_nth)
  show ?thesis
  proof (cases "j = i")
    case False
    then have "te_key (c ! j) \<noteq> te_key (c ! i)"
      using v i j by (metis length_map nth_eq_iff_index_eq nth_map tc_valid_def)
    then show ?thesis using False i j by simp
  qed (use i j in simp)
qed

lemma tc_get_keeps:
  assumes "tc_valid c" "tc_get cfg now tick k c = (c', r)"
  shows "tc_valid c' \<and> tc_view c' \<subseteq>\<^sub>m tc_view c"
proof (cases "\<not> tc_on cfg \<or> tc_find k c = None")
  case True
  then show ?thesis using assms by (auto simp: tc_get_def split: if_splits)
next
  case False
  then obtain i where i: "tc_find k c = Some i" by blast
  note at = tc_find_Some [OF i]
  show ?thesis
  proof (cases "tc_expired cfg now (te_at (c ! i))")
    case True
    then have c': "c' = tc_remove_at c i" using assms(2) False i by (simp add: tc_get_def)
    then show ?thesis
      using tc_valid_remove [OF assms(1)] set_tc_remove_at [of c i] by (auto intro!: tc_view_mono [OF assms(1)])
  next
    case False': False
    then have c': "c' = c[i := (c ! i)\<lparr>te_used := tick\<rparr>]" using assms(2) False i by (simp add: tc_get_def)
    have "map te_key c' = map te_key c" using at by (simp add: c' map_update list_update_same_conv)
    then have v: "tc_valid c'" using assms(1) by (simp add: tc_valid_def)
    have "e \<in> set c' \<Longrightarrow> e = (c ! i)\<lparr>te_used := tick\<rparr> \<or> e \<in> set c" for e
      using set_update_subset_insert unfolding c' by fastforce
    then show ?thesis using v at nth_mem by (intro conjI tc_view_mono [OF assms(1)]) fastforce+
  qed
qed

interpretation tool_cache: kv_cache tc_valid tc_view "tc_get cfg" "tc_put cfg" tc_clear "tc_fits cfg" "\<lambda>now at. \<not> tc_expired cfg now at"
proof
  fix c c' now tick k v
  assume c: "tc_valid c" "tc_get cfg now tick k c = (c', Some v)"
  then obtain i where i: "tc_find k c = Some i" "\<not> tc_expired cfg now (te_at (c ! i))" "v = te_result (c ! i)"
    by (auto simp: tc_get_def split: if_splits option.splits)
  then show "\<exists>at. tc_view c k = Some (v, at) \<and> \<not> tc_expired cfg now at"
    using tc_find_Some [OF i(1)] c(1) by (auto simp: tc_view_iff intro!: exI [of _ "te_at (c ! i)"] bexI [of _ "c ! i"])
next
  fix c c' now tick k r
  assume "tc_valid c" "tc_get cfg now tick k c = (c', r)"
  then show "tc_valid c' \<and> tc_view c' \<subseteq>\<^sub>m tc_view c" by (rule tc_get_keeps)
next
  fix c now tick k v
  assume c: "tc_valid c"
  let ?e = "\<lparr>te_key = k, te_result = v, te_at = now, te_used = tick\<rparr>"
  show "tc_valid (tc_put cfg now tick k v c) \<and>
    tc_view (tc_put cfg now tick k v c) \<subseteq>\<^sub>m (if tc_fits cfg v then (tc_view c)(k \<mapsto> (v, now)) else tc_view c)"
  proof (cases "tc_fits cfg v")
    case True
    have valid: "tc_valid (tc_store cfg ?e c)" using c by (rule tc_store_valid)
    have "((tc_view c)(k \<mapsto> (v, now))) j = Some (r, at)" if j: "tc_view (tc_store cfg ?e c) j = Some (r, at)" for j r at
    proof -
      obtain x where x: "x \<in> set (tc_store cfg ?e c)" "te_key x = j" "te_result x = r" "te_at x = at"
        using j tc_view_iff [OF valid] by blast
      then show ?thesis using tc_store_member [OF x(1) c] tc_view_iff [OF c, of j r at] by auto
    qed
    then have "tc_view (tc_store cfg ?e c) \<subseteq>\<^sub>m (tc_view c)(k \<mapsto> (v, now))"
      unfolding map_le_def by (metis domD surj_pair)
    then show ?thesis using True valid by (simp add: tc_put_def)
  qed (use c in \<open>simp add: tc_put_def\<close>)
next
  fix c
  show "tc_valid (tc_clear c) \<and> tc_view (tc_clear c) = Map.empty" by (simp add: tc_clear_def tc_valid_def tc_view_def)
qed

section \<open>Properties\<close>

text \<open>
  C34. A tool-cache hit is exact and alive: over any sequence of reads, writes and clears from the
  empty cache, under any clocks and any eviction, a hit returns the result of the last accepted
  write of that key since the last clear, and it has not expired.
\<close>

theorem toolcache_hit_is_last_write:
  assumes "tc_get cfg now tick k (foldl (tool_cache.step cfg) [] ops) = (c', Some v)"
  shows "\<exists>at. written (tc_fits cfg) ops k = Some (v, at) \<and> \<not> tc_expired cfg now at"
  by (rule tool_cache.hit_is_last_put [OF _ _ assms]) (simp_all add: tc_valid_def tc_view_def)

theorem toolcache_hit_is_last_write_witness:
  "\<exists>at. written (tc_fits \<lparr>tc_on = True, tc_ttl = 60, tc_max = 1\<rparr>)
      [CachePut 0 0 ''a'' ''1'', CachePut 10 0 ''a'' ''2''] ''a'' = Some (''2'', at) \<and>
    \<not> tc_expired \<lparr>tc_on = True, tc_ttl = 60, tc_max = 1\<rparr> 69 at"
  by (rule toolcache_hit_is_last_write [where tick = 5])
    (simp add: tool_cache.step_def tc_put_def tc_store_def tc_get_def tc_fits_def TOOLCACHE_RESULT_MAX_def
      tc_make_room.simps tc_expired_def)

lemma tc_remove_at_length: "i < length c \<Longrightarrow> length (tc_remove_at c i) = length c - 1"
  by (simp add: tc_remove_at_def)

lemma tc_make_room_least:
  assumes "e \<in> set c" "e \<notin> set (tc_make_room most c)" "x \<in> set (tc_make_room most c)" "tc_valid c"
  shows "te_used e \<le> te_used x"
  using assms
proof (induction most c rule: tc_make_room.induct)
  case (1 most c)
  show ?case
  proof (cases "0 < most \<and> nat most \<le> length c")
    case False
    then have "tc_make_room most c = c" by (auto simp: tc_make_room.simps [of most c])
    then show ?thesis using 1(2,3) by simp
  next
    case True
    then have room: "tc_make_room most c = tc_make_room most (tc_evict_lru c)" by (simp add: tc_make_room.simps [of most c])
    have ne: "c \<noteq> []" using True by auto
    have x: "x \<in> set c" using 1(4) tc_make_room_set [of most c] by blast
    have split: "c = take (tc_victim c) c @ c ! tc_victim c # drop (Suc (tc_victim c)) c"
      using tc_victim_bound [OF ne] by (rule id_take_nth_drop)
    have evict: "set c = insert (c ! tc_victim c) (set (tc_evict_lru c))"
      using ne by (subst split) (auto simp: tc_evict_lru_def tc_remove_at_def)
    have valid: "tc_valid (tc_evict_lru c)" using 1(5) tc_valid_remove ne by (simp add: tc_evict_lru_def)
    show ?thesis
    proof (cases "e = c ! tc_victim c")
      case True
      then show ?thesis using tc_victim_least x by (metis in_set_conv_nth)
    next
      case False
      then show ?thesis using 1(1) [OF True] 1(2-4) room evict valid by simp
    qed
  qed
qed

lemma tc_make_room_length: "0 < most \<Longrightarrow> length (tc_make_room most c) < nat most"
proof (induction most c rule: tc_make_room.induct)
  case (1 most c)
  then show ?case by (cases "nat most \<le> length c") (auto simp: tc_make_room.simps [of most c])
qed

text \<open>
  A write keeps the cache within its capacity and evicts by age: after an accepted write the key
  holds the new result, the cache never grows beyond the configured number of entries, and an
  entry dropped to make room was used no later than any entry that stayed.
\<close>

theorem toolcache_put_evicts_oldest:
  assumes "tc_valid c" "tc_fits cfg v" "c' = tc_put cfg now tick k v c" "0 < tc_max cfg" "length c \<le> nat (tc_max cfg)"
  shows "tc_view c' k = Some (v, now) \<and> tc_valid c' \<and> length c' \<le> nat (tc_max cfg) \<and>
    (\<forall>e \<in> set c. e \<notin> set c' \<longrightarrow> te_key e = k \<or> (\<forall>x \<in> set c'. te_key x \<noteq> k \<longrightarrow> te_used e \<le> te_used x))"
proof -
  let ?e = "\<lparr>te_key = k, te_result = v, te_at = now, te_used = tick\<rparr>"
  have c': "c' = tc_store cfg ?e c" using assms(2,3) by (simp add: tc_put_def)
  have valid: "tc_valid c'" unfolding c' using assms(1) by (rule tc_store_valid)
  show ?thesis
  proof (cases "tc_find k c")
    case None
    then have split: "c' = tc_make_room (tc_max cfg) c @ [?e]" by (simp add: c' tc_store_def)
    then have "?e \<in> set c'" by simp
    then have "tc_view c' k = Some (v, now)" using tc_view_iff [OF valid] by fastforce
    moreover have "length c' \<le> nat (tc_max cfg)" using tc_make_room_length [OF assms(4), of c] split by simp
    ultimately show ?thesis using valid tc_make_room_least [OF _ _ _ assms(1)] split by auto
  next
    case (Some i)
    then have split: "c' = c[i := ?e]" by (simp add: c' tc_store_def)
    note i = tc_find_Some [OF Some]
    then have "?e \<in> set c'" unfolding split by (simp add: set_update_memI)
    then have "tc_view c' k = Some (v, now)" using tc_view_iff [OF valid] by fastforce
    moreover have "te_key e = k" if "e \<in> set c" "e \<notin> set c'" for e
      using that i unfolding split by (metis in_set_conv_nth length_list_update nth_list_update_neq)
    ultimately show ?thesis using valid assms(5) split by auto
  qed
qed

theorem toolcache_put_evicts_oldest_witness:
  "length (tc_put \<lparr>tc_on = True, tc_ttl = 60, tc_max = 2\<rparr> 0 9 ''c'' ''3''
     [\<lparr>te_key = ''a'', te_result = ''1'', te_at = 0, te_used = 5\<rparr>, \<lparr>te_key = ''b'', te_result = ''2'', te_at = 0, te_used = 4\<rparr>]) \<le> 2"
proof -
  have "tc_valid [\<lparr>te_key = ''a'', te_result = ''1'', te_at = 0, te_used = 5\<rparr>, \<lparr>te_key = ''b'', te_result = ''2'', te_at = 0, te_used = 4\<rparr>]"
    by (simp add: tc_valid_def)
  moreover have "tc_fits \<lparr>tc_on = True, tc_ttl = 60, tc_max = 2\<rparr> ''3''" by (simp add: tc_fits_def TOOLCACHE_RESULT_MAX_def)
  ultimately show ?thesis using toolcache_put_evicts_oldest [OF _ _ refl] by fastforce
qed

end
