(* ===== verification/Steps.thy ===== *)
theory Steps
  imports Json
begin

text \<open>
  The parser of a model's action step (\<^verbatim>\<open>src/steps.c\<close>, with the blob reference of
  \<^verbatim>\<open>src/blob.c\<close>): one action object on a line, strict on its structure.  The code's cursor and end
  pointer are the rest of the trimmed line.  The JSON library, which reads quoted strings and the
  range object of an open step, is a \<open>json_api\<close>.
\<close>

section \<open>Steps\<close>

datatype step_kind = STEP_CALL | STEP_RECALL | STEP_DISCOVER | STEP_OPEN | STEP_THINK | STEP_CLARIFY | STEP_ANSWER

definition STEP_TEXT_MAX :: nat where "STEP_TEXT_MAX = 2048"
definition STEP_META_MAX :: nat where "STEP_META_MAX = 512"

fun step_name :: "step_kind \<Rightarrow> string" where
  "step_name STEP_CALL = ''call''"
| "step_name STEP_RECALL = ''recall''"
| "step_name STEP_DISCOVER = ''discover''"
| "step_name STEP_OPEN = ''open''"
| "step_name STEP_THINK = ''think''"
| "step_name STEP_CLARIFY = ''clarify''"
| "step_name STEP_ANSWER = ''answer''"

record step =
  st_kind :: step_kind
  st_text :: "string option"
  st_why :: "string option"
  st_success :: "string option"
  st_fallback :: "string option"
  st_call :: "(string \<times> string \<times> string) option"
  st_blob :: "int \<times> int"

definition action_kind :: "string \<Rightarrow> step_kind option" where
  "action_kind name = find (\<lambda>k. name = step_name k)
     [STEP_CALL, STEP_DISCOVER, STEP_RECALL, STEP_OPEN, STEP_THINK, STEP_CLARIFY, STEP_ANSWER]"

section \<open>Values\<close>

definition step_ws :: "char \<Rightarrow> bool" where
  "step_ws c \<longleftrightarrow> c = SPACE \<or> c = TAB"

definition skip_ws :: "string \<Rightarrow> string" where
  "skip_ws r = dropWhile step_ws r"

text \<open>Bytes up to and with the closing quote, after the opening one.\<close>

fun quoted_len :: "bool \<Rightarrow> string \<Rightarrow> nat option" where
  "quoted_len escaped [] = None"
| "quoted_len escaped (ch # r) =
     (if escaped then map_option Suc (quoted_len False r)
      else if ch = BSLASH then map_option Suc (quoted_len True r)
      else if ch = DQUOTE then Some 1
      else map_option Suc (quoted_len False r))"

definition parse_quoted :: "'j json_api \<Rightarrow> nat \<Rightarrow> string \<Rightarrow> (string \<times> string) outcome" where
  "parse_quoted api cap r =
     (case r of
        [] \<Rightarrow> Err ERR_PROTOCOL
      | c # q \<Rightarrow>
          if c \<noteq> DQUOTE then Err ERR_PROTOCOL
          else case quoted_len False q of
            None \<Rightarrow> Err ERR_PROTOCOL
          | Some n \<Rightarrow>
              (case j_parse api (take (Suc n) r) of
                 None \<Rightarrow> Err ERR_PROTOCOL
               | Some v \<Rightarrow>
                   (case j_text api (Some v) of
                      None \<Rightarrow> Err ERR_PROTOCOL
                    | Some t \<Rightarrow>
                        if t = [] \<or> cap < length t \<or> \<not> no_nul t then Err ERR_PROTOCOL
                        else Ok (t, drop (Suc n) r))))"

fun last_dot :: "string \<Rightarrow> nat option" where
  "last_dot [] = None"
| "last_dot (c # r) =
     (case last_dot r of Some d \<Rightarrow> Some (Suc d) | None \<Rightarrow> if c = CHR ''.'' then Some 0 else None)"

text \<open>Bytes up to and with the brace that closes the first one, outside strings.\<close>

fun brace_len :: "int \<Rightarrow> bool \<Rightarrow> bool \<Rightarrow> string \<Rightarrow> nat option" where
  "brace_len depth instr esc [] = None"
| "brace_len depth instr esc (ch # r) =
     (if instr then
        map_option Suc
          (if esc then brace_len depth True False r
           else if ch = BSLASH then brace_len depth True True r
           else if ch = DQUOTE then brace_len depth False False r
           else brace_len depth True False r)
      else if ch = DQUOTE then map_option Suc (brace_len depth True esc r)
      else if ch = CHR ''{'' then map_option Suc (brace_len (depth + 1) False esc r)
      else if ch = CHR ''}'' then
        (if depth - 1 = 0 then Some 1 else map_option Suc (brace_len (depth - 1) False esc r))
      else map_option Suc (brace_len depth False esc r))"

definition parse_call_value :: "string \<Rightarrow> ((string \<times> string \<times> string) \<times> string) outcome" where
  "parse_call_value r =
     (let tok = takeWhile (\<lambda>c. \<not> step_ws c \<and> c \<noteq> CHR ''{'') r in
      case last_dot tok of
        None \<Rightarrow> Err ERR_PROTOCOL
      | Some d \<Rightarrow>
          if tok = [] \<or> d = 0 \<or> d + 1 = length tok then Err ERR_PROTOCOL
          else
            let ob = skip_ws (drop (length tok) r) in
            if ob = [] \<or> hd ob \<noteq> CHR ''{'' then Err ERR_PROTOCOL
            else case brace_len 0 False False ob of
              None \<Rightarrow> Err ERR_PROTOCOL
            | Some k \<Rightarrow> Ok ((take d tok, drop (Suc d) tok, take k ob), drop k ob))"

definition blob_parse :: "'j json_api \<Rightarrow> 'j \<Rightarrow> (int \<times> int) outcome" where
  "blob_parse api v =
     (let b = j_get api (Some v) ''blob''; off = j_get api (Some v) ''offset'' in
      if j_kind api (Some v) \<noteq> J_OBJECT \<or> j_count api (Some v) \<noteq> 2 \<or> \<not> j_is_int api b \<or> \<not> j_is_int api off \<or>
         j_int api b < 1 \<or> 2 ^ 31 - 1 < j_int api b \<or> j_int api off < 0 \<or> 2 ^ 32 - 1 < j_int api off
        then Err ERR_PROTOCOL
      else Ok (j_int api b, j_int api off))"

definition parse_open_value :: "'j json_api \<Rightarrow> string \<Rightarrow> ((string \<times> (int \<times> int)) \<times> string) outcome" where
  "parse_open_value api r =
     (if r = [] \<or> hd r \<noteq> CHR ''{'' \<or> CHR ''}'' \<notin> set r then Err ERR_PROTOCOL
      else
        let n = Suc (length (takeWhile (\<lambda>c. c \<noteq> CHR ''}'') r)) in
        case j_parse api (take n r) of
          None \<Rightarrow> Err ERR_PROTOCOL
        | Some v \<Rightarrow> (case blob_parse api v of Err e \<Rightarrow> Err e | Ok b \<Rightarrow> Ok ((take n r, b), drop n r)))"

section \<open>The object\<close>

text \<open>One field: the step with it, and the rest.\<close>

definition step_field :: "'j json_api \<Rightarrow> step \<Rightarrow> string \<Rightarrow> string \<Rightarrow> (step \<times> string) outcome" where
  "step_field api st key r =
     (if key = ''why'' \<and> st_why st = None then
        (case parse_quoted api STEP_META_MAX r of Err e \<Rightarrow> Err e | Ok (t, r') \<Rightarrow> Ok (st\<lparr>st_why := Some t\<rparr>, r'))
      else if key = ''success'' \<and> st_success st = None then
        (case parse_quoted api STEP_META_MAX r of Err e \<Rightarrow> Err e | Ok (t, r') \<Rightarrow> Ok (st\<lparr>st_success := Some t\<rparr>, r'))
      else if key = ''fallback'' \<and> st_fallback st = None then
        (case parse_quoted api STEP_META_MAX r of Err e \<Rightarrow> Err e | Ok (t, r') \<Rightarrow> Ok (st\<lparr>st_fallback := Some t\<rparr>, r'))
      else if key = ''input'' \<and> st_text st = None \<and> st_call st = None then
        (if st_kind st = STEP_CALL then
           (case parse_call_value r of Err e \<Rightarrow> Err e | Ok (c, r') \<Rightarrow> Ok (st\<lparr>st_call := Some c\<rparr>, r'))
         else if st_kind st = STEP_OPEN then
           (case parse_open_value api r of Err e \<Rightarrow> Err e
            | Ok ((t, b), r') \<Rightarrow> Ok (st\<lparr>st_text := Some t, st_blob := b\<rparr>, r'))
         else
           (case parse_quoted api STEP_TEXT_MAX r of Err e \<Rightarrow> Err e | Ok (t, r') \<Rightarrow> Ok (st\<lparr>st_text := Some t\<rparr>, r')))
      else Err ERR_PROTOCOL)"

lemma skip_ws_le [simp]: "length (skip_ws r) \<le> length r"
  by (simp add: skip_ws_def length_dropWhile_le)

lemma skip_drop_le: "length (skip_ws (drop n r)) \<le> length r"
  using skip_ws_le [of "drop n r"] by (simp del: skip_ws_le)

lemma parse_quoted_le: "parse_quoted api cap r = Ok (t, r') \<Longrightarrow> length r' \<le> length r"
  by (auto simp: parse_quoted_def split: list.splits if_splits option.splits)

lemma parse_call_le: "parse_call_value r = Ok (c, r') \<Longrightarrow> length r' \<le> length r"
proof -
  assume "parse_call_value r = Ok (c, r')"
  then obtain k n where "r' = drop k (skip_ws (drop n r))"
    by (auto simp: parse_call_value_def Let_def split: option.splits if_splits)
  then show ?thesis using skip_ws_le [of "drop n r"] by simp
qed

lemma parse_open_le: "parse_open_value api r = Ok (v, r') \<Longrightarrow> length r' \<le> length r"
  by (auto simp: parse_open_value_def Let_def split: option.splits if_splits sum.splits)

lemma step_field_le: "step_field api st key r = Ok (st', r') \<Longrightarrow> length r' \<le> length r"
  by (auto simp: step_field_def dest: parse_quoted_le parse_call_le parse_open_le split: if_splits sum.splits)

function step_fields :: "'j json_api \<Rightarrow> step \<Rightarrow> string \<Rightarrow> (step \<times> string) outcome" where
  "step_fields api st r =
     (case skip_ws r of
        [] \<Rightarrow> Err ERR_PROTOCOL
      | c # r2 \<Rightarrow>
          if c = CHR ''}'' then Ok (st, r2)
          else if c \<noteq> CHR '','' then Err ERR_PROTOCOL
          else
            let r3 = skip_ws r2; key = takeWhile is_lower r3; r4 = skip_ws (drop (length key) r3) in
            if key = [] \<or> r4 = [] \<or> hd r4 \<noteq> CHR '':'' then Err ERR_PROTOCOL
            else case step_field api st key (skip_ws (tl r4)) of
              Err e \<Rightarrow> Err e
            | Ok (st', r5) \<Rightarrow> step_fields api st' r5)"
  by pat_completeness auto
termination
proof (relation "measure (\<lambda>(api, st, r). length r)", goal_cases)
  case (2 api st r c r2 r3 key r4 b st' r5)
  have "length r5 \<le> length (skip_ws (tl r4))" using step_field_le 2 by metis
  also have "\<dots> \<le> length (tl r4)" by (rule skip_ws_le)
  also have "\<dots> \<le> length r4" by simp
  also have "\<dots> \<le> length r3" unfolding 2(6) by (rule skip_drop_le)
  also have "\<dots> \<le> length r2" unfolding 2(4) by simp
  also have "\<dots> < length (skip_ws r)" unfolding 2(1) by simp
  also have "\<dots> \<le> length r" by simp
  finally show ?case by simp
qed simp

declare step_fields.simps [simp del]

definition step_trim :: "string \<Rightarrow> string" where
  "step_trim line = rev (dropWhile (\<lambda>c. c = SPACE \<or> c = TAB \<or> c = CRET \<or> c = NL) (rev (skip_ws line)))"

definition step_complete :: "step \<Rightarrow> bool" where
  "step_complete st =
     (case st_kind st of
        STEP_ANSWER \<Rightarrow> \<not> (st_why st \<noteq> None \<or> st_text st \<noteq> None \<or> st_success st \<noteq> None \<or> st_fallback st \<noteq> None)
      | STEP_THINK \<Rightarrow> \<not> (st_text st = None \<or> st_why st \<noteq> None \<or> st_success st \<noteq> None \<or> st_fallback st \<noteq> None)
      | STEP_RECALL \<Rightarrow> \<not> (st_text st = None \<or> st_why st = None \<or> st_success st = None \<or> st_fallback st = None)
      | STEP_CALL \<Rightarrow> \<not> (st_call st = None \<or> st_why st = None \<or> st_success st = None \<or> st_fallback st = None)
      | _ \<Rightarrow> \<not> (st_text st = None \<or> st_why st = None \<or> st_success st \<noteq> None \<or> st_fallback st \<noteq> None))"

definition step_parse :: "'j json_api \<Rightarrow> string option \<Rightarrow> step outcome" where
  "step_parse api line =
     (case line of
        None \<Rightarrow> Err ERR_INVALID
      | Some l \<Rightarrow>
          let p = step_trim l in
          if p = [] \<or> hd p \<noteq> CHR ''{'' then Err ERR_PROTOCOL
          else
            let p1 = skip_ws (tl p) in
            if take 6 p1 \<noteq> ''action'' then Err ERR_PROTOCOL
            else
              let p2 = skip_ws (drop 6 p1) in
              if p2 = [] \<or> hd p2 \<noteq> CHR '':'' then Err ERR_PROTOCOL
              else case parse_quoted api 16 (skip_ws (tl p2)) of
                Err e \<Rightarrow> Err e
              | Ok (action, p3) \<Rightarrow>
                  (case action_kind action of
                     None \<Rightarrow> Err ERR_PROTOCOL
                   | Some kind \<Rightarrow>
                       (case step_fields api \<lparr>st_kind = kind, st_text = None, st_why = None, st_success = None,
                            st_fallback = None, st_call = None, st_blob = (0, 0)\<rparr> p3 of
                          Err e \<Rightarrow> Err e
                        | Ok (st, p4) \<Rightarrow>
                            if skip_ws p4 \<noteq> [] then Err ERR_PROTOCOL
                            else if \<not> step_complete st then Err ERR_PROTOCOL
                            else Ok st)))"

section \<open>Accepted steps\<close>

definition meta_ok :: "nat \<Rightarrow> string option \<Rightarrow> bool" where
  "meta_ok cap m \<longleftrightarrow> (case m of None \<Rightarrow> True | Some t \<Rightarrow> t \<noteq> [] \<and> length t \<le> cap \<and> no_nul t)"

text \<open>A call's parts: a tool and a command without blanks or braces, the command without dots, and a
  balanced object.\<close>

definition call_ok :: "string \<times> string \<times> string \<Rightarrow> bool" where
  "call_ok c \<longleftrightarrow>
     (case c of (ref, cmd, args) \<Rightarrow>
        ref \<noteq> [] \<and> cmd \<noteq> [] \<and> CHR ''.'' \<notin> set cmd \<and>
        list_all (\<lambda>c. \<not> step_ws c \<and> c \<noteq> CHR ''{'') (ref @ cmd) \<and>
        args \<noteq> [] \<and> hd args = CHR ''{'' \<and> last args = CHR ''}'' \<and> brace_len 0 False False args = Some (length args))"

definition partial_ok :: "step \<Rightarrow> bool" where
  "partial_ok st \<longleftrightarrow>
     meta_ok STEP_META_MAX (st_why st) \<and> meta_ok STEP_META_MAX (st_success st) \<and> meta_ok STEP_META_MAX (st_fallback st) \<and>
     (st_kind st = STEP_CALL \<longrightarrow> st_text st = None) \<and> (st_kind st \<noteq> STEP_CALL \<longrightarrow> st_call st = None) \<and>
     (st_kind st \<noteq> STEP_OPEN \<longrightarrow> meta_ok STEP_TEXT_MAX (st_text st)) \<and>
     (case st_call st of None \<Rightarrow> True | Some c \<Rightarrow> call_ok c) \<and>
     (st_kind st = STEP_OPEN \<longrightarrow> st_text st = None \<or>
        (1 \<le> fst (st_blob st) \<and> fst (st_blob st) \<le> 2 ^ 31 - 1 \<and> 0 \<le> snd (st_blob st) \<and> snd (st_blob st) < 2 ^ 32))"

lemma parse_quoted_ok: "parse_quoted api cap r = Ok (t, r') \<Longrightarrow> meta_ok cap (Some t)"
  by (auto simp: parse_quoted_def meta_ok_def split: list.splits if_splits option.splits)

lemma last_dot_Some: "last_dot s = Some d \<Longrightarrow> d < length s \<and> s ! d = CHR ''.'' \<and> CHR ''.'' \<notin> set (drop (Suc d) s)"
proof (induction s arbitrary: d)
  case (Cons c s)
  have none: "last_dot s = None \<Longrightarrow> CHR ''.'' \<notin> set s" for s
    by (induction s) (auto split: option.splits if_splits)
  show ?case using Cons none by (auto split: option.splits if_splits)
qed simp

lemma brace_len_Some:
  "brace_len depth instr esc r = Some k \<Longrightarrow>
   0 < k \<and> k \<le> length r \<and> r ! (k - 1) = CHR ''}'' \<and> brace_len depth instr esc (take k r) = Some k"
proof (induction depth instr esc r arbitrary: k rule: brace_len.induct)
  case (2 depth instr esc ch r)
  have "k = 1 \<and> ch = CHR ''}'' \<or> (\<exists>j. k = Suc j \<and> 0 < j)"
    using 2 by (auto split: if_splits)
  then show ?case
  proof (elim disjE exE conjE)
    assume "k = 1" "ch = CHR ''}''"
    then show ?thesis using 2 by (fastforce split: if_splits)
  next
    fix j assume "k = Suc j" "0 < j"
    then show ?thesis using 2 by (auto split: if_splits simp: nth_Cons')
  qed
qed simp

lemma parse_call_ok: "parse_call_value r = Ok (c, r') \<Longrightarrow> call_ok c"
proof -
  assume ok: "parse_call_value r = Ok (c, r')"
  define tok where "tok = takeWhile (\<lambda>c. \<not> step_ws c \<and> c \<noteq> CHR ''{'') r"
  define ob where "ob = skip_ws (drop (length tok) r)"
  obtain d k where d: "last_dot tok = Some d" "d \<noteq> 0" "d + 1 \<noteq> length tok" and ob: "ob \<noteq> []" "hd ob = CHR ''{''"
    and k: "brace_len 0 False False ob = Some k" and c: "c = (take d tok, drop (Suc d) tok, take k ob)"
    using ok unfolding parse_call_value_def Let_def tok_def [symmetric] ob_def [symmetric]
    by (auto split: option.splits if_splits)
  note dot = last_dot_Some [OF d(1)] and brace = brace_len_Some [OF k]
  have "\<forall>x \<in> set tok. \<not> step_ws x \<and> x \<noteq> CHR ''{''" using set_takeWhileD unfolding tok_def by fast
  then have "list_all (\<lambda>c. \<not> step_ws c \<and> c \<noteq> CHR ''{'') (take d tok @ drop (Suc d) tok)"
    by (auto simp: list_all_iff dest: in_set_takeD in_set_dropD)
  moreover have "last (take k ob) = CHR ''}''" using brace ob by (simp add: last_conv_nth)
  moreover have "hd (take k ob) = CHR ''{''" "take k ob \<noteq> []" using brace ob by (cases ob; cases k; simp)+
  ultimately show ?thesis using dot brace d by (auto simp: call_ok_def c)
qed

lemma parse_open_ok:
  "parse_open_value api r = Ok ((t, b), r') \<Longrightarrow> 1 \<le> fst b \<and> fst b \<le> 2 ^ 31 - 1 \<and> 0 \<le> snd b \<and> snd b < 2 ^ 32"
  by (auto simp: parse_open_value_def blob_parse_def Let_def split: option.splits if_splits sum.splits)

lemma step_field_ok: "step_field api st key r = Ok (st', r') \<Longrightarrow> partial_ok st \<Longrightarrow> partial_ok st' \<and> st_kind st' = st_kind st"
  unfolding step_field_def
  by (auto simp: partial_ok_def split: if_split_asm sum.splits dest: parse_quoted_ok parse_call_ok parse_open_ok)

lemma step_fields_ok: "step_fields api st r = Ok (st', r') \<Longrightarrow> partial_ok st \<Longrightarrow> partial_ok st' \<and> st_kind st' = st_kind st"
proof (induction api st r rule: step_fields.induct)
  case (1 api st r)
  note eq = 1(2) [unfolded step_fields.simps [of api st r]]
  then obtain c r2 where ws: "skip_ws r = c # r2" by (auto split: list.splits)
  show ?case
  proof (cases "c = CHR ''}''")
    case True
    then show ?thesis using eq ws 1(3) by simp
  next
    case False
    define r3 where "r3 = skip_ws r2"
    define key where "key = takeWhile is_lower r3"
    define r4 where "r4 = skip_ws (drop (length key) r3)"
    have comma: "\<not> c \<noteq> CHR '',''" and ok: "\<not> (key = [] \<or> r4 = [] \<or> hd r4 \<noteq> CHR '':'')"
      using eq ws False by (auto simp: Let_def r3_def key_def r4_def split: if_split_asm)
    obtain st1 r5 where field: "step_field api st key (skip_ws (tl r4)) = Ok (st1, r5)" and rest: "step_fields api st1 r5 = Ok (st', r')"
      using eq ws False comma ok
      by (auto simp: Let_def r3_def [symmetric] key_def [symmetric] r4_def [symmetric] split: sum.splits)
    show ?thesis
      using 1(1) [OF ws False comma r3_def key_def r4_def ok field refl rest] step_field_ok [OF field 1(3)] by simp
  qed
qed

text \<open>
  C39. An accepted step is complete and bounded: it has exactly the fields of its action, every text is
  non-empty, without NUL and within its limit, a call has a tool, a command without a dot and an
  argument object that is balanced and ends with the brace that closes it, and an open step names
  a blob in 32-bit range.
\<close>

theorem step_parse_accepts:
  assumes "step_parse api line = Ok st"
  shows "partial_ok st \<and> step_complete st \<and> (st_kind st = STEP_CALL \<longleftrightarrow> st_call st \<noteq> None)"
proof -
  obtain kind p4 p3 where fields: "step_fields api \<lparr>st_kind = kind, st_text = None, st_why = None, st_success = None,
      st_fallback = None, st_call = None, st_blob = (0, 0)\<rparr> p3 = Ok (st, p4)" and complete: "step_complete st"
    using assms unfolding step_parse_def Let_def by (auto split: option.splits if_split_asm sum.splits)
  have "partial_ok st" using step_fields_ok [OF fields] by (simp add: partial_ok_def meta_ok_def)
  then show ?thesis using complete by (auto simp: partial_ok_def step_complete_def)
qed

text \<open>A library that reads a quoted text as the text between its quotes.\<close>

definition plain_json :: "(json_scalar + (string \<times> json_scalar) list) json_api" where
  "plain_json = (fixed_api [] [])\<lparr>j_parse := (\<lambda>t. Some (Inl (JsString (butlast (tl t)))))\<rparr>"

abbreviation "sample_line \<equiv>
  ''{action: '' @ [DQUOTE] @ ''call'' @ [DQUOTE] @ '', why: '' @ [DQUOTE] @ ''w'' @ [DQUOTE] @
  '', input: fs@1.2.read {a}, success: '' @ [DQUOTE] @ ''s'' @ [DQUOTE] @ '', fallback: '' @ [DQUOTE] @ ''f'' @ [DQUOTE] @ ''}''"

lemma sample_step:
  "step_parse plain_json (Some sample_line) =
    Ok \<lparr>st_kind = STEP_CALL, st_text = None, st_why = Some ''w'', st_success = Some ''s'', st_fallback = Some ''f'',
      st_call = Some (''fs@1.2'', ''read'', ''{a}''), st_blob = (0, 0)\<rparr>"
  by code_simp

theorem step_parse_accepts_witness:
  "st_call \<lparr>st_kind = STEP_CALL, st_text = None, st_why = Some ''w'', st_success = Some ''s'', st_fallback = Some ''f'',
      st_call = Some (''fs@1.2'', ''read'', ''{a}''), st_blob = (0, 0)\<rparr> \<noteq> None \<and>
   step_complete \<lparr>st_kind = STEP_CALL, st_text = None, st_why = Some ''w'', st_success = Some ''s'', st_fallback = Some ''f'',
      st_call = Some (''fs@1.2'', ''read'', ''{a}''), st_blob = (0, 0)\<rparr>"
  using step_parse_accepts [OF sample_step] by simp

end
