(* ===== verification/Transcript.thy ===== *)
theory Transcript
  imports Xutil Prelude "HOL-Library.Log_Nat"
begin

text \<open>
  The records a committed turn leaves: transcript turns (\<^verbatim>\<open>asngn_turn_node\<close> and
  \<^verbatim>\<open>asngn_turn_parse\<close> of \<^verbatim>\<open>src/session.c\<close>) and ledger entries (\<^verbatim>\<open>asngn_ledger_node\<close> and
  \<^verbatim>\<open>asngn_ledger_parse\<close> of \<^verbatim>\<open>src/ledger.c\<close>).

  A character array is the list of its bytes before the NUL, counters of type \<^verbatim>\<open>size_t\<close> are
  naturals below \<open>2 ^ 64\<close>.  A double is its mantissa and binary exponent, as in \<open>Xutil\<close>;
  the pair of a value and the flag saying that it is valid is an option.
\<close>

section \<open>C conversions\<close>

text \<open>Unsigned 64-bit to signed, 64-bit to \<^verbatim>\<open>int\<close>, and a signed integer to the nearest
  double (ties to even).\<close>

definition int64_of :: "nat \<Rightarrow> int" where
  "int64_of n = (int n + 2 ^ 63) mod 2 ^ 64 - 2 ^ 63"

definition int32_of :: "int \<Rightarrow> int" where
  "int32_of n = (n + 2 ^ 31) mod 2 ^ 32 - 2 ^ 31"

definition double_of_int :: "int \<Rightarrow> int \<times> int" where
  "double_of_int n =
     (let a = nat \<bar>n\<bar>; k = floorlog 2 a - 53; q = a div 2 ^ k; r = a mod 2 ^ k; half = 2 ^ (k - 1);
          m = (if 0 < k \<and> (half < r \<or> half = r \<and> odd q) then q + 1 else q)
      in (sgn n * int m, int k))"

definition xnum :: "xval option \<Rightarrow> (int \<times> int) option" where
  "xnum v = (case v of Some (XInt n) \<Rightarrow> Some (double_of_int n) | Some (XFloat m e) \<Rightarrow> Some (m, e) | _ \<Rightarrow> None)"

text \<open>\<^verbatim>\<open>snprintf(dst, cap, "%s", src)\<close> with a missing source read as empty.\<close>

definition copy_field :: "nat \<Rightarrow> string option \<Rightarrow> string" where
  "copy_field cap src = take (cap - 1) (case src of None \<Rightarrow> [] | Some s \<Rightarrow> s)"

lemma int64_of_small [simp]: "n < 2 ^ 63 \<Longrightarrow> int64_of n = int n"
  by (simp add: int64_of_def)

lemma int32_of_small [simp]: "0 \<le> n \<Longrightarrow> n < 2 ^ 31 \<Longrightarrow> int32_of n = n"
  by (simp add: int32_of_def)

lemma copy_field_short [simp]: "length s < cap \<Longrightarrow> copy_field cap (Some s) = s"
  by (simp add: copy_field_def)

lemma copy_field_bound: "0 < cap \<Longrightarrow> length (copy_field cap src) < cap"
  by (auto simp: copy_field_def)

section \<open>Transcript turns\<close>

record turn =
  tn_n :: nat
  tn_workspace :: string
  tn_commit :: string
  tn_project :: string
  tn_id :: string
  tn_event :: string
  tn_role :: string
  tn_text :: string
  tn_at :: int
  tn_pinned :: bool
  tn_class :: string
  tn_detail :: string
  tn_mode :: string
  tn_tier :: string
  tn_cache :: string
  tn_steps :: int

definition turn_route :: "turn \<Rightarrow> xval option" where
  "turn_route t = put_all (XObject [])
     [(''class'', XString (tn_class t)), (''detail'', XString (tn_detail t)), (''mode'', XString (tn_mode t)),
      (''tier'', XString (tn_tier t)), (''steps'', XInt (tn_steps t)), (''cache'', XString (tn_cache t))]"

definition turn_node :: "turn \<Rightarrow> xnode option" where
  "turn_node t =
     do {
       obj \<leftarrow> put_all (XObject [])
         [(''workspace'', XString (tn_workspace t)), (''commit'', XString (tn_commit t)),
          (''project'', XString (tn_project t)), (''turn_id'', XString (tn_id t)),
          (''n'', XInt (int64_of (tn_n t))), (''role'', XString (tn_role t)),
          (''at'', XDatetime (time_format_rfc3339 (tn_at t))), (''text'', XString (tn_text t)),
          (''pinned'', XBool (tn_pinned t))];
       obj \<leftarrow> (if tn_class t \<noteq> [] then xobj_put obj ''route'' (turn_route t) else Some obj);
       xnode_tag (Some (xnode_new obj)) (Some ''turn'')
     }"

definition zero_turn :: turn where
  "zero_turn = \<lparr>tn_n = 0, tn_workspace = [], tn_commit = [], tn_project = [], tn_id = [], tn_event = [],
     tn_role = [], tn_text = [], tn_at = 0, tn_pinned = False, tn_class = [], tn_detail = [],
     tn_mode = [], tn_tier = [], tn_cache = [], tn_steps = 0\<rparr>"

definition turn_parse_route :: "xval option \<Rightarrow> turn \<Rightarrow> turn" where
  "turn_parse_route route t =
     (case route of
        Some (XObject _) \<Rightarrow>
          t\<lparr>tn_class := copy_field 12 (xstr (xfield route ''class'')),
            tn_detail := copy_field 8 (xstr (xfield route ''detail'')),
            tn_mode := copy_field 8 (xstr (xfield route ''mode'')),
            tn_tier := copy_field 16 (xstr (xfield route ''tier'')),
            tn_cache := copy_field 8 (xstr (xfield route ''cache'')),
            tn_steps := (case xint (xfield route ''steps'') of
               Some n \<Rightarrow> if 0 \<le> n then int32_of n else tn_steps t | None \<Rightarrow> tn_steps t)\<rparr>
      | _ \<Rightarrow> t)"

definition turn_parse :: "xval option \<Rightarrow> turn option" where
  "turn_parse v =
     do {
       require (case v of Some (XObject _) \<Rightarrow> True | _ \<Rightarrow> False);
       n \<leftarrow> xint (xfield v ''n'');
       require (1 \<le> n);
       role \<leftarrow> xstr (xfield v ''role'');
       require (role = ''user'' \<or> role = ''assistant'');
       stamp \<leftarrow> xtime (xfield v ''at'');
       body \<leftarrow> xstr (xfield v ''text'');
       Some (turn_parse_route (xfield v ''route'')
         (zero_turn\<lparr>tn_n := nat n,
            tn_workspace := copy_field 1024 (xstr (xfield v ''workspace'')),
            tn_commit := copy_field 65 (xstr (xfield v ''commit'')),
            tn_project := copy_field 65 (xstr (xfield v ''project'')),
            tn_id := copy_field 37 (xstr (xfield v ''turn_id'')),
            tn_role := role, tn_at := stamp, tn_text := body,
            tn_pinned := (xbool (xfield v ''pinned'') = Some True)\<rparr>))
     }"

text \<open>What the engine's turns satisfy; the event id is not part of the record, and a turn
  without a class has no route.\<close>

definition turn_ok :: "turn \<Rightarrow> bool" where
  "turn_ok t \<longleftrightarrow>
     0 < tn_n t \<and> tn_n t < 2 ^ 63 \<and> length (tn_workspace t) < 1024 \<and> length (tn_commit t) < 65 \<and>
     length (tn_project t) < 65 \<and> length (tn_id t) < 37 \<and> (tn_role t = ''user'' \<or> tn_role t = ''assistant'') \<and>
     0 \<le> rfc_year (tn_at t) \<and> rfc_year (tn_at t) \<le> 9999 \<and>
     length (tn_class t) < 12 \<and> length (tn_detail t) < 8 \<and> length (tn_mode t) < 8 \<and> length (tn_tier t) < 16 \<and>
     length (tn_cache t) < 8 \<and> 0 \<le> tn_steps t \<and> tn_steps t < 2 ^ 31 \<and>
     (tn_class t = [] \<longrightarrow> tn_detail t = [] \<and> tn_mode t = [] \<and> tn_tier t = [] \<and> tn_cache t = [] \<and> tn_steps t = 0)"

lemma xfield_put_node:
  "xobj_put (xobject fs) k (Some v) = Some (xobject (fs @ [(k, v)]))"
  by (simp add: xobj_put_def xobj_put_node_def xobject_def)

lemma turn_node_value:
  "turn_node t = Some (XNode [''turn''] (xobject
     ([(''workspace'', XString (tn_workspace t)), (''commit'', XString (tn_commit t)),
       (''project'', XString (tn_project t)), (''turn_id'', XString (tn_id t)),
       (''n'', XInt (int64_of (tn_n t))), (''role'', XString (tn_role t)),
       (''at'', XDatetime (time_format_rfc3339 (tn_at t))), (''text'', XString (tn_text t)),
       (''pinned'', XBool (tn_pinned t))] @
      (if tn_class t \<noteq> [] then [(''route'', the (turn_route t))] else []))))"
  by (simp add: turn_node_def turn_route_def xfield_put_node xnode_tag_def xnode_new_def)

lemma turn_parse_node:
  assumes "turn_ok t" "turn_node t = Some n"
  shows "turn_parse (Some (xvalue n)) = Some (t\<lparr>tn_event := []\<rparr>)"
proof -
  have at: "time_parse_rfc3339 (Some (time_format_rfc3339 (tn_at t))) = Some (tn_at t)"
    using assms(1) by (intro time_format_parse) (simp_all add: turn_ok_def)
  have obj: "\<exists>es. xobject fs = XObject es" for fs by (simp add: xobject_def)
  show ?thesis
    using assms obj [of "_"]
    by (cases "tn_class t = []")
      (auto simp: turn_node_value turn_parse_def turn_parse_route_def turn_route_def turn_ok_def at zero_turn_def
        xobject_def [where fs = "_ # _"] xnode_new_def)
qed

section \<open>Ledger entries\<close>

record ledger_entry =
  le_id :: string
  le_turn :: nat
  le_at :: int
  le_class :: string
  le_detail :: string
  le_mode :: string
  le_tier :: string
  le_cache :: string
  le_escalations :: int
  le_system :: nat
  le_memory :: nat
  le_catalog :: nat
  le_summary :: nat
  le_verbatim :: nat
  le_working :: nat
  le_decision :: nat
  le_answer :: nat
  le_aux :: nat
  le_saved_cache :: nat
  le_saved_digest :: nat
  le_judge :: "(int \<times> int) option"
  le_user :: "int option"
  le_capped :: bool
  le_duration :: nat

definition ledger_total_tokens :: "ledger_entry \<Rightarrow> nat" where
  "ledger_total_tokens e =
     (le_system e + le_memory e + le_catalog e + le_summary e + le_verbatim e + le_working e +
      le_decision e + le_answer e + le_aux e) mod 2 ^ 64"

definition ledger_node :: "ledger_entry \<Rightarrow> xnode option" where
  "ledger_node e =
     do {
       route \<leftarrow> put_all (XObject [])
         [(''class'', XString (le_class e)), (''detail'', XString (le_detail e)), (''mode'', XString (le_mode e)),
          (''tier'', XString (le_tier e)), (''escalations'', XInt (le_escalations e)),
          (''cache'', XString (le_cache e))];
       pt \<leftarrow> put_all (XObject [])
         [(''system'', XInt (int64_of (le_system e))), (''memory'', XInt (int64_of (le_memory e))),
          (''catalog'', XInt (int64_of (le_catalog e))), (''summary'', XInt (int64_of (le_summary e))),
          (''verbatim'', XInt (int64_of (le_verbatim e))), (''working'', XInt (int64_of (le_working e)))];
       gt \<leftarrow> put_all (XObject [])
         [(''decision'', XInt (int64_of (le_decision e))), (''answer'', XInt (int64_of (le_answer e))),
          (''aux'', XInt (int64_of (le_aux e)))];
       sv \<leftarrow> put_all (XObject [])
         [(''cache'', XInt (int64_of (le_saved_cache e))), (''digest'', XInt (int64_of (le_saved_digest e)))];
       q \<leftarrow> put_all (XObject [])
         [(''judge'', case le_judge e of Some (m, x) \<Rightarrow> XFloat m x | None \<Rightarrow> XNull),
          (''user'', case le_user e of Some n \<Rightarrow> XInt n | None \<Rightarrow> XNull)];
       obj \<leftarrow> put_all (XObject [])
         [(''turn_id'', XString (le_id e)), (''turn'', XInt (int64_of (le_turn e))),
          (''at'', XDatetime (time_format_rfc3339 (le_at e))), (''route'', route), (''prompt_tokens'', pt),
          (''gen_tokens'', gt), (''saved_tokens'', sv), (''quality'', q), (''capped'', XBool (le_capped e)),
          (''duration_ms'', XInt (int64_of (le_duration e)))];
       xnode_tag (Some (xnode_new obj)) (Some ''ledger_entry'')
     }"

text \<open>A counter of a section: what the section holds when it is an object with a non-negative
  integer there, otherwise 0.\<close>

definition section_count :: "xval option \<Rightarrow> string \<Rightarrow> nat" where
  "section_count sub key =
     (case xint (xfield sub key) of Some n \<Rightarrow> if 0 \<le> n then nat n else 0 | None \<Rightarrow> 0)"

definition parse_user_signal :: "xval option \<Rightarrow> int option" where
  "parse_user_signal v = (case xint v of Some n \<Rightarrow> if n = 1 \<or> n = - 1 then Some n else None | None \<Rightarrow> None)"

definition ledger_parse :: "xval option \<Rightarrow> ledger_entry option" where
  "ledger_parse v =
     do {
       require (case v of Some (XObject _) \<Rightarrow> True | _ \<Rightarrow> False);
       n \<leftarrow> xint (xfield v ''turn'');
       require (1 \<le> n);
       stamp \<leftarrow> xtime (xfield v ''at'');
       let route = xfield v ''route'';
       let pt = xfield v ''prompt_tokens'';
       let gt = xfield v ''gen_tokens'';
       let sv = xfield v ''saved_tokens'';
       let q = xfield v ''quality'';
       Some \<lparr>le_id = copy_field 37 (xstr (xfield v ''turn_id'')), le_turn = nat n, le_at = stamp,
         le_class = copy_field 12 (xstr (xfield route ''class'')),
         le_detail = copy_field 8 (xstr (xfield route ''detail'')),
         le_mode = copy_field 8 (xstr (xfield route ''mode'')),
         le_tier = copy_field 16 (xstr (xfield route ''tier'')),
         le_cache = copy_field 8 (xstr (xfield route ''cache'')),
         le_escalations =
           (case xint (xfield route ''escalations'') of Some k \<Rightarrow> if 0 \<le> k then int32_of k else 0 | None \<Rightarrow> 0),
         le_system = section_count pt ''system'', le_memory = section_count pt ''memory'',
         le_catalog = section_count pt ''catalog'', le_summary = section_count pt ''summary'',
         le_verbatim = section_count pt ''verbatim'', le_working = section_count pt ''working'',
         le_decision = section_count gt ''decision'', le_answer = section_count gt ''answer'',
         le_aux = section_count gt ''aux'',
         le_saved_cache = section_count sv ''cache'', le_saved_digest = section_count sv ''digest'',
         le_judge = xnum (xfield q ''judge''), le_user = parse_user_signal (xfield q ''user''),
         le_capped = (xbool (xfield v ''capped'') = Some True),
         le_duration = section_count v ''duration_ms''\<rparr>
     }"

definition ledger_ok :: "ledger_entry \<Rightarrow> bool" where
  "ledger_ok e \<longleftrightarrow>
     length (le_id e) < 37 \<and> 0 < le_turn e \<and> 0 \<le> rfc_year (le_at e) \<and> rfc_year (le_at e) \<le> 9999 \<and>
     length (le_class e) < 12 \<and> length (le_detail e) < 8 \<and> length (le_mode e) < 8 \<and> length (le_tier e) < 16 \<and>
     length (le_cache e) < 8 \<and> 0 \<le> le_escalations e \<and> le_escalations e < 2 ^ 31 \<and>
     list_all (\<lambda>n. n < 2 ^ 63)
       [le_turn e, le_system e, le_memory e, le_catalog e, le_summary e, le_verbatim e, le_working e,
        le_decision e, le_answer e, le_aux e, le_saved_cache e, le_saved_digest e, le_duration e] \<and>
     (\<forall>n. le_user e = Some n \<longrightarrow> n = 1 \<or> n = - 1)"

text \<open>A value that is not an object has no fields, which is how the code's guards on the type of
  each section come out.\<close>

lemma xfield_not_object: "\<not> (\<exists>es. sub = Some (XObject es)) \<Longrightarrow> xfield sub key = None"
  by (cases sub; cases "the sub") auto

lemma ledger_parse_node:
  assumes "ledger_ok e" "ledger_node e = Some n"
  shows "ledger_parse (Some (xvalue n)) = Some e"
proof -
  have stamp: "time_parse_rfc3339 (Some (time_format_rfc3339 (le_at e))) = Some (le_at e)"
    using assms(1) by (intro time_format_parse) (simp_all add: ledger_ok_def)
  have obj: "case xobject fs of XObject _ \<Rightarrow> True | _ \<Rightarrow> False" for fs by (simp add: xobject_def)
  have user: "parse_user_signal (Some (case le_user e of Some n \<Rightarrow> XInt n | None \<Rightarrow> XNull)) = le_user e"
    using assms(1) by (auto simp: parse_user_signal_def ledger_ok_def split: option.splits)
  have judge: "xnum (Some (case le_judge e of Some (m, x) \<Rightarrow> XFloat m x | None \<Rightarrow> XNull)) = le_judge e"
    by (auto simp: xnum_def split: option.splits)
  have turn: "0 < le_turn e" using assms(1) by (simp add: ledger_ok_def)
  note n = assms(2) [simplified ledger_node_def xnode_tag_def xnode_new_def, simplified]
  show ?thesis
    using assms(1) turn unfolding n [symmetric]
    by (auto simp: ledger_parse_def obj stamp user judge ledger_ok_def section_count_def)
qed

end
