(* ===== verification/Session.thy ===== *)
theory Session
  imports Transcript Approvals
begin

text \<open>
  The session store of \<^verbatim>\<open>src/session.c\<close> and the token ledger of \<^verbatim>\<open>src/ledger.c\<close>: the
  transcript with its idempotent append, the ledger stream with its feedback amendments and replay,
  and the manifest.

  The asper memory is a library; what it answers to one call is a \<open>sibling_plan\<close>.  The file that
  holds the manifest is in the file map \<open>ss_disk\<close>; the two append streams carry their contents.
  Log messages are left out, memory suffices.
\<close>

datatype usage_mode = USAGE_CHAT | USAGE_CODING | USAGE_AUTOMATE

record workspace_info =
  wi_root :: string
  wi_repository :: string
  wi_head :: string
  wi_branch :: string
  wi_project :: string
  wi_ignore :: string
  wi_build :: string
  wi_fingerprint :: string

record session =
  ss_slug :: string
  ss_created :: int
  ss_turns :: nat
  ss_epoch :: nat
  ss_project :: "string option"
  ss_workspace :: workspace_info
  ss_loaded :: bool
  ss_redact :: bool
  ss_mode :: usage_mode
  ss_profile :: security_profile
  ss_log :: "turn list"
  ss_ledger_st :: stream
  ss_journal_st :: stream
  ss_disk :: files
  ss_recovery :: bool
  ss_interrupted :: nat
  ss_uncertain :: nat
  ss_led :: "ledger_entry list"
  ss_spent :: int
  ss_last_turn :: nat
  ss_last_capped :: bool
  ss_last_user :: "string option"
  ss_last_answer :: "string option"

section \<open>Transcript\<close>

datatype mem_kind = MEM_USER | MEM_ASSISTANT

record sibling_plan =
  sb_on :: bool
  sb_object :: "string \<Rightarrow> string outcome"
  sb_event :: "mem_kind \<Rightarrow> string \<Rightarrow> string \<Rightarrow> bool \<Rightarrow> string outcome"

definition stage_turn :: "session \<Rightarrow> turn \<Rightarrow> session" where
  "stage_turn s t = s\<lparr>ss_log := ss_log s @ [t]\<rparr>"

text \<open>The first turn of the log with the id and role of \<open>t\<close>; a turn without an id has none.\<close>

fun turn_index :: "turn \<Rightarrow> turn list \<Rightarrow> nat option" where
  "turn_index t [] = None"
| "turn_index t (u # us) =
     (if tn_id t \<noteq> [] \<and> tn_id t = tn_id u \<and> tn_role t = tn_role u then Some 0
      else map_option Suc (turn_index t us))"

definition remember_turn :: "(xnode \<Rightarrow> string option) \<Rightarrow> sibling_plan \<Rightarrow> turn \<Rightarrow> string outcome" where
  "remember_turn write sb t =
     (if \<not> sb_on sb then Ok []
      else case Option.bind (turn_node t) write of
        None \<Rightarrow> Err ERR_NOMEM
      | Some line \<Rightarrow> (case sb_object sb line of
            Err e \<Rightarrow> Err e
          | Ok ref \<Rightarrow> sb_event sb (if tn_role t = ''assistant'' then MEM_ASSISTANT else MEM_USER) (tn_text t) ref
              (tn_pinned t)))"

definition append_turn ::
    "(xnode \<Rightarrow> string option) \<Rightarrow> sibling_plan \<Rightarrow> session \<Rightarrow> turn \<Rightarrow> session \<times> asngn_err option" where
  "append_turn write sb s t =
     (let staged = turn_index t (ss_log s) in
      if (case staged of None \<Rightarrow> False
          | Some i \<Rightarrow> tn_n (ss_log s ! i) \<noteq> tn_n t \<or> tn_text (ss_log s ! i) \<noteq> tn_text t)
        then (s, Some ERR_PARSE)
      else if (case staged of None \<Rightarrow> False | Some i \<Rightarrow> tn_event (ss_log s ! i) \<noteq> []) then (s, None)
      else case remember_turn write sb t of
        Err e \<Rightarrow> (s, Some e)
      | Ok event \<Rightarrow>
          (case staged of
             Some i \<Rightarrow>
               (if event \<noteq> [] then s\<lparr>ss_log := (ss_log s)[i := (ss_log s ! i)\<lparr>tn_event := event\<rparr>]\<rparr> else s, None)
           | None \<Rightarrow>
               (s\<lparr>ss_log := ss_log s @ [if event \<noteq> [] then t\<lparr>tn_event := event\<rparr> else t]\<rparr>, None)))"

section \<open>Ledger\<close>

definition has_tag :: "string \<Rightarrow> xnode \<Rightarrow> bool" where
  "has_tag t n \<longleftrightarrow> t \<in> set (xtags n)"

text \<open>A line on the ledger stream.\<close>

definition ledger_write ::
    "(xnode \<Rightarrow> string option) \<Rightarrow> io_plan \<Rightarrow> stream \<Rightarrow> xnode option \<Rightarrow> stream \<times> asngn_err option" where
  "ledger_write write io st node =
     (case Option.bind node write of
        None \<Rightarrow> (st, Some ERR_NOMEM)
      | Some line \<Rightarrow> stream_append io st line)"

definition ledger_append ::
    "(xnode \<Rightarrow> string option) \<Rightarrow> io_plan \<Rightarrow> session \<Rightarrow> ledger_entry \<Rightarrow> session \<times> asngn_err option" where
  "ledger_append write io s e =
     (if le_id e \<noteq> [] \<and> list_ex (\<lambda>x. le_id x = le_id e) (ss_led s) then (s, None)
      else case ledger_write write io (ss_ledger_st s) (ledger_node e) of
        (st, Some err) \<Rightarrow> (s\<lparr>ss_ledger_st := st\<rparr>, Some err)
      | (st, None) \<Rightarrow>
          (s\<lparr>ss_ledger_st := st, ss_led := ss_led s @ [e],
             ss_spent := ss_spent s + int64_of (ledger_total_tokens e)\<rparr>, None))"

fun update_first :: "('a \<Rightarrow> bool) \<Rightarrow> ('a \<Rightarrow> 'a) \<Rightarrow> 'a list \<Rightarrow> 'a list" where
  "update_first p f [] = []"
| "update_first p f (x # xs) = (if p x then f x # xs else x # update_first p f xs)"

definition set_signal :: "nat \<Rightarrow> int option \<Rightarrow> ledger_entry list \<Rightarrow> ledger_entry list" where
  "set_signal turn sig es =
     rev (update_first (\<lambda>e. le_turn e = turn) (\<lambda>e. e\<lparr>le_user := sig\<rparr>) (rev es))"

definition feedback_node :: "int \<Rightarrow> nat \<Rightarrow> int \<Rightarrow> xnode option" where
  "feedback_node now turn sig =
     do {
       obj \<leftarrow> put_all (XObject [])
         [(''turn'', XInt (int64_of turn)), (''user'', if sig \<noteq> 0 then XInt sig else XNull),
          (''at'', XDatetime (time_format_rfc3339 now))];
       xnode_tag (Some (xnode_new obj)) (Some ''ledger_feedback'')
     }"

definition ledger_set_feedback ::
    "(xnode \<Rightarrow> string option) \<Rightarrow> io_plan \<Rightarrow> int \<Rightarrow> session \<Rightarrow> nat \<Rightarrow> int \<Rightarrow> session \<times> asngn_err option" where
  "ledger_set_feedback write io now s turn sig =
     (if \<not> list_ex (\<lambda>e. le_turn e = turn) (ss_led s) then (s, Some ERR_NOT_FOUND)
      else if sig \<noteq> 0 \<and> sig \<noteq> 1 \<and> sig \<noteq> - 1 then (s, Some ERR_INVALID)
      else
        let s1 = s\<lparr>ss_led := set_signal turn (if sig = 0 then None else Some sig) (ss_led s)\<rparr> in
        (case ledger_write write io (ss_ledger_st s1) (feedback_node now turn sig) of
           (st, e) \<Rightarrow> (s1\<lparr>ss_ledger_st := st\<rparr>, e)))"

text \<open>The replay of one value of the file on the entries and the spent tokens.\<close>

definition replay_value :: "xnode \<Rightarrow> ledger_entry list \<times> int \<Rightarrow> ledger_entry list \<times> int" where
  "replay_value n st =
     (case st of (es, spent) \<Rightarrow>
        if has_tag ''ledger_entry'' n then
          (case ledger_parse (Some (xvalue n)) of
             None \<Rightarrow> (es, spent)
           | Some e \<Rightarrow> (es @ [e], spent + int64_of (ledger_total_tokens e)))
        else if has_tag ''ledger_feedback'' n then
          (case xint (xfield (Some (xvalue n)) ''turn'') of
             None \<Rightarrow> (es, spent)
           | Some turn \<Rightarrow>
               (set_signal (nat (turn mod 2 ^ 64)) (parse_user_signal (xfield (Some (xvalue n)) ''user'')) es, spent))
        else (es, spent))"

definition replay_values :: "xnode list \<Rightarrow> ledger_entry list \<times> int \<Rightarrow> ledger_entry list \<times> int" where
  "replay_values ns st = fold replay_value ns st"

definition ledger_replay ::
    "(string \<Rightarrow> xnode list option) \<Rightarrow> bool \<Rightarrow> string option \<Rightarrow> session \<Rightarrow> string option \<times> session \<times> asngn_err option" where
  "ledger_replay parse truncate_ok contents s =
     (case stream_load parse [] truncate_ok contents of
        (contents', Err e) \<Rightarrow> (contents', s, Some e)
      | (contents', Ok None) \<Rightarrow> (contents', s, None)
      | (contents', Ok (Some doc)) \<Rightarrow>
          (case replay_values doc (ss_led s, ss_spent s) of
             (es, spent) \<Rightarrow> (contents', s\<lparr>ss_led := es, ss_spent := spent\<rparr>, None)))"

section \<open>Manifest\<close>

fun usage_mode_name :: "usage_mode \<Rightarrow> string" where
  "usage_mode_name USAGE_CHAT = ''chat''"
| "usage_mode_name USAGE_CODING = ''coding''"
| "usage_mode_name USAGE_AUTOMATE = ''automate''"

fun security_profile_name :: "security_profile \<Rightarrow> string" where
  "security_profile_name CHAT = ''chat''"
| "security_profile_name CODING_READONLY = ''coding-readonly''"
| "security_profile_name CODING_SANDBOXED = ''coding-sandboxed''"
| "security_profile_name AUTOMATION_CI = ''automation-ci''"

definition workspace_fields :: "workspace_info \<Rightarrow> (string \<times> xval) list" where
  "workspace_fields w =
     [(''root'', XString (wi_root w)), (''repository_root'', XString (wi_repository w)),
      (''head'', XString (wi_head w)), (''branch'', XString (wi_branch w)),
      (''project_id'', XString (wi_project w)), (''ignore_rules'', XString (wi_ignore w)),
      (''build_adapter'', XString (wi_build w)), (''fingerprint'', XString (wi_fingerprint w))]"

definition manifest_node :: "session \<Rightarrow> xnode option" where
  "manifest_node s =
     do {
       w \<leftarrow> put_all (XObject []) (workspace_fields (ss_workspace s));
       obj \<leftarrow> put_all (XObject [])
         [(''slug'', XString (ss_slug s)), (''created_at'', XDatetime (time_format_rfc3339 (ss_created s))),
          (''turns'', XInt (int64_of (ss_turns s))), (''world_epoch'', XInt (int64_of (ss_epoch s))),
          (''project'', case ss_project s of Some p \<Rightarrow> XString p | None \<Rightarrow> XNull),
          (''workspace'', w), (''redact_context'', XBool (ss_redact s)),
          (''mode'', XString (usage_mode_name (ss_mode s))),
          (''security_profile'', XString (security_profile_name (ss_profile s)))];
       xnode_tag (Some (xnode_new obj)) (Some ''asngn_session'')
     }"

text \<open>The outside of one save: the workspace as the snapshot leaves it and whether the snapshot
  succeeded, the writer, the manifest's path and the calls of the replacement.\<close>

record manifest_plan =
  mp_snapshot :: "workspace_info \<Rightarrow> workspace_info \<times> bool"
  mp_pretty :: "xnode \<Rightarrow> string option"
  mp_path :: string
  mp_replace :: replace_plan

definition save_manifest :: "manifest_plan \<Rightarrow> session \<Rightarrow> session \<times> asngn_err option" where
  "save_manifest mp s =
     (let s1 = (case mp_snapshot mp (ss_workspace s) of (w, ok) \<Rightarrow>
          s\<lparr>ss_workspace := (if ok then w else w\<lparr>wi_fingerprint := []\<rparr>)\<rparr>) in
      case Option.bind (manifest_node s1) (mp_pretty mp) of
        None \<Rightarrow> (s1, Some ERR_NOMEM)
      | Some data \<Rightarrow>
          (case write_atomic (mp_replace mp) (mp_path mp) (data @ [NL]) (ss_disk s1) of
             (fs, e) \<Rightarrow> (s1\<lparr>ss_disk := fs\<rparr>, e)))"

definition ws_copy :: "nat \<Rightarrow> xval option \<Rightarrow> string \<Rightarrow> string \<Rightarrow> string" where
  "ws_copy cap v key old = (case xstr (xfield v key) of Some t \<Rightarrow> take (cap - 1) t | None \<Rightarrow> old)"

definition apply_workspace :: "xval option \<Rightarrow> workspace_info \<Rightarrow> workspace_info" where
  "apply_workspace v w =
     \<lparr>wi_root = ws_copy 1024 v ''root'' (wi_root w),
      wi_repository = ws_copy 1024 v ''repository_root'' (wi_repository w),
      wi_head = ws_copy 65 v ''head'' (wi_head w), wi_branch = ws_copy 128 v ''branch'' (wi_branch w),
      wi_project = ws_copy 65 v ''project_id'' (wi_project w),
      wi_ignore = ws_copy 256 v ''ignore_rules'' (wi_ignore w),
      wi_build = ws_copy 32 v ''build_adapter'' (wi_build w),
      wi_fingerprint = ws_copy 65 v ''fingerprint'' (wi_fingerprint w)\<rparr>"

definition usage_mode_of :: "string \<Rightarrow> usage_mode \<Rightarrow> usage_mode" where
  "usage_mode_of t old =
     (if t = ''chat'' then USAGE_CHAT else if t = ''coding'' then USAGE_CODING
      else if t = ''automate'' then USAGE_AUTOMATE else old)"

definition security_profile_of :: "string \<Rightarrow> security_profile \<Rightarrow> security_profile" where
  "security_profile_of t old =
     (if t = ''chat'' then CHAT else if t = ''coding-readonly'' then CODING_READONLY
      else if t = ''coding-sandboxed'' then CODING_SANDBOXED
      else if t = ''automation-ci'' then AUTOMATION_CI else old)"

definition apply_manifest :: "session \<Rightarrow> xnode \<Rightarrow> session" where
  "apply_manifest s node =
     (let v = Some (xvalue node);
          natural = (\<lambda>key old. case xint (xfield v key) of Some n \<Rightarrow> if 0 \<le> n then nat n else old | None \<Rightarrow> old);
          wv = xfield v ''workspace'';
          is_object = (case wv of Some (XObject _) \<Rightarrow> True | _ \<Rightarrow> False);
          w = (if is_object then apply_workspace wv (ss_workspace s) else ss_workspace s)
      in case v of
        Some (XObject _) \<Rightarrow>
          s\<lparr>ss_created := (case xtime (xfield v ''created_at'') of Some t \<Rightarrow> t | None \<Rightarrow> ss_created s),
            ss_turns := natural ''turns'' (ss_turns s), ss_epoch := natural ''world_epoch'' (ss_epoch s),
            ss_project := (case xstr (xfield v ''project'') of Some p \<Rightarrow> Some p | None \<Rightarrow> ss_project s),
            ss_workspace := w, ss_loaded := (if is_object then wi_root w \<noteq> [] else ss_loaded s),
            ss_redact := (case xbool (xfield v ''redact_context'') of Some b \<Rightarrow> b | None \<Rightarrow> ss_redact s),
            ss_mode := (case xstr (xfield v ''mode'') of Some t \<Rightarrow> usage_mode_of t (ss_mode s) | None \<Rightarrow> ss_mode s),
            ss_profile := (case xstr (xfield v ''security_profile'') of
               Some t \<Rightarrow> security_profile_of t (ss_profile s) | None \<Rightarrow> ss_profile s)\<rparr>
      | _ \<Rightarrow> s)"

text \<open>The settings a manifest carries.\<close>

definition manifest_ok :: "session \<Rightarrow> bool" where
  "manifest_ok s \<longleftrightarrow>
     0 \<le> rfc_year (ss_created s) \<and> rfc_year (ss_created s) \<le> 9999 \<and> ss_turns s < 2 ^ 63 \<and> ss_epoch s < 2 ^ 63 \<and>
     length (wi_root (ss_workspace s)) < 1024 \<and> length (wi_repository (ss_workspace s)) < 1024 \<and>
     length (wi_head (ss_workspace s)) < 65 \<and> length (wi_branch (ss_workspace s)) < 128 \<and>
     length (wi_project (ss_workspace s)) < 65 \<and> length (wi_ignore (ss_workspace s)) < 256 \<and>
     length (wi_build (ss_workspace s)) < 32 \<and> length (wi_fingerprint (ss_workspace s)) < 65"

lemma usage_mode_of_name [simp]: "usage_mode_of (usage_mode_name m) old = m"
  by (cases m) (simp_all add: usage_mode_of_def)

lemma security_profile_of_name [simp]: "security_profile_of (security_profile_name p) old = p"
  by (cases p) (simp_all add: security_profile_of_def)

lemma manifest_parts:
  assumes "manifest_ok s" "manifest_node s = Some n"
  shows "apply_manifest fresh n = fresh\<lparr>ss_created := ss_created s, ss_turns := ss_turns s, ss_epoch := ss_epoch s,
    ss_project := (if ss_project s = None then ss_project fresh else ss_project s), ss_workspace := ss_workspace s,
    ss_loaded := (wi_root (ss_workspace s) \<noteq> []), ss_redact := ss_redact s, ss_mode := ss_mode s,
    ss_profile := ss_profile s\<rparr>"
proof -
  have stamp: "time_parse_rfc3339 (Some (time_format_rfc3339 (ss_created s))) = Some (ss_created s)"
    using assms(1) by (intro time_format_parse) (simp_all add: manifest_ok_def)
  have obj: "case xobject fs of XObject _ \<Rightarrow> True | _ \<Rightarrow> False" for fs by (simp add: xobject_def)
  have obj': "(case xobject fs of XObject _ \<Rightarrow> x | _ \<Rightarrow> y) = x" for fs and x y :: session by (simp add: xobject_def)
  note n = assms(2) [simplified manifest_node_def xnode_tag_def xnode_new_def, simplified]
  have w: "apply_workspace (Some (xobject (workspace_fields (ss_workspace s)))) old = ss_workspace s" for old
    using assms(1) by (simp add: apply_workspace_def workspace_fields_def ws_copy_def manifest_ok_def)
  show ?thesis
    using assms(1) unfolding n [symmetric]
    by (cases "ss_project s") (simp_all add: apply_manifest_def Let_def obj obj' stamp w manifest_ok_def)
qed

section \<open>The ledger and its file agree\<close>

text \<open>What the xCDN library documents of a file of values: it is read value by value, and a line
  the writer gave is read as the value it was given.\<close>

definition stream_lib :: "(string \<Rightarrow> xnode list option) \<Rightarrow> (xnode \<Rightarrow> string option) \<Rightarrow> bool" where
  "stream_lib parse write \<longleftrightarrow>
     parse [] = Some [] \<and>
     (\<forall>f ds n tx. parse f = Some ds \<longrightarrow> write n = Some tx \<longrightarrow> parse (f @ as_line tx) = Some (ds @ [n]))"

text \<open>Two lists of entries that differ at most in the user's signal of the turns in \<open>R\<close>.\<close>

definition agree :: "nat set \<Rightarrow> ledger_entry list \<Rightarrow> ledger_entry list \<Rightarrow> bool" where
  "agree R = list_all2 (\<lambda>x y. x\<lparr>le_user := None\<rparr> = y\<lparr>le_user := None\<rparr> \<and> (le_turn y \<notin> R \<longrightarrow> x = y))"

text \<open>The file replays to the spent tokens of the session and to its entries, up to the signals of \<open>R\<close>.\<close>

definition ledger_sync :: "(string \<Rightarrow> xnode list option) \<Rightarrow> nat set \<Rightarrow> session \<Rightarrow> bool" where
  "ledger_sync parse R s \<longleftrightarrow>
     (\<exists>ds es. parse (st_file (ss_ledger_st s)) = Some ds \<and> replay_values ds ([], 0) = (es, ss_spent s) \<and>
        list_all ledger_ok es \<and> agree R es (ss_led s))"

lemma replay_values_snoc [simp]: "replay_values (ds @ [n]) st = replay_value n (replay_values ds st)"
  by (simp add: replay_values_def)

lemma set_update_first: "set (update_first p f xs) \<subseteq> set xs \<union> f ` set xs"
  by (induction xs) auto

lemma map_update_first: "(\<And>x. g (f x) = g x) \<Longrightarrow> map g (update_first p f xs) = map g xs"
  by (induction xs) auto

lemma set_signal_ok:
  "list_all ledger_ok es \<Longrightarrow> sig = None \<or> sig = Some 1 \<or> sig = Some (- 1) \<Longrightarrow> list_all ledger_ok (set_signal turn sig es)"
proof -
  assume es: "list_all ledger_ok es" and sig: "sig = None \<or> sig = Some 1 \<or> sig = Some (- 1)"
  have "ledger_ok (e\<lparr>le_user := sig\<rparr>)" if "ledger_ok e" for e using that sig by (auto simp: ledger_ok_def)
  with es set_update_first [of "\<lambda>e. le_turn e = turn" "\<lambda>e. e\<lparr>le_user := sig\<rparr>" "rev es"] show ?thesis
    by (fastforce simp: set_signal_def list_all_iff)
qed

lemma set_signal_map: "(\<And>e. g (e\<lparr>le_user := sig\<rparr>) = g e) \<Longrightarrow> map g (set_signal turn sig es) = map g es"
  using map_update_first [of g "\<lambda>e. e\<lparr>le_user := sig\<rparr>" "\<lambda>e. le_turn e = turn" "rev es"]
  by (simp add: set_signal_def rev_map [symmetric])

lemma agree_refl: "agree R es es"
  by (simp add: agree_def list_all2_refl)

lemma agree_snoc: "agree R es fs \<Longrightarrow> agree R (es @ [e]) (fs @ [e])"
  by (simp add: agree_def list_all2_appendI)

lemma agree_eq: "agree {} es fs \<longleftrightarrow> es = fs"
proof
  assume "agree {} es fs"
  then have "list_all2 (=) es fs" unfolding agree_def by (rule list_all2_mono) simp
  then show "es = fs" by (simp add: list_all2_eq)
qed (simp add: agree_refl)

lemma agree_turn: "x\<lparr>le_user := None\<rparr> = y\<lparr>le_user := None\<rparr> \<Longrightarrow> le_turn x = le_turn y"
  by (metis ledger_entry.select_convs(2) ledger_entry.surjective ledger_entry.update_convs(22))

lemma agree_signal_both:
  assumes "agree R es fs" shows "agree R (set_signal turn sig es) (set_signal turn sig fs)"
proof -
  have upd: "list_all2 (\<lambda>x y. x\<lparr>le_user := None\<rparr> = y\<lparr>le_user := None\<rparr> \<and> (le_turn y \<notin> R \<longrightarrow> x = y))
      (update_first (\<lambda>e. le_turn e = turn) (\<lambda>e. e\<lparr>le_user := sig\<rparr>) xs)
      (update_first (\<lambda>e. le_turn e = turn) (\<lambda>e. e\<lparr>le_user := sig\<rparr>) ys)"
    if "list_all2 (\<lambda>x y. x\<lparr>le_user := None\<rparr> = y\<lparr>le_user := None\<rparr> \<and> (le_turn y \<notin> R \<longrightarrow> x = y)) xs ys" for xs ys
    using that
  proof (induction rule: list_all2_induct)
    case (Cons x xs y ys)
    then have "le_turn x = le_turn y" using agree_turn by blast
    then show ?case using Cons by auto
  qed simp
  show ?thesis unfolding agree_def set_signal_def list_all2_rev
    by (rule upd) (use assms in \<open>simp add: agree_def\<close>)
qed

lemma agree_signal_one:
  assumes "agree R es fs" shows "agree (insert turn R) es (set_signal turn sig fs)"
proof -
  have upd: "list_all2 (\<lambda>x y. x\<lparr>le_user := None\<rparr> = y\<lparr>le_user := None\<rparr> \<and> (le_turn y \<notin> insert turn R \<longrightarrow> x = y)) xs
      (update_first (\<lambda>e. le_turn e = turn) (\<lambda>e. e\<lparr>le_user := sig\<rparr>) ys)"
    if "list_all2 (\<lambda>x y. x\<lparr>le_user := None\<rparr> = y\<lparr>le_user := None\<rparr> \<and> (le_turn y \<notin> R \<longrightarrow> x = y)) xs ys" for xs ys
    using that
  proof (induction rule: list_all2_induct)
    case (Cons x xs y ys)
    have "list_all2 (\<lambda>x y. x\<lparr>le_user := None\<rparr> = y\<lparr>le_user := None\<rparr> \<and> (le_turn y \<notin> insert turn R \<longrightarrow> x = y)) xs ys"
      using Cons(2) by (rule list_all2_mono) auto
    then show ?case using Cons by auto
  qed simp
  show ?thesis unfolding agree_def set_signal_def list_all2_rev1 [symmetric]
    by (rule upd) (use assms in \<open>simp add: agree_def\<close>)
qed

lemma agree_maps:
  assumes "agree R es fs" "\<And>e. g (e\<lparr>le_user := None\<rparr>) = g e" shows "map g es = map g fs"
proof -
  have "list_all2 (\<lambda>x y. g x = g y) es fs" using assms(1) unfolding agree_def by (rule list_all2_mono) (metis assms(2))
  then show ?thesis by (simp add: list_all2_conv_all_nth list_eq_iff_nth_eq)
qed

lemma replay_entry:
  assumes "ledger_ok e" "ledger_node e = Some n"
  shows "replay_value n (es, spent) = (es @ [e], spent + int64_of (ledger_total_tokens e))"
proof -
  have "has_tag ''ledger_entry'' n"
    using assms(2) by (auto simp: ledger_node_def xnode_tag_def xnode_new_def has_tag_def)
  then show ?thesis using ledger_parse_node [OF assms] by (simp add: replay_value_def)
qed

lemma replay_feedback:
  assumes "feedback_node now turn sig = Some n" "turn < 2 ^ 63" "sig = 0 \<or> sig = 1 \<or> sig = - 1"
  shows "replay_value n (es, spent) = (set_signal turn (if sig = 0 then None else Some sig) es, spent)"
proof -
  note n = assms(1) [simplified feedback_node_def xnode_tag_def xnode_new_def, simplified]
  show ?thesis using assms(2,3) unfolding n [symmetric]
    by (auto simp: replay_value_def has_tag_def parse_user_signal_def)
qed

lemma ledger_write_sync:
  assumes lib: "stream_lib parse write" and sync: "ledger_sync parse R s"
    and ok: "ledger_write write io (ss_ledger_st s) node = (st, None)"
  shows "\<exists>n ds es. node = Some n \<and> parse (st_file st) = Some (ds @ [n]) \<and> replay_values ds ([], 0) = (es, ss_spent s) \<and>
    list_all ledger_ok es \<and> agree R es (ss_led s)"
proof -
  obtain n line where n: "node = Some n" "write n = Some line" "stream_append io (ss_ledger_st s) line = (st, None)"
    using ok by (auto simp: ledger_write_def bind_eq_Some_conv split: option.splits)
  obtain ds es where ds: "parse (st_file (ss_ledger_st s)) = Some ds" "replay_values ds ([], 0) = (es, ss_spent s)"
    "list_all ledger_ok es" "agree R es (ss_led s)"
    using sync by (auto simp: ledger_sync_def)
  have "st_file st = st_file (ss_ledger_st s) @ as_line line" using stream_append_ok [OF n(3)] by simp
  then show ?thesis using lib ds n unfolding stream_lib_def by metis
qed

lemma ledger_write_failed:
  assumes "ledger_write write io st node = (st', Some e)" "st_open st'"
  shows "st_file st' = st_file st"
  using assms stream_append_error [of io st _ st' e]
  by (auto simp: ledger_write_def split: option.splits)

lemma ledger_append_sync:
  assumes "stream_lib parse write" "ledger_ok e" "ledger_append write io s e = (s', err)"
    and "ledger_sync parse R s" "st_open (ss_ledger_st s')"
  shows "ledger_sync parse R s'"
proof (cases "le_id e \<noteq> [] \<and> list_ex (\<lambda>x. le_id x = le_id e) (ss_led s)")
  case True
  then show ?thesis using assms by (simp add: ledger_append_def)
next
  case False
  obtain st err' where w: "ledger_write write io (ss_ledger_st s) (ledger_node e) = (st, err')" by fastforce
  show ?thesis
  proof (cases err')
    case None
    from ledger_write_sync [OF assms(1,4) w [unfolded None]] obtain n ds es where
      n: "ledger_node e = Some n" "parse (st_file st) = Some (ds @ [n])" "replay_values ds ([], 0) = (es, ss_spent s)"
      "list_all ledger_ok es" "agree R es (ss_led s)"
      by blast
    then show ?thesis using assms(2,3) False w None replay_entry [OF assms(2) n(1)] agree_snoc [OF n(5)]
      by (auto simp: ledger_append_def ledger_sync_def)
  next
    case (Some x)
    then show ?thesis using assms(3-5) False w ledger_write_failed [OF w [unfolded Some]]
      by (auto simp: ledger_append_def ledger_sync_def)
  qed
qed

text \<open>A signal that is not taken: there is no such turn or no such signal.\<close>

definition signal_ignored :: "asngn_err option \<Rightarrow> bool" where
  "signal_ignored err \<longleftrightarrow> err = Some ERR_NOT_FOUND \<or> err = Some ERR_INVALID"

lemma ledger_feedback_sync:
  assumes "stream_lib parse write" "ledger_set_feedback write io now s turn sig = (s', err)"
    and "ledger_sync parse R s" "list_all ledger_ok (ss_led s)" "st_open (ss_ledger_st s')"
  shows "ledger_sync parse (if err = None \<or> signal_ignored err then R else insert turn R) s'"
proof (cases "list_ex (\<lambda>e. le_turn e = turn) (ss_led s) \<and> (sig = 0 \<or> sig = 1 \<or> sig = - 1)")
  case False
  then show ?thesis using assms by (auto simp: ledger_set_feedback_def signal_ignored_def split: if_splits)
next
  case True
  let ?sig = "if sig = 0 then None else Some sig"
  obtain st err' where w: "ledger_write write io (ss_ledger_st s) (feedback_node now turn sig) = (st, err')" by fastforce
  have s': "s' = s\<lparr>ss_led := set_signal turn ?sig (ss_led s), ss_ledger_st := st\<rparr>" "err = err'"
    using assms(2) True w by (auto simp: ledger_set_feedback_def Let_def)
  show ?thesis
  proof (cases err')
    case None
    have small: "turn < 2 ^ 63" using True assms(4) by (auto simp: list_ex_iff list_all_iff ledger_ok_def)
    from ledger_write_sync [OF assms(1,3) w [unfolded None]] obtain n ds es where
      n: "feedback_node now turn sig = Some n" "parse (st_file st) = Some (ds @ [n])"
        "replay_values ds ([], 0) = (es, ss_spent s)" "list_all ledger_ok es" "agree R es (ss_led s)" by blast
    have "replay_values (ds @ [n]) ([], 0) = (set_signal turn ?sig es, ss_spent s)"
      using replay_feedback [OF n(1) small] True n(3) by simp
    then show ?thesis using n(2) agree_signal_both [OF n(5)] set_signal_ok [OF n(4), of ?sig turn] True None s'
      by (auto simp: ledger_sync_def)
  next
    case (Some e)
    then have "e = ERR_IO \<or> e = ERR_NOMEM" using w stream_append_error [of io "ss_ledger_st s"]
      by (auto simp: ledger_write_def split: option.splits)
    moreover have "st_file st = st_file (ss_ledger_st s)"
      using ledger_write_failed [OF w [unfolded Some]] assms(5) s' by simp
    ultimately show ?thesis using assms(3) s' Some agree_signal_one
      by (auto simp: ledger_sync_def signal_ignored_def)
  qed
qed

text \<open>
  The sessions a ledger reaches, and the turns \<open>R\<close> whose signal was refused since the file was last
  read: from an empty file by appends and by feedback, whatever the system answers, and by
  restarts, where a fresh session reads the open stream's file, with or without the torn line of an
  append that never returned behind it.
\<close>

inductive ledger_reachable ::
    "(string \<Rightarrow> xnode list option) \<Rightarrow> (xnode \<Rightarrow> string option) \<Rightarrow> nat set \<Rightarrow> session \<Rightarrow> bool" for parse wr where
  start: "ss_led s = [] \<Longrightarrow> ss_spent s = 0 \<Longrightarrow> st_file (ss_ledger_st s) = [] \<Longrightarrow> ledger_reachable parse wr {} s"
| appended: "ledger_reachable parse wr R s \<Longrightarrow> ledger_ok e \<Longrightarrow> ledger_append wr io s e = (s', err) \<Longrightarrow>
    ledger_reachable parse wr R s'"
| signalled: "ledger_reachable parse wr R s \<Longrightarrow> ledger_set_feedback wr io now s turn sig = (s', err) \<Longrightarrow>
    ledger_reachable parse wr (if err = None \<or> signal_ignored err then R else insert turn R) s'"
| restarted: "ledger_reachable parse wr R s \<Longrightarrow> st_open (ss_ledger_st s) \<Longrightarrow> ss_led fresh = [] \<Longrightarrow> ss_spent fresh = 0 \<Longrightarrow>
    ledger_replay parse ok (Some (st_file (ss_ledger_st s) @ torn)) fresh = (Some (st_file (ss_ledger_st s)), s', None) \<Longrightarrow>
    st_file st = st_file (ss_ledger_st s) \<Longrightarrow> ledger_reachable parse wr {} (s'\<lparr>ss_ledger_st := st\<rparr>)"

lemma ledger_append_cases:
  assumes "ledger_append wr io s e = (s', err)"
  obtains (same) "ss_led s' = ss_led s" "ss_spent s' = ss_spent s" "st_open (ss_ledger_st s') \<longrightarrow> st_open (ss_ledger_st s)"
  | (new) "ss_led s' = ss_led s @ [e]" "ss_spent s' = ss_spent s + int64_of (ledger_total_tokens e)"
      "le_id e = [] \<or> le_id e \<notin> set (map le_id (ss_led s))" "st_open (ss_ledger_st s)"
proof -
  have op: "st_open st' \<longrightarrow> st_open st" if "ledger_write wr io st node = (st', x)" for st' st node x
    using that by (auto simp: ledger_write_def stream_append_def Let_def split: option.splits if_splits)
  obtain st x where w: "ledger_write wr io (ss_ledger_st s) (ledger_node e) = (st, x)" by fastforce
  show ?thesis
  proof (cases "le_id e \<noteq> [] \<and> list_ex (\<lambda>x. le_id x = le_id e) (ss_led s)")
    case True
    then show ?thesis using assms same by (simp add: ledger_append_def)
  next
    case False
    have "st_open (ss_ledger_st s)" if "x = None"
      using w that stream_append_ok [of io "ss_ledger_st s"]
      by (auto simp: ledger_write_def split: option.splits)
    show ?thesis
    proof (cases x)
      case None
      then show ?thesis using assms False w op [OF w] \<open>x = None \<Longrightarrow> st_open (ss_ledger_st s)\<close>
        by (intro new) (auto simp: ledger_append_def list_ex_iff)
    next
      case (Some y)
      then show ?thesis using assms False w op [OF w]
        by (intro same) (auto simp: ledger_append_def list_ex_iff)
    qed
  qed
qed

lemma ledger_feedback_cases:
  assumes "ledger_set_feedback wr io now s turn sig = (s', err)"
  shows "ss_spent s' = ss_spent s \<and> (st_open (ss_ledger_st s') \<longrightarrow> st_open (ss_ledger_st s)) \<and>
    (ss_led s' = ss_led s \<or> (\<exists>x. ss_led s' = set_signal turn x (ss_led s)))"
proof -
  have op: "st_open st' \<longrightarrow> st_open st" if "ledger_write wr io st node = (st', x)" for st' st node x
    using that by (auto simp: ledger_write_def stream_append_def Let_def split: option.splits if_splits)
  obtain st x where w: "ledger_write wr io (ss_ledger_st s) (feedback_node now turn sig) = (st, x)" by fastforce
  show ?thesis using assms w op [OF w]
    by (auto simp: ledger_set_feedback_def Let_def split: if_splits)
qed

text \<open>A replay that leaves a readable file gives what the file holds.\<close>

lemma ledger_replay_reads:
  assumes "ledger_replay parse ok (Some (f @ torn)) fresh = (Some f, s', None)" "parse f = Some ds"
    and "parse [] = Some []" "ss_led fresh = []" "ss_spent fresh = 0" "replay_values ds ([], 0) = (es, spent)"
  shows "s' = fresh\<lparr>ss_led := es, ss_spent := spent\<rparr>"
  using assms
  by (auto simp: ledger_replay_def stream_load_def Let_def replay_values_def split: if_splits option.splits prod.splits)

lemma ledger_reachable_sync:
  assumes "ledger_reachable parse wr R s" "stream_lib parse wr"
  shows "list_all ledger_ok (ss_led s) \<and> (st_open (ss_ledger_st s) \<longrightarrow> ledger_sync parse R s)"
  using assms(1)
proof induction
  case (start s)
  then show ?case using assms(2) by (simp add: ledger_sync_def stream_lib_def replay_values_def agree_refl)
next
  case (appended R s e io s' err)
  from appended(3) show ?case
    by (cases rule: ledger_append_cases)
      (use appended ledger_append_sync [OF assms(2) appended(2,3)] in auto)
next
  case (signalled R s io now turn sig s' err)
  have "ss_led s' = ss_led s \<or>
      ss_led s' = set_signal turn (if sig = 0 then None else Some sig) (ss_led s) \<and> (sig = 0 \<or> sig = 1 \<or> sig = - 1)"
    using signalled(2) by (auto simp: ledger_set_feedback_def Let_def split: if_splits prod.splits)
  then have "list_all ledger_ok (ss_led s')"
    using signalled(3) set_signal_ok [of "ss_led s" "if sig = 0 then None else Some sig" turn] by auto
  then show ?case
    using signalled(3) ledger_feedback_cases [OF signalled(2)] ledger_feedback_sync [OF assms(2) signalled(2)] by blast
next
  case (restarted R s fresh ok torn s' st)
  then obtain ds es where ds: "parse (st_file (ss_ledger_st s)) = Some ds" "replay_values ds ([], 0) = (es, ss_spent s)"
    "list_all ledger_ok es" by (auto simp: ledger_sync_def)
  have "s' = fresh\<lparr>ss_led := es, ss_spent := ss_spent s\<rparr>"
    using ledger_replay_reads [OF restarted(5) ds(1) _ restarted(3,4) ds(2)] assms(2) by (simp add: stream_lib_def)
  then show ?case using ds restarted(6) by (auto simp: ledger_sync_def agree_refl)
qed

lemma set_signal_total [simp]: "map (\<lambda>e. int64_of (ledger_total_tokens e)) (set_signal turn sig es) =
    map (\<lambda>e. int64_of (ledger_total_tokens e)) es"
  by (rule set_signal_map) (simp add: ledger_total_tokens_def)

text \<open>
  C35. Reloading a session restores its ledger: after any sequence of appended entries, feedback
  signals and restarts, failed ones included, as long as the stream is open, replaying the file gives
  the spent tokens of the session and its entries, except for the user's signal on turns whose
  feedback was refused since the file was last read; when none was, exactly the entries.
\<close>

theorem ledger_reload_restores:
  assumes "ledger_reachable parse wr R s" "stream_lib parse wr" "st_open (ss_ledger_st s)"
    and "ss_led fresh = []" "ss_spent fresh = 0"
  shows "\<exists>es. ledger_replay parse truncate_ok (Some (st_file (ss_ledger_st s))) fresh =
      (Some (st_file (ss_ledger_st s)), fresh\<lparr>ss_led := es, ss_spent := ss_spent s\<rparr>, None) \<and>
    list_all2 (\<lambda>e m. e\<lparr>le_user := None\<rparr> = m\<lparr>le_user := None\<rparr> \<and> (le_turn m \<notin> R \<longrightarrow> e = m)) es (ss_led s) \<and>
    (R = {} \<longrightarrow> es = ss_led s)"
proof -
  from ledger_reachable_sync [OF assms(1,2)] assms(3) obtain ds es where
    ds: "parse (st_file (ss_ledger_st s)) = Some ds" "replay_values ds ([], 0) = (es, ss_spent s)" "agree R es (ss_led s)"
    by (auto simp: ledger_sync_def)
  then have "ledger_replay parse truncate_ok (Some (st_file (ss_ledger_st s))) fresh =
      (Some (st_file (ss_ledger_st s)), fresh\<lparr>ss_led := es, ss_spent := ss_spent s\<rparr>, None)"
    using assms(2,4,5)
    by (cases "st_file (ss_ledger_st s) = []")
      (auto simp: ledger_replay_def stream_load_def stream_lib_def replay_values_def)
  then show ?thesis using ds(3) agree_eq by (auto simp: agree_def)
qed

text \<open>
  A turn is billed once: the spent tokens of a session are the sum over its entries, and no
  transaction id occurs on two of them, however often a projection is repeated and the session
  is restarted.
\<close>

theorem ledger_bills_once:
  assumes "ledger_reachable parse wr R s" "stream_lib parse wr"
  shows "ss_spent s = sum_list (map (\<lambda>e. int64_of (ledger_total_tokens e)) (ss_led s)) \<and>
    distinct (filter (\<lambda>i. i \<noteq> []) (map le_id (ss_led s)))"
  using assms(1)
proof induction
  case (appended R s e io s' err)
  from appended(3) show ?case
    by (cases rule: ledger_append_cases) (use appended(4) in auto)
next
  case (signalled R s io now turn sig s' err)
  from ledger_feedback_cases [OF signalled(2)]
  have "ss_spent s' = ss_spent s" "map le_id (ss_led s') = map le_id (ss_led s)"
    "map (\<lambda>e. int64_of (ledger_total_tokens e)) (ss_led s') = map (\<lambda>e. int64_of (ledger_total_tokens e)) (ss_led s)"
    by (auto simp: set_signal_map)
  then show ?case using signalled(3) by simp
next
  case (restarted R s fresh ok torn s' st)
  from ledger_reachable_sync [OF restarted(1) assms(2)] restarted(2) obtain ds es where
    ds: "parse (st_file (ss_ledger_st s)) = Some ds" "replay_values ds ([], 0) = (es, ss_spent s)" "agree R es (ss_led s)"
    by (auto simp: ledger_sync_def)
  have s': "s' = fresh\<lparr>ss_led := es, ss_spent := ss_spent s\<rparr>"
    using ledger_replay_reads [OF restarted(5) ds(1) _ restarted(3,4) ds(2)] assms(2) by (simp add: stream_lib_def)
  have "map le_id es = map le_id (ss_led s)"
    "map (\<lambda>e. int64_of (ledger_total_tokens e)) es = map (\<lambda>e. int64_of (ledger_total_tokens e)) (ss_led s)"
    using agree_maps [OF ds(3), of le_id] agree_maps [OF ds(3), of "\<lambda>e. int64_of (ledger_total_tokens e)"]
    by (simp_all add: ledger_total_tokens_def)
  then show ?case using restarted(7) s' by simp
qed simp

text \<open>
  A feedback signal whose line is refused: the error is returned, but the entry in memory
  already carries the signal, so the statistics of the running session and those after a reload
  differ.
\<close>

lemma ledger_feedback_refused:
  assumes "ledger_write wr io (ss_ledger_st s) (feedback_node now turn sig) = (st, Some e)"
    and "\<exists>x \<in> set (ss_led s). le_turn x = turn" "sig = 0 \<or> sig = 1 \<or> sig = - 1"
  shows "\<exists>s'. ledger_set_feedback wr io now s turn sig = (s', Some e) \<and>
    ss_led s' = set_signal turn (if sig = 0 then None else Some sig) (ss_led s) \<and>
    (st_open (ss_ledger_st s') \<longrightarrow> st_file (ss_ledger_st s') = st_file (ss_ledger_st s))"
  using assms ledger_write_failed [OF assms(1)]
  by (auto simp: ledger_set_feedback_def Let_def list_ex_iff)

text \<open>
  A session's settings survive a restart: the manifest written for a session, applied to a
  newly created one, gives it back the creation time, counters, project, workspace identity,
  redaction, mode and security profile.
\<close>

theorem manifest_round_trip:
  assumes "manifest_ok s" "manifest_node s = Some n" "ss_project fresh = None"
  shows "apply_manifest fresh n = fresh\<lparr>ss_created := ss_created s, ss_turns := ss_turns s, ss_epoch := ss_epoch s,
    ss_project := ss_project s, ss_workspace := ss_workspace s, ss_loaded := (wi_root (ss_workspace s) \<noteq> []),
    ss_redact := ss_redact s, ss_mode := ss_mode s, ss_profile := ss_profile s\<rparr>"
  using manifest_parts [OF assms(1,2), of fresh] assms(3) by auto

section \<open>Concrete sessions\<close>

definition empty_session :: session where
  "empty_session =
     \<lparr>ss_slug = ''main'', ss_created = 0, ss_turns = 0, ss_epoch = 0, ss_project = None,
      ss_workspace = \<lparr>wi_root = ''/w'', wi_repository = [], wi_head = [], wi_branch = [], wi_project = [],
        wi_ignore = [], wi_build = [], wi_fingerprint = []\<rparr>,
      ss_loaded = False, ss_redact = True, ss_mode = USAGE_CODING, ss_profile = CODING_SANDBOXED, ss_log = [],
      ss_ledger_st = \<lparr>st_path = ''ledger.xcdn'', st_open = True, st_sync = True, st_file = []\<rparr>,
      ss_journal_st = \<lparr>st_path = ''turns.xcdn'', st_open = True, st_sync = True, st_file = []\<rparr>,
      ss_disk = (\<lambda>_. None), ss_recovery = False, ss_interrupted = 0, ss_uncertain = 0, ss_led = [], ss_spent = 0, ss_last_turn = 0,
      ss_last_capped = False, ss_last_user = None, ss_last_answer = None\<rparr>"

definition sample_entry :: ledger_entry where
  "sample_entry =
     \<lparr>le_id = ''t1'', le_turn = 1, le_at = 0, le_class = [], le_detail = [], le_mode = [], le_tier = [],
      le_cache = [], le_escalations = 0, le_system = 10, le_memory = 0, le_catalog = 0, le_summary = 0,
      le_verbatim = 0, le_working = 0, le_decision = 0, le_answer = 7, le_aux = 0, le_saved_cache = 0,
      le_saved_digest = 0, le_judge = None, le_user = None, le_capped = False, le_duration = 0\<rparr>"

text \<open>A library that knows one value, written as \<open>x\<close>.\<close>

definition one_write :: "xnode \<Rightarrow> xnode \<Rightarrow> string option" where
  "one_write n0 n = (if n = n0 then Some ''x'' else None)"

definition one_parse :: "xnode \<Rightarrow> string \<Rightarrow> xnode list option" where
  "one_parse n0 f =
     (let k = length f div 2 in if f = concat (replicate k [CHR ''x'', NL]) then Some (replicate k n0) else None)"

lemma length_lines: "length (concat (replicate k [a, b])) = 2 * k"
  by (induction k) simp_all

lemma replicate_snoc: "replicate k x @ [x] = replicate (Suc k) x"
  by (simp add: replicate_append_same)

lemma one_parse_lines: "one_parse n0 (concat (replicate k [CHR ''x'', NL])) = Some (replicate k n0)"
  by (simp add: one_parse_def length_lines)

lemma one_stream_lib: "stream_lib (one_parse n0) (one_write n0)"
proof -
  have "one_parse n0 (f @ as_line ''x'') = Some (ds @ [n0])" if f: "one_parse n0 f = Some ds" for f ds
  proof -
    obtain k where k: "f = concat (replicate k [CHR ''x'', NL])" "ds = replicate k n0"
      using f by (auto simp: one_parse_def Let_def split: if_splits)
    have "f @ as_line ''x'' = concat (replicate (Suc k) [CHR ''x'', NL])"
      unfolding k(1) replicate_snoc [symmetric] by (simp add: as_line_def needs_newline_def)
    then show ?thesis using one_parse_lines [of n0 "Suc k"] k(2) by (simp add: replicate_append_same)
  qed
  then show ?thesis by (auto simp: stream_lib_def one_write_def one_parse_def split: if_splits)
qed

lemma sample_entry_ok: "ledger_ok sample_entry"
  by (simp add: ledger_ok_def sample_entry_def rfc_year_def) code_simp

lemma sample_append:
  assumes "ledger_node sample_entry = Some n0"
  shows "ledger_append (one_write n0) io_fine empty_session sample_entry =
    (empty_session\<lparr>ss_ledger_st := (ss_ledger_st empty_session)\<lparr>st_file := [CHR ''x'', NL]\<rparr>,
       ss_led := [sample_entry], ss_spent := 17\<rparr>, None)"
proof -
  have total: "ledger_total_tokens sample_entry = 17" by (simp add: ledger_total_tokens_def sample_entry_def)
  show ?thesis using assms
    by (simp add: ledger_append_def ledger_write_def one_write_def stream_append_def io_fine_def empty_session_def
      needs_newline_def as_line_def total Let_def)
qed

abbreviation "sample_ledger \<equiv> empty_session\<lparr>ss_ledger_st := (ss_ledger_st empty_session)\<lparr>st_file := [CHR ''x'', NL]\<rparr>,
       ss_led := [sample_entry], ss_spent := 17\<rparr>"

lemma ledger_sample_reachable:
  assumes "ledger_node sample_entry = Some n0"
  shows "ledger_reachable (one_parse n0) (one_write n0) {} sample_ledger"
  by (rule ledger_reachable.appended [OF _ sample_entry_ok sample_append [OF assms]])
    (rule ledger_reachable.start; simp add: empty_session_def)

lemma sample_signal:
  "ledger_set_feedback (one_write n0) (io_fine\<lparr>io_write_ok := False\<rparr>) 0 sample_ledger 1 1 =
    (sample_ledger\<lparr>ss_led := [sample_entry\<lparr>le_user := Some 1\<rparr>]\<rparr>, Some (if feedback_node 0 1 1 = Some n0 then ERR_IO else ERR_NOMEM))"
  by (auto simp: ledger_set_feedback_def ledger_write_def stream_append_def io_fine_def empty_session_def Let_def one_write_def
      needs_newline_def set_signal_def feedback_node_def xnode_tag_def sample_entry_def)

lemma sample_node: "\<exists>n0. ledger_node sample_entry = Some n0"
  by (simp add: ledger_node_def xnode_tag_def)

text \<open>A signal on turn 1 that is refused: the reload gives the entry without it, the session has it.\<close>

theorem ledger_reload_restores_witness:
  "\<exists>parse wr s. ledger_reachable parse wr {1} s \<and> ss_led s = [sample_entry\<lparr>le_user := Some 1\<rparr>] \<and>
    (\<exists>e. ledger_replay parse True (Some [CHR ''x'', NL]) empty_session =
      (Some [CHR ''x'', NL], empty_session\<lparr>ss_led := [e], ss_spent := 17\<rparr>, None) \<and>
      e\<lparr>le_user := None\<rparr> = sample_entry)"
proof -
  obtain n0 where n0: "ledger_node sample_entry = Some n0" using sample_node by blast
  let ?s = "sample_ledger\<lparr>ss_led := [sample_entry\<lparr>le_user := Some 1\<rparr>]\<rparr>"
  have r: "ledger_reachable (one_parse n0) (one_write n0) {1} ?s"
    using ledger_reachable.signalled [OF ledger_sample_reachable [OF n0] sample_signal]
    by (auto simp: signal_ignored_def split: if_splits)
  have "sample_entry\<lparr>le_user := None\<rparr> = sample_entry" by (simp add: sample_entry_def)
  then have "\<exists>e. ledger_replay (one_parse n0) True (Some [CHR ''x'', NL]) empty_session =
      (Some [CHR ''x'', NL], empty_session\<lparr>ss_led := [e], ss_spent := 17\<rparr>, None) \<and> e\<lparr>le_user := None\<rparr> = sample_entry"
    using ledger_reload_restores [OF r one_stream_lib, of empty_session True]
    by (auto simp: empty_session_def list_all2_Cons2)
  with r show ?thesis by (intro exI [of _ "one_parse n0"] exI [of _ "one_write n0"] exI [of _ ?s]) simp
qed

theorem ledger_bills_once_witness:
  "17 = sum_list (map (\<lambda>e. int64_of (ledger_total_tokens e)) [sample_entry])"
proof -
  obtain n0 where n0: "ledger_node sample_entry = Some n0" using sample_node by blast
  show ?thesis using ledger_bills_once [OF ledger_sample_reachable [OF n0] one_stream_lib] by simp
qed

theorem manifest_round_trip_witness:
  "\<exists>n. manifest_node (empty_session\<lparr>ss_turns := 3, ss_mode := USAGE_CHAT\<rparr>) = Some n \<and>
    apply_manifest empty_session n = empty_session\<lparr>ss_turns := 3, ss_mode := USAGE_CHAT, ss_loaded := True\<rparr>"
proof -
  let ?s = "empty_session\<lparr>ss_turns := 3, ss_mode := USAGE_CHAT\<rparr>"
  have ok: "manifest_ok ?s" by (simp add: manifest_ok_def empty_session_def rfc_year_def) code_simp
  obtain n where n: "manifest_node ?s = Some n" by (auto simp: manifest_node_def xnode_tag_def)
  have "apply_manifest empty_session n = empty_session\<lparr>ss_turns := 3, ss_mode := USAGE_CHAT, ss_loaded := True\<rparr>"
    using manifest_round_trip [OF ok n, of empty_session] by (simp add: empty_session_def)
  with n show ?thesis by blast
qed

end
