(* ===== verification/Turn_Journal.thy ===== *)
theory Turn_Journal
  imports Session Work Json
begin

text \<open>
  The write-ahead journal of a turn: the frames of \<^verbatim>\<open>src/turn_journal.c\<close>, the commit of a turn and
  the projection of a committed frame into the session.

  Each operation runs under the session's lock and is one step.  The fault hook of a call is a set of
  points.  The work store a commit summarises and the workspace snapshot are arguments.
\<close>

section \<open>Frames\<close>

record turn_state =
  ts_id :: string
  ts_user :: string
  ts_continuation :: bool
  ts_work_revision :: nat
  ts_log_before :: nat
  ts_committed :: bool
  ts_mutates :: bool
  ts_action :: string
  ts_approval :: string
  ts_snapshot :: string
  ts_attempted :: bool
  ts_verified :: bool
  ts_written :: bool
  ts_led :: ledger_entry
  ts_answer :: "string option"

record journal_plan =
  jp_size_ok :: bool
  jp_io :: io_plan
  jp_fault :: "string set"

definition JOURNAL_FRAME_MAX :: nat where "JOURNAL_FRAME_MAX = 16 * 1024 * 1024"

definition boundary :: "string set \<Rightarrow> string \<Rightarrow> asngn_err option" where
  "boundary faults point = (if point \<in> faults then Some ERR_IO else None)"

definition journal_put ::
    "(xnode \<Rightarrow> string option) \<Rightarrow> journal_plan \<Rightarrow> session \<Rightarrow> xval \<Rightarrow> session \<times> asngn_err option" where
  "journal_put wr jp s v =
     (case wr (xnode_new v) of
        None \<Rightarrow> (s, Some ERR_NOMEM)
      | Some tx \<Rightarrow> (case wal_append (jp_size_ok jp) (jp_io jp) (ss_journal_st s) tx of
            (st, e) \<Rightarrow> (s\<lparr>ss_journal_st := st\<rparr>, e)))"

definition turn_frame :: "string \<Rightarrow> string \<Rightarrow> (string \<times> xval) list \<Rightarrow> xval option" where
  "turn_frame i state fs = put_all (XObject []) ([(''id'', XString i), (''state'', XString state)] @ fs)"

definition journal_fields :: "int \<Rightarrow> session \<Rightarrow> turn_state \<Rightarrow> string \<Rightarrow> string option \<Rightarrow> (string \<times> xval) list" where
  "journal_fields now s t state action =
     [(''schema'', XInt 1), (''work_revision'', XInt (int64_of (ts_work_revision t))),
      (''action_id'', XString (ts_action t)), (''approval_id'', XString (ts_approval t)),
      (''verification_snapshot'', XString (ts_snapshot t)), (''verification_ok'', XBool (ts_verified t)),
      (''at'', XInt now), (''input'', XString (case action of None \<Rightarrow> [] | Some a \<Rightarrow> a)),
      (''workspace'', XString (wi_root (ss_workspace s))), (''commit'', XString (wi_head (ss_workspace s))),
      (''world_epoch'', XInt (int64_of (ss_epoch s) + (if state = ''action'' \<and> ts_mutates t then 1 else 0)))]"

definition turn_journal ::
    "(xnode \<Rightarrow> string option) \<Rightarrow> journal_plan \<Rightarrow> int \<Rightarrow> session \<Rightarrow> turn_state \<Rightarrow> string \<Rightarrow> string option \<Rightarrow>
     session \<times> asngn_err option" where
  "turn_journal wr jp now s t state action =
     (case turn_frame (ts_id t) state (journal_fields now s t state action) of
        None \<Rightarrow> (s, Some ERR_NOMEM)
      | Some v \<Rightarrow>
          if ss_recovery s then (s, Some ERR_IO)
          else
            let (s1, e0) = journal_put wr jp s v;
                e = (if e0 = None then boundary (jp_fault jp) state else e0)
            in (if e \<noteq> None then s1\<lparr>ss_recovery := True\<rparr> else s1, e))"

definition turn_outcome :: "xval option \<Rightarrow> asngn_err option option" where
  "turn_outcome v =
     (if xint (xfield v ''schema'') \<noteq> Some 1 then None
      else Option.bind (xstr (xfield v ''outcome'')) outcome_named)"

definition turn_finished ::
    "(xnode \<Rightarrow> string option) \<Rightarrow> journal_plan \<Rightarrow> session \<Rightarrow> turn_state \<Rightarrow> asngn_err option \<Rightarrow>
     session \<times> asngn_err option" where
  "turn_finished wr jp s t outcome =
     (if ss_recovery s then (s, Some ERR_IO)
      else if outcome = None \<and> \<not> ts_committed t then (s, Some ERR_PROTOCOL)
      else case turn_frame (ts_id t) ''finished''
          [(''schema'', XInt 1), (''outcome'', XString (err_name outcome)), (''committed'', XBool (ts_committed t)),
           (''answer'', XString (case ts_answer t of Some a \<Rightarrow> if ts_committed t then [] else a | None \<Rightarrow> []))] of
        None \<Rightarrow> (s, Some ERR_NOMEM)
      | Some v \<Rightarrow>
          let e0 = boundary (jp_fault jp) ''before_finished'';
              (s1, e1) = (if e0 = None then journal_put wr jp s v else (s, e0));
              e = (if e1 = None then boundary (jp_fault jp) ''finished'' else e1)
          in (if e \<noteq> None then s1\<lparr>ss_recovery := True\<rparr> else s1, e))"

section \<open>Projection\<close>

record project_plan =
  pp_user :: sibling_plan
  pp_assistant :: sibling_plan
  pp_ledger :: io_plan
  pp_manifest :: manifest_plan
  pp_fault :: "string set"

text \<open>The next call of a chain that stops at the first error.\<close>

definition then_do :: "'s \<times> asngn_err option \<Rightarrow> ('s \<Rightarrow> 's \<times> asngn_err option) \<Rightarrow> 's \<times> asngn_err option" where
  "then_do r f = (case r of (s, None) \<Rightarrow> f s | (s, Some e) \<Rightarrow> (s, Some e))"

definition reach_point :: "string set \<Rightarrow> string \<Rightarrow> 's \<Rightarrow> 's \<times> asngn_err option" where
  "reach_point faults point s = (s, boundary faults point)"

definition answered :: "session \<Rightarrow> turn \<Rightarrow> turn option \<Rightarrow> ledger_entry \<Rightarrow> session" where
  "answered s a u led =
     s\<lparr>ss_turns := max (ss_turns s) (tn_n a), ss_last_answer := Some (tn_text a),
       ss_last_user := (case u of Some t \<Rightarrow> Some (tn_text t) | None \<Rightarrow> ss_last_user s),
       ss_last_turn := tn_n a, ss_last_capped := le_capped led\<rparr>"

text \<open>The records of a committed frame: the user's turn if there is one, the answer, and the
  ledger entry, which carry the frame's id.\<close>

definition frame_records :: "xval option \<Rightarrow> (turn option \<times> turn \<times> ledger_entry) option" where
  "frame_records v =
     do {
       i \<leftarrow> xstr (xfield v ''id'');
       require (uuid_valid (Some i));
       a \<leftarrow> turn_parse (xfield v ''assistant'');
       require (tn_id a = i);
       led \<leftarrow> ledger_parse (xfield v ''ledger'');
       require (le_id led = i \<and> le_turn led = tn_n a);
       (case xfield v ''user'' of
          None \<Rightarrow> Some (None, a, led)
        | Some uv \<Rightarrow> do { u \<leftarrow> turn_parse (Some uv); require (tn_id u = i); Some (Some u, a, led) })
     }"

definition turn_project ::
    "(xnode \<Rightarrow> string option) \<Rightarrow> project_plan \<Rightarrow> session \<Rightarrow> xval option \<Rightarrow> session \<times> asngn_err option" where
  "turn_project wr pp s v =
     (case frame_records v of
        None \<Rightarrow> (s, Some ERR_PARSE)
      | Some (u, a, led) \<Rightarrow>
          then_do (then_do (then_do (then_do (then_do (then_do (then_do
            (case u of
               None \<Rightarrow> (s, None)
             | Some t \<Rightarrow> append_turn wr (pp_user pp) s t)
            (\<lambda>s. if u = None then (s, None) else reach_point (pp_fault pp) ''project_user'' s))
            (\<lambda>s. append_turn wr (pp_assistant pp) s a))
            (reach_point (pp_fault pp) ''project_assistant''))
            (\<lambda>s. ledger_append wr (pp_ledger pp) s led))
            (reach_point (pp_fault pp) ''project_ledger''))
            (\<lambda>s. save_manifest (pp_manifest pp) (answered s a u led)))
            (reach_point (pp_fault pp) ''project_manifest''))"

text \<open>The checkpoint of the conversation in the asper library: is it on, the checkpoint it holds,
  and what a commit of a new one answers.\<close>

record checkpoint_plan =
  cp_on :: bool
  cp_current :: "string option"
  cp_commit :: "asngn_err option"

definition turn_checkpoint :: "checkpoint_plan \<Rightarrow> string option \<Rightarrow> asngn_err option" where
  "turn_checkpoint cp tx =
     (case tx of
        None \<Rightarrow> None
      | Some x \<Rightarrow> if \<not> cp_on cp then None else if cp_current cp \<noteq> Some x then cp_commit cp else None)"

section \<open>Commit\<close>

definition verification_current :: "(workspace_info \<Rightarrow> workspace_info \<times> bool) \<Rightarrow> session \<Rightarrow> turn_state \<Rightarrow> turn_state \<times> bool" where
  "verification_current snap s t =
     (if \<not> ts_verified t then (t, False)
      else case snap (ss_workspace s) of
        (w, ok) \<Rightarrow>
          if \<not> ok \<or> ts_snapshot t = [] \<or> ts_snapshot t \<noteq> wi_fingerprint w then (t\<lparr>ts_verified := False\<rparr>, False)
          else (t, True))"

definition bool_text :: "bool \<Rightarrow> string" where
  "bool_text b = (if b then ''true'' else ''false'')"

definition checkpoint_text :: "session \<Rightarrow> turn_state \<Rightarrow> work_state option \<Rightarrow> string" where
  "checkpoint_text s t store =
     (let w = work_refresh (case store of None \<Rightarrow> work_zero | Some w \<Rightarrow> w) (Some (wi_fingerprint (ss_workspace s))) in
      ''goal: '' @ ts_user t @ [NL] @ ''turn_state: committed'' @ [NL] @ ''task_state: '' @
      (if wk_revision w \<noteq> 0 then (if wk_succeeded w then ''succeeded'' else ''incomplete'') else ''unconfirmed'') @ [NL] @
      ''work_revision: '' @ decimal (nat (wk_revision w)) @ [NL] @ ''phase: response'' @ [NL] @
      ''turn_id: '' @ ts_id t @ [NL] @ ''artifact_written: '' @ bool_text (ts_written t) @ [NL] @
      ''verification_attempted: '' @ bool_text (ts_attempted t) @ [NL] @
      ''verification_ok: '' @ bool_text (ts_verified t))"

definition commit_frame :: "session \<Rightarrow> turn_state \<Rightarrow> work_state option \<Rightarrow> turn \<Rightarrow> xval option" where
  "commit_frame s t store answer =
     do {
       v \<leftarrow> turn_frame (ts_id t) ''committed'' [];
       v \<leftarrow> (if \<not> ts_continuation t \<and> ts_log_before t < length (ss_log s)
             then xobj_put_node v ''user'' (turn_node (ss_log s ! ts_log_before t)) else Some v);
       v \<leftarrow> xobj_put_node v ''assistant'' (turn_node answer);
       v \<leftarrow> xobj_put_node v ''ledger'' (ledger_node (ts_led t));
       xobj_put v ''checkpoint'' (Some (XString (checkpoint_text s t store)))
     }"

record commit_plan =
  cm_journal :: journal_plan
  cm_project :: project_plan
  cm_checkpoint :: checkpoint_plan
  cm_snapshot :: "workspace_info \<Rightarrow> workspace_info \<times> bool"

definition turn_commit ::
    "(xnode \<Rightarrow> string option) \<Rightarrow> commit_plan \<Rightarrow> session \<Rightarrow> turn_state \<Rightarrow> work_state option \<Rightarrow> turn \<Rightarrow>
     session \<times> turn_state \<times> asngn_err option" where
  "turn_commit wr cm s t0 store answer =
     (let t = fst (verification_current (cm_snapshot cm) s t0); faults = jp_fault (cm_journal cm) in
      case commit_frame s t store answer of
        None \<Rightarrow> (s, t, Some ERR_NOMEM)
      | Some v \<Rightarrow>
          (case wr (xnode_new v) of
             None \<Rightarrow> (s, t, Some ERR_NOMEM)
           | Some tx \<Rightarrow>
               if boundary faults ''before_commit'' \<noteq> None then (s, t, boundary faults ''before_commit'')
               else
                 (case wal_append (jp_size_ok (cm_journal cm)) (jp_io (cm_journal cm)) (ss_journal_st s) tx of
                    (st, Some e) \<Rightarrow> (s\<lparr>ss_recovery := True, ss_journal_st := st\<rparr>, t, Some e)
                  | (st, None) \<Rightarrow>
                      (case then_do (then_do (then_do (s\<lparr>ss_recovery := True, ss_journal_st := st\<rparr>, None)
                           (reach_point faults ''committed''))
                           (\<lambda>s. turn_project wr (cm_project cm) s (Some v)))
                           (\<lambda>s. (s, turn_checkpoint (cm_checkpoint cm) (xstr (xfield (Some v) ''checkpoint'')))) of
                         (s', e) \<Rightarrow>
                           (if e = None then s'\<lparr>ss_recovery := False\<rparr> else s', t\<lparr>ts_committed := True\<rparr>, e)))))"

lemma uuid_nonempty: "uuid_valid (Some i) \<Longrightarrow> i \<noteq> []"
proof
  assume "uuid_valid (Some i)" "i = []"
  moreover have "\<not> uuid_valid (Some [])" by code_simp
  ultimately show False by simp
qed

section \<open>The conversation\<close>

text \<open>The part of a session that only a commit or a turn's own message changes, and the part of a turn that
  ties it to that conversation.\<close>

definition convo where
  "convo s = (ss_log s, ss_turns s, ss_led s, ss_spent s, ss_ledger_st s, ss_disk s,
     ss_last_turn s, ss_last_capped s, ss_last_user s, ss_last_answer s)"

abbreviation pinned where
  "pinned t \<equiv> (ts_id t, ts_user t, ts_continuation t, ts_log_before t, ts_committed t)"

lemma convo_update [simp]:
  "convo (s\<lparr>ss_journal_st := st\<rparr>) = convo s" "convo (s\<lparr>ss_recovery := b\<rparr>) = convo s" "convo (s\<lparr>ss_epoch := n\<rparr>) = convo s"
  "convo (s\<lparr>ss_workspace := w\<rparr>) = convo s"
  by (simp_all add: convo_def)

lemma journal_put_convo: "journal_put wr jp s v = (s', e) \<Longrightarrow> convo s' = convo s"
  by (auto simp: journal_put_def split: option.splits prod.splits if_splits)

lemma turn_journal_convo: "turn_journal wr jp now s t state action = (s', e) \<Longrightarrow> convo s' = convo s"
  by (auto simp: turn_journal_def Let_def split: option.splits if_splits prod.splits dest: journal_put_convo)

lemma turn_finished_convo: "turn_finished wr jp s t outcome = (s', e) \<Longrightarrow> convo s' = convo s"
  by (auto simp: turn_finished_def Let_def split: option.splits if_splits prod.splits dest: journal_put_convo)

section \<open>What a projection changes\<close>

lemma then_do_inv:
  assumes "P (fst r)" "\<And>s. P s \<Longrightarrow> P (fst (f s))"
  shows "P (fst (then_do r f))"
  using assms by (auto simp: then_do_def split: prod.splits option.splits)

lemma then_do_ok: "then_do r f = (s', None) \<longleftrightarrow> (\<exists>s. r = (s, None) \<and> f s = (s', None))"
  by (auto simp: then_do_def split: prod.splits option.splits)

lemma reach_point_fst [simp]: "fst (reach_point faults point s) = s"
  by (simp add: reach_point_def)

text \<open>A relation every step of a projection keeps is kept by the whole of it.\<close>

lemma project_inv:
  assumes "\<And>u a led sb s t. frame_records v = Some (u, a, led) \<Longrightarrow> u = Some t \<or> t = a \<Longrightarrow> P s \<Longrightarrow>
      P (fst (append_turn wr sb s t))"
    and "\<And>u a led io s. frame_records v = Some (u, a, led) \<Longrightarrow> P s \<Longrightarrow> P (fst (ledger_append wr io s led))"
    and "\<And>u a led mp s. frame_records v = Some (u, a, led) \<Longrightarrow> P s \<Longrightarrow> P (fst (save_manifest mp (answered s a u led)))"
    and "P s"
  shows "P (fst (turn_project wr pp s v))"
proof (cases "frame_records v")
  case (Some r)
  obtain u a led where r: "r = (u, a, led)" by (cases r) auto
  note recs = Some [unfolded r]
  show ?thesis unfolding turn_project_def Some r option.case prod.case
    using assms(4) by (intro then_do_inv [where P = P] assms(1-3) [OF recs]) (cases u; simp add: assms(1) [OF recs])+
qed (simp add: turn_project_def assms(4))

text \<open>The part of a session a projection never touches.\<close>

definition bystanders :: "session \<Rightarrow> nat \<times> nat \<times> nat \<times> stream \<times> bool \<times> string" where
  "bystanders s = (ss_interrupted s, ss_uncertain s, ss_epoch s, ss_journal_st s, ss_recovery s, ss_slug s)"

text \<open>The outcomes of appending a turn: nothing changes, the staged turn gets its event id, or
  the turn is new.\<close>

lemma append_turn_cases:
  obtains (refused) e where "append_turn wr sb s t = (s, Some e)"
  | (kept) i where "append_turn wr sb s t = (s, None)" "turn_index t (ss_log s) = Some i"
      "tn_n (ss_log s ! i) = tn_n t" "tn_text (ss_log s ! i) = tn_text t"
  | (marked) i event where "turn_index t (ss_log s) = Some i"
      "tn_n (ss_log s ! i) = tn_n t" "tn_text (ss_log s ! i) = tn_text t"
      "append_turn wr sb s t = (s\<lparr>ss_log := (ss_log s)[i := (ss_log s ! i)\<lparr>tn_event := event\<rparr>]\<rparr>, None)"
  | (new) event where "turn_index t (ss_log s) = None"
      "append_turn wr sb s t = (s\<lparr>ss_log := ss_log s @ [t\<lparr>tn_event := event\<rparr>]\<rparr>, None)"
proof (cases "turn_index t (ss_log s)")
  case None
  show ?thesis
  proof (cases "remember_turn wr sb t")
    case (Inl e)
    then show ?thesis using None by (intro refused [of e]) (simp add: append_turn_def)
  next
    case (Inr event)
    then show ?thesis using None by (intro new [of "if event \<noteq> [] then event else tn_event t"]) (simp_all add: append_turn_def)
  qed
next
  case (Some i)
  show ?thesis
  proof (cases "tn_n (ss_log s ! i) \<noteq> tn_n t \<or> tn_text (ss_log s ! i) \<noteq> tn_text t")
    case True
    then show ?thesis using Some by (intro refused [of ERR_PARSE]) (simp add: append_turn_def)
  next
    case False
    show ?thesis
    proof (cases "tn_event (ss_log s ! i) \<noteq> []")
      case True
      then show ?thesis using Some False by (intro kept [of i]) (simp_all add: append_turn_def)
    next
      case empty: False
      show ?thesis
      proof (cases "remember_turn wr sb t")
        case (Inl e)
        then show ?thesis using Some False empty by (intro refused [of e]) (simp add: append_turn_def)
      next
        case (Inr event)
        then show ?thesis using Some False empty
          by (cases "event = []") (auto simp: append_turn_def intro: kept [of i] marked [of i event])
      qed
    qed
  qed
qed

lemma append_turn_bystanders [simp]: "bystanders (fst (append_turn wr sb s t)) = bystanders s"
  by (cases rule: append_turn_cases [of wr sb s t]) (simp_all add: bystanders_def)

lemma ledger_append_bystanders [simp]: "bystanders (fst (ledger_append wr io s e)) = bystanders s"
  by (simp add: ledger_append_def bystanders_def split: prod.split option.split)

lemma save_manifest_bystanders [simp]: "bystanders (fst (save_manifest mp s)) = bystanders s"
  by (simp add: save_manifest_def bystanders_def Let_def split: prod.split option.split)

lemma answered_bystanders [simp]: "bystanders (answered s a u led) = bystanders s"
  by (simp add: answered_def bystanders_def)

lemma project_bystanders: "bystanders (fst (turn_project wr pp s v)) = bystanders s"
  by (rule project_inv [where P = "\<lambda>s'. bystanders s' = bystanders s"]) simp_all

section \<open>Projections are idempotent\<close>

text \<open>A turn of the transcript that carries the given one, and the transcript without event ids.\<close>

definition present :: "turn \<Rightarrow> turn list \<Rightarrow> bool" where
  "present t ts \<longleftrightarrow> (\<exists>i. turn_index t ts = Some i \<and> tn_n (ts ! i) = tn_n t \<and> tn_text (ts ! i) = tn_text t)"

definition spine :: "turn list \<Rightarrow> turn list" where
  "spine ts = map (\<lambda>t. t\<lparr>tn_event := []\<rparr>) ts"

lemma turn_index_props:
  "turn_index t ts = Some i \<Longrightarrow> i < length ts \<and> tn_id t \<noteq> [] \<and> tn_id (ts ! i) = tn_id t \<and> tn_role (ts ! i) = tn_role t"
  by (induction ts arbitrary: i) (auto split: if_splits)

lemma turn_index_cong:
  "map (\<lambda>u. (tn_id u, tn_role u)) ts = map (\<lambda>u. (tn_id u, tn_role u)) ts' \<Longrightarrow> turn_index t ts = turn_index t ts'"
proof (induction ts arbitrary: ts')
  case (Cons u us)
  then show ?case by (cases ts') auto
qed simp

lemma turn_index_append_Some: "turn_index t xs = Some i \<Longrightarrow> turn_index t (xs @ ys) = Some i"
  by (induction xs arbitrary: i) (auto split: if_splits)

lemma turn_index_append_None: "turn_index t xs = None \<Longrightarrow> turn_index t (xs @ [u]) = map_option (\<lambda>_. length xs) (turn_index t [u])"
  by (induction xs) (auto split: if_splits)

lemma present_append: "present t xs \<Longrightarrow> present t (xs @ ys)"
  using turn_index_append_Some [of t xs _ ys] turn_index_props [of t xs]
  by (fastforce simp: present_def nth_append)

lemma present_mark: "i < length ts \<Longrightarrow> present t (ts[i := (ts ! i)\<lparr>tn_event := e\<rparr>]) \<longleftrightarrow> present t ts"
proof -
  assume i: "i < length ts"
  have "turn_index t (ts[i := (ts ! i)\<lparr>tn_event := e\<rparr>]) = turn_index t ts"
    by (rule turn_index_cong) (simp add: map_update list_update_same_conv i)
  moreover have "tn_n (ts[i := (ts ! i)\<lparr>tn_event := e\<rparr>] ! j) = tn_n (ts ! j) \<and>
      tn_text (ts[i := (ts ! i)\<lparr>tn_event := e\<rparr>] ! j) = tn_text (ts ! j)" for j
    using i by (cases "i = j") simp_all
  ultimately show ?thesis by (simp add: present_def)
qed

lemma spine_mark: "i < length ts \<Longrightarrow> spine (ts[i := (ts ! i)\<lparr>tn_event := e\<rparr>]) = spine ts"
  by (simp add: spine_def map_update list_update_same_conv)

lemma append_turn_present:
  assumes "append_turn wr sb s t = (s', None)" "tn_id t \<noteq> []"
  shows "present t (ss_log s')"
proof (cases rule: append_turn_cases [of wr sb s t])
  case (marked i event)
  then have "present t (ss_log s)" "i < length (ss_log s)" by (auto simp: present_def dest: turn_index_props)
  then show ?thesis using marked assms by (auto simp: present_mark)
next
  case (new event)
  then show ?thesis using assms by (auto simp: present_def turn_index_append_None)
qed (use assms in \<open>auto simp: present_def\<close>)

lemma append_turn_keeps:
  assumes "present u (ss_log s)"
  shows "present u (ss_log (fst (append_turn wr sb s t)))"
proof (cases rule: append_turn_cases [of wr sb s t])
  case (marked i event)
  then show ?thesis using assms by (auto simp: present_mark dest: turn_index_props)
qed (use assms in \<open>auto simp: present_append\<close>)

lemma append_turn_same:
  assumes "present t (ss_log s)"
  shows "spine (ss_log (fst (append_turn wr sb s t))) = spine (ss_log s)"
proof (cases rule: append_turn_cases [of wr sb s t])
  case (marked i event)
  then show ?thesis by (auto simp: spine_mark dest: turn_index_props)
qed (use assms in \<open>auto simp: present_def\<close>)

text \<open>What a projection makes of a session besides the event ids and the manifest.\<close>

definition ledger_view :: "session \<Rightarrow> ledger_entry list \<times> int \<times> stream \<times> nat" where
  "ledger_view s = (ss_led s, ss_spent s, ss_ledger_st s, ss_turns s)"

definition projected :: "turn option \<Rightarrow> turn \<Rightarrow> ledger_entry \<Rightarrow> session \<Rightarrow> bool" where
  "projected u a led s \<longleftrightarrow>
     (\<forall>t. u = Some t \<longrightarrow> present t (ss_log s)) \<and> present a (ss_log s) \<and>
     list_ex (\<lambda>x. le_id x = le_id led) (ss_led s) \<and> tn_n a \<le> ss_turns s"

lemma append_turn_view [simp]: "ledger_view (fst (append_turn wr sb s t)) = ledger_view s"
  by (cases rule: append_turn_cases [of wr sb s t]) (simp_all add: ledger_view_def)

lemma save_manifest_keeps [simp]:
  "ledger_view (fst (save_manifest mp s)) = ledger_view s" "ss_log (fst (save_manifest mp s)) = ss_log s"
  by (simp_all add: save_manifest_def ledger_view_def Let_def split: prod.split option.split)

lemma ledger_append_log [simp]: "ss_log (fst (ledger_append wr io s e)) = ss_log s"
  "ss_turns (fst (ledger_append wr io s e)) = ss_turns s"
  by (simp_all add: ledger_append_def split: prod.split option.split)

lemma frame_records_ids:
  "frame_records v = Some (u, a, led) \<Longrightarrow>
     tn_id a \<noteq> [] \<and> le_id led = tn_id a \<and> (\<forall>t. u = Some t \<longrightarrow> tn_id t = tn_id a)"
  using uuid_nonempty
  by (auto simp: frame_records_def bind_eq_Some_conv simp del: require_bind split: option.splits)

lemma ledger_append_billed:
  "ledger_append wr io s e = (s', None) \<Longrightarrow> list_ex (\<lambda>x. le_id x = le_id e) (ss_led s')"
  by (auto simp: ledger_append_def split: if_splits prod.splits option.splits)

lemma reach_point_ok: "reach_point faults point s = (s', None) \<longleftrightarrow> s' = s \<and> point \<notin> faults"
  by (auto simp: reach_point_def boundary_def)

lemma project_projects:
  assumes "turn_project wr pp s v = (s', None)"
  shows "\<exists>u a led. frame_records v = Some (u, a, led) \<and> projected u a led s'"
proof -
  obtain u a led where recs: "frame_records v = Some (u, a, led)"
    using assms by (cases "frame_records v") (auto simp: turn_project_def)
  note ids = frame_records_ids [OF recs]
  obtain s1 s2 s3 where
    s1: "(case u of None \<Rightarrow> (s, None) | Some t \<Rightarrow> append_turn wr (pp_user pp) s t) = (s1, None)" and
    s2: "append_turn wr (pp_assistant pp) s1 a = (s2, None)" and
    s3: "ledger_append wr (pp_ledger pp) s2 led = (s3, None)" and
    s': "save_manifest (pp_manifest pp) (answered s3 a u led) = (s', None)"
    using assms recs by (auto simp: turn_project_def then_do_ok reach_point_ok split: if_splits)
  have "present t (ss_log s2)" if "u = Some t" for t
    using append_turn_present [of wr "pp_user pp" s t s1] append_turn_keeps [of t s1 wr "pp_assistant pp" a] that s1 s2 ids
    by simp
  moreover have "present a (ss_log s2)" using append_turn_present [OF s2] ids by simp
  moreover have "ss_log s' = ss_log s2" "ss_led s' = ss_led s3" "tn_n a \<le> ss_turns s'"
    using save_manifest_keeps [of "pp_manifest pp" "answered s3 a u led", unfolded s' fst_conv]
      ledger_append_log [of wr "pp_ledger pp" s2 led, unfolded s3 fst_conv]
    by (simp_all add: ledger_view_def answered_def)
  ultimately show ?thesis using recs ledger_append_billed [OF s3] by (auto simp: projected_def)
qed

text \<open>
  C4. Projections are idempotent: once a committed frame has been projected, projecting it again,
  as recovery does after a crash, adds no turn to the transcript, bills no tokens, writes nothing
  to the ledger and moves no counter, whatever the libraries and the disk answer the second time.
\<close>

theorem project_idempotent:
  assumes "turn_project wr pp s v = (s', None)" "turn_project wr pp' s' v = (s'', e)"
  shows "spine (ss_log s'') = spine (ss_log s') \<and> ledger_view s'' = ledger_view s'"
proof -
  obtain u a led where recs: "frame_records v = Some (u, a, led)" and p: "projected u a led s'"
    using project_projects [OF assms(1)] by blast
  let ?P = "\<lambda>x. projected u a led x \<and> spine (ss_log x) = spine (ss_log s') \<and> ledger_view x = ledger_view s'"
  have "?P (fst (turn_project wr pp' s' v))"
  proof (rule project_inv [where P = ?P])
    fix u' a' led' sb x t assume r: "frame_records v = Some (u', a', led')" "u' = Some t \<or> t = a'" and x: "?P x"
    then have "present t (ss_log x)" using recs by (auto simp: projected_def)
    then show "?P (fst (append_turn wr sb x t))"
      using x append_turn_same [of t x wr sb] append_turn_view [of wr sb x t] append_turn_keeps [of _ x wr sb t]
      by (auto simp: projected_def ledger_view_def)
  next
    fix u' a' led' io x assume r: "frame_records v = Some (u', a', led')" and x: "?P x"
    then have "ledger_append wr io x led' = (x, None)"
      using recs frame_records_ids [OF recs] by (simp add: ledger_append_def projected_def)
    then show "?P (fst (ledger_append wr io x led'))" using x by simp
  next
    fix u' a' led' mp x assume r: "frame_records v = Some (u', a', led')" and x: "?P x"
    then have "ledger_view (answered x a' u' led') = ledger_view x" "ss_log (answered x a' u' led') = ss_log x"
      using recs by (auto simp: answered_def ledger_view_def projected_def)
    then show "?P (fst (save_manifest mp (answered x a' u' led')))"
      using x save_manifest_keeps [of mp "answered x a' u' led'"] by (auto simp: projected_def ledger_view_def)
  qed (use p in simp)
  then show ?thesis using assms(2) by simp
qed

definition sole_value :: "(string \<Rightarrow> xnode list option) \<Rightarrow> string \<Rightarrow> xval option" where
  "sole_value parse tx = (case parse tx of Some [n] \<Rightarrow> Some (xvalue n) | _ \<Rightarrow> None)"

section \<open>What the writers put on the journal\<close>

definition journaled :: "session \<Rightarrow> session \<Rightarrow> string \<Rightarrow> bool" where
  "journaled s s' tx \<longleftrightarrow> st_file (ss_journal_st s') = st_file (ss_journal_st s) @ wal_frame tx"

text \<open>The library reads a value back from the text it wrote for it.\<close>

definition value_lib :: "(string \<Rightarrow> xnode list option) \<Rightarrow> (xnode \<Rightarrow> string option) \<Rightarrow> bool" where
  "value_lib parse wr \<longleftrightarrow> (\<forall>n tx. wr n = Some tx \<longrightarrow> parse tx = Some [n])"

lemma sole_value_written: "value_lib parse wr \<Longrightarrow> wr (xnode_new v) = Some tx \<Longrightarrow> sole_value parse tx = Some v"
  by (simp add: value_lib_def sole_value_def xnode_new_def)

lemma journal_put_ok:
  assumes "journal_put wr jp s v = (s', None)"
  shows "\<exists>tx. wr (xnode_new v) = Some tx \<and> journaled s s' tx"
  using assms by (auto simp: journal_put_def journaled_def dest!: wal_append_ok split: option.splits prod.splits)

lemma turn_journal_ok:
  assumes "turn_journal wr jp now s t state action = (s', None)" "value_lib parse wr"
  shows "\<not> ss_recovery s \<and> (\<exists>tx. journaled s s' tx \<and>
    sole_value parse tx = turn_frame (ts_id t) state (journal_fields now s t state action))"
proof -
  obtain v where v: "turn_frame (ts_id t) state (journal_fields now s t state action) = Some v"
    by (simp add: turn_frame_def)
  obtain s1 e0 where p: "journal_put wr jp s v = (s1, e0)" by fastforce
  have "\<not> ss_recovery s" "e0 = None" "s1 = s'"
    using assms(1) v p by (auto simp: turn_journal_def Let_def boundary_def split: if_splits)
  then show ?thesis using journal_put_ok [of wr jp s v s1] p v sole_value_written [OF assms(2)] by metis
qed

lemma turn_finished_ok:
  assumes "turn_finished wr jp s t outcome = (s', None)" "value_lib parse wr"
  shows "\<not> ss_recovery s \<and> (outcome = None \<longrightarrow> ts_committed t) \<and> (\<exists>tx. journaled s s' tx \<and>
    sole_value parse tx = turn_frame (ts_id t) ''finished''
      [(''schema'', XInt 1), (''outcome'', XString (err_name outcome)), (''committed'', XBool (ts_committed t)),
       (''answer'', XString (case ts_answer t of Some a \<Rightarrow> if ts_committed t then [] else a | None \<Rightarrow> []))])"
  (is "_ \<and> _ \<and> (\<exists>tx. _ \<and> _ = ?frame)")
proof -
  obtain v where v: "?frame = Some v" by (simp add: turn_frame_def)
  have "\<not> ss_recovery s" "outcome = None \<longrightarrow> ts_committed t" "journal_put wr jp s v = (s', None)"
    using assms(1) v by (auto simp: turn_finished_def Let_def boundary_def split: if_splits prod.splits)
  then show ?thesis using journal_put_ok [of wr jp s v s'] v sole_value_written [OF assms(2)] by metis
qed

lemma turn_commit_ok:
  assumes "turn_commit wr cm s t store answer = (s', t', e)" "ts_committed t'" "\<not> ts_committed t" "value_lib parse wr"
  shows "\<exists>tx v t0. journaled s s' tx \<and> sole_value parse tx = Some v \<and> commit_frame s t0 store answer = Some v \<and>
    t0 = fst (verification_current (cm_snapshot cm) s t)"
proof -
  define t0 where "t0 = fst (verification_current (cm_snapshot cm) s t)"
  have same: "\<not> ts_committed t0" using assms(3) by (simp add: t0_def verification_current_def split: prod.split)
  obtain v where v: "commit_frame s t0 store answer = Some v"
    using assms(1,2) same by (cases "commit_frame s t0 store answer") (auto simp: turn_commit_def t0_def [symmetric] Let_def)
  obtain tx where tx: "wr (xnode_new v) = Some tx"
    using assms(1,2) same v by (cases "wr (xnode_new v)") (auto simp: turn_commit_def t0_def [symmetric] Let_def)
  obtain st e1 where w: "wal_append (jp_size_ok (cm_journal cm)) (jp_io (cm_journal cm)) (ss_journal_st s) tx = (st, e1)"
    by fastforce
  have e1: "e1 = None"
    using assms(1,2) same v tx w by (cases e1) (auto simp: turn_commit_def t0_def [symmetric] Let_def split: if_splits)
  define x where "x = then_do (then_do (then_do (s\<lparr>ss_recovery := True, ss_journal_st := st\<rparr>, None)
      (reach_point (jp_fault (cm_journal cm)) ''committed''))
      (\<lambda>s. turn_project wr (cm_project cm) s (Some v)))
      (\<lambda>s. (s, turn_checkpoint (cm_checkpoint cm) (xstr (xfield (Some v) ''checkpoint''))))"
  have "ss_journal_st (fst x) = st"
    unfolding x_def
    by (intro then_do_inv [where P = "\<lambda>s. ss_journal_st s = st"])
      (use project_bystanders in \<open>auto simp: bystanders_def\<close>)
  moreover have "ss_journal_st s' = ss_journal_st (fst x)"
    using assms(1,2) same v tx w e1 unfolding x_def
    by (auto simp: turn_commit_def t0_def [symmetric] Let_def split: if_splits prod.splits)
  ultimately show ?thesis
    using v sole_value_written [OF assms(4) tx] wal_append_ok [OF w [unfolded e1]]
    unfolding t0_def by (auto simp: journaled_def)
qed

section \<open>What survives a commit\<close>

lemma xfield_added:
  "xobj_put_node obj k (Some n) = Some obj' \<Longrightarrow>
   xfield (Some obj') k' = (case xfield (Some obj) k' of Some w \<Rightarrow> Some w | None \<Rightarrow> if k' = k then Some (xvalue n) else None)"
proof (cases obj)
  case (XObject es)
  have "xfind (es @ [(k, n)]) k' = (case xfind es k' of Some w \<Rightarrow> Some w | None \<Rightarrow> if k' = k then Some (xvalue n) else None)"
    by (induction es k' rule: xfind.induct) auto
  then show "xobj_put_node obj k (Some n) = Some obj' \<Longrightarrow> ?thesis"
    using XObject by (auto simp: xobj_put_node_def)
qed (simp_all add: xobj_put_node_def)

lemma ledger_node_some: "\<exists>n. ledger_node e = Some n"
  by (simp add: ledger_node_def xnode_tag_def)

definition staged_user :: "session \<Rightarrow> turn_state \<Rightarrow> turn option" where
  "staged_user s t =
     (if \<not> ts_continuation t \<and> ts_log_before t < length (ss_log s) then Some (ss_log s ! ts_log_before t) else None)"

lemma commit_frame_fields:
  assumes "commit_frame s t store answer = Some v" "turn_node answer = Some an" "ledger_node (ts_led t) = Some lnode"
  shows "xfield (Some v) ''id'' = Some (XString (ts_id t)) \<and> xfield (Some v) ''state'' = Some (XString ''committed'') \<and>
    xfield (Some v) ''user'' = Option.bind (staged_user s t) (\<lambda>u. map_option xvalue (turn_node u)) \<and>
    xfield (Some v) ''assistant'' = Some (xvalue an) \<and> xfield (Some v) ''ledger'' = Some (xvalue lnode)"
proof -
  obtain v0 v1 v2 v3 where
    v0: "v0 = xobject [(''id'', XString (ts_id t)), (''state'', XString ''committed'')]" and
    v1: "(case staged_user s t of Some u \<Rightarrow> xobj_put_node v0 ''user'' (turn_node u) | None \<Rightarrow> Some v0) = Some v1" and
    v2: "xobj_put_node v1 ''assistant'' (Some an) = Some v2" and
    v3: "xobj_put_node v2 ''ledger'' (Some lnode) = Some v3" and
    v: "xobj_put v3 ''checkpoint'' (Some (XString (checkpoint_text s t store))) = Some v"
    using assms by (auto simp: commit_frame_def turn_frame_def staged_user_def bind_eq_Some_conv split: if_splits)
  have user: "xfield (Some v1) k = (case xfield (Some v0) k of Some w \<Rightarrow> Some w
      | None \<Rightarrow> if k = ''user'' then Option.bind (staged_user s t) (\<lambda>u. map_option xvalue (turn_node u)) else None)" for k
  proof (cases "staged_user s t")
    case (Some u)
    obtain un where "turn_node u = Some un" by (simp add: turn_node_value)
    then show ?thesis using v1 Some xfield_added [of v0 "''user''" un v1 k] by (simp split: option.split)
  qed (use v1 in \<open>simp split: option.split\<close>)
  show ?thesis
    using v0 by (simp add: xfield_put [OF v] xfield_added [OF v3] xfield_added [OF v2] user split: option.split)
qed

text \<open>The records of a turn that is about to commit: they carry its id and survive their codecs.\<close>

definition commit_ready :: "session \<Rightarrow> turn_state \<Rightarrow> turn \<Rightarrow> bool" where
  "commit_ready s t answer \<longleftrightarrow>
     uuid_valid (Some (ts_id t)) \<and> turn_ok answer \<and> tn_id answer = ts_id t \<and> ledger_ok (ts_led t) \<and>
     le_id (ts_led t) = ts_id t \<and> le_turn (ts_led t) = tn_n answer \<and>
     (case staged_user s t of Some u \<Rightarrow> turn_ok u \<and> tn_id u = ts_id t | None \<Rightarrow> True)"

lemma commit_frame_records:
  assumes "commit_frame s t store answer = Some v" "commit_ready s t answer"
  shows "frame_records (Some v) =
    Some (map_option (\<lambda>u. u\<lparr>tn_event := []\<rparr>) (staged_user s t), answer\<lparr>tn_event := []\<rparr>, ts_led t)"
proof -
  obtain an where an: "turn_node answer = Some an" by (simp add: turn_node_value)
  obtain lnode where lnode: "ledger_node (ts_led t) = Some lnode" using ledger_node_some by blast
  note fields = commit_frame_fields [OF assms(1) an lnode]
  have a: "turn_parse (Some (xvalue an)) = Some (answer\<lparr>tn_event := []\<rparr>)"
    using turn_parse_node [OF _ an] assms(2) by (simp add: commit_ready_def)
  have l: "ledger_parse (Some (xvalue lnode)) = Some (ts_led t)"
    using ledger_parse_node [OF _ lnode] assms(2) by (simp add: commit_ready_def)
  show ?thesis
  proof (cases "staged_user s t")
    case None
    then show ?thesis using fields a l assms(2) by (simp add: frame_records_def commit_ready_def)
  next
    case (Some u)
    obtain un where un: "turn_node u = Some un" by (simp add: turn_node_value)
    have "turn_parse (Some (xvalue un)) = Some (u\<lparr>tn_event := []\<rparr>)"
      using turn_parse_node [OF _ un] assms(2) Some by (simp add: commit_ready_def)
    then show ?thesis using Some un fields a l assms(2) by (simp add: frame_records_def commit_ready_def)
  qed
qed

text \<open>
  C3. A commit is durable from the moment the turn counts as committed, also when a later step of
  the call failed: one more frame is on the journal, it reads back as exactly the user's turn, the
  answer and the ledger entry of this turn, and any later projection of it, such as the one of a
  recovery, ends with the question and the answer in the transcript and the turn billed.
\<close>

theorem commit_survives:
  assumes "turn_commit wr cm s t store answer = (s', t', e)" "ts_committed t'" "\<not> ts_committed t"
    and "value_lib parse wr" "commit_ready s t answer"
  shows "\<exists>tx v. journaled s s' tx \<and> sole_value parse tx = Some v \<and>
    frame_records (Some v) =
      Some (map_option (\<lambda>u. u\<lparr>tn_event := []\<rparr>) (staged_user s t), answer\<lparr>tn_event := []\<rparr>, ts_led t) \<and>
    (\<forall>wr' pp r r'. turn_project wr' pp r (Some v) = (r', None) \<longrightarrow>
      (\<forall>u. staged_user s t = Some u \<longrightarrow> present u (ss_log r')) \<and> present answer (ss_log r') \<and>
      list_ex (\<lambda>x. le_id x = ts_id t) (ss_led r') \<and> tn_n answer \<le> ss_turns r')"
proof -
  obtain tx v t0 where c: "journaled s s' tx" "sole_value parse tx = Some v" "commit_frame s t0 store answer = Some v"
    "t0 = fst (verification_current (cm_snapshot cm) s t)"
    using turn_commit_ok [OF assms(1-4)] by blast
  have "staged_user s t0 = staged_user s t" "ts_led t0 = ts_led t" "ts_id t0 = ts_id t"
    by (simp_all add: c(4) verification_current_def staged_user_def split: prod.split)
  then have recs: "frame_records (Some v) =
      Some (map_option (\<lambda>u. u\<lparr>tn_event := []\<rparr>) (staged_user s t), answer\<lparr>tn_event := []\<rparr>, ts_led t)"
    using commit_frame_records [OF c(3)] assms(5) by (simp add: commit_ready_def cong: option.case_cong)
  have same: "present (u\<lparr>tn_event := []\<rparr>) ts \<longleftrightarrow> present u ts" for u ts
  proof -
    have "turn_index (u\<lparr>tn_event := []\<rparr>) ts = turn_index u ts" by (induction ts) auto
    then show ?thesis by (simp add: present_def)
  qed
  have "le_id (ts_led t) = ts_id t" using assms(5) by (simp add: commit_ready_def)
  with c(1,2) recs same show ?thesis by (intro exI [of _ tx] exI [of _ v]) (auto dest!: project_projects simp: projected_def)
qed

section \<open>A concrete commit\<close>

definition sample_id :: string where
  "sample_id = ''00000000-0000-4000-8000-000000000001''"

definition sample_answer :: turn where
  "sample_answer = zero_turn\<lparr>tn_n := 1, tn_id := sample_id, tn_role := ''assistant'', tn_text := ''done''\<rparr>"

definition sample_state :: turn_state where
  "sample_state =
     \<lparr>ts_id = sample_id, ts_user = ''go'', ts_continuation = True, ts_work_revision = 0, ts_log_before = 0,
      ts_committed = False, ts_mutates = False, ts_action = [], ts_approval = [], ts_snapshot = [],
      ts_attempted = False, ts_verified = False, ts_written = False,
      ts_led = sample_entry\<lparr>le_id := sample_id\<rparr>, ts_answer = None\<rparr>"

definition replace_fine :: replace_plan where
  "replace_fine = \<lparr>rp_open_ok = True, rp_written = 0, rp_write_ok = True, rp_flush_ok = True, rp_sync_ok = True,
     rp_close_ok = True, rp_rename_ok = True, rp_remove_ok = True\<rparr>"

definition fine_project :: project_plan where
  "fine_project =
     (let sb = \<lparr>sb_on = False, sb_object = (\<lambda>_. Ok []), sb_event = (\<lambda>_ _ _ _. Ok [])\<rparr> in
      \<lparr>pp_user = sb, pp_assistant = sb, pp_ledger = io_fine,
       pp_manifest = \<lparr>mp_snapshot = (\<lambda>w. (w, True)), mp_pretty = (\<lambda>_. Some ''m''), mp_path = ''session.xcdn'',
         mp_replace = replace_fine\<rparr>, pp_fault = {}\<rparr>)"

definition fine_commit :: "io_plan \<Rightarrow> commit_plan" where
  "fine_commit io =
     \<lparr>cm_journal = \<lparr>jp_size_ok = True, jp_io = io, jp_fault = {}\<rparr>, cm_project = fine_project,
      cm_checkpoint = \<lparr>cp_on = False, cp_current = None, cp_commit = None\<rparr>, cm_snapshot = (\<lambda>w. (w, True))\<rparr>"

text \<open>A library that knows one value.\<close>

definition sole_write :: "xnode \<Rightarrow> xnode \<Rightarrow> string option" where
  "sole_write n0 n = (if n = n0 then Some ''x'' else None)"

definition sole_parse :: "xnode \<Rightarrow> string \<Rightarrow> xnode list option" where
  "sole_parse n0 tx = (if tx = ''x'' then Some [n0] else None)"

lemma sole_value_lib: "value_lib (sole_parse n0) (sole_write n0)"
  by (simp add: value_lib_def sole_parse_def sole_write_def)

lemma sample_id_ok [simp]: "uuid_valid (Some sample_id)" "length sample_id = 36"
  by (simp add: sample_id_def, code_simp) (simp add: sample_id_def)

lemma sample_ready: "commit_ready empty_session sample_state sample_answer"
proof -
  have "0 \<le> rfc_year 0 \<and> rfc_year 0 \<le> 9999" unfolding rfc_year_def by code_simp
  then show ?thesis
    using sample_entry_ok
    by (simp add: commit_ready_def staged_user_def sample_state_def sample_answer_def turn_ok_def zero_turn_def
      ledger_ok_def sample_entry_def)
qed

lemma sample_commit_frame:
  obtains v where "commit_frame empty_session sample_state None sample_answer = Some v"
    "frame_records (Some v) = Some (None, sample_answer, sample_entry\<lparr>le_id := sample_id\<rparr>)"
proof -
  obtain v where v: "commit_frame empty_session sample_state None sample_answer = Some v"
    using ledger_node_some [of "ts_led sample_state"]
    by (auto simp: commit_frame_def turn_frame_def sample_state_def turn_node_value xobj_put_def xobj_put_node_def xobject_def)
  from commit_frame_records [OF v sample_ready] show thesis
    using that [OF v] by (simp add: staged_user_def sample_state_def sample_answer_def zero_turn_def)
qed

lemma fine_manifest: "snd (save_manifest (pp_manifest fine_project) s) = None"
  by (simp add: save_manifest_def fine_project_def Let_def manifest_node_def xnode_tag_def write_atomic_def
    write_atomic_trace_def replace_fine_def)

lemma fine_projection:
  assumes "frame_records v = Some (None, sample_answer, sample_entry\<lparr>le_id := sample_id\<rparr>)"
  obtains s' where "turn_project (\<lambda>_. Some ''x'') fine_project empty_session v = (s', None)"
    "ss_log s' = [sample_answer]" "ledger_view s' =
      ([sample_entry\<lparr>le_id := sample_id\<rparr>], 17, (ss_ledger_st empty_session)\<lparr>st_file := ''x'' @ [NL]\<rparr>, 1)"
proof -
  let ?led = "sample_entry\<lparr>le_id := sample_id\<rparr>" and ?wr = "\<lambda>_. Some ''x''"
  have total: "ledger_total_tokens ?led = 17" by (simp add: ledger_total_tokens_def sample_entry_def)
  obtain lnode where l: "ledger_node ?led = Some lnode" using ledger_node_some by blast
  define s3 where "s3 = empty_session\<lparr>ss_log := [sample_answer],
    ss_ledger_st := (ss_ledger_st empty_session)\<lparr>st_file := ''x'' @ [NL]\<rparr>, ss_led := [?led], ss_spent := 17\<rparr>"
  define s' where "s' = fst (save_manifest (pp_manifest fine_project) (answered s3 sample_answer None ?led))"
  have a: "append_turn ?wr (pp_assistant fine_project) empty_session sample_answer =
      (empty_session\<lparr>ss_log := [sample_answer]\<rparr>, None)"
    by (simp add: append_turn_def remember_turn_def fine_project_def Let_def empty_session_def)
  have b: "ledger_append ?wr (pp_ledger fine_project) (empty_session\<lparr>ss_log := [sample_answer]\<rparr>) ?led = (s3, None)"
    using l by (simp add: ledger_append_def ledger_write_def fine_project_def Let_def stream_append_fine total s3_def
      empty_session_def as_line_def needs_newline_def)
  have c: "save_manifest (pp_manifest fine_project) (answered s3 sample_answer None ?led) = (s', None)"
    using fine_manifest [of "answered s3 sample_answer None ?led"] by (simp add: s'_def prod_eq_iff)
  have f: "pp_fault fine_project = {}" by (simp add: fine_project_def Let_def)
  have "turn_project ?wr fine_project empty_session v = (s', None)"
    using assms by (simp add: turn_project_def then_do_def reach_point_def boundary_def a b c f)
  moreover have "ss_log s' = [sample_answer]" by (simp add: s'_def answered_def s3_def)
  moreover have "ledger_view s' = ([?led], 17, (ss_ledger_st empty_session)\<lparr>st_file := ''x'' @ [NL]\<rparr>, 1)"
    by (simp add: s'_def, simp add: answered_def s3_def ledger_view_def sample_answer_def)
      (simp add: empty_session_def)
  ultimately show thesis by (rule that)
qed

theorem project_idempotent_witness:
  "\<exists>v s'. turn_project (\<lambda>_. Some ''x'') fine_project empty_session (Some v) = (s', None) \<and>
    spine (ss_log (fst (turn_project (\<lambda>_. Some ''x'') fine_project s' (Some v)))) = [sample_answer] \<and>
    ledger_view (fst (turn_project (\<lambda>_. Some ''x'') fine_project s' (Some v))) =
      ([sample_entry\<lparr>le_id := sample_id\<rparr>], 17, (ss_ledger_st empty_session)\<lparr>st_file := ''x'' @ [NL]\<rparr>, 1)"
proof -
  obtain v where v: "frame_records (Some v) = Some (None, sample_answer, sample_entry\<lparr>le_id := sample_id\<rparr>)"
    using sample_commit_frame by metis
  from fine_projection [OF v] obtain s' where
    run: "turn_project (\<lambda>_. Some ''x'') fine_project empty_session (Some v) = (s', None)"
    and s': "ss_log s' = [sample_answer]" "ledger_view s' =
      ([sample_entry\<lparr>le_id := sample_id\<rparr>], 17, (ss_ledger_st empty_session)\<lparr>st_file := ''x'' @ [NL]\<rparr>, 1)" .
  have "spine [sample_answer] = [sample_answer]" by (simp add: spine_def sample_answer_def zero_turn_def)
  then show ?thesis
    using run s' project_idempotent [OF run, of fine_project "fst (turn_project (\<lambda>_. Some ''x'') fine_project s' (Some v))"
      "snd (turn_project (\<lambda>_. Some ''x'') fine_project s' (Some v))"]
    by (intro exI [of _ v] exI [of _ s']) simp
qed

theorem commit_survives_witness:
  "\<exists>parse s' tx v. journaled empty_session s' tx \<and> sole_value parse tx = Some v \<and>
    frame_records (Some v) = Some (None, sample_answer, sample_entry\<lparr>le_id := sample_id\<rparr>)"
proof -
  obtain v where v: "commit_frame empty_session sample_state None sample_answer = Some v" using sample_commit_frame by metis
  define r where "r = turn_commit (sole_write (xnode_new v)) (fine_commit io_fine) empty_session sample_state None sample_answer"
  have unverified: "fst (verification_current f s sample_state) = sample_state" for f s
    by (simp add: verification_current_def sample_state_def)
  have wal: "\<exists>st. wal_append True io_fine (ss_journal_st empty_session) ''x'' = (st, None)"
    by (simp add: wal_append_def stream_append_fine empty_session_def WAL_FRAME_MAX_def WAL_LOG_MAX_def)
  have "ts_committed (fst (snd r))"
    using v wal unfolding r_def
    by (auto simp: turn_commit_def unverified Let_def sole_write_def fine_commit_def boundary_def split: prod.splits)
  moreover have "turn_commit (sole_write (xnode_new v)) (fine_commit io_fine) empty_session sample_state None sample_answer =
      (fst r, fst (snd r), snd (snd r))"
    by (simp add: r_def)
  moreover have "\<not> ts_committed sample_state" "staged_user empty_session sample_state = None"
    "sample_answer\<lparr>tn_event := []\<rparr> = sample_answer" "ts_led sample_state = sample_entry\<lparr>le_id := sample_id\<rparr>"
    by (simp_all add: sample_state_def staged_user_def sample_answer_def zero_turn_def)
  ultimately show ?thesis
    using commit_survives [OF _ _ _ sole_value_lib sample_ready] by (metis option.map(1))
qed

end
