(* ===== verification/Turn_Recovery.thy ===== *)
theory Turn_Recovery
  imports Turn_Journal
begin

text \<open>
  Recovery of a session from its turn journal: \<^verbatim>\<open>src/turn_recovery.c\<close>.

  The journal is visited frame by frame; a committed frame is projected again.  What a journal
  means is given by the frames the engine can write (\<open>journal_run\<close>), against which the counts of
  the recovery are stated.
\<close>

section \<open>Recovery\<close>

record recovery =
  rv_session :: session
  rv_pending :: string
  rv_committed :: string
  rv_action :: string
  rv_actions :: nat
  rv_checkpoint :: "string option"

definition rv_interrupted :: "recovery \<Rightarrow> recovery" where
  "rv_interrupted r =
     (let s = rv_session r in
      r\<lparr>rv_session := (if rv_pending r \<noteq> []
           then s\<lparr>ss_interrupted := ss_interrupted s + 1, ss_uncertain := ss_uncertain s + rv_actions r\<rparr> else s),
        rv_pending := [], rv_action := [], rv_actions := 0\<rparr>)"

definition recover_finished :: "recovery \<Rightarrow> string \<Rightarrow> xval option \<Rightarrow> recovery \<times> asngn_err option" where
  "recover_finished r i v =
     (case (xbool (xfield v ''committed''), xstr (xfield v ''answer''), turn_outcome v) of
        (Some committed, Some _, Some outcome) \<Rightarrow>
          if (outcome = None \<and> \<not> committed) \<or> i \<noteq> (if committed then rv_committed r else rv_pending r)
            then (r, Some ERR_PARSE)
          else (r\<lparr>rv_session := (rv_session r)\<lparr>ss_uncertain := ss_uncertain (rv_session r) + rv_actions r\<rparr>,
                  rv_pending := [], rv_action := [], rv_committed := [], rv_actions := 0\<rparr>, None)
      | _ \<Rightarrow> (r, Some ERR_PARSE))"

definition recover_action :: "recovery \<Rightarrow> xval option \<Rightarrow> recovery \<times> asngn_err option" where
  "recover_action r v =
     (case xstr (xfield v ''action_id'') of
        Some a \<Rightarrow>
          if rv_action r \<noteq> [] \<or> \<not> uuid_valid (Some a) then (r, Some ERR_PARSE)
          else
            let s = rv_session r in
            (r\<lparr>rv_action := a, rv_actions := rv_actions r + 1,
               rv_session := (case xint (xfield v ''world_epoch'') of
                  Some epoch \<Rightarrow> if 0 < epoch \<and> int (ss_epoch s) < epoch then s\<lparr>ss_epoch := nat epoch\<rparr> else s
                | None \<Rightarrow> s)\<rparr>, None)
      | None \<Rightarrow> (r, Some ERR_PARSE))"

definition recover_observed :: "recovery \<Rightarrow> xval option \<Rightarrow> recovery \<times> asngn_err option" where
  "recover_observed r v =
     (if xstr (xfield v ''action_id'') = None \<or> rv_action r = [] \<or> xstr (xfield v ''action_id'') \<noteq> Some (rv_action r)
      then (r, Some ERR_PARSE)
      else (r\<lparr>rv_actions := rv_actions r - 1, rv_action := []\<rparr>, None))"

definition recover_committed ::
    "(xnode \<Rightarrow> string option) \<Rightarrow> (string \<Rightarrow> project_plan) \<Rightarrow> recovery \<Rightarrow> string \<Rightarrow> xval option \<Rightarrow>
     recovery \<times> asngn_err option" where
  "recover_committed wr pl r i v =
     (case turn_project wr (pl i) (rv_session r) v of
        (s, Some e) \<Rightarrow> (r\<lparr>rv_session := s\<rparr>, Some e)
      | (s, None) \<Rightarrow>
          (r\<lparr>rv_session := s, rv_checkpoint := xstr (xfield v ''checkpoint''), rv_committed := i,
             rv_pending := [], rv_action := [], rv_actions := 0\<rparr>, None))"

definition recover_frame ::
    "(xnode \<Rightarrow> string option) \<Rightarrow> (string \<Rightarrow> project_plan) \<Rightarrow> recovery \<Rightarrow> xval option \<Rightarrow> recovery \<times> asngn_err option" where
  "recover_frame wr pl r v =
     (case (xstr (xfield v ''state''), xstr (xfield v ''id'')) of
        (Some state, Some i) \<Rightarrow>
          if \<not> uuid_valid (Some i) then (r, Some ERR_PARSE)
          else if state = ''started'' then ((rv_interrupted r)\<lparr>rv_committed := [], rv_pending := i\<rparr>, None)
          else if state = ''finished'' then recover_finished r i v
          else if i \<noteq> rv_pending r then (r, Some ERR_PARSE)
          else if state = ''action'' then recover_action r v
          else if state = ''observed'' then recover_observed r v
          else if state = ''committed'' then recover_committed wr pl r i v
          else (r, Some ERR_PARSE)
      | _ \<Rightarrow> (r, Some ERR_PARSE))"

definition recover_observe ::
    "(string \<Rightarrow> xnode list option) \<Rightarrow> (xnode \<Rightarrow> string option) \<Rightarrow> (string \<Rightarrow> project_plan) \<Rightarrow> recovery \<Rightarrow> string \<Rightarrow>
     recovery \<times> asngn_err option" where
  "recover_observe parse wr pl r tx = recover_frame wr pl r (sole_value parse tx)"

definition recovery_start :: "session \<Rightarrow> recovery" where
  "recovery_start s =
     \<lparr>rv_session = s\<lparr>ss_interrupted := 0, ss_uncertain := 0\<rparr>, rv_pending = [], rv_committed = [], rv_action = [],
      rv_actions = 0, rv_checkpoint = None\<rparr>"

definition turn_recover ::
    "(string \<Rightarrow> xnode list option) \<Rightarrow> (xnode \<Rightarrow> string option) \<Rightarrow> repair_plan \<Rightarrow> (string \<Rightarrow> project_plan) \<Rightarrow>
     checkpoint_plan \<Rightarrow> manifest_plan \<Rightarrow> session \<Rightarrow> session \<times> asngn_err option" where
  "turn_recover parse wr rp pl cp mp s =
     (case wal_visit rp JOURNAL_FRAME_MAX (recover_observe parse wr pl) (Some (st_file (ss_journal_st s))) (recovery_start s) of
        (contents, r0, e0) \<Rightarrow>
          let r = rv_interrupted r0; s1 = rv_session r;
              s2 = s1\<lparr>ss_journal_st := (ss_journal_st s1)\<lparr>st_file := (case contents of Some c \<Rightarrow> c | None \<Rightarrow> [])\<rparr>\<rparr>;
              (s3, e) = then_do (then_do (s2, e0) (\<lambda>s. (s, turn_checkpoint cp (rv_checkpoint r)))) (save_manifest mp)
          in (s3\<lparr>ss_recovery := (e \<noteq> None)\<rparr>, e))"

section \<open>What a journal says\<close>

text \<open>The frames of a journal as the engine means them, and how a decoded value reads as one.\<close>

datatype jframe =
    F_started string | F_action string string int | F_observed string string | F_committed string
  | F_finished string bool

definition frame_head :: "xval option \<Rightarrow> string \<Rightarrow> string \<Rightarrow> bool" where
  "frame_head v i state \<longleftrightarrow> xstr (xfield v ''id'') = Some i \<and> xstr (xfield v ''state'') = Some state"

fun frame_reads :: "xval option \<Rightarrow> jframe \<Rightarrow> bool" where
  "frame_reads v (F_started i) = frame_head v i ''started''"
| "frame_reads v (F_action i a epoch) =
     (frame_head v i ''action'' \<and> xstr (xfield v ''action_id'') = Some a \<and> xint (xfield v ''world_epoch'') = Some epoch)"
| "frame_reads v (F_observed i a) = (frame_head v i ''observed'' \<and> xstr (xfield v ''action_id'') = Some a)"
| "frame_reads v (F_committed i) = frame_head v i ''committed''"
| "frame_reads v (F_finished i c) =
     (frame_head v i ''finished'' \<and> xbool (xfield v ''committed'') = Some c \<and> xstr (xfield v ''answer'') \<noteq> None \<and>
      (\<exists>outcome. turn_outcome v = Some outcome \<and> (outcome = None \<longrightarrow> c)))"

text \<open>The frames the engine can write, with the turn that is open, its action in flight, and the
  turn that committed but has not finished: a new turn may start at any time, since a crash can
  abandon the one before it.\<close>

inductive journal_run :: "jframe list \<Rightarrow> string \<Rightarrow> string \<Rightarrow> string \<Rightarrow> bool" where
  empty: "journal_run [] [] [] []"
| started: "journal_run fs i a c \<Longrightarrow> uuid_valid (Some j) \<Longrightarrow> F_started j \<notin> set fs \<Longrightarrow>
    journal_run (fs @ [F_started j]) j [] []"
| action: "journal_run fs i [] c \<Longrightarrow> i \<noteq> [] \<Longrightarrow> uuid_valid (Some a) \<Longrightarrow> \<forall>j epoch. F_action j a epoch \<notin> set fs \<Longrightarrow>
    journal_run (fs @ [F_action i a epoch]) i a c"
| observed: "journal_run fs i a c \<Longrightarrow> i \<noteq> [] \<Longrightarrow> a \<noteq> [] \<Longrightarrow> journal_run (fs @ [F_observed i a]) i [] c"
| committed: "journal_run fs i [] c \<Longrightarrow> i \<noteq> [] \<Longrightarrow> journal_run (fs @ [F_committed i]) [] [] i"
| failed: "journal_run fs i a c \<Longrightarrow> i \<noteq> [] \<Longrightarrow> journal_run (fs @ [F_finished i False]) [] [] []"
| ended: "journal_run fs [] [] c \<Longrightarrow> c \<noteq> [] \<Longrightarrow> journal_run (fs @ [F_finished c True]) [] [] []"

fun started_ids :: "jframe list \<Rightarrow> string list" where
  "started_ids [] = []"
| "started_ids (f # fs) = (case f of F_started i \<Rightarrow> i # started_ids fs | _ \<Rightarrow> started_ids fs)"

fun action_ids :: "jframe list \<Rightarrow> (string \<times> string) list" where
  "action_ids [] = []"
| "action_ids (f # fs) = (case f of F_action i a _ \<Rightarrow> (i, a) # action_ids fs | _ \<Rightarrow> action_ids fs)"

definition settled :: "jframe list \<Rightarrow> string \<Rightarrow> bool" where
  "settled fs i \<longleftrightarrow> F_committed i \<in> set fs \<or> F_finished i True \<in> set fs \<or> F_finished i False \<in> set fs"

text \<open>A turn was interrupted if it started and neither committed nor finished; an action is
  uncertain if its outcome was never observed and its turn did not commit.\<close>

definition interrupted_count :: "jframe list \<Rightarrow> nat" where
  "interrupted_count fs = length (filter (\<lambda>i. \<not> settled fs i) (started_ids fs))"

definition uncertain_count :: "jframe list \<Rightarrow> nat" where
  "uncertain_count fs =
     length (filter (\<lambda>(i, a). F_observed i a \<notin> set fs \<and> F_committed i \<notin> set fs) (action_ids fs))"

lemma started_ids_append [simp]: "started_ids (fs @ gs) = started_ids fs @ started_ids gs"
  by (induction fs) (auto split: jframe.split)

lemma action_ids_append [simp]: "action_ids (fs @ gs) = action_ids fs @ action_ids gs"
  by (induction fs) (auto split: jframe.split)

lemma set_started_ids: "i \<in> set (started_ids fs) \<longleftrightarrow> F_started i \<in> set fs"
  by (induction fs) (auto split: jframe.splits)

lemma set_action_ids: "(i, a) \<in> set (action_ids fs) \<longleftrightarrow> (\<exists>epoch. F_action i a epoch \<in> set fs)"
  by (induction fs) (auto split: jframe.splits)

text \<open>What a run knows about the frames behind it.\<close>

lemma settled_snoc [simp]:
  "settled (fs @ [f]) i \<longleftrightarrow> settled fs i \<or> f = F_committed i \<or> f = F_finished i True \<or> f = F_finished i False"
  by (auto simp: settled_def)

lemma run_open: "journal_run fs i a c \<Longrightarrow> (i \<noteq> [] \<longrightarrow> uuid_valid (Some i) \<and> F_started i \<in> set fs) \<and>
    (a \<noteq> [] \<longrightarrow> i \<noteq> [] \<and> uuid_valid (Some a) \<and> (\<exists>epoch. F_action i a epoch \<in> set fs)) \<and>
    (c \<noteq> [] \<longrightarrow> uuid_valid (Some c) \<and> F_committed c \<in> set fs \<and> F_started c \<in> set fs)"
  by (induction rule: journal_run.induct) auto

lemma run_started:
  "journal_run fs i a c \<Longrightarrow> settled fs j \<Longrightarrow> F_started j \<in> set fs"
proof (induction rule: journal_run.induct)
  case (committed fs i c)
  then show ?case using run_open [OF committed(1)] by auto
next
  case (failed fs i a c)
  then show ?case using run_open [OF failed(1)] by auto
next
  case (ended fs c)
  then show ?case using run_open [OF ended(1)] by auto
qed (auto simp: settled_def)

lemma run_actions:
  "journal_run fs i a c \<Longrightarrow> F_action j b epoch \<in> set fs \<Longrightarrow> F_started j \<in> set fs \<and> b \<noteq> []"
proof (induction rule: journal_run.induct)
  case (action fs i c a epoch')
  then show ?case using run_open [OF action(1)] uuid_nonempty [of a] by auto
qed auto

lemma run_observed:
  "journal_run fs i a c \<Longrightarrow> F_observed j b \<in> set fs \<Longrightarrow> \<exists>epoch. F_action j b epoch \<in> set fs"
proof (induction rule: journal_run.induct)
  case (observed fs i a c)
  then show ?case using run_open [OF observed(1)] by auto
qed auto

lemma run_distinct:
  "journal_run fs i a c \<Longrightarrow> distinct (started_ids fs) \<and> distinct (map snd (action_ids fs))"
proof (induction rule: journal_run.induct)
  case (started fs i a c j)
  then show ?case by (simp add: set_started_ids)
next
  case (action fs i c a epoch)
  have "a \<notin> set (map snd (action_ids fs))" using action(4) by (auto simp: set_action_ids)
  with action show ?case by simp
qed simp_all

lemma run_unsettled:
  "journal_run fs i a c \<Longrightarrow> i \<noteq> [] \<Longrightarrow> \<not> settled fs i"
proof (induction rule: journal_run.induct)
  case (started fs i a c j)
  then show ?case using run_started [OF started(1), of j] by auto
qed simp_all

lemma run_in_flight:
  "journal_run fs i a c \<Longrightarrow> a \<noteq> [] \<Longrightarrow> F_observed j a \<notin> set fs"
proof (induction rule: journal_run.induct)
  case (action fs i c a epoch)
  then show ?case using run_observed [OF action(1), of j a] by auto
qed simp_all

lemma run_others_seen:
  "journal_run fs i a c \<Longrightarrow> i \<noteq> [] \<Longrightarrow> F_action i b epoch \<in> set fs \<Longrightarrow> b = a \<or> F_observed i b \<in> set fs"
proof (induction rule: journal_run.induct)
  case (started fs i a c j)
  then show ?case using run_actions [OF started(1), of j b epoch] by auto
next
  case (action fs i c a epoch')
  then show ?case using run_actions [OF action(1), of i b epoch] by auto
qed auto

section \<open>Recovery follows the journal\<close>

lemma filter_drop_one:
  "distinct xs \<Longrightarrow> x \<in> set xs \<Longrightarrow> P x \<Longrightarrow> Suc (length (filter (\<lambda>y. P y \<and> y \<noteq> x) xs)) = length (filter P xs)"
proof (induction xs)
  case (Cons y ys)
  show ?case
  proof (cases "y = x")
    case True
    with Cons have "filter (\<lambda>y. P y \<and> y \<noteq> x) ys = filter P ys" by (intro filter_cong) auto
    with True Cons show ?thesis by simp
  qed (use Cons in auto)
qed simp

definition rv_matches :: "jframe list \<Rightarrow> string \<Rightarrow> string \<Rightarrow> string \<Rightarrow> recovery \<Rightarrow> bool" where
  "rv_matches fs i a c r \<longleftrightarrow>
     rv_pending r = i \<and> rv_action r = a \<and> rv_committed r = c \<and> rv_actions r = (if a = [] then 0 else 1) \<and>
     ss_interrupted (rv_session r) + (if i = [] then 0 else 1) = interrupted_count fs \<and>
     ss_uncertain (rv_session r) + rv_actions r = uncertain_count fs \<and>
     (\<forall>j b epoch. F_action j b epoch \<in> set fs \<longrightarrow> epoch \<le> int (ss_epoch (rv_session r)))"

lemma interrupted_snoc_started:
  assumes "journal_run fs i a c" "F_started j \<notin> set fs"
  shows "interrupted_count (fs @ [F_started j]) = Suc (interrupted_count fs)"
  using run_started [OF assms(1), of j] assms(2) by (auto simp: interrupted_count_def)

lemma interrupted_snoc_settle:
  assumes "journal_run fs i a c" "i \<noteq> []" "f = F_committed i \<or> f = F_finished i b"
  shows "Suc (interrupted_count (fs @ [f])) = interrupted_count fs"
proof -
  have "filter (\<lambda>j. \<not> settled (fs @ [f]) j) (started_ids fs) = filter (\<lambda>j. \<not> settled fs j \<and> j \<noteq> i) (started_ids fs)"
    using assms(3) by (intro filter_cong) (cases b; auto)+
  moreover have "started_ids (fs @ [f]) = started_ids fs" using assms(3) by auto
  ultimately show ?thesis
    using filter_drop_one [of "started_ids fs" i "\<lambda>j. \<not> settled fs j"] run_distinct [OF assms(1)]
      run_open [OF assms(1)] run_unsettled [OF assms(1,2)] assms(2)
    by (simp add: interrupted_count_def set_started_ids)
qed

lemma uncertain_snoc_action:
  assumes "journal_run fs i [] c" "i \<noteq> []" "\<forall>j epoch. F_action j a epoch \<notin> set fs"
  shows "uncertain_count (fs @ [F_action i a epoch]) = Suc (uncertain_count fs)"
  using run_unsettled [OF assms(1,2)] run_observed [OF assms(1), of i a] assms(3)
  by (auto simp: uncertain_count_def settled_def)

lemma uncertain_snoc_observed:
  assumes "journal_run fs i a c" "i \<noteq> []" "a \<noteq> []"
  shows "Suc (uncertain_count (fs @ [F_observed i a])) = uncertain_count fs"
proof -
  let ?P = "\<lambda>p. F_observed (fst p) (snd p) \<notin> set fs \<and> F_committed (fst p) \<notin> set fs"
  have "distinct (action_ids fs)" using run_distinct [OF assms(1)] by (simp add: distinct_map)
  moreover have "(i, a) \<in> set (action_ids fs)" using run_open [OF assms(1)] assms(3) by (simp add: set_action_ids)
  moreover have "?P (i, a)"
    using run_in_flight [OF assms(1,3)] run_unsettled [OF assms(1,2)] by (simp add: settled_def)
  ultimately have "Suc (length (filter (\<lambda>p. ?P p \<and> p \<noteq> (i, a)) (action_ids fs))) = length (filter ?P (action_ids fs))"
    by (intro filter_drop_one)
  moreover have "filter (\<lambda>(j, b). F_observed j b \<notin> set (fs @ [F_observed i a]) \<and> F_committed j \<notin> set (fs @ [F_observed i a]))
      (action_ids fs) = filter (\<lambda>p. ?P p \<and> p \<noteq> (i, a)) (action_ids fs)"
    by (intro filter_cong) auto
  moreover have "filter (\<lambda>(j, b). F_observed j b \<notin> set fs \<and> F_committed j \<notin> set fs) (action_ids fs) = filter ?P (action_ids fs)"
    by (intro filter_cong) auto
  ultimately show ?thesis by (simp add: uncertain_count_def)
qed

lemma uncertain_snoc_committed:
  assumes "journal_run fs i [] c" "i \<noteq> []"
  shows "uncertain_count (fs @ [F_committed i]) = uncertain_count fs"
proof -
  have "F_observed i b \<in> set fs" if "(i, b) \<in> set (action_ids fs)" for b
    using run_others_seen [OF assms] run_actions [OF assms(1)] that by (fastforce simp: set_action_ids)
  then have "filter (\<lambda>(j, b). F_observed j b \<notin> set (fs @ [F_committed i]) \<and> F_committed j \<notin> set (fs @ [F_committed i]))
      (action_ids fs) = filter (\<lambda>(j, b). F_observed j b \<notin> set fs \<and> F_committed j \<notin> set fs) (action_ids fs)"
    by (intro filter_cong) auto
  then show ?thesis by (simp add: uncertain_count_def)
qed

lemma count_other [simp]:
  "uncertain_count (fs @ [F_started j]) = uncertain_count fs"
  "uncertain_count (fs @ [F_finished j b]) = uncertain_count fs"
  "interrupted_count (fs @ [F_action j x epoch]) = interrupted_count fs"
  "interrupted_count (fs @ [F_observed j x]) = interrupted_count fs"
  by (simp_all add: uncertain_count_def interrupted_count_def)

text \<open>A decoded frame of the next event keeps a recovery in step with the run; only the projection
  of a committed frame can fail.\<close>

definition projection_fails :: "(xnode \<Rightarrow> string option) \<Rightarrow> (string \<Rightarrow> project_plan) \<Rightarrow> xval option \<Rightarrow> asngn_err \<Rightarrow> bool" where
  "projection_fails wr pl v e \<longleftrightarrow> (\<exists>i s. frame_head v i ''committed'' \<and> snd (turn_project wr (pl i) s v) = Some e)"

lemma recover_started:
  assumes "journal_run fs i a c" "rv_matches fs i a c r" "F_started j \<notin> set fs" "uuid_valid (Some j)"
    and "frame_reads v (F_started j)"
  shows "\<exists>r'. recover_frame wr pl r v = (r', None) \<and> rv_matches (fs @ [F_started j]) j [] [] r'"
  using assms interrupted_snoc_started [OF assms(1,3)] uuid_nonempty [OF assms(4)] run_open [OF assms(1)]
  by (auto simp: recover_frame_def frame_head_def rv_matches_def rv_interrupted_def Let_def)

lemma recover_acted:
  assumes "journal_run fs i [] c" "rv_matches fs i [] c r" "i \<noteq> []" "uuid_valid (Some a)"
    and "\<forall>j epoch. F_action j a epoch \<notin> set fs" "frame_reads v (F_action i a epoch)"
  shows "\<exists>r'. recover_frame wr pl r v = (r', None) \<and> rv_matches (fs @ [F_action i a epoch]) i a c r'"
proof -
  have "uuid_valid (Some i)" using run_open [OF assms(1)] assms(3) by simp
  then have "recover_frame wr pl r v = recover_action r v"
    using assms(2,6) by (simp add: recover_frame_def frame_head_def rv_matches_def)
  then show ?thesis
    using assms uncertain_snoc_action [OF assms(1,3,5), of epoch] uuid_nonempty [OF assms(4)]
    by (auto simp: recover_action_def rv_matches_def Let_def) fastforce+
qed

lemma recover_seen:
  assumes "journal_run fs i a c" "rv_matches fs i a c r" "i \<noteq> []" "a \<noteq> []" "frame_reads v (F_observed i a)"
  shows "\<exists>r'. recover_frame wr pl r v = (r', None) \<and> rv_matches (fs @ [F_observed i a]) i [] c r'"
proof -
  have "uuid_valid (Some i)" using run_open [OF assms(1)] assms(3) by simp
  then have "recover_frame wr pl r v = recover_observed r v"
    using assms(2,5) by (simp add: recover_frame_def frame_head_def rv_matches_def)
  then show ?thesis
    using assms uncertain_snoc_observed [OF assms(1,3,4)]
    by (auto simp: recover_observed_def rv_matches_def)
qed

lemma recover_commit:
  assumes "journal_run fs i [] c" "rv_matches fs i [] c r" "i \<noteq> []" "frame_reads v (F_committed i)"
  shows "(\<exists>r'. recover_frame wr pl r v = (r', None) \<and> rv_matches (fs @ [F_committed i]) [] [] i r') \<or>
    (\<exists>r' e. recover_frame wr pl r v = (r', Some e) \<and> projection_fails wr pl v e)"
proof -
  have "uuid_valid (Some i)" using run_open [OF assms(1)] assms(3) by simp
  then have step: "recover_frame wr pl r v = recover_committed wr pl r i v"
    using assms(2,4) by (simp add: recover_frame_def frame_head_def rv_matches_def)
  obtain s e where p: "turn_project wr (pl i) (rv_session r) v = (s, e)" by fastforce
  show ?thesis
  proof (cases e)
    case None
    have "bystanders s = bystanders (rv_session r)" using project_bystanders [of wr "pl i" "rv_session r" v] p by simp
    then show ?thesis
      using step p None assms(2,3) interrupted_snoc_settle [OF assms(1,3), of "F_committed i"]
        uncertain_snoc_committed [OF assms(1,3)]
      by (auto simp: recover_committed_def rv_matches_def bystanders_def)
  next
    case (Some x)
    have "projection_fails wr pl v x"
      using p Some assms(4) unfolding projection_fails_def by (intro exI [of _ i] exI [of _ "rv_session r"]) simp
    then show ?thesis using step p Some by (auto simp: recover_committed_def)
  qed
qed

lemma recover_failed:
  assumes "journal_run fs i a c" "rv_matches fs i a c r" "i \<noteq> []" "frame_reads v (F_finished i False)"
  shows "\<exists>r'. recover_frame wr pl r v = (r', None) \<and> rv_matches (fs @ [F_finished i False]) [] [] [] r'"
proof -
  have "uuid_valid (Some i)" using run_open [OF assms(1)] assms(3) by simp
  then have "recover_frame wr pl r v = recover_finished r i v"
    using assms(4) by (simp add: recover_frame_def frame_head_def)
  then show ?thesis
    using assms interrupted_snoc_settle [OF assms(1,3), of "F_finished i False" False]
    by (auto simp: recover_finished_def rv_matches_def frame_head_def)
qed

lemma recover_ended:
  assumes "journal_run fs [] [] c" "rv_matches fs [] [] c r" "c \<noteq> []" "frame_reads v (F_finished c True)"
  shows "\<exists>r'. recover_frame wr pl r v = (r', None) \<and> rv_matches (fs @ [F_finished c True]) [] [] [] r'"
proof -
  have c: "uuid_valid (Some c)" "F_committed c \<in> set fs" using run_open [OF assms(1)] assms(3) by simp_all
  have same: "interrupted_count (fs @ [F_finished c True]) = interrupted_count fs"
    unfolding interrupted_count_def using c(2)
    by (auto simp: settled_def intro!: arg_cong [where f = length] filter_cong)
  from c have "recover_frame wr pl r v = recover_finished r c v"
    using assms(4) by (simp add: recover_frame_def frame_head_def)
  then show ?thesis
    using assms same by (auto simp: recover_finished_def rv_matches_def frame_head_def)
qed

text \<open>Feeding a list ends in a state with \<open>P\<close>, or with an error \<open>F\<close> accounts for.\<close>

definition feeds_to ::
    "('s \<Rightarrow> 'r \<Rightarrow> 's \<times> asngn_err option) \<Rightarrow> 's \<Rightarrow> 'r list \<Rightarrow> ('s \<Rightarrow> bool) \<Rightarrow> ('r \<Rightarrow> asngn_err \<Rightarrow> bool) \<Rightarrow> bool" where
  "feeds_to fn s0 us P F \<longleftrightarrow>
     (\<exists>s. feed fn s0 us = (s, None) \<and> P s) \<or> (\<exists>s e u. feed fn s0 us = (s, Some e) \<and> u \<in> set us \<and> F u e)"

lemma feeds_to_snoc:
  assumes "feeds_to fn s0 us P F"
    and "\<And>s. P s \<Longrightarrow> (\<exists>s'. fn s u = (s', None) \<and> Q s') \<or> (\<exists>s' e. fn s u = (s', Some e) \<and> F u e)"
  shows "feeds_to fn s0 (us @ [u]) Q F"
  using assms unfolding feeds_to_def by (fastforce simp: feed_append)

lemma feeds_to_next:
  assumes "list_all2 R vs (fs @ [f])" "\<And>us. list_all2 R us fs \<Longrightarrow> feeds_to fn s0 us P F"
    and "\<And>s u. P s \<Longrightarrow> R u f \<Longrightarrow> (\<exists>s'. fn s u = (s', None) \<and> Q s') \<or> (\<exists>s' e. fn s u = (s', Some e) \<and> F u e)"
  shows "feeds_to fn s0 vs Q F"
proof -
  obtain us u where vs: "vs = us @ [u]" "list_all2 R us fs" "R u f"
    using assms(1) by (auto simp: list_all2_append2 list_all2_Cons2)
  show ?thesis unfolding vs(1) by (rule feeds_to_snoc [OF assms(2) [OF vs(2)] assms(3) [OF _ vs(3)]])
qed

lemma recover_run:
  "journal_run fs i a c \<Longrightarrow> list_all2 frame_reads vs fs \<Longrightarrow> rv_matches [] [] [] [] r0 \<Longrightarrow>
   feeds_to (recover_frame wr pl) r0 vs (rv_matches fs i a c) (projection_fails wr pl)"
proof (induction arbitrary: vs rule: journal_run.induct)
  case empty
  then show ?case by (simp add: feeds_to_def)
next
  case (started fs i a c j)
  then show ?case using recover_started [OF started.hyps(1) _ started.hyps(3,2)]
    by (intro feeds_to_next [OF started.prems(1) started.IH]) blast+
next
  case (action fs i c a epoch)
  then show ?case using recover_acted [OF action.hyps(1) _ action.hyps(2-4)]
    by (intro feeds_to_next [OF action.prems(1) action.IH]) blast+
next
  case (observed fs i a c)
  then show ?case using recover_seen [OF observed.hyps(1) _ observed.hyps(2,3)]
    by (intro feeds_to_next [OF observed.prems(1) observed.IH]) blast+
next
  case (committed fs i c)
  then show ?case using recover_commit [OF committed.hyps(1) _ committed.hyps(2)]
    by (intro feeds_to_next [OF committed.prems(1) committed.IH]) blast+
next
  case (failed fs i a c)
  then show ?case using recover_failed [OF failed.hyps(1) _ failed.hyps(2)]
    by (intro feeds_to_next [OF failed.prems(1) failed.IH]) blast+
next
  case (ended fs c)
  then show ?case using recover_ended [OF ended.hyps(1) _ ended.hyps(2)]
    by (intro feeds_to_next [OF ended.prems(1) ended.IH]) blast+
qed

text \<open>Every prefix of a run is one.\<close>

lemma run_prefix_snoc:
  assumes "\<And>n. \<exists>i a c. journal_run (take n fs) i a c" "journal_run (fs @ [f]) i' a' c'"
  shows "\<exists>i a c. journal_run (take n (fs @ [f])) i a c"
  using assms by (cases "n \<le> length fs") auto

lemma journal_run_prefix: "journal_run fs i a c \<Longrightarrow> \<exists>i' a' c'. journal_run (take n fs) i' a' c'"
proof (induction arbitrary: n rule: journal_run.induct)
  case empty
  then show ?case using journal_run.empty by auto
qed (blast intro: run_prefix_snoc journal_run.intros(2-7))+

lemma feed_map: "feed fn s (map g us) = feed (\<lambda>s u. fn s (g u)) s us"
  by (induction us arbitrary: s) (auto split: prod.split option.split)

lemma recover_prefix:
  assumes "journal_run fs i a c" "list_all2 (\<lambda>tx f. frame_reads (sole_value parse tx) f) txs fs"
    and "rv_matches [] [] [] [] r0"
  shows "feeds_to (recover_observe parse wr pl) r0 (take n txs)
    (\<lambda>r. \<exists>i' a' c'. journal_run (take n fs) i' a' c' \<and> rv_matches (take n fs) i' a' c' r)
    (\<lambda>tx. projection_fails wr pl (sole_value parse tx))"
proof -
  obtain i' a' c' where run: "journal_run (take n fs) i' a' c'" using journal_run_prefix [OF assms(1)] by blast
  have reads: "list_all2 frame_reads (map (sole_value parse) (take n txs)) (take n fs)"
    using assms(2) by (simp add: list_all2_map1 list_all2_takeI)
  from recover_run [OF run reads assms(3), of wr pl] show ?thesis
    using run unfolding feeds_to_def feed_map recover_observe_def [symmetric] by auto
qed

lemma recovery_start_matches: "rv_matches [] [] [] [] (recovery_start s)"
  by (simp add: rv_matches_def recovery_start_def interrupted_count_def uncertain_count_def)

lemma turn_recover_state:
  assumes "wal_visit rp JOURNAL_FRAME_MAX (recover_observe parse wr pl) (Some (st_file (ss_journal_st s))) (recovery_start s) =
      (Some contents, r, e0)"
    and "turn_recover parse wr rp pl cp mp s = (s', e)"
  shows "ss_interrupted s' = ss_interrupted (rv_session (rv_interrupted r)) \<and>
    ss_uncertain s' = ss_uncertain (rv_session (rv_interrupted r)) \<and>
    ss_epoch s' = ss_epoch (rv_session (rv_interrupted r)) \<and> st_file (ss_journal_st s') = contents \<and>
    (ss_recovery s' \<longleftrightarrow> e \<noteq> None)"
proof -
  let ?s1 = "rv_session (rv_interrupted r)"
  define s2 where "s2 = ?s1\<lparr>ss_journal_st := (ss_journal_st ?s1)\<lparr>st_file := contents\<rparr>\<rparr>"
  define x where "x = then_do (then_do (s2, e0) (\<lambda>s. (s, turn_checkpoint cp (rv_checkpoint (rv_interrupted r))))) (save_manifest mp)"
  have "bystanders (fst x) = bystanders s2"
    unfolding x_def by (intro then_do_inv [where P = "\<lambda>s. bystanders s = bystanders s2"]) simp_all
  moreover have "s' = (fst x)\<lparr>ss_recovery := (e \<noteq> None)\<rparr>"
    using assms unfolding turn_recover_def x_def s2_def by (auto simp: Let_def split: prod.splits)
  ultimately show ?thesis by (simp add: bystanders_def s2_def)
qed

lemma turn_recover_error:
  assumes "wal_visit rp JOURNAL_FRAME_MAX (recover_observe parse wr pl) (Some (st_file (ss_journal_st s))) (recovery_start s) =
      (contents, r, Some e0)"
    and "turn_recover parse wr rp pl cp mp s = (s', e)"
  shows "e = Some e0"
  using assms by (auto simp: turn_recover_def then_do_def Let_def)

text \<open>
  C2. Recovery after a crash at any byte of the journal: of the frames the engine wrote, those that
  are complete count, the file is cut to them, and the session reports exactly the turns that
  started without committing or finishing as interrupted and the actions whose outcome nobody
  observed as uncertain; the world epoch covers every action that was announced.  The only other
  way the frames can end a recovery is that projecting one of the committed frames fails, and then
  its error is the answer.
\<close>

theorem journal_recovery_counts:
  assumes "journal_run fs i a c" "list_all2 (\<lambda>tx f. frame_reads (sole_value parse tx) f) txs fs"
    and "list_all (wal_record JOURNAL_FRAME_MAX) txs" "length (frames txs) \<le> WAL_LOG_MAX"
    and "st_file (ss_journal_st s) = take k (frames txs)"
    and "turn_recover parse wr repair_fine pl cp mp s = (s', e)"
  shows "(\<exists>tx \<in> set (take (complete_frames k txs) txs). \<exists>e'. e = Some e' \<and> projection_fails wr pl (sole_value parse tx) e') \<or>
    ss_interrupted s' = interrupted_count (take (complete_frames k txs) fs) \<and>
    ss_uncertain s' = uncertain_count (take (complete_frames k txs) fs) \<and>
    st_file (ss_journal_st s') = frames (take (complete_frames k txs) txs) \<and>
    (\<forall>j b epoch. F_action j b epoch \<in> set (take (complete_frames k txs) fs) \<longrightarrow> epoch \<le> int (ss_epoch s'))"
proof -
  define m where "m = complete_frames k txs"
  let ?fn = "recover_observe parse wr pl" and ?r0 = "recovery_start s"
  obtain f where f: "take k (frames txs) = frames (take m txs) @ f" using take_frames [of k txs] unfolding m_def by blast
  have rs: "list_all (wal_record JOURNAL_FRAME_MAX) (take m txs)"
    using assms(3) by (auto simp: list_all_iff dest: in_set_takeD)
  have small: "\<not> WAL_LOG_MAX < length (take k (frames txs))"
    using assms(4) by simp
  note scan = wal_visit_def wal_scan_def repair_fine_def JOURNAL_FRAME_MAX_def WAL_FRAME_MAX_def
  from recover_prefix [OF assms(1,2) recovery_start_matches, of wr pl s m]
  consider (fine) r i' a' c' where "feed ?fn ?r0 (take m txs) = (r, None)" "rv_matches (take m fs) i' a' c' r"
      "journal_run (take m fs) i' a' c'"
    | (fails) r e' tx where "feed ?fn ?r0 (take m txs) = (r, Some e')" "tx \<in> set (take m txs)"
      "projection_fails wr pl (sole_value parse tx) e'"
    unfolding feeds_to_def by blast
  then show ?thesis
  proof cases
    case fine
    obtain torn where
      loop: "wal_loop JOURNAL_FRAME_MAX ?fn (take k (frames txs)) 0 ?r0 = (r, None, torn, length (frames (take m txs)))"
        "\<not> torn \<longrightarrow> take k (frames txs) = frames (take m txs)"
      using wal_loop_prefix [OF assms(3), of ?fn ?r0 k] fine(1) unfolding m_def by auto
    have "take (length (frames (take m txs))) (take k (frames txs)) = frames (take m txs)" unfolding f by simp
    then have "wal_visit repair_fine JOURNAL_FRAME_MAX ?fn (Some (st_file (ss_journal_st s))) ?r0 =
        (Some (frames (take m txs)), r, None)"
      using loop small assms(5) by (cases torn) (simp_all add: scan del: length_take)
    from turn_recover_state [OF this assms(6)] show ?thesis
      using fine(2) run_open [OF fine(3)] unfolding m_def [symmetric]
      by (auto simp: rv_interrupted_def rv_matches_def Let_def split: if_splits)
  next
    case fails
    obtain good where "wal_loop JOURNAL_FRAME_MAX ?fn (take k (frames txs)) 0 ?r0 = (r, Some e', False, good)"
      using wal_loop_stops [OF rs fails(1)] unfolding f by blast
    then have "wal_visit repair_fine JOURNAL_FRAME_MAX ?fn (Some (st_file (ss_journal_st s))) ?r0 =
        (Some (st_file (ss_journal_st s)), r, Some e')"
      using small assms(5) by (simp add: scan del: length_take)
    from turn_recover_error [OF this assms(6)] show ?thesis using fails(2,3) unfolding m_def by blast
  qed
qed

lemma complete_frames_all: "complete_frames (length (frames rs)) rs = length rs"
  by (induction rs) simp_all

definition sample_started :: xval where
  "sample_started = xobject [(''id'', XString sample_id), (''state'', XString ''started'')]"

definition sample_action :: xval where
  "sample_action = xobject [(''id'', XString sample_id), (''state'', XString ''action''),
     (''action_id'', XString sample_id), (''world_epoch'', XInt 5)]"

definition two_parse :: "string \<Rightarrow> xnode list option" where
  "two_parse tx = (if tx = ''x'' then Some [xnode_new sample_started]
     else if tx = ''y'' then Some [xnode_new sample_action] else None)"

theorem journal_recovery_counts_witness:
  "let s = empty_session\<lparr>ss_journal_st := (ss_journal_st empty_session)\<lparr>st_file := frames [''x'', ''y'']\<rparr>\<rparr>;
       s' = fst (turn_recover two_parse (\<lambda>_. None) repair_fine (\<lambda>_. fine_project) (cm_checkpoint (fine_commit io_fine))
         (pp_manifest fine_project) s)
   in ss_interrupted s' = 1 \<and> ss_uncertain s' = 1 \<and> 5 \<le> ss_epoch s'"
proof -
  let ?fs = "[F_started sample_id, F_action sample_id sample_id 5]" and ?txs = "[''x'', ''y'']"
  let ?s = "empty_session\<lparr>ss_journal_st := (ss_journal_st empty_session)\<lparr>st_file := frames ?txs\<rparr>\<rparr>"
  have run: "journal_run ?fs sample_id sample_id []"
    using journal_run.action [OF journal_run.started [OF journal_run.empty sample_id_ok(1)], of sample_id 5]
    by (simp add: sample_id_def [symmetric], simp add: sample_id_def)
  have reads: "list_all2 (\<lambda>tx f. frame_reads (sole_value two_parse tx) f) ?txs ?fs"
    by (simp add: frame_head_def sole_value_def two_parse_def sample_started_def sample_action_def xnode_new_def)
  have recs: "list_all (wal_record JOURNAL_FRAME_MAX) ?txs"
    by (simp add: wal_record_def JOURNAL_FRAME_MAX_def WAL_FRAME_MAX_def no_nul_def)
  have small: "length (frames ?txs) \<le> WAL_LOG_MAX"
    using recs wal_frame_length [of JOURNAL_FRAME_MAX "''x''"] wal_frame_length [of JOURNAL_FRAME_MAX "''y''"]
    by (simp add: WAL_LOG_MAX_def)
  have disk: "st_file (ss_journal_st ?s) = take (length (frames ?txs)) (frames ?txs)" by simp
  let ?r = "turn_recover two_parse (\<lambda>_. None) repair_fine (\<lambda>_. fine_project) (cm_checkpoint (fine_commit io_fine))
    (pp_manifest fine_project) ?s"
  have "\<not> projection_fails (\<lambda>_. None) (\<lambda>_. fine_project) (sole_value two_parse tx) e" if "tx \<in> set ?txs" for tx e
    using that by (auto simp: projection_fails_def frame_head_def sole_value_def two_parse_def sample_started_def
      sample_action_def xnode_new_def)
  then have "ss_interrupted (fst ?r) = interrupted_count ?fs \<and> ss_uncertain (fst ?r) = uncertain_count ?fs \<and>
      5 \<le> int (ss_epoch (fst ?r))"
    using journal_recovery_counts [OF run reads recs small disk, of "\<lambda>_. None" "\<lambda>_. fine_project" "cm_checkpoint (fine_commit io_fine)"
      "pp_manifest fine_project" "fst ?r" "snd ?r"]
    unfolding complete_frames_all by simp
  moreover have "interrupted_count ?fs = 1" "uncertain_count ?fs = 1"
    by (simp_all add: interrupted_count_def uncertain_count_def settled_def)
  ultimately show ?thesis unfolding Let_def by linarith
qed

end
