(* ===== verification/Task_Record.thy ===== *)
theory Task_Record
  imports Turn_Recovery
begin

text \<open>
  The durable record of a task, read from the journal without restoring anything:
  \<^verbatim>\<open>src/task_record.c\<close>.  It is what is left of a task after its handle is freed or the
  process is gone.  The first theorem says what the writers of a turn leave for this reader and for
  the recovery; the second what the reader then tells.
\<close>

section \<open>The reader\<close>

datatype task_state = TASK_INTERRUPTED | TASK_COMMITTED | TASK_FINISHED

record task_record =
  tk_id :: string
  tk_action :: string
  tk_state :: task_state
  tk_outcome :: "asngn_err option"
  tk_revision :: nat
  tk_committed :: bool
  tk_uncertain :: bool
  tk_input :: "string option"
  tk_answer :: "string option"
  tk_last_action :: "string option"
  tk_last_observation :: "string option"

definition task_zero :: "string \<Rightarrow> task_record" where
  "task_zero i =
     \<lparr>tk_id = i, tk_action = [], tk_state = TASK_INTERRUPTED, tk_outcome = None, tk_revision = 0,
      tk_committed = False, tk_uncertain = False, tk_input = None, tk_answer = None,
      tk_last_action = None, tk_last_observation = None\<rparr>"

text \<open>A text of the record replaced by the one read; a missing one is an error.\<close>

definition copy_text :: "((string option \<Rightarrow> string option) \<Rightarrow> task_record \<Rightarrow> task_record) \<Rightarrow> string option \<Rightarrow> task_record \<Rightarrow>
    task_record \<times> asngn_err option" where
  "copy_text put src r = (case src of None \<Rightarrow> (r, Some ERR_PARSE) | Some x \<Rightarrow> (put (\<lambda>_. Some x) r, None))"

definition task_started :: "xval option \<Rightarrow> task_record \<Rightarrow> task_record \<times> asngn_err option" where
  "task_started v r =
     (case xint (xfield v ''work_revision'') of
        None \<Rightarrow> (r, Some ERR_PARSE)
      | Some revision \<Rightarrow>
          if tk_input r \<noteq> None \<or> revision < 0 then (r, Some ERR_PARSE)
          else copy_text tk_input_update (xstr (xfield v ''input'')) (r\<lparr>tk_revision := nat revision\<rparr>))"

definition task_action :: "xval option \<Rightarrow> task_record \<Rightarrow> task_record \<times> asngn_err option" where
  "task_action v r =
     (case xstr (xfield v ''action_id'') of
        None \<Rightarrow> (r, Some ERR_PARSE)
      | Some a \<Rightarrow>
          if \<not> uuid_valid (Some a) then (r, Some ERR_PARSE)
          else copy_text tk_last_action_update (xstr (xfield v ''input''))
            (r\<lparr>tk_action := a, tk_uncertain := True, tk_last_observation := None\<rparr>))"

definition task_observed :: "xval option \<Rightarrow> task_record \<Rightarrow> task_record \<times> asngn_err option" where
  "task_observed v r =
     (if xstr (xfield v ''action_id'') \<noteq> Some (tk_action r) then (r, Some ERR_PARSE)
      else copy_text tk_last_observation_update (xstr (xfield v ''input'')) (r\<lparr>tk_uncertain := False\<rparr>))"

definition task_committed :: "xval option \<Rightarrow> task_record \<Rightarrow> task_record \<times> asngn_err option" where
  "task_committed v r =
     copy_text tk_answer_update (xstr (xfield (xfield v ''assistant'') ''text''))
       (r\<lparr>tk_state := TASK_COMMITTED, tk_committed := True\<rparr>)"

definition task_finished :: "xval option \<Rightarrow> task_record \<Rightarrow> task_record \<times> asngn_err option" where
  "task_finished v r =
     (case (turn_outcome v, xstr (xfield v ''answer''), xbool (xfield v ''committed'')) of
        (Some outcome, Some answer, Some committed) \<Rightarrow>
          if committed \<noteq> tk_committed r \<or> (outcome = None \<and> \<not> committed)
            then (r\<lparr>tk_outcome := outcome\<rparr>, Some ERR_PARSE)
          else if tk_committed r then (r\<lparr>tk_outcome := outcome, tk_state := TASK_FINISHED\<rparr>, None)
          else copy_text tk_answer_update (Some answer) (r\<lparr>tk_outcome := outcome, tk_state := TASK_FINISHED\<rparr>)
      | (Some outcome, _, _) \<Rightarrow> (r\<lparr>tk_outcome := outcome\<rparr>, Some ERR_PARSE)
      | _ \<Rightarrow> (r, Some ERR_PARSE))"

definition task_frame :: "task_record \<Rightarrow> xval option \<Rightarrow> task_record \<times> asngn_err option" where
  "task_frame r v =
     (case (xstr (xfield v ''id''), xstr (xfield v ''state'')) of
        (Some i, Some state) \<Rightarrow>
          if \<not> uuid_valid (Some i) then (r, Some ERR_PARSE)
          else if i \<noteq> tk_id r then (r, None)
          else if state = ''started'' then task_started v r
          else if tk_input r \<noteq> None \<and> tk_state r \<noteq> TASK_FINISHED then
            (if state = ''action'' \<and> \<not> tk_committed r \<and> \<not> tk_uncertain r then task_action v r
             else if state = ''observed'' \<and> \<not> tk_committed r \<and> tk_uncertain r then task_observed v r
             else if state = ''committed'' \<and> \<not> tk_committed r then task_committed v r
             else if state = ''finished'' then task_finished v r
             else (r, Some ERR_PARSE))
          else (r, Some ERR_PARSE)
      | _ \<Rightarrow> (r, Some ERR_PARSE))"

definition task_observe :: "(string \<Rightarrow> xnode list option) \<Rightarrow> task_record \<Rightarrow> string \<Rightarrow> task_record \<times> asngn_err option" where
  "task_observe parse r tx = task_frame r (sole_value parse tx)"

definition task_read ::
    "(string \<Rightarrow> xnode list option) \<Rightarrow> repair_plan \<Rightarrow> session \<Rightarrow> bool \<Rightarrow> string option \<Rightarrow> task_record outcome" where
  "task_read parse rp s busy i =
     (if \<not> uuid_valid i then Err ERR_INVALID
      else if busy \<or> ss_recovery s then Err ERR_BUSY
      else case wal_inspect rp JOURNAL_FRAME_MAX (task_observe parse) (Some (st_file (ss_journal_st s))) (task_zero (the i)) of
        (_, r, Some e) \<Rightarrow> Err e
      | (_, r, None) \<Rightarrow> if tk_input r = None then Err ERR_NOT_FOUND else Ok r)"

section \<open>What the writers leave for the readers\<close>

text \<open>A frame that reads as the given one also for this reader.\<close>

fun task_reads :: "xval option \<Rightarrow> jframe \<Rightarrow> bool" where
  "task_reads v (F_started i) =
     (frame_reads v (F_started i) \<and> (\<exists>n. xint (xfield v ''work_revision'') = Some (int n)) \<and> xstr (xfield v ''input'') \<noteq> None)"
| "task_reads v (F_committed i) = (frame_reads v (F_committed i) \<and> xstr (xfield (xfield v ''assistant'') ''text'') \<noteq> None)"
| "task_reads v (F_finished i c) = frame_reads v (F_finished i c)"
| "task_reads v f = (frame_reads v f \<and> xstr (xfield v ''input'') \<noteq> None)"

lemma turn_node_text: "turn_node t = Some n \<Longrightarrow> xstr (xfield (Some (xvalue n)) ''text'') = Some (tn_text t)"
  by (auto simp: turn_node_value)

text \<open>The calls of the engine that put a frame on the journal, with the frame they mean.  A commit
  counts from the moment it is durable, whatever follows it.\<close>

inductive turn_writes :: "(xnode \<Rightarrow> string option) \<Rightarrow> session \<Rightarrow> jframe \<Rightarrow> session \<Rightarrow> bool" for wr where
  started: "turn_journal wr jp now s t ''started'' a = (s', None) \<Longrightarrow> ts_work_revision t < 2 ^ 63 \<Longrightarrow>
    turn_writes wr s (F_started (ts_id t)) s'"
| action: "turn_journal wr jp now s t ''action'' a = (s', None) \<Longrightarrow> ss_epoch s < 2 ^ 63 \<Longrightarrow>
    turn_writes wr s (F_action (ts_id t) (ts_action t) (int (ss_epoch s) + (if ts_mutates t then 1 else 0))) s'"
| observed: "turn_journal wr jp now s t ''observed'' a = (s', None) \<Longrightarrow>
    turn_writes wr s (F_observed (ts_id t) (ts_action t)) s'"
| committed: "turn_commit wr cm s t store answer = (s', t', e) \<Longrightarrow> ts_committed t' \<Longrightarrow> \<not> ts_committed t \<Longrightarrow>
    turn_writes wr s (F_committed (ts_id t)) s'"
| finished: "turn_finished wr jp s t outcome = (s', None) \<Longrightarrow>
    turn_writes wr s (F_finished (ts_id t) (ts_committed t)) s'"

lemma turn_writes_reads:
  assumes "turn_writes wr s f s'" "value_lib parse wr"
  shows "\<exists>tx. journaled s s' tx \<and> task_reads (sole_value parse tx) f"
  using assms(1)
proof cases
  case (started jp now t a)
  obtain tx where "journaled s s' tx" "sole_value parse tx = turn_frame (ts_id t) ''started'' (journal_fields now s t ''started'' a)"
    using turn_journal_ok [OF started(2) assms(2)] by blast
  then show ?thesis using started(1,3)
    by (intro exI [of _ tx]) (simp add: turn_frame_def journal_fields_def frame_head_def)
next
  case (action jp now t a)
  obtain tx where "journaled s s' tx" "sole_value parse tx = turn_frame (ts_id t) ''action'' (journal_fields now s t ''action'' a)"
    using turn_journal_ok [OF action(2) assms(2)] by blast
  then show ?thesis using action(1,3)
    by (intro exI [of _ tx]) (simp add: turn_frame_def journal_fields_def frame_head_def)
next
  case (observed jp now t a)
  obtain tx where "journaled s s' tx" "sole_value parse tx = turn_frame (ts_id t) ''observed'' (journal_fields now s t ''observed'' a)"
    using turn_journal_ok [OF observed(2) assms(2)] by blast
  then show ?thesis using observed(1)
    by (intro exI [of _ tx]) (simp add: turn_frame_def journal_fields_def frame_head_def)
next
  case (committed cm t store answer t' e)
  obtain tx v t0 where c: "journaled s s' tx" "sole_value parse tx = Some v" "commit_frame s t0 store answer = Some v"
    "t0 = fst (verification_current (cm_snapshot cm) s t)"
    using turn_commit_ok [OF committed(2-4) assms(2)] by blast
  obtain an lnode where n: "turn_node answer = Some an" "ledger_node (ts_led t0) = Some lnode"
    using ledger_node_some by (metis turn_node_value)
  have "ts_id t0 = ts_id t" by (simp add: c(4) verification_current_def split: prod.split)
  then show ?thesis using c(1,2) commit_frame_fields [OF c(3) n] turn_node_text [OF n(1)] committed(1)
    by (auto simp: frame_head_def)
next
  case (finished jp t outcome)
  from turn_finished_ok [OF finished(2) assms(2)] obtain tx where "journaled s s' tx" "outcome = None \<longrightarrow> ts_committed t"
    "sole_value parse tx = turn_frame (ts_id t) ''finished''
      [(''schema'', XInt 1), (''outcome'', XString (err_name outcome)), (''committed'', XBool (ts_committed t)),
       (''answer'', XString (case ts_answer t of Some a \<Rightarrow> if ts_committed t then [] else a | None \<Rightarrow> []))]"
    by blast
  then show ?thesis using finished(1)
    by (intro exI [of _ tx]) (cases "ts_committed t"; simp add: turn_frame_def frame_head_def turn_outcome_def)
qed

text \<open>The journal of a session holds frames that read as the given ones.\<close>

definition journal_holds :: "(string \<Rightarrow> xnode list option) \<Rightarrow> session \<Rightarrow> jframe list \<Rightarrow> bool" where
  "journal_holds parse s fs \<longleftrightarrow> (\<exists>txs. st_file (ss_journal_st s) = frames txs \<and>
     list_all2 (\<lambda>tx f. task_reads (sole_value parse tx) f) txs fs)"

lemma turn_writes_extend:
  assumes "turn_writes wr s f s'" "value_lib parse wr" "journal_holds parse s fs"
  shows "journal_holds parse s' (fs @ [f])"
proof -
  obtain tx where "journaled s s' tx" "task_reads (sole_value parse tx) f" using turn_writes_reads [OF assms(1,2)] by blast
  moreover obtain txs where "st_file (ss_journal_st s) = frames txs" "list_all2 (\<lambda>tx f. task_reads (sole_value parse tx) f) txs fs"
    using assms(3) by (auto simp: journal_holds_def)
  ultimately show ?thesis
    unfolding journal_holds_def by (intro exI [of _ "txs @ [tx]"]) (simp add: journaled_def list_all2_appendI)
qed

text \<open>
  What the engine writes is what its readers understand: every frame that \<^verbatim>\<open>asngn_turn_journal\<close>,
  \<^verbatim>\<open>asngn_turn_commit\<close> and \<^verbatim>\<open>asngn_turn_finished\<close> put on the journal is one more frame behind those that
  are there, and reads back with the turn, the action, the outcome and the world epoch it was
  written for.
\<close>

theorem journal_writes_read_back:
  assumes "turn_writes wr s f s'" "value_lib parse wr" "journal_holds parse s fs"
  shows "journal_holds parse s' (fs @ [f])"
  using assms by (rule turn_writes_extend)

section \<open>What the reader tells\<close>

text \<open>What the frames of a run say of one turn.\<close>

definition told :: "jframe list \<Rightarrow> string \<Rightarrow> string \<Rightarrow> task_record \<Rightarrow> bool" where
  "told fs i a r \<longleftrightarrow>
     (tk_input r = None \<longleftrightarrow> F_started (tk_id r) \<notin> set fs) \<and>
     (tk_state r = TASK_FINISHED \<longleftrightarrow> F_finished (tk_id r) True \<in> set fs \<or> F_finished (tk_id r) False \<in> set fs) \<and>
     (tk_committed r \<longleftrightarrow> F_committed (tk_id r) \<in> set fs) \<and>
     (tk_uncertain r \<longleftrightarrow> (\<exists>b epoch. F_action (tk_id r) b epoch \<in> set fs \<and> F_observed (tk_id r) b \<notin> set fs)) \<and>
     (i = tk_id r \<longrightarrow> tk_uncertain r = (a \<noteq> []) \<and> (a \<noteq> [] \<longrightarrow> tk_action r = a))"

lemma run_unfinished: "journal_run fs i a c \<Longrightarrow> c \<noteq> [] \<Longrightarrow> F_finished c b \<notin> set fs"
proof (induction rule: journal_run.induct)
  case (committed fs i c)
  then show ?case using run_unsettled [OF committed(1,2)] by (cases b) (auto simp: settled_def)
qed simp_all

lemma task_reads_frame: "task_reads v f \<Longrightarrow> frame_reads v f"
  by (cases f) simp_all

fun frame_turn :: "jframe \<Rightarrow> string" where
  "frame_turn (F_started i) = i"
| "frame_turn (F_action i a epoch) = i"
| "frame_turn (F_observed i a) = i"
| "frame_turn (F_committed i) = i"
| "frame_turn (F_finished i c) = i"

lemma task_frame_other:
  assumes "task_reads v f" "uuid_valid (Some (frame_turn f))" "frame_turn f \<noteq> tk_id r" "told fs i a r"
    and "i' \<noteq> tk_id r"
  shows "task_frame r v = (r, None) \<and> told (fs @ [f]) i' a' r"
  using assms by (cases f) (auto simp: task_frame_def frame_head_def told_def)

lemma task_sees_started:
  assumes "journal_run fs i a c" "told fs i a r" "F_started j \<notin> set fs" "uuid_valid (Some j)" "task_reads v (F_started j)"
  shows "\<exists>r'. task_frame r v = (r', None) \<and> tk_id r' = tk_id r \<and> told (fs @ [F_started j]) j [] r'"
proof (cases "j = tk_id r")
  case True
  have "F_action j b epoch \<notin> set fs" for b epoch using run_actions [OF assms(1)] assms(3) by blast
  moreover have "\<not> settled fs j" using run_started [OF assms(1)] assms(3) by blast
  ultimately show ?thesis
    using assms True by (auto simp: task_frame_def frame_head_def told_def task_started_def copy_text_def)
next
  case False
  then show ?thesis using task_frame_other [OF assms(5), of r fs i a j "[]"] assms(2,4) by simp
qed

lemma task_sees_action:
  assumes "journal_run fs i [] c" "told fs i [] r" "i \<noteq> []" "uuid_valid (Some a)" "\<forall>j epoch. F_action j a epoch \<notin> set fs"
    and "task_reads v (F_action i a epoch)"
  shows "\<exists>r'. task_frame r v = (r', None) \<and> tk_id r' = tk_id r \<and> told (fs @ [F_action i a epoch]) i a r'"
proof (cases "i = tk_id r")
  case True
  have "F_observed i a \<notin> set fs" using run_observed [OF assms(1)] assms(5) by blast
  then show ?thesis
    using assms True run_unsettled [OF assms(1,3)] run_open [OF assms(1)] uuid_nonempty [OF assms(4)]
    by (auto simp: task_frame_def frame_head_def told_def task_action_def copy_text_def settled_def) blast+
next
  case False
  then show ?thesis
    using task_frame_other [OF assms(6), of r fs i "[]" i a] assms(2,3) run_open [OF assms(1)] by simp
qed

lemma task_sees_observed:
  assumes "journal_run fs i a c" "told fs i a r" "i \<noteq> []" "a \<noteq> []" "task_reads v (F_observed i a)"
  shows "\<exists>r'. task_frame r v = (r', None) \<and> tk_id r' = tk_id r \<and> told (fs @ [F_observed i a]) i [] r'"
proof (cases "i = tk_id r")
  case True
  show ?thesis
    using assms True run_unsettled [OF assms(1,3)] run_open [OF assms(1)] run_others_seen [OF assms(1,3)]
    by (auto simp: task_frame_def frame_head_def told_def task_observed_def copy_text_def settled_def) blast+
next
  case False
  then show ?thesis
    using task_frame_other [OF assms(5), of r fs i a i "[]"] assms(2,3) run_open [OF assms(1)] by simp
qed

lemma task_sees_committed:
  assumes "journal_run fs i [] c" "told fs i [] r" "i \<noteq> []" "task_reads v (F_committed i)" "tk_id r \<noteq> []"
  shows "\<exists>r'. task_frame r v = (r', None) \<and> tk_id r' = tk_id r \<and> told (fs @ [F_committed i]) [] [] r'"
proof (cases "i = tk_id r")
  case True
  show ?thesis
    using assms True run_unsettled [OF assms(1,3)] run_open [OF assms(1)]
    by (auto simp: task_frame_def frame_head_def told_def task_committed_def copy_text_def settled_def)
next
  case False
  then show ?thesis
    using task_frame_other [OF assms(4), of r fs i "[]" "[]" "[]"] assms(2,3,5) run_open [OF assms(1)] by simp
qed

lemma task_sees_failed:
  assumes "journal_run fs i a c" "told fs i a r" "i \<noteq> []" "task_reads v (F_finished i False)" "tk_id r \<noteq> []"
  shows "\<exists>r'. task_frame r v = (r', None) \<and> tk_id r' = tk_id r \<and> told (fs @ [F_finished i False]) [] [] r'"
proof (cases "i = tk_id r")
  case True
  show ?thesis
    using assms True run_unsettled [OF assms(1,3)] run_open [OF assms(1)]
    by (auto simp: task_frame_def frame_head_def told_def task_finished_def copy_text_def settled_def) blast+
next
  case False
  then show ?thesis
    using task_frame_other [OF assms(4), of r fs i a "[]" "[]"] assms(2,3,5) run_open [OF assms(1)] by simp
qed

lemma task_sees_ended:
  assumes "journal_run fs [] [] c" "told fs [] [] r" "c \<noteq> []" "task_reads v (F_finished c True)" "tk_id r \<noteq> []"
  shows "\<exists>r'. task_frame r v = (r', None) \<and> tk_id r' = tk_id r \<and> told (fs @ [F_finished c True]) [] [] r'"
proof (cases "c = tk_id r")
  case True
  show ?thesis
    using assms True run_unfinished [OF assms(1,3)] run_open [OF assms(1)]
    by (auto simp: task_frame_def frame_head_def told_def task_finished_def copy_text_def settled_def) blast+
next
  case False
  then show ?thesis
    using task_frame_other [OF assms(4), of r fs "[]" "[]" "[]" "[]"] assms(2,3,5) run_open [OF assms(1)] by simp
qed

lemma task_run:
  assumes "uuid_valid (Some k)"
  shows "journal_run fs i a c \<Longrightarrow> list_all2 task_reads vs fs \<Longrightarrow>
    feeds_to task_frame (task_zero k) vs (\<lambda>r. tk_id r = k \<and> told fs i a r) (\<lambda>_ _. False)"
proof (induction arbitrary: vs rule: journal_run.induct)
  case empty
  then show ?case by (simp add: feeds_to_def told_def task_zero_def)
next
  case (started fs i a c j)
  then show ?case using task_sees_started [OF started.hyps(1) _ started.hyps(3,2)]
    by (intro feeds_to_next [OF started.prems(1) started.IH]) (assumption, metis)
next
  case (action fs i c a epoch)
  then show ?case using task_sees_action [OF action.hyps(1) _ action.hyps(2-4)]
    by (intro feeds_to_next [OF action.prems(1) action.IH]) (assumption, metis)
next
  case (observed fs i a c)
  then show ?case using task_sees_observed [OF observed.hyps(1) _ observed.hyps(2,3)]
    by (intro feeds_to_next [OF observed.prems(1) observed.IH]) (assumption, metis)
next
  case (committed fs i c)
  then show ?case using task_sees_committed [OF committed.hyps(1) _ committed.hyps(2)] uuid_nonempty [OF assms]
    by (intro feeds_to_next [OF committed.prems(1) committed.IH]) (assumption, metis)
next
  case (failed fs i a c)
  then show ?case using task_sees_failed [OF failed.hyps(1) _ failed.hyps(2)] uuid_nonempty [OF assms]
    by (intro feeds_to_next [OF failed.prems(1) failed.IH]) (assumption, metis)
next
  case (ended fs c)
  then show ?case using task_sees_ended [OF ended.hyps(1) _ ended.hyps(2)] uuid_nonempty [OF assms]
    by (intro feeds_to_next [OF ended.prems(1) ended.IH]) (assumption, metis)
qed

lemma task_read_visit:
  assumes "feed (task_observe parse) (task_zero k) txs = (r, None)" "list_all (wal_record JOURNAL_FRAME_MAX) txs"
    and "length (frames txs) \<le> WAL_LOG_MAX" "st_file (ss_journal_st s) = frames txs" "uuid_valid (Some k)"
    and "\<not> ss_recovery s"
  shows "task_read parse rp s False (Some k) = (if tk_input r = None then Err ERR_NOT_FOUND else Ok r)"
proof -
  have "wal_loop JOURNAL_FRAME_MAX (task_observe parse) (frames txs) 0 (task_zero k) = (r, None, False, length (frames txs))"
    using wal_loop_frames [OF assms(2,1), of "[]" 0] by (simp add: wal_loop.simps [of _ _ "[]"])
  then show ?thesis
    using assms(3-6) by (simp add: task_read_def wal_inspect_def wal_scan_def JOURNAL_FRAME_MAX_def WAL_FRAME_MAX_def)
qed

text \<open>
  C37. What is told of a task is what the journal says: on the journal of an idle session that holds
  the frames of a run, a task nobody started is not found, and of any other the record says that it
  is finished exactly if a finish was written, that its turn committed exactly if the commit was
  written, and that an action is uncertain exactly if one was announced whose outcome was not
  observed.
\<close>

theorem task_read_tells:
  assumes "journal_run fs i a c" "list_all2 (\<lambda>tx f. task_reads (sole_value parse tx) f) txs fs"
    and "list_all (wal_record JOURNAL_FRAME_MAX) txs" "length (frames txs) \<le> WAL_LOG_MAX"
    and "st_file (ss_journal_st s) = frames txs" "\<not> ss_recovery s" "uuid_valid (Some k)"
  shows "case task_read parse rp s False (Some k) of
      Err e \<Rightarrow> e = ERR_NOT_FOUND \<and> F_started k \<notin> set fs
    | Ok r \<Rightarrow> tk_id r = k \<and> F_started k \<in> set fs \<and>
        (tk_state r = TASK_FINISHED \<longleftrightarrow> F_finished k True \<in> set fs \<or> F_finished k False \<in> set fs) \<and>
        (tk_committed r \<longleftrightarrow> F_committed k \<in> set fs) \<and>
        (tk_uncertain r \<longleftrightarrow> (\<exists>b epoch. F_action k b epoch \<in> set fs \<and> F_observed k b \<notin> set fs))"
proof -
  have "list_all2 task_reads (map (sole_value parse) txs) fs" using assms(2) by (simp add: list_all2_map1)
  from task_run [OF assms(7,1) this] obtain r where
    r: "feed (task_observe parse) (task_zero k) txs = (r, None)" "tk_id r = k" "told fs i a r"
    unfolding feeds_to_def feed_map task_observe_def [symmetric] by blast
  from task_read_visit [OF r(1) assms(3,4,5,7,6)] show ?thesis
    using r(2,3) by (auto simp: told_def)
qed

section \<open>A concrete journal\<close>

definition task_sample_started :: xval where
  "task_sample_started = xobject [(''id'', XString sample_id), (''state'', XString ''started''), (''work_revision'', XInt 0),
     (''input'', XString ''go'')]"

lemma task_sample_reads: "task_reads (Some task_sample_started) (F_started sample_id)"
  by (auto simp: task_sample_started_def frame_head_def intro: exI [of _ 0])

theorem task_read_tells_witness:
  "\<exists>r. task_read (sole_parse (xnode_new task_sample_started)) repair_fine
      (empty_session\<lparr>ss_journal_st := (ss_journal_st empty_session)\<lparr>st_file := frames [''x'']\<rparr>\<rparr>) False (Some sample_id) = Ok r \<and>
    tk_state r \<noteq> TASK_FINISHED \<and> \<not> tk_committed r \<and> \<not> tk_uncertain r"
proof -
  let ?s = "empty_session\<lparr>ss_journal_st := (ss_journal_st empty_session)\<lparr>st_file := frames [''x'']\<rparr>\<rparr>"
  let ?parse = "sole_parse (xnode_new task_sample_started)"
  have run: "journal_run [F_started sample_id] sample_id [] []"
    using journal_run.started [OF journal_run.empty sample_id_ok(1)] by simp
  have reads: "list_all2 (\<lambda>tx f. task_reads (sole_value ?parse tx) f) [''x''] [F_started sample_id]"
    using task_sample_reads by (simp add: sole_value_def sole_parse_def xnode_new_def del: task_reads.simps)
  have recs: "list_all (wal_record JOURNAL_FRAME_MAX) [''x'']"
    by (simp add: wal_record_def JOURNAL_FRAME_MAX_def WAL_FRAME_MAX_def no_nul_def)
  have small: "length (frames [''x'']) \<le> WAL_LOG_MAX"
    using recs wal_frame_length [of JOURNAL_FRAME_MAX "''x''"] by (simp add: WAL_LOG_MAX_def)
  show ?thesis
    using task_read_tells [OF run reads recs small, of ?s sample_id repair_fine]
    by (cases "task_read ?parse repair_fine ?s False (Some sample_id)") (simp_all add: empty_session_def)
qed

theorem journal_writes_read_back_witness:
  "\<exists>parse wr s'. turn_writes wr empty_session (F_started sample_id) s' \<and> journal_holds parse s' [F_started sample_id]"
proof -
  let ?jp = "\<lparr>jp_size_ok = True, jp_io = io_fine, jp_fault = {}\<rparr>"
  obtain v where v: "turn_frame sample_id ''started'' (journal_fields 0 empty_session sample_state ''started'' None) = Some v"
    by (simp add: turn_frame_def)
  obtain st where wal: "wal_append True io_fine (ss_journal_st empty_session) ''x'' = (st, None)"
    by (simp add: wal_append_def stream_append_fine empty_session_def WAL_FRAME_MAX_def WAL_LOG_MAX_def)
  have ids: "ts_id sample_state = sample_id" "\<not> ss_recovery empty_session"
    by (simp_all add: sample_state_def empty_session_def)
  obtain s' where "turn_journal (sole_write (xnode_new v)) ?jp 0 empty_session sample_state ''started'' None = (s', None)"
    using v wal ids by (simp add: turn_journal_def journal_put_def sole_write_def boundary_def)
  then have w: "turn_writes (sole_write (xnode_new v)) empty_session (F_started sample_id) s'"
    using turn_writes.started [of "sole_write (xnode_new v)" ?jp 0 empty_session sample_state None s']
    by (simp add: sample_state_def)
  have "journal_holds (sole_parse (xnode_new v)) empty_session []"
    by (simp add: journal_holds_def empty_session_def)
  with w journal_writes_read_back [OF w sole_value_lib] show ?thesis by (metis append_Nil)
qed

end
