(* ===== verification/Draft.thy ===== *)
theory Draft
  imports Working
begin

text \<open>
  Artifact drafts (\<^verbatim>\<open>src/draft.c\<close>): a write whose content is the draft marker gets its payload from a
  separate generation and is composed into the real call.  The rounds of the generation (prompt,
  model, checkpoint, budget) are arguments; what the code does with their answers, the unwrapping
  and the composition are modelled.
\<close>

section \<open>The payload\<close>

definition FENCE_TICKS :: string where "FENCE_TICKS = ''```''"

text \<open>One outer Markdown fence removed; None is a malformed one.\<close>

definition draft_unwrap :: "string \<Rightarrow> string option" where
  "draft_unwrap src =
     (let p = dropWhile blank_byte src in
      if take 3 p \<noteq> FENCE_TICKS then Some src
      else case dropWhile (\<lambda>c. c \<noteq> NL) (drop 3 p) of
        [] \<Rightarrow> None
      | _ # body \<Rightarrow>
          let text = rev (dropWhile blank_byte (rev body));
              line = rev (takeWhile (\<lambda>c. c \<noteq> NL) (rev text))
          in if dropWhile (\<lambda>c. c = SPACE \<or> c = TAB) line = FENCE_TICKS
             then Some (take (length text - length line) body) else None)"

definition draft_is_control :: "string \<Rightarrow> bool" where
  "draft_is_control text =
     (let p = rev (dropWhile blank_byte (rev (dropWhile blank_byte text))) in
      if list_ex (\<lambda>c. c = CRET \<or> c = NL) p then False
      else take 5 p = ''CALL '' \<or> (take 8 p = ''{action:'' \<and> last p = CHR ''}''))"

definition xcdn_char :: "char \<Rightarrow> string" where
  "xcdn_char c =
     (if c = DQUOTE then [BSLASH, DQUOTE] else if c = BSLASH then [BSLASH, BSLASH]
      else if c = NL then [BSLASH, CHR ''n''] else if c = CRET then [BSLASH, CHR ''r'']
      else if c = TAB then [BSLASH, CHR ''t'']
      else if byte c < 32 then [BSLASH] @ ''u00'' @ hex_pair c
      else [c])"

definition xcdn_string :: "string \<Rightarrow> string" where
  "xcdn_string text = [DQUOTE] @ concat (map xcdn_char text) @ [DQUOTE]"

text \<open>The largest overlap of the end of what is there with the start of the next piece.\<close>

definition draft_overlap :: "string \<Rightarrow> string \<Rightarrow> nat" where
  "draft_overlap complete chunk =
     (case find (\<lambda>n. drop (length complete - n) complete = take n chunk)
             (rev [1..<Suc (min (min (length complete) (length chunk)) 4096)]) of
        Some n \<Rightarrow> n
      | None \<Rightarrow> 0)"

record draft_round =
  dr_prepare :: "asngn_err option"
  dr_generation :: "asngn_err option"
  dr_chunk :: "string option"
  dr_checkpoint :: "asngn_err option"
  dr_budget :: bool

definition draft_accept :: "string \<Rightarrow> string outcome" where
  "draft_accept complete =
     (if complete = [] then Err ERR_PROTOCOL
      else case draft_unwrap complete of
        None \<Rightarrow> Err ERR_PROTOCOL
      | Some draft \<Rightarrow> if draft = [] \<or> draft_is_control draft then Err ERR_PROTOCOL else Ok draft)"

definition draft_join :: "bool \<Rightarrow> string \<Rightarrow> draft_round \<Rightarrow> string outcome" where
  "draft_join asper complete r =
     (case dr_chunk r of
        None \<Rightarrow> Ok complete
      | Some chunk \<Rightarrow>
          if chunk = [] then Ok complete
          else case (if asper then dr_checkpoint r else None) of
            Some e \<Rightarrow> Err e
          | None \<Rightarrow> Ok (complete @ drop (draft_overlap complete chunk) chunk))"

text \<open>The rounds until the backend finishes, refuses, or a budget stops it; None while it goes on.\<close>

fun draft_rounds :: "bool \<Rightarrow> string \<Rightarrow> draft_round list \<Rightarrow> string outcome option" where
  "draft_rounds asper complete [] = None"
| "draft_rounds asper complete (r # rs) =
     (case dr_prepare r of
        Some e \<Rightarrow> Some (Err e)
      | None \<Rightarrow>
          if dr_generation r \<noteq> None \<and> dr_generation r \<noteq> Some ERR_LIMIT then Some (Err (the (dr_generation r)))
          else case draft_join asper complete r of
            Err e \<Rightarrow> Some (Err e)
          | Ok next \<Rightarrow>
              if dr_generation r = None then Some (draft_accept next)
              else if next = [] \<or> dr_budget r then Some (Err ERR_LIMIT)
              else draft_rounds asper next rs)"

section \<open>The composed call\<close>

definition DRAFT_MARKER :: string where "DRAFT_MARKER = ''@asngn:draft''"
definition DRAFT_NEEDLE :: string where "DRAFT_NEEDLE = [DQUOTE] @ DRAFT_MARKER @ [DQUOTE]"

definition draft_ident_char :: "char \<Rightarrow> bool" where
  "draft_ident_char ch \<longleftrightarrow> is_lower ch \<or> is_upper ch \<or> is_digit ch \<or> ch = CHR ''_''"

definition alias_length :: "string \<Rightarrow> nat" where
  "alias_length p =
     (if take 13 p = ''C:/workspace/'' then 13 else if take 11 p = ''/workspace/'' then 11 else 0)"

function normalize_loop :: "string \<Rightarrow> string" where
  "normalize_loop [] = []"
| "normalize_loop (c # p) = c # normalize_loop (if c = DQUOTE then drop (alias_length p) p else p)"
  by pat_completeness auto
termination by (relation "measure length") (auto simp: less_Suc_eq_le)

definition normalize_aliases :: "string option \<Rightarrow> string" where
  "normalize_aliases args = normalize_loop (case args of Some a \<Rightarrow> a | None \<Rightarrow> ''{}'')"

function marker_count :: "string \<Rightarrow> nat" where
  "marker_count p =
     (case c_strstr p DRAFT_MARKER of None \<Rightarrow> 0 | Some i \<Rightarrow> Suc (marker_count (drop (i + 12) p)))"
  by pat_completeness auto
termination by (relation "measure length") (auto dest: c_strstr_le simp: DRAFT_MARKER_def)

declare marker_count.simps [simp del]

text \<open>The scanner over the arguments: depth of braces, in a string, after a backslash.\<close>

fun lex_step :: "int \<times> bool \<times> bool \<Rightarrow> char \<Rightarrow> int \<times> bool \<times> bool" where
  "lex_step (depth, in_str, esc) c =
     (if in_str then
        (if esc then (depth, True, False)
         else if c = BSLASH then (depth, True, True)
         else if c = DQUOTE then (depth, False, False)
         else (depth, True, False))
      else if c = DQUOTE then (depth, True, esc)
      else if c = CHR ''{'' then (depth + 1, False, esc)
      else if c = CHR ''}'' then (depth - 1, False, esc)
      else (depth, False, esc))"

text \<open>What follows the key: None goes on scanning; \<open>Some hit\<close> ends it, with the offset of the marker
  if it is the whole value.\<close>

definition content_value :: "string \<Rightarrow> nat option option" where
  "content_value s =
     (let q = dropWhile blank_byte s in
      if c_at q 0 \<noteq> CHR '':'' then None
      else let v = dropWhile blank_byte (drop 1 q) in
        if take 14 v \<noteq> DRAFT_NEEDLE then None
        else let after = c_at (dropWhile blank_byte (drop 14 v)) 0 in
          if after = CHR '','' \<or> after = CHR ''}'' then Some (Some (length s - length v)) else Some None)"

fun draft_scan :: "char \<Rightarrow> int \<times> bool \<times> bool \<Rightarrow> nat \<Rightarrow> string \<Rightarrow> nat option" where
  "draft_scan prev st i [] = None"
| "draft_scan prev st i (c # s) =
     (if \<not> fst (snd st) \<and> c \<noteq> DQUOTE \<and> c \<noteq> CHR ''{'' \<and> c \<noteq> CHR ''}'' \<and> fst st = 1 \<and> take 7 (c # s) = ''content'' \<and>
         \<not> draft_ident_char prev \<and> \<not> draft_ident_char (c_at (c # s) 7)
      then (case content_value (drop 7 (c # s)) of
              None \<Rightarrow> draft_scan c (lex_step st c) (Suc i) s
            | Some None \<Rightarrow> None
            | Some (Some off) \<Rightarrow> Some (i + 7 + off))
      else draft_scan c (lex_step st c) (Suc i) s)"

definition expand_write_draft ::
    "bool \<Rightarrow> string \<Rightarrow> string \<Rightarrow> string option \<Rightarrow> (string \<Rightarrow> string outcome) \<Rightarrow> string option outcome" where
  "expand_write_draft native ref cmd args content =
     (if native then Ok None
      else if \<not> tool_ref_is (Some ref) (Some ''fs'') \<or> cmd \<noteq> ''write'' then Ok None
      else if args = None then Ok None
      else
        let text = normalize_aliases args in
        if marker_count text = 0 then Ok None
        else case draft_scan NUL (0, False, False) 0 text of
          None \<Rightarrow> Err ERR_PROTOCOL
        | Some hit \<Rightarrow>
            if marker_count text \<noteq> 1 then Err ERR_PROTOCOL
            else case content text of
              Err e \<Rightarrow> Err e
            | Ok draft \<Rightarrow> Ok (Some (take hit text @ xcdn_string draft @ drop (hit + 14) text)))"

section \<open>A draft cannot leave its string\<close>

abbreviation lexed :: "int \<times> bool \<times> bool \<Rightarrow> string \<Rightarrow> int \<times> bool \<times> bool" where
  "lexed st s \<equiv> foldl lex_step st s"

lemma hex_digit_plain: "n < 16 \<Longrightarrow> hexd ! n \<noteq> DQUOTE \<and> hexd ! n \<noteq> BSLASH"
proof -
  have "list_all (\<lambda>n. hexd ! n \<noteq> DQUOTE \<and> hexd ! n \<noteq> BSLASH) [0..<16]" by code_simp
  then show "n < 16 \<Longrightarrow> ?thesis" by (simp add: list_all_iff)
qed

lemma xcdn_char_cases:
  obtains (escape) b where "xcdn_char c = [BSLASH, b]"
  | (control) x y where "xcdn_char c = [BSLASH, CHR ''u'', CHR ''0'', CHR ''0'', x, y]"
      "x \<noteq> DQUOTE" "x \<noteq> BSLASH" "y \<noteq> DQUOTE" "y \<noteq> BSLASH"
  | (plain) "xcdn_char c = [c]" "c \<noteq> DQUOTE" "c \<noteq> BSLASH"
proof -
  have "hexd ! drop_bit 4 (byte c) \<noteq> DQUOTE \<and> hexd ! drop_bit 4 (byte c) \<noteq> BSLASH"
    "hexd ! (byte c AND 15) \<noteq> DQUOTE \<and> hexd ! (byte c AND 15) \<noteq> BSLASH"
    using hex_digit_plain [of "byte c div 16"] hex_digit_plain [of "byte c mod 16"] nibbles [of "byte c"]
      less_mult_imp_div_less [of "byte c" 16 16] by auto
  note hex = this
  consider "c = DQUOTE \<or> c = BSLASH \<or> c = NL \<or> c = CRET \<or> c = TAB"
    | "c \<noteq> DQUOTE" "c \<noteq> BSLASH" "c \<noteq> NL" "c \<noteq> CRET" "c \<noteq> TAB" "byte c < 32"
    | "c \<noteq> DQUOTE" "c \<noteq> BSLASH" "c \<noteq> NL" "c \<noteq> CRET" "c \<noteq> TAB" "\<not> byte c < 32"
    by blast
  then show thesis
  proof cases
    case 1
    then have "\<exists>b. xcdn_char c = [BSLASH, b]" by (auto simp: xcdn_char_def)
    then show thesis using escape by blast
  next
    case 2
    then show thesis using hex by (intro control [of "hexd ! drop_bit 4 (byte c)" "hexd ! (byte c AND 15)"]) (simp_all add: xcdn_char_def hex_pair_def)
  next
    case 3
    then show thesis by (intro plain) (simp_all add: xcdn_char_def)
  qed
qed

lemma lexed_char: "lexed (d, True, False) (xcdn_char c) = (d, True, False)"
  by (cases rule: xcdn_char_cases [of c]) simp_all

lemma lexed_char_prefix: "fst (snd (lexed (d, True, False) (take n (xcdn_char c))))"
  by (cases rule: xcdn_char_cases [of c]) (simp_all add: take_Cons split: nat.split)

lemma lexed_body: "lexed (d, True, False) (concat (map xcdn_char t)) = (d, True, False)"
  by (induction t) (simp_all add: lexed_char del: lex_step.simps)

lemma lexed_body_prefix: "fst (snd (lexed (d, True, False) (take n (concat (map xcdn_char t)))))"
proof (induction t arbitrary: n)
  case (Cons c t)
  show ?case
  proof (cases "n \<le> length (xcdn_char c)")
    case True
    then show ?thesis using lexed_char_prefix [of d n c] by (simp del: lex_step.simps)
  next
    case False
    then show ?thesis using Cons.IH [of "n - length (xcdn_char c)"] by (simp add: lexed_char del: lex_step.simps)
  qed
qed simp

lemma lexed_string: "lexed (d, False, False) (xcdn_string t) = (d, False, False)"
  using lexed_body [of d t] by (simp add: xcdn_string_def)

lemma lexed_string_prefix:
  assumes "0 < n" "n < length (xcdn_string t)"
  shows "fst (snd (lexed (d, False, False) (take n (xcdn_string t))))"
proof -
  obtain m where m: "n = Suc m" "m \<le> length (concat (map xcdn_char t))"
    using assms by (cases n) (auto simp: xcdn_string_def)
  then show ?thesis using lexed_body_prefix [of d m t] by (simp add: xcdn_string_def)
qed

definition unhex :: "char \<Rightarrow> nat" where
  "unhex c = (if is_digit c then byte c - 48 else byte c - 87)"

text \<open>A text read as the inside of a string, up to the quote that ends it: the characters and the rest.\<close>

fun unescaped :: "string \<Rightarrow> (string \<times> string) option" where
  "unescaped [] = None"
| "unescaped (c # s) =
     (if c = DQUOTE then Some ([], s)
      else if c \<noteq> BSLASH then map_option (apfst (Cons c)) (unescaped s)
      else case s of
        [] \<Rightarrow> None
      | b # s' \<Rightarrow>
          if b = CHR ''n'' then map_option (apfst (Cons NL)) (unescaped s')
          else if b = CHR ''r'' then map_option (apfst (Cons CRET)) (unescaped s')
          else if b = CHR ''t'' then map_option (apfst (Cons TAB)) (unescaped s')
          else if b = CHR ''u'' then
            (case s' of
               z1 # z2 # x # y # s'' \<Rightarrow>
                 map_option (apfst (Cons (char_of (unhex x * 16 + unhex y)))) (unescaped s'')
             | _ \<Rightarrow> None)
          else map_option (apfst (Cons b)) (unescaped s'))"

lemma unhex_digit: "n < 16 \<Longrightarrow> unhex (hexd ! n) = n"
proof -
  have "list_all (\<lambda>n. unhex (hexd ! n) = n) [0..<16]" by code_simp
  then show "n < 16 \<Longrightarrow> ?thesis" by (simp add: list_all_iff)
qed

lemma unhex_pair: "hex_pair c = [x, y] \<Longrightarrow> char_of (unhex x * 16 + unhex y) = c"
proof -
  have "byte c div 16 < 16" using less_mult_imp_div_less [of "byte c" 16 16] by simp
  then show "hex_pair c = [x, y] \<Longrightarrow> ?thesis"
    using unhex_digit [of "byte c div 16"] unhex_digit [of "byte c mod 16"] nibbles [of "byte c"]
    by (auto simp: hex_pair_def byte_def)
qed

lemma unescaped_char: "unescaped (xcdn_char c @ s) = map_option (apfst (Cons c)) (unescaped s)"
proof (cases "c = DQUOTE \<or> c = BSLASH \<or> c = NL \<or> c = CRET \<or> c = TAB \<or> 32 \<le> byte c")
  case True
  then show ?thesis by (auto simp: xcdn_char_def)
next
  case False
  then have "xcdn_char c = [BSLASH] @ ''u00'' @ hex_pair c" by (simp add: xcdn_char_def)
  moreover obtain x y where "hex_pair c = [x, y]" by (simp add: hex_pair_def)
  ultimately show ?thesis using unhex_pair [of c x y] by simp
qed

lemma unescaped_string: "unescaped (drop 1 (xcdn_string t)) = Some (t, [])"
proof -
  have "unescaped (concat (map xcdn_char t) @ [DQUOTE]) = Some (t, [])"
    by (induction t) (simp_all add: unescaped_char)
  then show ?thesis by (simp add: xcdn_string_def)
qed

text \<open>
  What the scan finds, told without the scan.  \<open>content_key\<close>: a text that ends with a key spelled exactly
  \<open>content\<close>, its colon and blanks around it, the key standing at brace depth 1, outside strings and not
  at the end of a longer name.  \<open>value_ends\<close>: a text that closes the value before it.
\<close>

definition content_key :: "char \<Rightarrow> int \<times> bool \<times> bool \<Rightarrow> string \<Rightarrow> bool" where
  "content_key prev st pre \<longleftrightarrow>
     (\<exists>front b1 b2. pre = front @ ''content'' @ b1 @ '':'' @ b2 \<and> list_all blank_byte b1 \<and> list_all blank_byte b2 \<and>
        lexed st front = (1, False, False) \<and> \<not> draft_ident_char (last (prev # front)))"

definition value_ends :: "string \<Rightarrow> bool" where
  "value_ends post \<longleftrightarrow> (\<exists>b c rest. post = b @ c # rest \<and> list_all blank_byte b \<and> (c = CHR '','' \<or> c = CHR ''}''))"

lemma content_key_step:
  "content_key c (lex_step st c) pre \<Longrightarrow> content_key prev st (c # pre)"
  unfolding content_key_def
proof (elim exE conjE)
  fix front b1 b2
  assume "pre = front @ ''content'' @ b1 @ '':'' @ b2" "list_all blank_byte b1" "list_all blank_byte b2"
    "lexed (lex_step st c) front = (1, False, False)" "\<not> draft_ident_char (last (c # front))"
  then show "\<exists>front b1 b2. c # pre = front @ ''content'' @ b1 @ '':'' @ b2 \<and> list_all blank_byte b1 \<and> list_all blank_byte b2 \<and>
      lexed st front = (1, False, False) \<and> \<not> draft_ident_char (last (prev # front))"
    by (intro exI [of _ "c # front"] exI [of _ b1] exI [of _ b2]) (simp del: lex_step.simps)
qed

lemma lexed_blank: "list_all blank_byte s \<Longrightarrow> lexed (d, False, False) s = (d, False, False)"
  by (induction s) (auto simp: blank_byte_def)

lemma dropWhile_blank_split: obtains b where "s = b @ dropWhile blank_byte s" "list_all blank_byte b"
  using takeWhile_dropWhile_id [of blank_byte s] set_takeWhileD [of _ blank_byte s] by (metis list.pred_set)

lemma content_value_split:
  assumes "content_value s = Some (Some off)"
  obtains b1 b2 post where "s = (b1 @ '':'' @ b2) @ DRAFT_NEEDLE @ post" "off = length (b1 @ '':'' @ b2)"
    "list_all blank_byte b1" "list_all blank_byte b2" "value_ends post"
proof -
  define q where "q = dropWhile blank_byte s"
  define v where "v = dropWhile blank_byte (drop (Suc 0) q)"
  define e where "e = dropWhile blank_byte (drop 14 v)"
  have c: "c_at q 0 = CHR '':''" "take 14 v = DRAFT_NEEDLE" "off = length s - length v" "c_at e 0 = CHR '','' \<or> c_at e 0 = CHR ''}''"
    using assms by (auto simp: content_value_def q_def [symmetric] v_def [symmetric] e_def [symmetric] Let_def split: if_splits)
  obtain b1 where b1: "s = b1 @ q" "list_all blank_byte b1" using dropWhile_blank_split [of s] by (auto simp: q_def)
  obtain b2 where b2: "drop (Suc 0) q = b2 @ v" "list_all blank_byte b2" using dropWhile_blank_split [of "drop (Suc 0) q"] by (auto simp: v_def)
  obtain b3 where b3: "drop 14 v = b3 @ e" "list_all blank_byte b3" using dropWhile_blank_split [of "drop 14 v"] by (auto simp: e_def)
  have q: "q = CHR '':'' # b2 @ v" using c(1) b2(1) by (cases q) auto
  have v: "v = DRAFT_NEEDLE @ drop 14 v" using c(2) append_take_drop_id [of 14 v] by simp
  have e: "\<exists>x rest. e = x # rest \<and> (x = CHR '','' \<or> x = CHR ''}'')" using c(4) by (cases e) auto
  have "value_ends (drop 14 v)" unfolding value_ends_def using b3 e by metis
  moreover have "s = (b1 @ '':'' @ b2) @ DRAFT_NEEDLE @ drop 14 v" using b1(1) q v by simp
  moreover have "off = length (b1 @ '':'' @ b2)" using c(3) b1(1) q by simp
  ultimately show thesis using that b1(2) b2(2) by blast
qed

lemma draft_scan_hit:
  assumes "draft_scan prev st i s = Some hit" "\<not> snd (snd st) \<or> fst (snd st)"
  shows "\<exists>pre post. s = pre @ DRAFT_NEEDLE @ post \<and> hit = i + length pre \<and> lexed st pre = (1, False, False) \<and>
    content_key prev st pre \<and> value_ends post"
  using assms
proof (induction s arbitrary: prev st i)
  case (Cons c s)
  obtain d str esc where st: "st = (d, str, esc)" by (cases st) auto
  show ?case
  proof (cases "draft_scan c (lex_step st c) (Suc i) s = Some hit")
    case True
    have "\<not> snd (snd (lex_step st c)) \<or> fst (snd (lex_step st c))" using Cons.prems(2) by (auto simp: st)
    from Cons.IH [OF True this] obtain pre post where
      "s = pre @ DRAFT_NEEDLE @ post" "hit = Suc i + length pre" "lexed (lex_step st c) pre = (1, False, False)"
      "content_key c (lex_step st c) pre" "value_ends post" by blast
    then show ?thesis using content_key_step [of c st pre prev]
      by (intro exI [of _ "c # pre"] exI [of _ post]) (simp del: lex_step.simps)
  next
    case False
    then obtain off where
      key: "\<not> str" "d = 1" "take 7 (c # s) = ''content''" "content_value (drop 7 (c # s)) = Some (Some off)" "hit = i + 7 + off"
        "\<not> draft_ident_char prev"
      using Cons.prems(1) by (auto simp: st split: if_splits option.splits simp del: lex_step.simps take_Suc_Cons drop_Suc_Cons)
    obtain b1 b2 post where pre: "drop 7 (c # s) = (b1 @ '':'' @ b2) @ DRAFT_NEEDLE @ post" "off = length (b1 @ '':'' @ b2)"
        "list_all blank_byte b1" "list_all blank_byte b2" "value_ends post"
      using content_value_split [OF key(4)] by blast
    let ?pre = "''content'' @ b1 @ '':'' @ b2"
    have "c # s = take 7 (c # s) @ drop 7 (c # s)" by (rule append_take_drop_id [symmetric])
    also have "\<dots> = ?pre @ DRAFT_NEEDLE @ post" unfolding key(3) pre(1) by simp
    finally have "c # s = ?pre @ DRAFT_NEEDLE @ post" .
    moreover have start: "st = (1, False, False)" using key(1,2) Cons.prems(2) by (simp add: st)
    moreover have "lexed st ?pre = (1, False, False)" by (simp add: start lexed_blank pre(3,4))
    moreover have "content_key prev st ?pre"
      unfolding content_key_def using key(6) pre(3,4) start by (intro exI [of _ "[]"] exI [of _ b1] exI [of _ b2]) simp
    ultimately show ?thesis using pre(2,5) key(5) by (intro exI [of _ ?pre] exI [of _ post]) simp
  qed
qed simp

text \<open>
  C32. A draft cannot leave its string: when a write is composed, the generated content replaces
  exactly one marker, the only one of the arguments, which is the whole value of a key spelled
  \<open>content\<close> at brace depth 1 and outside strings; nothing else of the arguments changes.  Whatever
  the content is, a scanner is inside one string over all of it and back outside behind it at the
  same depth, and that string reads back as the content.
\<close>

theorem draft_stays_in_string:
  assumes "expand_write_draft native ref cmd args content = Ok (Some out)"
  shows "\<exists>pre post draft. normalize_aliases args = pre @ DRAFT_NEEDLE @ post \<and> content (normalize_aliases args) = Ok draft \<and>
    out = pre @ xcdn_string draft @ post \<and> lexed (0, False, False) pre = (1, False, False) \<and>
    content_key NUL (0, False, False) pre \<and> value_ends post \<and> marker_count (normalize_aliases args) = 1 \<and>
    (\<forall>n. 0 < n \<and> n < length (xcdn_string draft) \<longrightarrow> fst (snd (lexed (1, False, False) (take n (xcdn_string draft))))) \<and>
    lexed (1, False, False) (xcdn_string draft) = (1, False, False) \<and> unescaped (drop 1 (xcdn_string draft)) = Some (draft, [])"
proof -
  let ?t = "normalize_aliases args"
  obtain hit draft where h: "draft_scan NUL (0, False, False) 0 ?t = Some hit" "content ?t = Ok draft"
    "out = take hit ?t @ xcdn_string draft @ drop (hit + 14) ?t" "marker_count ?t = 1"
    using assms by (auto simp: expand_write_draft_def Let_def split: if_splits option.splits sum.splits)
  obtain pre post where p: "?t = pre @ DRAFT_NEEDLE @ post" "hit = length pre" "lexed (0, False, False) pre = (1, False, False)"
    "content_key NUL (0, False, False) pre" "value_ends post"
    using draft_scan_hit [OF h(1)] by auto
  have "length DRAFT_NEEDLE = 14" by (simp add: DRAFT_NEEDLE_def DRAFT_MARKER_def)
  then have "out = pre @ xcdn_string draft @ post" using h(3) p(1,2) by simp
  then show ?thesis
    using h(2,4) p(1,3-) lexed_string [of 1 draft] lexed_string_prefix [of _ draft 1] unescaped_string [of draft]
    by (intro exI [of _ pre] exI [of _ post] exI [of _ draft]) (simp del: lex_step.simps)
qed

definition sample_draft_args :: string where
  "sample_draft_args = ''{path: '' @ [DQUOTE] @ ''/workspace/a.c'' @ [DQUOTE] @ '', content: '' @ DRAFT_NEEDLE @ ''}''"

theorem draft_stays_in_string_witness:
  "\<exists>pre post. expand_write_draft False ''fs@1'' ''write'' (Some sample_draft_args) (\<lambda>_. Ok [DQUOTE, NL, CHR ''}'']) =
      Ok (Some (pre @ [DQUOTE, BSLASH, DQUOTE, BSLASH, CHR ''n'', CHR ''}'', DQUOTE] @ post)) \<and>
    lexed (0, False, False) pre = (1, False, False)"
proof -
  have run: "expand_write_draft False ''fs@1'' ''write'' (Some sample_draft_args) (\<lambda>_. Ok [DQUOTE, NL, CHR ''}'']) =
      Ok (Some (''{path: '' @ [DQUOTE] @ ''a.c'' @ [DQUOTE] @ '', content: '' @
        [DQUOTE, BSLASH, DQUOTE, BSLASH, CHR ''n'', CHR ''}'', DQUOTE] @ ''}''))"
    by code_simp
  moreover have "xcdn_string [DQUOTE, NL, CHR ''}''] = [DQUOTE, BSLASH, DQUOTE, BSLASH, CHR ''n'', CHR ''}'', DQUOTE]"
    by code_simp
  ultimately show ?thesis using draft_stays_in_string [OF run] by auto
qed

end
