(* ===== verification/Dispatch.thy ===== *)
theory Dispatch
  imports Draft Confirmation Work_Observe Toolcache Task_Record
begin

text \<open>
  The pipeline every tool call goes through, \<^verbatim>\<open>asngn_call_execute\<close> of \<^verbatim>\<open>src/tool_action.c\<close>, with the
  selection lookup and the invocation of \<^verbatim>\<open>src/tools.c\<close>: selection, preflight, draft, profile gate,
  repeat guard, call cap, result cache, confirmation gate, journal, invocation, evidence.

  The tools library, the model's draft, the workspace hash, the event log and the clock answer
  through the environment of the call; what the tools library was asked to run is kept as a list.
  Telemetry, log lines and notices are left out, as are the token counts of a digest.  The flag
  \<^verbatim>\<open>recovery_required\<close> of the session is the one of its contract and approval stores.
\<close>

section \<open>State and environment\<close>

datatype turn_phase = PHASE_ACTION | PHASE_DRAFT | PHASE_RESPONSE

record catalog_command =
  cc_cmd :: selected_command
  cc_tool :: string
  cc_read_only :: bool
  cc_destructive :: bool
  cc_idempotent :: bool

datatype tool_err = TOOL_DENIED | TOOL_TIMEOUT | TOOL_CANCELLED | TOOL_FAILED

record tool_result =
  tr_err :: "tool_err option"
  tr_ok :: bool
  tr_xcdn :: "string option"
  tr_code :: "string option"

text \<open>
  A history variable, which the code does not have: what the world looked like when a tool was
  called.  It holds the bytes of the turn journal, the contract with its evidence, and the flag of
  the turn that the artifact is verified.
\<close>

record call_scene =
  sn_journal :: string
  sn_work :: "work_store option"
  sn_verified :: bool

record agent =
  ag_turn :: turn_state
  ag_session :: session
  ag_work :: work_session
  ag_store :: approval_store
  ag_grants :: "string list"
  ag_cache :: "tc_entry list"
  ag_profile :: security_profile
  ag_phase :: turn_phase
  ag_selection :: "catalog_command list"
  ag_notes :: "string list"
  ag_keys :: "string list"
  ag_osc_a :: string
  ag_osc_b :: string
  ag_osc_cycles :: nat
  ag_repeats :: nat
  ag_futile :: nat
  ag_call_mute :: bool
  ag_tool_calls :: nat
  ag_tools_used :: bool
  ag_tool_ok :: bool
  ag_wrote :: bool
  ag_blocked :: bool
  ag_labels :: "string list"
  ag_invoked :: "(string \<times> string) list"
  ag_scenes :: "call_scene list"

record call_config =
  cl_native :: bool
  cl_max_tools :: int
  cl_cache :: tc_config
  cl_confirm :: confirm_mode
  cl_asper :: bool

record call_env =
  ce_tools_on :: bool
  ce_parse :: "string \<Rightarrow> (string \<times> string \<times> string) option"
  ce_annotated :: "string \<Rightarrow> string \<Rightarrow> tool_note option"
  ce_validate :: "string \<Rightarrow> string \<Rightarrow> tool_err option"
  ce_revalidate :: "string \<Rightarrow> string \<Rightarrow> tool_err option"
  ce_last_error :: string
  ce_draft :: "string \<Rightarrow> string outcome"
  ce_push :: "string \<Rightarrow> asngn_err option"
  ce_error_text :: "string \<Rightarrow> string \<Rightarrow> string \<Rightarrow> string \<Rightarrow> string option"
  ce_result_text :: "string \<Rightarrow> string \<Rightarrow> tool_result \<Rightarrow> string option"
  ce_draft_hash :: string
  ce_hash :: string
  ce_hash_after :: string
  ce_now :: int
  ce_tick :: int
  ce_base_root :: string
  ce_random :: string
  ce_redactor :: "string \<Rightarrow> string option outcome"
  ce_gate :: gate_env
  ce_event :: "asngn_err option"
  ce_remaining :: "int option"
  ce_action_id :: string
  ce_jp_action :: journal_plan
  ce_jp_observed :: journal_plan
  ce_io_revoke :: "bool \<times> io_plan"
  ce_io_observe :: "bool \<times> io_plan"
  ce_cancel :: bool
  ce_result :: tool_result
  ce_proof_base :: "string option"
  ce_proof_after :: "string option"
  ce_digest :: "string \<Rightarrow> string option"
  ce_xparse :: "string \<Rightarrow> xnode list option"
  ce_xwrite :: "xnode \<Rightarrow> string option"

section \<open>Tools\<close>

fun tools_find :: "catalog_command list \<Rightarrow> string \<Rightarrow> string \<Rightarrow> nat option" where
  "tools_find [] ref command = None"
| "tools_find (v # vs) ref command =
     (if sc_command (cc_cmd v) = command \<and>
         (sc_ref (cc_cmd v) = ref \<or>
          (take (length ref) (cc_tool v) = ref \<and> c_at (cc_tool v) (length ref) = CHR ''.'' \<and>
           drop (length ref + 1) (cc_tool v) = command))
      then Some 0 else map_option Suc (tools_find vs ref command))"

definition tool_cancelled :: tool_result where
  "tool_cancelled = \<lparr>tr_err = Some TOOL_CANCELLED, tr_ok = False, tr_xcdn = None, tr_code = None\<rparr>"

definition call_scene_of :: "agent \<Rightarrow> call_scene" where
  "call_scene_of a =
     \<lparr>sn_journal = st_file (ss_journal_st (ag_session a)), sn_work = ws_store (ag_work a),
      sn_verified = ts_verified (ag_turn a)\<rparr>"

definition tools_invoke :: "call_env \<Rightarrow> agent \<Rightarrow> string \<Rightarrow> string \<Rightarrow> agent \<times> tool_result" where
  "tools_invoke env a tool args =
     (if ce_cancel env then (a, tool_cancelled)
      else (a\<lparr>ag_invoked := ag_invoked a @ [(tool, args)], ag_scenes := ag_scenes a @ [call_scene_of a]\<rparr>, ce_result env))"

section \<open>Pushing outcomes\<close>

definition work_push :: "call_env \<Rightarrow> agent \<Rightarrow> string \<Rightarrow> agent \<times> asngn_err option" where
  "work_push env a text =
     (case ce_push env text of
        Some e \<Rightarrow> (a, Some e)
      | None \<Rightarrow> (a\<lparr>ag_notes := ag_notes a @ [text]\<rparr>, None))"

definition call_error ::
    "call_env \<Rightarrow> agent \<Rightarrow> string \<Rightarrow> string \<Rightarrow> string option \<Rightarrow> string \<Rightarrow> string \<Rightarrow> agent \<times> asngn_err option" where
  "call_error env a ref cmd args code message =
     work_push env a (call_outcome (ss_redact (ag_session a)) ref cmd args
       (error_line (ce_error_text env ref cmd code message) ref cmd code message))"

definition call_fallback :: "call_env \<Rightarrow> agent \<Rightarrow> string option \<Rightarrow> agent" where
  "call_fallback env a fallback =
     (case fallback_note fallback of None \<Rightarrow> a | Some text \<Rightarrow> fst (work_push env a text))"

text \<open>An error after which the model's own fallback is shown.\<close>

definition refuse ::
    "call_env \<Rightarrow> agent \<Rightarrow> string \<Rightarrow> string \<Rightarrow> string \<Rightarrow> string \<Rightarrow> string \<Rightarrow> string option \<Rightarrow> agent \<times> asngn_err option" where
  "refuse env a ref cmd args code message fallback =
     (case call_error env a ref cmd (Some args) code message of
        (a', None) \<Rightarrow> (call_fallback env a' fallback, None)
      | (a', Some e) \<Rightarrow> (a', Some e))"

section \<open>Guards before the gate\<close>

definition readonly_excludes :: "security_profile \<Rightarrow> bool \<Rightarrow> bool \<Rightarrow> bool" where
  "readonly_excludes profile read_only destructive \<longleftrightarrow> profile = CODING_READONLY \<and> (\<not> read_only \<or> destructive)"

definition not_selected :: "call_env \<Rightarrow> agent \<Rightarrow> string \<Rightarrow> string \<Rightarrow> string \<Rightarrow> agent \<times> asngn_err option" where
  "not_selected env a ref cmd args =
     (let a1 = (case ce_annotated env ref cmd of
                  Some note \<Rightarrow> if readonly_excludes (ag_profile a) (tn_read_only note) (tn_destructive note)
                    then a\<lparr>ag_blocked := True\<rparr> else a
                | None \<Rightarrow> a)
      in call_error env a1 ref cmd (Some args) ''asngn/not-selected''
           ''command unavailable in this selection; use discover with its name or purpose'')"

text \<open>A call that repeats one of this turn in an unchanged world.\<close>

definition repeated :: "agent \<Rightarrow> agent" where
  "repeated a = a\<lparr>ag_repeats := ag_repeats a + 1, ag_futile := ag_futile a + 1, ag_call_mute := True\<rparr>"

definition remember_key :: "agent \<Rightarrow> string \<Rightarrow> agent" where
  "remember_key a key = a\<lparr>ag_keys := ag_keys a @ [key]\<rparr>"

definition is_draft_call :: "call_config \<Rightarrow> string \<Rightarrow> string \<Rightarrow> string \<Rightarrow> bool" where
  "is_draft_call cfg ref cmd args \<longleftrightarrow>
     \<not> cl_native cfg \<and> ref = ''fs'' \<and> cmd = ''write'' \<and> c_strstr args DRAFT_MARKER \<noteq> None"

definition draft_intent :: "string \<Rightarrow> string \<Rightarrow> string \<Rightarrow> string" where
  "draft_intent ref cmd args = asngn_sha256 (''draft|'' @ ref @ ''|'' @ cmd @ ''|'' @ args)"

text \<open>The guard of a draft: a refusal, or the state with the place of the draft's key.\<close>

definition draft_guard ::
    "call_env \<Rightarrow> call_config \<Rightarrow> agent \<Rightarrow> string \<Rightarrow> string \<Rightarrow> string \<Rightarrow>
     (agent \<times> asngn_err option) + (agent \<times> (string \<times> nat) option)" where
  "draft_guard env cfg a ref cmd args =
     (if \<not> is_draft_call cfg ref cmd args then Inr (a, None)
      else
        let intent = draft_intent ref cmd args;
            key = call_state_key intent (ce_draft_hash env) (ss_epoch (ag_session a))
        in if key \<in> set (ag_keys a) then
             Inl (call_error env (repeated a) ref cmd (Some args) ''asngn/repeat''
               ''the same artifact write was already attempted in the current workspace state'')
           else Inr (remember_key a key, Some (intent, length (ag_keys a))))"

record call_ctx =
  cx_sel :: catalog_command
  cx_ref :: string
  cx_cmd :: string
  cx_args :: string
  cx_expanded :: "string option"
  cx_draft :: "(string \<times> nat) option"
  cx_fallback :: "string option"

definition cx_exec :: "call_ctx \<Rightarrow> string" where
  "cx_exec cx = (case cx_expanded cx of Some x \<Rightarrow> x | None \<Rightarrow> cx_args cx)"

definition cx_intent :: "call_ctx \<Rightarrow> string" where
  "cx_intent cx =
     asngn_sha256 (sc_ref (cc_cmd (cx_sel cx)) @ ''|'' @ sc_sha (cc_cmd (cx_sel cx)) @ ''|'' @ cx_cmd cx @ ''|'' @
       call_args (Some (cx_exec cx)))"

definition cx_cache_key :: "call_env \<Rightarrow> call_ctx \<Rightarrow> string" where
  "cx_cache_key env cx =
     sha256_final (sha256_update (sha256_update sha256_init (cx_intent cx)) (sha256_hex (Some (ce_hash env)) 32))"

definition cx_label :: "call_ctx \<Rightarrow> string" where
  "cx_label cx = take 131 (cx_ref cx @ ''.'' @ cx_cmd cx)"

definition cx_note :: "call_ctx \<Rightarrow> tool_note" where
  "cx_note cx = \<lparr>tn_read_only = cc_read_only (cx_sel cx), tn_destructive = cc_destructive (cx_sel cx)\<rparr>"

definition cx_verifies :: "call_ctx \<Rightarrow> bool" where
  "cx_verifies cx = verification_command (Some (cx_ref cx)) (Some (cx_cmd cx))"

definition repeat_guard ::
    "call_env \<Rightarrow> agent \<Rightarrow> call_ctx \<Rightarrow> (agent \<times> asngn_err option) + agent" where
  "repeat_guard env a cx =
     (let key = call_state_key (cx_intent cx) (ce_hash env) (ss_epoch (ag_session a)) in
      if key \<in> set (ag_keys a) then
        let a1 = (if key = ag_osc_b a \<and> ag_osc_a a \<noteq> ag_osc_b a then a\<lparr>ag_osc_cycles := ag_osc_cycles a + 1\<rparr> else a);
            a2 = a1\<lparr>ag_osc_b := ag_osc_a a, ag_osc_a := key\<rparr>
        in Inl (call_error env (repeated a2) (cx_ref cx) (cx_cmd cx) (Some (cx_args cx)) ''asngn/repeat''
             ''already ran; result above'')
      else Inr (remember_key (a\<lparr>ag_osc_b := ag_osc_a a, ag_osc_a := key, ag_repeats := 0\<rparr>) key))"

definition cap_guard :: "call_env \<Rightarrow> call_config \<Rightarrow> agent \<Rightarrow> call_ctx \<Rightarrow> (agent \<times> asngn_err option) + agent" where
  "cap_guard env cfg a cx =
     (if cl_max_tools cfg \<le> int (ag_tool_calls a) then
        Inl (call_error env (a\<lparr>ag_futile := ag_futile a + 1\<rparr>) (cx_ref cx) (cx_cmd cx) (Some (cx_args cx)) ''asngn/tool-cap''
          ''tool budget for this turn is spent; answer with what you have'')
      else Inr (a\<lparr>ag_futile := 0\<rparr>))"

section \<open>The result cache\<close>

definition cacheable :: "call_config \<Rightarrow> call_ctx \<Rightarrow> bool" where
  "cacheable cfg cx \<longleftrightarrow> tc_on (cl_cache cfg) \<and> cc_read_only (cx_sel cx) \<and> cc_idempotent (cx_sel cx)"

definition cached_outcome :: "call_env \<Rightarrow> agent \<Rightarrow> call_ctx \<Rightarrow> string \<Rightarrow> agent \<times> asngn_err option" where
  "cached_outcome env a cx hit =
     (case ce_result_text env (cx_ref cx) (cx_cmd cx)
         \<lparr>tr_err = None, tr_ok = True, tr_xcdn = Some hit, tr_code = None\<rparr> of
        None \<Rightarrow> (a, None)
      | Some line \<Rightarrow>
          work_push env a (call_outcome (ss_redact (ag_session a)) (cx_ref cx) (cx_cmd cx) (Some (cx_args cx)) line))"

definition cache_guard :: "call_env \<Rightarrow> call_config \<Rightarrow> agent \<Rightarrow> call_ctx \<Rightarrow> (agent \<times> asngn_err option) + agent" where
  "cache_guard env cfg a cx =
     (if \<not> cacheable cfg cx then Inr a
      else case tc_get (cl_cache cfg) (ce_now env) (ce_tick env) (cx_cache_key env cx) (ag_cache a) of
        (c, None) \<Rightarrow> Inr (a\<lparr>ag_cache := c\<rparr>)
      | (c, Some hit) \<Rightarrow>
          let r = cached_outcome env (a\<lparr>ag_cache := c\<rparr>) cx hit in
          Inl ((fst r)\<lparr>ag_tools_used := True, ag_tool_ok := True, ag_labels := ag_labels (fst r) @ [cx_label cx]\<rparr>, snd r))"

section \<open>The gate\<close>

definition denied_notice :: "call_ctx \<Rightarrow> string \<Rightarrow> string" where
  "denied_notice cx code =
     take 191 (if code = ''asngn/approval-stale''
       then ''The workspace or tool changed while approval was pending. A new request needs review before execution.''
       else ''Authorization required: '' @ cx_ref cx @ ''.'' @ cx_cmd cx @
         '' was not approved. Change the security profile or confirmation policy to continue.'')"

definition gate :: "call_env \<Rightarrow> call_config \<Rightarrow> agent \<Rightarrow> call_ctx \<Rightarrow> gate_result option" where
  "gate env cfg a cx =
     call_confirm (ce_xwrite env) (ce_redactor env) (ce_gate env) (ce_random env) (cl_confirm cfg) (ag_profile a)
       (ts_id (ag_turn a)) (ce_base_root env) ((ag_store a)\<lparr>as_recovery := ss_recovery (ag_session a)\<rparr>) (ag_grants a)
       (cc_cmd (cx_sel cx)) (Some (cx_exec cx)) (cx_note cx)"

definition after_gate :: "agent \<Rightarrow> gate_result \<Rightarrow> agent" where
  "after_gate a g =
     a\<lparr>ag_store := gr_store g, ag_grants := gr_grants g,
       ag_session := (ag_session a)\<lparr>ss_recovery := as_recovery (gr_store g)\<rparr>,
       ag_turn := (ag_turn a)\<lparr>ts_approval := gr_approval g\<rparr>\<rparr>"

section \<open>Invocation\<close>

text \<open>What was asked of the event log, the clock and the journal before the tool may run.\<close>

definition announce :: "call_env \<Rightarrow> call_config \<Rightarrow> agent \<Rightarrow> call_ctx \<Rightarrow> agent \<times> asngn_err option" where
  "announce env cfg a cx =
     (if cl_asper cfg \<and> ce_event env \<noteq> None then (a, ce_event env)
      else if (case ce_remaining env of Some r \<Rightarrow> r \<le> 0 | None \<Rightarrow> False) then (a, Some ERR_TIMEOUT)
      else
        let t = (ag_turn a)\<lparr>ts_mutates := \<not> cc_read_only (cx_sel cx), ts_action := ce_action_id env\<rparr> in
        (case turn_journal (ce_xwrite env) (ce_jp_action env) (ce_now env) (ag_session a) t ''action''
            (Some (cx_ref cx @ ''.'' @ cx_cmd cx @ '' '' @ cx_exec cx)) of
           (s, e) \<Rightarrow> (a\<lparr>ag_turn := t, ag_session := s\<rparr>, e)))"

text \<open>A mutation that is not a verification makes all evidence stale before it runs.\<close>

definition revoke_evidence :: "call_env \<Rightarrow> agent \<Rightarrow> call_ctx \<Rightarrow> agent \<times> asngn_err option" where
  "revoke_evidence env a cx =
     (if cc_read_only (cx_sel cx) \<or> cx_verifies cx then (a, None)
      else case work_revoke (ce_xwrite env) (ce_io_revoke env) ((ag_work a)\<lparr>ws_recovery := ss_recovery (ag_session a)\<rparr>) of
        (w, e) \<Rightarrow>
          (a\<lparr>ag_turn := (ag_turn a)\<lparr>ts_attempted := False, ts_verified := False\<rparr>, ag_work := w,
             ag_session := (ag_session a)\<lparr>ss_recovery := ws_recovery w\<rparr>\<rparr>, e))"

definition tool_fine :: "tool_result \<Rightarrow> bool" where
  "tool_fine r \<longleftrightarrow> tr_err r = None \<and> tr_ok r"

definition proof_text :: "bool \<Rightarrow> string option \<Rightarrow> string" where
  "proof_text verifies fingerprint =
     (if verifies then (case fingerprint of Some f \<Rightarrow> take 64 f | None \<Rightarrow> []) else [])"

text \<open>The outcome of a verification command; the id of the action is copied aside too, and never read.\<close>

definition verify :: "call_env \<Rightarrow> agent \<Rightarrow> call_ctx \<Rightarrow> tool_result \<Rightarrow> agent" where
  "verify env a cx r =
     (if \<not> cx_verifies cx then a
      else
        let base = proof_text True (ce_proof_base env) in
        a\<lparr>ag_turn := (ag_turn a)\<lparr>ts_attempted := True,
            ts_verified := (tool_fine r \<and> verification_result_ok (ce_xparse env) (tr_xcdn r) \<and> base \<noteq> [] \<and>
              base = proof_text True (ce_proof_after env)),
            ts_snapshot := base\<rparr>\<rparr>)"

definition observed_text :: "tool_result \<Rightarrow> string" where
  "observed_text r =
     (case tr_xcdn r of Some x \<Rightarrow> x | None \<Rightarrow> (case tr_code r of Some c \<Rightarrow> c | None \<Rightarrow> ''unknown outcome''))"

text \<open>The call of the tool and the record of what it did.\<close>

definition run_tool :: "call_env \<Rightarrow> agent \<Rightarrow> call_ctx \<Rightarrow> agent \<times> tool_result" where
  "run_tool env a cx =
     (case tools_invoke env a (cc_tool (cx_sel cx)) (cx_exec cx) of
        (a1, r) \<Rightarrow>
          (verify env (a1\<lparr>ag_tool_calls := ag_tool_calls a1 + 1, ag_tools_used := True,
             ag_tool_ok := (ag_tool_ok a1 \<or> tool_fine r)\<rparr>) cx r, r))"

definition observe_result :: "call_env \<Rightarrow> agent \<Rightarrow> call_ctx \<Rightarrow> tool_result \<Rightarrow> agent \<times> asngn_err option" where
  "observe_result env a cx r =
     (case turn_journal (ce_xwrite env) (ce_jp_observed env) (ce_now env) (ag_session a) (ag_turn a) ''observed''
         (Some (observed_text r)) of
        (s, Some e) \<Rightarrow> (a\<lparr>ag_session := s\<rparr>, Some e)
      | (s, None) \<Rightarrow>
          (case work_observe (ce_xparse env) (ce_xwrite env) (ce_io_observe env) ((ag_work a)\<lparr>ws_recovery := ss_recovery s\<rparr>)
              (Some (cx_ref cx)) (Some (cx_exec cx))
              \<lparr>ob_action = ts_action (ag_turn a), ob_cmd = cx_cmd cx, ob_ok = tool_fine r, ob_result = tr_xcdn r,
               ob_before = Some (proof_text (cx_verifies cx) (ce_proof_base env)),
               ob_after = Some (proof_text (cx_verifies cx) (ce_proof_after env))\<rparr> of
             (w, e) \<Rightarrow> (a\<lparr>ag_work := w, ag_session := s\<lparr>ss_recovery := ws_recovery w\<rparr>\<rparr>, e)))"

section \<open>After the tool\<close>

definition synthesized_code :: "tool_err option \<Rightarrow> string" where
  "synthesized_code e =
     (case e of Some TOOL_DENIED \<Rightarrow> ''astools/denied'' | Some TOOL_TIMEOUT \<Rightarrow> ''astools/timeout''
      | Some TOOL_CANCELLED \<Rightarrow> ''astools/cancelled'' | _ \<Rightarrow> ''astools/failed'')"

definition result_denied :: "tool_result \<Rightarrow> bool" where
  "result_denied r \<longleftrightarrow> tr_err r = Some TOOL_DENIED \<or> (case tr_code r of Some c \<Rightarrow> c_strstr c ''denied'' \<noteq> None | None \<Rightarrow> False)"

text \<open>A successful mutation opens a new epoch: nothing cached survives it, and the keys of the call
  move to the state it produced.\<close>

definition moved_keys :: "call_env \<Rightarrow> call_ctx \<Rightarrow> nat \<Rightarrow> nat \<Rightarrow> string list \<Rightarrow> string list" where
  "moved_keys env cx pos epoch keys =
     (let keys1 = keys[pos := call_state_key (cx_intent cx) (ce_hash_after env) epoch] in
      case cx_draft cx of
        Some (intent, dpos) \<Rightarrow> keys1[dpos := call_state_key intent (ce_hash_after env) epoch]
      | None \<Rightarrow> keys1)"

definition new_epoch :: "call_env \<Rightarrow> agent \<Rightarrow> call_ctx \<Rightarrow> nat \<Rightarrow> agent" where
  "new_epoch env a cx pos =
     (let t = ag_turn a;
          t1 = (if artifact_command (cx_ref cx) (cx_cmd cx) \<and> \<not> cx_verifies cx
                then t\<lparr>ts_written := True, ts_attempted := False, ts_verified := False\<rparr> else t);
          epoch = ss_epoch (ag_session a) + 1
      in a\<lparr>ag_wrote := True, ag_turn := t1, ag_session := (ag_session a)\<lparr>ss_epoch := epoch\<rparr>,
           ag_cache := tc_clear (ag_cache a), ag_keys := moved_keys env cx pos epoch (ag_keys a)\<rparr>)"

definition cache_result :: "call_env \<Rightarrow> call_config \<Rightarrow> agent \<Rightarrow> call_ctx \<Rightarrow> tool_result \<Rightarrow> agent" where
  "cache_result env cfg a cx r =
     (case tr_xcdn r of
        Some x \<Rightarrow>
          if tool_fine r \<and> cacheable cfg cx
          then a\<lparr>ag_cache := tc_put (cl_cache cfg) (ce_now env) (ce_tick env) (cx_cache_key env cx)
                   (case fst (redact (Some x)) of Some masked \<Rightarrow> masked | None \<Rightarrow> x) (ag_cache a)\<rparr>
          else a
      | None \<Rightarrow> a)"

definition show_result :: "call_env \<Rightarrow> agent \<Rightarrow> call_ctx \<Rightarrow> tool_result \<Rightarrow> agent \<times> asngn_err option" where
  "show_result env a cx r =
     (case ce_result_text env (cx_ref cx) (cx_cmd cx) r of
        None \<Rightarrow> (a, None)
      | Some line \<Rightarrow>
          let masked = context_text (ss_redact (ag_session a))
                (outcome_text (cx_ref cx) (cx_cmd cx) (Some (cx_args cx)) line)
          in work_push env a (data_item (case ce_digest env masked of Some digest \<Rightarrow> digest | None \<Rightarrow> masked)))"

definition settle :: "call_env \<Rightarrow> call_config \<Rightarrow> agent \<Rightarrow> call_ctx \<Rightarrow> nat \<Rightarrow> tool_result \<Rightarrow> agent \<times> asngn_err option" where
  "settle env cfg a cx pos r =
     (let a1 = a\<lparr>ag_labels := ag_labels a @ [cx_label cx], ag_blocked := (ag_blocked a \<or> result_denied r)\<rparr> in
      if tr_err r \<noteq> None \<and> tr_code r = None then
        refuse env a1 (cx_ref cx) (cx_cmd cx) (cx_args cx) (synthesized_code (tr_err r)) (ce_last_error env) (cx_fallback cx)
      else
        let a2 = (if tool_fine r \<and> \<not> cc_read_only (cx_sel cx) then new_epoch env a1 cx pos else a1);
            (a3, e) = show_result env (cache_result env cfg a2 cx r) cx r
        in (if tool_fine r then a3 else call_fallback env a3 (cx_fallback cx), e))"

definition dispatch :: "call_env \<Rightarrow> call_config \<Rightarrow> agent \<Rightarrow> call_ctx \<Rightarrow> nat \<Rightarrow> agent \<times> asngn_err option" where
  "dispatch env cfg a cx pos =
     then_do (then_do (announce env cfg a cx) (\<lambda>a. revoke_evidence env a cx))
       (\<lambda>a. case run_tool env a cx of
          (a1, r) \<Rightarrow> then_do (observe_result env a1 cx r) (\<lambda>a. settle env cfg a cx pos r))"

section \<open>The pipeline\<close>

text \<open>None means that the host never answers the confirmation.\<close>

definition call_gated ::
    "call_env \<Rightarrow> call_config \<Rightarrow> agent \<Rightarrow> call_ctx \<Rightarrow> nat \<Rightarrow> (agent \<times> asngn_err option) option" where
  "call_gated env cfg a cx pos =
     (case gate env cfg a cx of
        None \<Rightarrow> None
      | Some g \<Rightarrow>
          let a1 = after_gate a g in
          if gr_err g \<noteq> None then Some (a1, gr_err g)
          else if \<not> gr_allowed g then
            Some (refuse env (a1\<lparr>ag_blocked := True\<rparr>) (cx_ref cx) (cx_cmd cx) (cx_args cx) (gr_code g)
              (denied_notice cx (gr_code g)) (cx_fallback cx))
          else Some (dispatch env cfg a1 cx pos))"

definition call_guarded :: "call_env \<Rightarrow> call_config \<Rightarrow> agent \<Rightarrow> call_ctx \<Rightarrow> (agent \<times> asngn_err option) option" where
  "call_guarded env cfg a cx =
     (case repeat_guard env a cx of
        Inl r \<Rightarrow> Some r
      | Inr a1 \<Rightarrow>
          (case cap_guard env cfg a1 cx of
             Inl r \<Rightarrow> Some r
           | Inr a2 \<Rightarrow>
               (case cache_guard env cfg a2 cx of
                  Inl r \<Rightarrow> Some r
                | Inr a3 \<Rightarrow> call_gated env cfg a3 cx (length (ag_keys a)))))"

definition readonly_notice :: "call_ctx \<Rightarrow> string" where
  "readonly_notice cx =
     take 191 (''Authorization required: '' @ cx_ref cx @ ''.'' @ cx_cmd cx @
       '' is blocked by the coding-readonly profile. Change the profile to continue.'')"

definition call_profiled :: "call_env \<Rightarrow> call_config \<Rightarrow> agent \<Rightarrow> call_ctx \<Rightarrow> (agent \<times> asngn_err option) option" where
  "call_profiled env cfg a cx =
     (if cx_expanded cx \<noteq> None \<and> ce_revalidate env (cc_tool (cx_sel cx)) (cx_exec cx) \<noteq> None then
        Some (call_error env a (cx_ref cx) (cx_cmd cx) (Some (cx_args cx)) ''astools/invalid-args'' (ce_last_error env))
      else if readonly_excludes (ag_profile a) (cc_read_only (cx_sel cx)) (cc_destructive (cx_sel cx)) then
        Some (refuse env (a\<lparr>ag_blocked := True\<rparr>) (cx_ref cx) (cx_cmd cx) (cx_args cx) ''asngn/profile-readonly''
          (readonly_notice cx) (cx_fallback cx))
      else call_guarded env cfg a cx)"

definition call_drafted ::
    "call_env \<Rightarrow> call_config \<Rightarrow> agent \<Rightarrow> catalog_command \<Rightarrow> string \<Rightarrow> string \<Rightarrow> string \<Rightarrow> string option \<Rightarrow>
     (agent \<times> asngn_err option) option" where
  "call_drafted env cfg a sel ref cmd args fallback =
     (case draft_guard env cfg a ref cmd args of
        Inl r \<Rightarrow> Some r
      | Inr (a1, draft) \<Rightarrow>
          (case expand_write_draft (cl_native cfg) ref cmd (Some args) (ce_draft env) of
             Err e \<Rightarrow> Some (a1, Some e)
           | Ok expanded \<Rightarrow>
               call_profiled env cfg a1 \<lparr>cx_sel = sel, cx_ref = ref, cx_cmd = cmd, cx_args = args,
                 cx_expanded = expanded, cx_draft = draft, cx_fallback = fallback\<rparr>))"

definition call_execute ::
    "call_env \<Rightarrow> call_config \<Rightarrow> agent \<Rightarrow> string \<Rightarrow> string option \<Rightarrow> (agent \<times> asngn_err option) option" where
  "call_execute env cfg a line fallback =
     (if ag_phase a \<noteq> PHASE_ACTION then Some (a, Some ERR_PROTOCOL)
      else if \<not> ce_tools_on env then
        Some (call_error env a ''tool'' ''call'' None ''asngn/no-tools'' ''tools are disabled for this turn'')
      else case ce_parse env line of
        None \<Rightarrow> Some (call_error env a ''tool'' ''call'' None ''astools/invalid-args'' ''malformed call line'')
      | Some (ref, cmd, args) \<Rightarrow>
          (case tools_find (ag_selection a) ref cmd of
             None \<Rightarrow> Some (not_selected env a ref cmd args)
           | Some i \<Rightarrow>
               let sel = ag_selection a ! i in
               (case ce_validate env (cc_tool sel) args of
                  Some ae \<Rightarrow>
                    Some (call_error env (if ae = TOOL_DENIED then a\<lparr>ag_blocked := True\<rparr> else a) ref cmd (Some args)
                      ''astools/preflight'' (ce_last_error env))
                | None \<Rightarrow> call_drafted env cfg a sel ref cmd args fallback)))"

section \<open>What the steps leave alone\<close>

text \<open>An agent without its working notes, which every refusal extends.\<close>

definition core :: "agent \<Rightarrow> agent" where
  "core a = a\<lparr>ag_notes := []\<rparr>"

lemma core_fields:
  assumes "core a = core b"
  shows "ag_invoked a = ag_invoked b" "ag_tool_calls a = ag_tool_calls b" "ag_session a = ag_session b"
    "ag_keys a = ag_keys b" "ag_turn a = ag_turn b" "ag_cache a = ag_cache b" "ag_work a = ag_work b"
    "ag_phase a = ag_phase b" "ag_selection a = ag_selection b" "ag_profile a = ag_profile b"
    "ag_scenes a = ag_scenes b" "ag_store a = ag_store b" "ag_grants a = ag_grants b"
  using assms by (cases a; cases b; simp add: core_def)+

lemma core_work_push [simp]: "core (fst (work_push env a text)) = core a"
  by (simp add: work_push_def core_def split: option.split)

lemma core_call_error [simp]: "core (fst (call_error env a ref cmd args code message)) = core a"
  by (simp add: call_error_def)

lemma core_call_fallback [simp]: "core (call_fallback env a fallback) = core a"
  by (simp add: call_fallback_def split: option.split)

lemma core_refuse [simp]: "core (fst (refuse env a ref cmd args code message fallback)) = core a"
proof -
  obtain a' e where r: "call_error env a ref cmd (Some args) code message = (a', e)" by fastforce
  then have "core a' = core a" by (metis core_call_error fst_conv)
  then show ?thesis using r by (simp add: refuse_def split: option.split)
qed

lemmas pushed_fields [simp] =
  core_fields [OF core_work_push] core_fields [OF core_call_error] core_fields [OF core_call_fallback] core_fields [OF core_refuse]

text \<open>The part of an agent that decides what it may run.\<close>

definition authority where
  "authority a = (ag_invoked a, ag_scenes a, ag_tool_calls a, ag_session a, ag_phase a, ag_selection a, ag_profile a,
     ag_turn a, ag_work a, ag_store a, ag_grants a)"

lemma authority_fields:
  assumes "authority a = authority b"
  shows "ag_invoked a = ag_invoked b" "ag_tool_calls a = ag_tool_calls b" "ag_session a = ag_session b"
    "ag_phase a = ag_phase b" "ag_selection a = ag_selection b" "ag_profile a = ag_profile b"
    "ts_id (ag_turn a) = ts_id (ag_turn b)" "pinned (ag_turn a) = pinned (ag_turn b)" "ag_turn a = ag_turn b"
    "ag_scenes a = ag_scenes b" "ag_work a = ag_work b" "ag_store a = ag_store b" "ag_grants a = ag_grants b"
  using assms by (simp_all add: authority_def)

lemma call_error_authority: "call_error env a ref cmd args code message = (a', e) \<Longrightarrow> authority a' = authority a"
  using pushed_fields(14-26) [of env a ref cmd args code message] by (simp add: authority_def)

lemma refuse_authority: "refuse env a ref cmd args code message fallback = (a', e) \<Longrightarrow> authority a' = authority a"
  using pushed_fields(40-52) [of env a ref cmd args code message fallback] by (simp add: authority_def)

lemma not_selected_authority: "authority (fst (not_selected env a ref cmd args)) = authority a"
  by (simp add: not_selected_def authority_def Let_def split: option.split)

text \<open>The key of a draft is new, and is remembered behind the others.\<close>

definition draft_remembered :: "call_env \<Rightarrow> agent \<Rightarrow> string \<Rightarrow> string \<Rightarrow> string \<Rightarrow> (string \<times> nat) option \<Rightarrow> agent \<Rightarrow> bool" where
  "draft_remembered env a ref cmd args d a1 \<longleftrightarrow>
     (let key = call_state_key (draft_intent ref cmd args) (ce_draft_hash env) (ss_epoch (ag_session a)) in
      key \<notin> set (ag_keys a) \<and> ag_keys a1 = ag_keys a @ [key] \<and> d = Some (draft_intent ref cmd args, length (ag_keys a)))"

lemma draft_guard_authority:
  "draft_guard env cfg a ref cmd args = Inl r \<Longrightarrow> authority (fst r) = authority a"
  "draft_guard env cfg a ref cmd args = Inr (a1, d) \<Longrightarrow> authority a1 = authority a \<and> set (ag_keys a) \<subseteq> set (ag_keys a1) \<and>
     (\<not> is_draft_call cfg ref cmd args \<longrightarrow> d = None \<and> ag_keys a1 = ag_keys a) \<and>
     (is_draft_call cfg ref cmd args \<longrightarrow> draft_remembered env a ref cmd args d a1)"
  by (auto simp: draft_guard_def draft_remembered_def Let_def authority_def repeated_def remember_key_def split: if_splits)

lemma repeat_guard_authority:
  "repeat_guard env a cx = Inl r \<Longrightarrow> authority (fst r) = authority a"
  "repeat_guard env a cx = Inr a1 \<Longrightarrow> authority a1 = authority a \<and>
     call_state_key (cx_intent cx) (ce_hash env) (ss_epoch (ag_session a)) \<notin> set (ag_keys a) \<and>
     ag_keys a1 = ag_keys a @ [call_state_key (cx_intent cx) (ce_hash env) (ss_epoch (ag_session a))]"
  by (auto simp: repeat_guard_def Let_def authority_def repeated_def remember_key_def split: if_splits)

lemma cap_guard_authority:
  "cap_guard env cfg a cx = Inl r \<Longrightarrow> authority (fst r) = authority a"
  "cap_guard env cfg a cx = Inr a1 \<Longrightarrow> authority a1 = authority a \<and> int (ag_tool_calls a) < cl_max_tools cfg \<and> ag_keys a1 = ag_keys a"
  by (auto simp: cap_guard_def authority_def split: if_splits)

lemma core_cached_outcome [simp]: "core (fst (cached_outcome env a cx hit)) = core a"
  by (simp add: cached_outcome_def split: option.split)

lemmas cached_fields [simp] = core_fields [OF core_cached_outcome]

lemma cache_guard_authority:
  "cache_guard env cfg a cx = Inl r \<Longrightarrow> authority (fst r) = authority a"
  "cache_guard env cfg a cx = Inr a1 \<Longrightarrow> authority a1 = authority a \<and> ag_keys a1 = ag_keys a"
  by (auto simp: cache_guard_def authority_def Let_def split: if_splits option.splits prod.splits)

text \<open>The steps of a dispatch.\<close>

lemma announce_keeps:
  "announce env cfg a cx = (a1, e) \<Longrightarrow> ag_invoked a1 = ag_invoked a \<and> ag_tool_calls a1 = ag_tool_calls a \<and>
     ag_keys a1 = ag_keys a \<and> ag_phase a1 = ag_phase a \<and> ag_selection a1 = ag_selection a \<and> ag_profile a1 = ag_profile a \<and>
     ag_scenes a1 = ag_scenes a \<and> ag_work a1 = ag_work a"
  by (auto simp: announce_def Let_def split: if_splits prod.splits)

lemma revoke_keeps:
  "revoke_evidence env a cx = (a1, e) \<Longrightarrow> ag_invoked a1 = ag_invoked a \<and> ag_tool_calls a1 = ag_tool_calls a \<and>
     ag_keys a1 = ag_keys a \<and> ag_phase a1 = ag_phase a \<and> ag_selection a1 = ag_selection a \<and> ag_profile a1 = ag_profile a \<and>
     st_file (ss_journal_st (ag_session a1)) = st_file (ss_journal_st (ag_session a)) \<and>
     ss_epoch (ag_session a1) = ss_epoch (ag_session a) \<and> ag_scenes a1 = ag_scenes a"
  by (auto simp: revoke_evidence_def split: if_splits prod.splits)

lemma run_tool_does:
  "run_tool env a cx = (a1, r) \<Longrightarrow>
     ag_invoked a1 = ag_invoked a @ (if ce_cancel env then [] else [(cc_tool (cx_sel cx), cx_exec cx)]) \<and>
     r = (if ce_cancel env then tool_cancelled else ce_result env) \<and>
     ag_tool_calls a1 = Suc (ag_tool_calls a) \<and> ag_session a1 = ag_session a \<and> ag_keys a1 = ag_keys a \<and>
     ag_phase a1 = ag_phase a \<and> ag_selection a1 = ag_selection a \<and> ag_profile a1 = ag_profile a \<and> ag_work a1 = ag_work a \<and>
     ag_cache a1 = ag_cache a \<and> pinned (ag_turn a1) = pinned (ag_turn a) \<and> ts_action (ag_turn a1) = ts_action (ag_turn a) \<and>
     ag_scenes a1 = ag_scenes a @ (if ce_cancel env then [] else [call_scene_of a])"
  by (auto simp: run_tool_def tools_invoke_def verify_def Let_def split: prod.splits if_splits)

lemma observe_keeps:
  "observe_result env a cx r = (a1, e) \<Longrightarrow> ag_invoked a1 = ag_invoked a \<and> ag_tool_calls a1 = ag_tool_calls a \<and>
     ag_keys a1 = ag_keys a \<and> ag_phase a1 = ag_phase a \<and> ag_selection a1 = ag_selection a \<and> ag_profile a1 = ag_profile a \<and>
     ag_turn a1 = ag_turn a \<and> ag_cache a1 = ag_cache a \<and> ag_scenes a1 = ag_scenes a"
  by (auto simp: observe_result_def split: prod.splits option.splits)

lemma core_show_result [simp]: "core (fst (show_result env a cx r)) = core a"
  by (simp add: show_result_def Let_def split: option.split)

lemmas shown_fields [simp] = core_fields [OF core_show_result]

lemma cache_result_keeps [simp]:
  "ag_invoked (cache_result env cfg a cx r) = ag_invoked a" "ag_tool_calls (cache_result env cfg a cx r) = ag_tool_calls a"
  "ag_session (cache_result env cfg a cx r) = ag_session a" "ag_keys (cache_result env cfg a cx r) = ag_keys a"
  "ag_phase (cache_result env cfg a cx r) = ag_phase a" "ag_selection (cache_result env cfg a cx r) = ag_selection a"
  "ag_profile (cache_result env cfg a cx r) = ag_profile a" "ag_work (cache_result env cfg a cx r) = ag_work a"
  "ag_scenes (cache_result env cfg a cx r) = ag_scenes a"
  by (simp_all add: cache_result_def split: option.split)

lemma new_epoch_keeps [simp]:
  "ag_invoked (new_epoch env a cx pos) = ag_invoked a" "ag_tool_calls (new_epoch env a cx pos) = ag_tool_calls a"
  "ag_phase (new_epoch env a cx pos) = ag_phase a" "ag_selection (new_epoch env a cx pos) = ag_selection a"
  "ag_profile (new_epoch env a cx pos) = ag_profile a" "ag_work (new_epoch env a cx pos) = ag_work a"
  "ag_session (new_epoch env a cx pos) = (ag_session a)\<lparr>ss_epoch := ss_epoch (ag_session a) + 1\<rparr>"
  "ag_cache (new_epoch env a cx pos) = []" "ag_scenes (new_epoch env a cx pos) = ag_scenes a"
  by (simp_all add: new_epoch_def Let_def tc_clear_def)

text \<open>A mutation that succeeded.\<close>

definition mutated :: "call_ctx \<Rightarrow> tool_result \<Rightarrow> bool" where
  "mutated cx r \<longleftrightarrow> tool_fine r \<and> \<not> cc_read_only (cx_sel cx)"

lemma settle_keeps:
  assumes "settle env cfg a cx pos r = (a1, e)"
  shows "ag_invoked a1 = ag_invoked a" "ag_tool_calls a1 = ag_tool_calls a" "ag_phase a1 = ag_phase a"
    "ag_selection a1 = ag_selection a" "ag_profile a1 = ag_profile a" "ag_work a1 = ag_work a"
    "ag_session a1 = (if mutated cx r then (ag_session a)\<lparr>ss_epoch := ss_epoch (ag_session a) + 1\<rparr> else ag_session a)"
    "mutated cx r \<Longrightarrow> ag_cache a1 = []"
    "ag_keys a1 = (if mutated cx r
       then moved_keys env cx pos (ss_epoch (ag_session a) + 1) (ag_keys a) else ag_keys a)"
    "ag_scenes a1 = ag_scenes a"
proof -
  have a1: "a1 = fst (settle env cfg a cx pos r)" using assms by simp
  show "ag_invoked a1 = ag_invoked a" "ag_tool_calls a1 = ag_tool_calls a" "ag_phase a1 = ag_phase a"
    "ag_selection a1 = ag_selection a" "ag_profile a1 = ag_profile a" "ag_work a1 = ag_work a" "ag_scenes a1 = ag_scenes a"
    unfolding a1 settle_def Let_def split_beta by simp_all
  show "ag_session a1 = (if mutated cx r then (ag_session a)\<lparr>ss_epoch := ss_epoch (ag_session a) + 1\<rparr> else ag_session a)"
    unfolding a1 settle_def Let_def split_beta by (simp add: mutated_def tool_fine_def)
  show "mutated cx r \<Longrightarrow> ag_cache a1 = []"
    unfolding a1 settle_def Let_def split_beta by (simp add: mutated_def tool_fine_def cache_result_def cacheable_def split: option.split)
  show "ag_keys a1 = (if mutated cx r
       then moved_keys env cx pos (ss_epoch (ag_session a) + 1) (ag_keys a) else ag_keys a)"
    unfolding a1 settle_def Let_def split_beta by (simp add: mutated_def tool_fine_def new_epoch_def Let_def)
qed

lemma dispatch_runs:
  assumes "dispatch env cfg a cx pos = (a', e)" "ag_tool_calls a' \<noteq> ag_tool_calls a"
  obtains a1 a2 a3 r where "announce env cfg a cx = (a1, None)" "revoke_evidence env a1 cx = (a2, None)"
    "run_tool env a2 cx = (a3, r)" "then_do (observe_result env a3 cx r) (\<lambda>a. settle env cfg a cx pos r) = (a', e)"
proof -
  obtain a1 e1 where s1: "announce env cfg a cx = (a1, e1)" by fastforce
  have "e1 = None" using assms s1 announce_keeps [OF s1] by (auto simp: dispatch_def then_do_def split: option.splits)
  obtain a2 e2 where s2: "revoke_evidence env a1 cx = (a2, e2)" by fastforce
  have "e2 = None" using assms s1 s2 \<open>e1 = None\<close> announce_keeps [OF s1] revoke_keeps [OF s2]
    by (auto simp: dispatch_def then_do_def split: option.splits)
  obtain a3 r where s3: "run_tool env a2 cx = (a3, r)" by fastforce
  show thesis
    using that [of a1 a2 a3 r] s1 s2 s3 \<open>e1 = None\<close> \<open>e2 = None\<close> assms(1) by (simp add: dispatch_def then_do_def)
qed

lemma dispatch_stopped:
  assumes "dispatch env cfg a cx pos = (a', e)" "ag_tool_calls a' = ag_tool_calls a"
  shows "ag_invoked a' = ag_invoked a \<and> e \<noteq> None"
proof -
  obtain a1 e1 where s1: "announce env cfg a cx = (a1, e1)" by fastforce
  obtain a2 e2 where s2: "revoke_evidence env a1 cx = (a2, e2)" by fastforce
  obtain a3 r where s3: "run_tool env a2 cx = (a3, r)" by fastforce
  obtain a4 e4 where s4: "observe_result env a3 cx r = (a4, e4)" by fastforce
  obtain a5 e5 where s5: "settle env cfg a4 cx pos r = (a5, e5)" by fastforce
  show ?thesis
    using assms s1 s2 s3 s4 s5 announce_keeps [OF s1] revoke_keeps [OF s2] run_tool_does [OF s3] observe_keeps [OF s4]
      settle_keeps(2) [OF s5]
    by (auto simp: dispatch_def then_do_def split: option.splits)
qed

lemma dispatch_tail_keeps:
  assumes "then_do (observe_result env a3 cx r) (\<lambda>a. settle env cfg a cx pos r) = (a', e)"
  shows "ag_invoked a' = ag_invoked a3 \<and> ag_tool_calls a' = ag_tool_calls a3 \<and> ag_phase a' = ag_phase a3 \<and>
    ag_selection a' = ag_selection a3 \<and> ag_profile a' = ag_profile a3 \<and> ag_scenes a' = ag_scenes a3"
proof -
  obtain a4 e4 where s4: "observe_result env a3 cx r = (a4, e4)" by fastforce
  obtain a5 e5 where s5: "settle env cfg a4 cx pos r = (a5, e5)" by fastforce
  show ?thesis
    using assms s4 s5 observe_keeps [OF s4] settle_keeps(1-5,10) [OF s5] by (auto simp: then_do_def split: option.splits)
qed

text \<open>The gates a call has passed when it reaches the tool: the state \<open>a\<close> is the one the call came
  with.\<close>

definition cleared :: "call_env \<Rightarrow> call_config \<Rightarrow> agent \<Rightarrow> string \<Rightarrow> call_ctx \<Rightarrow> bool" where
  "cleared env cfg a line cx \<longleftrightarrow>
     ag_phase a = PHASE_ACTION \<and> ce_tools_on env \<and> ce_parse env line = Some (cx_ref cx, cx_cmd cx, cx_args cx) \<and>
     (\<exists>i. tools_find (ag_selection a) (cx_ref cx) (cx_cmd cx) = Some i \<and> cx_sel cx = ag_selection a ! i) \<and>
     ce_validate env (cc_tool (cx_sel cx)) (cx_args cx) = None \<and>
     (cx_expanded cx \<noteq> None \<longrightarrow> ce_revalidate env (cc_tool (cx_sel cx)) (cx_exec cx) = None) \<and>
     \<not> readonly_excludes (ag_profile a) (cc_read_only (cx_sel cx)) (cc_destructive (cx_sel cx)) \<and>
     call_state_key (cx_intent cx) (ce_hash env) (ss_epoch (ag_session a)) \<notin> set (ag_keys a) \<and>
     int (ag_tool_calls a) < cl_max_tools cfg"

lemma call_guarded_cases:
  assumes "call_guarded env cfg a cx = Some (a', e)"
  obtains (blocked) "authority a' = authority a"
  | (gated) a3 where "call_gated env cfg a3 cx (length (ag_keys a)) = Some (a', e)" "authority a3 = authority a"
      "call_state_key (cx_intent cx) (ce_hash env) (ss_epoch (ag_session a)) \<notin> set (ag_keys a)"
      "int (ag_tool_calls a) < cl_max_tools cfg"
      "ag_keys a3 = ag_keys a @ [call_state_key (cx_intent cx) (ce_hash env) (ss_epoch (ag_session a))]"
proof (cases "repeat_guard env a cx")
  case (Inl r)
  then show thesis using assms repeat_guard_authority(1) [OF Inl] blocked by (auto simp: call_guarded_def)
next
  case r1: (Inr a1)
  note k1 = repeat_guard_authority(2) [OF r1]
  show thesis
  proof (cases "cap_guard env cfg a1 cx")
    case (Inl r)
    then show thesis using assms r1 k1 cap_guard_authority(1) [OF Inl] blocked by (auto simp: call_guarded_def)
  next
    case r2: (Inr a2)
    note k2 = cap_guard_authority(2) [OF r2]
    show thesis
    proof (cases "cache_guard env cfg a2 cx")
      case (Inl r)
      then show thesis using assms r1 r2 k1 k2 cache_guard_authority(1) [OF Inl] blocked by (auto simp: call_guarded_def)
    next
      case r3: (Inr a3)
      note k3 = cache_guard_authority(2) [OF r3]
      show thesis
        using assms r1 r2 r3 k1 k2 k3 gated [of a3] authority_fields [of a1 a] by (simp add: call_guarded_def)
    qed
  qed
qed

lemma call_execute_cases:
  assumes "call_execute env cfg a line fallback = Some (a', e)"
  obtains (blocked) "authority a' = authority a"
  | (guarded) a1 cx where "call_guarded env cfg a1 cx = Some (a', e)" "authority a1 = authority a"
      "set (ag_keys a) \<subseteq> set (ag_keys a1)" "ag_phase a = PHASE_ACTION" "ce_tools_on env"
      "ce_parse env line = Some (cx_ref cx, cx_cmd cx, cx_args cx)"
      "\<exists>i. tools_find (ag_selection a) (cx_ref cx) (cx_cmd cx) = Some i \<and> cx_sel cx = ag_selection a ! i"
      "ce_validate env (cc_tool (cx_sel cx)) (cx_args cx) = None"
      "cx_expanded cx \<noteq> None \<longrightarrow> ce_revalidate env (cc_tool (cx_sel cx)) (cx_exec cx) = None"
      "\<not> readonly_excludes (ag_profile a) (cc_read_only (cx_sel cx)) (cc_destructive (cx_sel cx))"
      "expand_write_draft (cl_native cfg) (cx_ref cx) (cx_cmd cx) (Some (cx_args cx)) (ce_draft env) = Ok (cx_expanded cx)"
      "\<not> is_draft_call cfg (cx_ref cx) (cx_cmd cx) (cx_args cx) \<longrightarrow> cx_draft cx = None \<and> ag_keys a1 = ag_keys a"
      "is_draft_call cfg (cx_ref cx) (cx_cmd cx) (cx_args cx) \<longrightarrow>
         draft_remembered env a (cx_ref cx) (cx_cmd cx) (cx_args cx) (cx_draft cx) a1"
proof -
  show thesis
  proof (cases "ag_phase a = PHASE_ACTION \<and> ce_tools_on env \<and> ce_parse env line \<noteq> None")
    case False
    then have "authority a' = authority a"
      using assms by (cases "ce_parse env line") (auto simp: call_execute_def dest: call_error_authority split: if_splits)
    then show thesis by (rule blocked)
  next
    case on: True
    then obtain ref cmd args where parse: "ce_parse env line = Some (ref, cmd, args)" by auto
    show thesis
    proof (cases "tools_find (ag_selection a) ref cmd")
      case None
      then show thesis
        using assms on parse not_selected_authority [of env a ref cmd args] blocked by (auto simp: call_execute_def)
    next
      case (Some i)
      define sel where "sel = ag_selection a ! i"
      show thesis
      proof (cases "ce_validate env (cc_tool sel) args")
        case (Some ae)
        then show thesis
          using assms on parse \<open>tools_find _ _ _ = Some i\<close> blocked
          by (auto simp: call_execute_def sel_def [symmetric] Let_def authority_def split: if_splits
            dest!: call_error_authority [unfolded authority_def])
      next
        case valid: None
        have run: "call_drafted env cfg a sel ref cmd args fallback = Some (a', e)"
          using assms on parse Some valid by (simp add: call_execute_def sel_def Let_def)
        show thesis
        proof (cases "draft_guard env cfg a ref cmd args")
          case (Inl r)
          then show thesis using run draft_guard_authority(1) [OF Inl] blocked by (auto simp: call_drafted_def)
        next
          case (Inr p)
          obtain a1 d where p: "p = (a1, d)" by fastforce
          note auth = draft_guard_authority(2) [OF Inr [unfolded p]]
          show thesis
          proof (cases "expand_write_draft (cl_native cfg) ref cmd (Some args) (ce_draft env)")
            case (Inl err)
            then show thesis using run \<open>draft_guard _ _ _ _ _ _ = _\<close> p auth blocked by (auto simp: call_drafted_def)
          next
            case (Inr expanded)
            define cx where "cx = \<lparr>cx_sel = sel, cx_ref = ref, cx_cmd = cmd, cx_args = args,
                 cx_expanded = expanded, cx_draft = d, cx_fallback = fallback\<rparr>"
            have go: "call_profiled env cfg a1 cx = Some (a', e)"
              using run \<open>draft_guard _ _ _ _ _ _ = _\<close> p Inr by (simp add: call_drafted_def cx_def)
            show thesis
            proof (cases "(cx_expanded cx \<noteq> None \<and> ce_revalidate env (cc_tool (cx_sel cx)) (cx_exec cx) \<noteq> None) \<or>
                readonly_excludes (ag_profile a1) (cc_read_only (cx_sel cx)) (cc_destructive (cx_sel cx))")
              case True
              then have "authority a' = authority a1" using go
                by (auto simp: call_profiled_def authority_def split: if_splits
                  dest!: call_error_authority [unfolded authority_def] refuse_authority [unfolded authority_def])
              then show thesis using auth blocked by simp
            next
              case False
              then have "call_guarded env cfg a1 cx = Some (a', e)" using go by (auto simp: call_profiled_def)
              then show thesis
                using guarded [of a1 cx] auth on parse Some valid False authority_fields [of a1 a] Inr
                by (auto simp: cx_def sel_def)
            qed
          qed
        qed
      qed
    qed
  qed
qed

lemma gated_runs:
  assumes "call_gated env cfg a cx pos = Some (a', e)" "ag_tool_calls a' \<noteq> ag_tool_calls a"
  obtains g where "gate env cfg a cx = Some g" "gr_allowed g" "gr_err g = None" "dispatch env cfg (after_gate a g) cx pos = (a', e)"
proof -
  have same: "ag_tool_calls (after_gate a g) = ag_tool_calls a" for g by (simp add: after_gate_def)
  show thesis
    using assms that same
    by (auto simp: call_gated_def Let_def split: option.splits if_splits dest!: refuse_authority authority_fields(2))
qed

lemma gated_stopped:
  assumes "call_gated env cfg a cx pos = Some (a', e)" "ag_tool_calls a' = ag_tool_calls a"
  shows "ag_invoked a' = ag_invoked a"
proof -
  have same: "ag_tool_calls (after_gate a g) = ag_tool_calls a" "ag_invoked (after_gate a g) = ag_invoked a" for g
    by (simp_all add: after_gate_def)
  show ?thesis
    using assms same dispatch_stopped [of env cfg "after_gate a _" cx pos a' e]
    by (auto simp: call_gated_def Let_def split: option.splits if_splits dest!: refuse_authority authority_fields(1))
qed

text \<open>The gate looks only at what the guards leave alone.\<close>

lemma gate_authority: "authority b = authority a \<Longrightarrow> gate env cfg b cx = gate env cfg a cx"
  using authority_fields [of b a] by (simp add: gate_def)

lemma after_gate_authority:
  "authority b = authority a \<Longrightarrow> ag_session (after_gate b g) = ag_session (after_gate a g) \<and>
     ag_turn (after_gate b g) = ag_turn (after_gate a g) \<and> ag_work (after_gate b g) = ag_work a \<and>
     ag_invoked (after_gate b g) = ag_invoked a \<and> ag_scenes (after_gate b g) = ag_scenes a \<and>
     ag_tool_calls (after_gate b g) = ag_tool_calls a"
  using authority_fields [of b a] by (simp add: after_gate_def)

text \<open>The turn and the session of \<open>a\<close> with the intent of a call on the journal.\<close>

definition intent_turn :: "call_env \<Rightarrow> agent \<Rightarrow> call_ctx \<Rightarrow> turn_state" where
  "intent_turn env a cx = (ag_turn a)\<lparr>ts_mutates := \<not> cc_read_only (cx_sel cx), ts_action := ce_action_id env\<rparr>"

definition intent_journal :: "call_env \<Rightarrow> agent \<Rightarrow> call_ctx \<Rightarrow> session \<times> asngn_err option" where
  "intent_journal env a cx =
     turn_journal (ce_xwrite env) (ce_jp_action env) (ce_now env) (ag_session a) (intent_turn env a cx) ''action''
       (Some (cx_ref cx @ ''.'' @ cx_cmd cx @ '' '' @ cx_exec cx))"

lemma announce_journals:
  assumes "announce env cfg a cx = (a1, None)"
  shows "snd (intent_journal env a cx) = None \<and> ag_session a1 = fst (intent_journal env a cx) \<and>
    ag_turn a1 = intent_turn env a cx"
  using assms by (auto simp: announce_def intent_journal_def intent_turn_def Let_def split: if_splits prod.splits)

text \<open>What a revocation makes of a contract: every proof that was run is stale.\<close>

definition stale_proof :: "work_proof \<Rightarrow> work_proof" where
  "stale_proof p = (if wp_status p = NOT_RUN then p else p\<lparr>wp_status := STALE\<rparr>)"

definition revoked_store :: "work_store option \<Rightarrow> work_store option \<Rightarrow> bool" where
  "revoked_store before after =
     (case (before, after) of
        (None, None) \<Rightarrow> True
      | (Some b, Some c) \<Rightarrow> wk_revision (wr_state c) = wk_revision (wr_state b) \<and>
          (wk_revision (wr_state b) \<noteq> 0 \<longrightarrow> wk_proofs (wr_state c) = map stale_proof (wk_proofs (wr_state b)))
      | _ \<Rightarrow> False)"

lemma work_save_saved:
  assumes "work_save write io s next0 = (s', None)"
  shows "\<exists>st. ws_store s' = Some st \<and> wk_proofs (wr_state st) = wk_proofs next0 \<and> wk_revision (wr_state st) = wk_revision next0"
  using assms by (auto simp: work_save_def Let_def split: if_splits option.splits prod.splits)

lemma stale_none:
  "\<not> list_ex (\<lambda>p. wp_status p \<noteq> NOT_RUN \<and> wp_status p \<noteq> STALE) ps \<Longrightarrow> map stale_proof ps = ps"
  by (induction ps) (auto simp: stale_proof_def)

lemma stale_live:
  "map (\<lambda>p. if wp_status p \<noteq> NOT_RUN \<and> wp_status p \<noteq> STALE then p\<lparr>wp_status := STALE\<rparr> else p) ps = map stale_proof ps"
  by (induction ps) (auto simp: stale_proof_def)

lemma work_revoke_revoked:
  assumes "work_revoke write io s = (s', None)"
  shows "revoked_store (ws_store s) (ws_store s')"
proof (cases "ws_store s")
  case None
  then show ?thesis using assms by (auto simp: work_revoke_def revoked_store_def)
next
  case (Some st)
  let ?live = "\<lambda>p. wp_status p \<noteq> NOT_RUN \<and> wp_status p \<noteq> STALE"
  show ?thesis
  proof (cases "wk_revision (wr_state st) \<noteq> 0 \<and> list_ex ?live (wk_proofs (wr_state st))")
    case True
    then have "work_save write io s ((wr_state st)\<lparr>wk_succeeded := False,
        wk_proofs := map (\<lambda>p. if ?live p then p\<lparr>wp_status := STALE\<rparr> else p) (wk_proofs (wr_state st))\<rparr>) = (s', None)"
      using assms Some by (simp add: work_revoke_def Let_def)
    from work_save_saved [OF this] show ?thesis using Some by (auto simp: revoked_store_def stale_live)
  next
    case False
    then have "s' = s" using assms Some by (auto simp: work_revoke_def Let_def split: if_splits)
    then show ?thesis using Some False stale_none [of "wk_proofs (wr_state st)"] by (auto simp: revoked_store_def)
  qed
qed

lemma revoke_revokes:
  assumes "revoke_evidence env a cx = (a1, None)"
  shows "if cc_read_only (cx_sel cx) \<or> cx_verifies cx
    then ws_store (ag_work a1) = ws_store (ag_work a) \<and> ts_verified (ag_turn a1) = ts_verified (ag_turn a)
    else revoked_store (ws_store (ag_work a)) (ws_store (ag_work a1)) \<and> \<not> ts_verified (ag_turn a1)"
proof (cases "cc_read_only (cx_sel cx) \<or> cx_verifies cx")
  case True
  then show ?thesis using assms by (auto simp: revoke_evidence_def)
next
  case False
  obtain w e where w: "work_revoke (ce_xwrite env) (ce_io_revoke env) ((ag_work a)\<lparr>ws_recovery := ss_recovery (ag_session a)\<rparr>) = (w, e)"
    by fastforce
  with assms False have a1: "\<not> ts_verified (ag_turn a1)" "ag_work a1 = w" "e = None" by (auto simp: revoke_evidence_def)
  from work_revoke_revoked [OF w [unfolded a1(3)]] show ?thesis using a1(1,2) False by simp
qed

text \<open>The world in which the tool of \<open>cx\<close> may be called, the call having come to \<open>a\<close>.\<close>

definition scene_ready :: "call_env \<Rightarrow> agent \<Rightarrow> gate_result \<Rightarrow> call_ctx \<Rightarrow> call_scene \<Rightarrow> bool" where
  "scene_ready env a g cx sn \<longleftrightarrow>
     snd (intent_journal env (after_gate a g) cx) = None \<and>
     sn_journal sn = st_file (ss_journal_st (fst (intent_journal env (after_gate a g) cx))) \<and>
     (if cc_read_only (cx_sel cx) \<or> cx_verifies cx
      then sn_work sn = ws_store (ag_work a) \<and> sn_verified sn = ts_verified (ag_turn a)
      else revoked_store (ws_store (ag_work a)) (sn_work sn) \<and> \<not> sn_verified sn)"

text \<open>
  C5. A tool runs only behind its gates.  If a call changed what the tools library was asked to run,
  then it added exactly one invocation, of the selected tool with the arguments the call carries;
  the engine was in the action phase; the command was in the current selection and its arguments
  valid there, also after a draft was composed; the profile does not exclude it; the same call was
  not made before in this state of the workspace; the call budget was not spent; and the
  confirmation gate, asked with the grants, the approvals and the turn the call came with, allowed
  it.  In the world the tool was called in, the intent of the call was already on the turn's
  journal, and if the command may mutate and is no verification, every proof of the contract that
  was ever run was already stale and the turn no longer counted as verified.
\<close>

theorem tool_runs_only_behind_gates:
  assumes "call_execute env cfg a line fallback = Some (a', e)" "ag_invoked a' \<noteq> ag_invoked a"
  shows "\<exists>cx g sn. cleared env cfg a line cx \<and>
    gate env cfg a cx = Some g \<and> gr_allowed g \<and> gr_err g = None \<and>
    ag_invoked a' = ag_invoked a @ [(cc_tool (cx_sel cx), cx_exec cx)] \<and> ag_tool_calls a' = Suc (ag_tool_calls a) \<and>
    ag_scenes a' = ag_scenes a @ [sn] \<and> scene_ready env a g cx sn"
  using assms(1)
proof (cases rule: call_execute_cases)
  case blocked
  then show ?thesis using assms(2) authority_fields(1) by metis
next
  case (guarded a1 cx)
  note same = authority_fields [OF guarded(2)]
  from guarded(1) show ?thesis
  proof (cases rule: call_guarded_cases)
    case blocked
    then show ?thesis using assms(2) authority_fields(1) same(1) by metis
  next
    case (gated a3)
    have auth: "authority a3 = authority a" using gated(2) guarded(2) by simp
    note same3 = authority_fields [OF auth]
    have "ag_tool_calls a' \<noteq> ag_tool_calls a3" using gated_stopped [OF gated(1)] assms(2) same3 by metis
    from gated_runs [OF gated(1) this] obtain g where
      g: "gate env cfg a3 cx = Some g" "gr_allowed g" "gr_err g = None"
        "dispatch env cfg (after_gate a3 g) cx (length (ag_keys a1)) = (a', e)" by blast
    note base = after_gate_authority [OF auth, of g]
    have "ag_tool_calls a' \<noteq> ag_tool_calls (after_gate a3 g)" using dispatch_stopped [OF g(4)] assms(2) base by metis
    from dispatch_runs [OF g(4) this] obtain b1 b b3 r where
      d: "announce env cfg (after_gate a3 g) cx = (b1, None)" "revoke_evidence env b1 cx = (b, None)"
        "run_tool env b cx = (b3, r)" "then_do (observe_result env b3 cx r) (\<lambda>a. settle env cfg a cx (length (ag_keys a1)) r) = (a', e)" .
    note k = announce_keeps [OF d(1)] revoke_keeps [OF d(2)] run_tool_does [OF d(3)] dispatch_tail_keeps [OF d(4)]
    have journal: "intent_journal env (after_gate a3 g) cx = intent_journal env (after_gate a g) cx"
      "ts_verified (intent_turn env (after_gate a3 g) cx) = ts_verified (ag_turn a)"
      using base same3 by (simp_all add: intent_journal_def intent_turn_def after_gate_def)
    have "scene_ready env a g cx (call_scene_of b)"
      using announce_journals [OF d(1)] revoke_revokes [OF d(2)] k journal base
      by (cases "cc_read_only (cx_sel cx) \<or> cx_verifies cx") (simp_all add: scene_ready_def call_scene_of_def)
    moreover have "cleared env cfg a line cx"
      unfolding cleared_def using guarded gated(3,4) same by auto
    moreover have "ag_invoked a' = ag_invoked a @ [(cc_tool (cx_sel cx), cx_exec cx)]" "ag_tool_calls a' = Suc (ag_tool_calls a)"
      "ag_scenes a' = ag_scenes a @ [call_scene_of b]"
      using k base assms(2) by (auto split: if_splits)
    ultimately show ?thesis using g(1-3) gate_authority [OF auth] by metis
  qed
qed

section \<open>The frames of a call\<close>

lemma journal_holds_file:
  "st_file (ss_journal_st s) = st_file (ss_journal_st s') \<Longrightarrow> journal_holds parse s fs = journal_holds parse s' fs"
  by (simp add: journal_holds_def)

lemma turn_journal_epoch: "turn_journal wr jp now s t state action = (s', e) \<Longrightarrow> ss_epoch s' = ss_epoch s"
  by (auto simp: turn_journal_def journal_put_def Let_def split: option.splits if_splits prod.splits)

lemma after_gate_keeps:
  "ag_invoked (after_gate a g) = ag_invoked a" "ag_tool_calls (after_gate a g) = ag_tool_calls a"
  "ag_keys (after_gate a g) = ag_keys a" "ts_id (ag_turn (after_gate a g)) = ts_id (ag_turn a)"
  "ts_user (ag_turn (after_gate a g)) = ts_user (ag_turn a)" "ts_continuation (ag_turn (after_gate a g)) = ts_continuation (ag_turn a)"
  "ts_log_before (ag_turn (after_gate a g)) = ts_log_before (ag_turn a)" "ts_committed (ag_turn (after_gate a g)) = ts_committed (ag_turn a)"
  "convo (ag_session (after_gate a g)) = convo (ag_session a)"
  "st_file (ss_journal_st (ag_session (after_gate a g))) = st_file (ss_journal_st (ag_session a))"
  "ss_epoch (ag_session (after_gate a g)) = ss_epoch (ag_session a)" "ag_selection (after_gate a g) = ag_selection a"
  "ag_phase (after_gate a g) = ag_phase a" "ag_profile (after_gate a g) = ag_profile a"
  by (simp_all add: after_gate_def)

lemma announce_frame:
  assumes "announce env cfg a cx = (a1, None)" "value_lib parse (ce_xwrite env)" "journal_holds parse (ag_session a) fs"
    and "ss_epoch (ag_session a) < 2 ^ 63"
  shows "journal_holds parse (ag_session a1) (fs @ [F_action (ts_id (ag_turn a)) (ce_action_id env)
      (int (ss_epoch (ag_session a)) + (if cc_read_only (cx_sel cx) then 0 else 1))]) \<and>
    ts_id (ag_turn a1) = ts_id (ag_turn a) \<and> ts_action (ag_turn a1) = ce_action_id env \<and>
    ss_epoch (ag_session a1) = ss_epoch (ag_session a)"
proof -
  define t where "t = (ag_turn a)\<lparr>ts_mutates := \<not> cc_read_only (cx_sel cx), ts_action := ce_action_id env\<rparr>"
  obtain s where s: "turn_journal (ce_xwrite env) (ce_jp_action env) (ce_now env) (ag_session a) t ''action''
      (Some (cx_ref cx @ ''.'' @ cx_cmd cx @ '' '' @ cx_exec cx)) = (s, None)" "a1 = a\<lparr>ag_turn := t, ag_session := s\<rparr>"
    using assms(1) by (auto simp: announce_def t_def [symmetric] Let_def split: if_splits prod.splits)
  have "turn_writes (ce_xwrite env) (ag_session a) (F_action (ts_id t) (ts_action t)
      (int (ss_epoch (ag_session a)) + (if ts_mutates t then 1 else 0))) s"
    by (rule turn_writes.action [OF s(1) assms(4)])
  from turn_writes_extend [OF this assms(2,3)] show ?thesis
    using s(2) turn_journal_epoch [OF s(1)] by (cases "cc_read_only (cx_sel cx)") (simp_all add: t_def)
qed

lemma observe_frame:
  assumes "observe_result env a cx r = (a1, None)" "value_lib parse (ce_xwrite env)" "journal_holds parse (ag_session a) fs"
  shows "journal_holds parse (ag_session a1) (fs @ [F_observed (ts_id (ag_turn a)) (ts_action (ag_turn a))]) \<and>
    ss_epoch (ag_session a1) = ss_epoch (ag_session a)"
proof -
  obtain s where s: "turn_journal (ce_xwrite env) (ce_jp_observed env) (ce_now env) (ag_session a) (ag_turn a) ''observed''
      (Some (observed_text r)) = (s, None)"
    and a1: "st_file (ss_journal_st (ag_session a1)) = st_file (ss_journal_st s)" "ss_epoch (ag_session a1) = ss_epoch s"
    using assms(1) by (auto simp: observe_result_def split: option.splits prod.splits)
  have "turn_writes (ce_xwrite env) (ag_session a) (F_observed (ts_id (ag_turn a)) (ts_action (ag_turn a))) s"
    by (rule turn_writes.observed [OF s])
  from turn_writes_extend [OF this assms(2,3)] show ?thesis
    using a1 turn_journal_epoch [OF s] journal_holds_file [OF a1(1)] by simp
qed

text \<open>None of the durable stores fails with a protocol error.\<close>

lemma wal_append_err: "wal_append size_ok io st r = (st', Some e) \<Longrightarrow> e \<noteq> ERR_PROTOCOL"
  by (auto simp: wal_append_def split: if_splits dest: stream_append_error)

lemma turn_journal_err: "turn_journal wr jp now s t state action = (s', Some e) \<Longrightarrow> e \<noteq> ERR_PROTOCOL"
  by (auto simp: turn_journal_def journal_put_def boundary_def Let_def dest: wal_append_err split: option.splits if_splits prod.splits)

lemma work_save_err: "work_save wr io s w = (s', Some e) \<Longrightarrow> e \<noteq> ERR_PROTOCOL"
  by (auto simp: work_save_def wal_put_def Let_def dest: wal_append_err split: option.splits if_splits prod.splits)

lemma revoke_err: "revoke_evidence env a cx = (a1, Some e) \<Longrightarrow> e \<noteq> ERR_PROTOCOL"
  by (auto simp: revoke_evidence_def work_revoke_def Let_def dest: work_save_err split: option.splits if_splits prod.splits)

lemma work_observe_err: "work_observe parse wr io s ref args ob = (s', Some e) \<Longrightarrow> e \<noteq> ERR_PROTOCOL"
  by (auto simp: work_observe_def Let_def dest: work_save_err split: option.splits if_splits)

lemma observe_err: "observe_result env a cx r = (a1, Some e) \<Longrightarrow> e \<noteq> ERR_PROTOCOL"
  by (auto simp: observe_result_def dest: turn_journal_err work_observe_err split: option.splits prod.splits)

lemma announce_err: "announce env cfg a cx = (a1, Some ERR_PROTOCOL) \<Longrightarrow> a1 = a"
  by (auto simp: announce_def Let_def dest: turn_journal_err split: if_splits prod.splits)

text \<open>The journal and the epoch after a call: untouched, or with one settled action more.\<close>

definition call_settled :: "(string \<Rightarrow> xnode list option) \<Rightarrow> jframe list \<Rightarrow> string \<Rightarrow> agent \<Rightarrow> agent \<Rightarrow> bool" where
  "call_settled parse fs i a a' \<longleftrightarrow>
     (ag_tool_calls a' = ag_tool_calls a \<and> journal_holds parse (ag_session a') fs \<and>
      ss_epoch (ag_session a') = ss_epoch (ag_session a)) \<or>
     (ag_tool_calls a' = Suc (ag_tool_calls a) \<and>
      (\<exists>epoch. int (ss_epoch (ag_session a')) \<le> epoch \<and> ss_epoch (ag_session a') \<le> Suc (ss_epoch (ag_session a)) \<and>
        journal_holds parse (ag_session a') (fs @ [F_action (ts_id (ag_turn a)) i epoch, F_observed (ts_id (ag_turn a)) i])))"

lemma dispatch_settled:
  assumes "dispatch env cfg a cx pos = (a', e)" "e = None \<or> e = Some ERR_PROTOCOL" "value_lib parse (ce_xwrite env)"
    and "journal_holds parse (ag_session a) fs" "ss_epoch (ag_session a) < 2 ^ 63"
  shows "call_settled parse fs (ce_action_id env) a a'"
proof -
  obtain a1 e1 where s1: "announce env cfg a cx = (a1, e1)" by fastforce
  obtain a2 e2 where s2: "revoke_evidence env a1 cx = (a2, e2)" by fastforce
  obtain a3 r where s3: "run_tool env a2 cx = (a3, r)" by fastforce
  obtain a4 e4 where s4: "observe_result env a3 cx r = (a4, e4)" by fastforce
  obtain a5 e5 where s5: "settle env cfg a4 cx pos r = (a5, e5)" by fastforce
  show ?thesis
  proof (cases e1)
    case (Some err)
    then have "a' = a" using assms(1,2) s1 announce_err [of env cfg a cx a1] by (auto simp: dispatch_def then_do_def)
    then show ?thesis using assms(4) by (simp add: call_settled_def)
  next
    case ok: None
    have e2: "e2 = None" using assms(1,2) s1 s2 ok revoke_err [of env a1 cx a2] by (cases e2) (auto simp: dispatch_def then_do_def)
    have e4: "e4 = None" using assms(1,2) s1 s2 s3 s4 ok e2 observe_err [of env a3 cx r a4]
      by (cases e4) (auto simp: dispatch_def then_do_def)
    have a5: "a5 = a'" using assms(1) s1 s2 s3 s4 s5 ok e2 e4 by (simp add: dispatch_def then_do_def)
    define epoch where "epoch = int (ss_epoch (ag_session a)) + (if cc_read_only (cx_sel cx) then 0 else 1)"
    let ?gs = "fs @ [F_action (ts_id (ag_turn a)) (ce_action_id env) epoch]"
    note f1 = announce_frame [OF s1 [unfolded ok] assms(3-5), folded epoch_def]
    have turn2: "ts_id (ag_turn a2) = ts_id (ag_turn a1)" "ts_action (ag_turn a2) = ts_action (ag_turn a1)"
      using s2 by (auto simp: revoke_evidence_def split: if_splits prod.splits)
    have "st_file (ss_journal_st (ag_session a3)) = st_file (ss_journal_st (ag_session a1))"
      using revoke_keeps [OF s2] run_tool_does [OF s3] by simp
    then have "journal_holds parse (ag_session a3) ?gs" using f1 journal_holds_file by blast
    from observe_frame [OF s4 [unfolded e4] assms(3) this]
    have frames: "journal_holds parse (ag_session a4) (?gs @ [F_observed (ts_id (ag_turn a)) (ce_action_id env)])"
      "ss_epoch (ag_session a4) = ss_epoch (ag_session a)"
      using f1 turn2 revoke_keeps [OF s2] run_tool_does [OF s3] by simp_all
    have calls: "ag_tool_calls a' = Suc (ag_tool_calls a)"
      using announce_keeps [OF s1] revoke_keeps [OF s2] run_tool_does [OF s3] observe_keeps [OF s4]
        settle_keeps(2) [OF s5] a5 by simp
    have "st_file (ss_journal_st (ag_session a')) = st_file (ss_journal_st (ag_session a4))"
      using settle_keeps(7) [OF s5] a5 by (simp split: if_splits)
    then have "journal_holds parse (ag_session a') gs = journal_holds parse (ag_session a4) gs" for gs
      by (rule journal_holds_file)
    with frames calls show ?thesis
      using settle_keeps(7) [OF s5] a5 unfolding call_settled_def
      by (intro disjI2 conjI exI [of _ epoch]) (auto simp: epoch_def mutated_def)
  qed
qed

lemma call_settled_authority: "authority a' = authority a \<Longrightarrow> journal_holds parse (ag_session a) fs \<Longrightarrow> call_settled parse fs i a a'"
  using authority_fields [of a' a] by (simp add: call_settled_def)

lemma call_settles:
  assumes "call_execute env cfg a line fallback = Some (a', e)" "e = None \<or> e = Some ERR_PROTOCOL"
    and "value_lib parse (ce_xwrite env)" "journal_holds parse (ag_session a) fs" "ss_epoch (ag_session a) < 2 ^ 63"
  shows "call_settled parse fs (ce_action_id env) a a'"
  using assms(1)
proof (cases rule: call_execute_cases)
  case blocked
  then show ?thesis using assms(4) by (rule call_settled_authority)
next
  case (guarded a1 cx)
  note same = authority_fields [OF guarded(2)]
  from guarded(1) show ?thesis
  proof (cases rule: call_guarded_cases)
    case blocked
    then have "authority a' = authority a" using guarded(2) by simp
    then show ?thesis using assms(4) by (rule call_settled_authority)
  next
    case (gated a3)
    note same3 = authority_fields [OF gated(2)]
    have base: "journal_holds parse (ag_session (after_gate a3 g)) fs" "ss_epoch (ag_session (after_gate a3 g)) = ss_epoch (ag_session a)" for g
      using assms(4) same same3 journal_holds_file [of "ag_session (after_gate a3 g)" "ag_session a3"] by (simp_all add: after_gate_keeps)
    obtain g where g: "gate env cfg a3 cx = Some g" using gated(1) by (auto simp: call_gated_def split: option.splits)
    show ?thesis
    proof (cases "gr_err g = None \<and> gr_allowed g")
      case True
      then have "dispatch env cfg (after_gate a3 g) cx (length (ag_keys a1)) = (a', e)"
        using gated(1) g by (simp add: call_gated_def Let_def)
      from dispatch_settled [OF this assms(2,3) base(1)] assms(5) base(2)
      have "call_settled parse fs (ce_action_id env) (after_gate a3 g) a'" by simp
      then show ?thesis using same same3 by (simp add: call_settled_def after_gate_keeps)
    next
      case False
      have "ag_session a' = ag_session (after_gate a3 g) \<and> ag_tool_calls a' = ag_tool_calls a3"
        using gated(1) g False
        by (auto simp: call_gated_def Let_def after_gate_keeps authority_def dest!: refuse_authority split: if_splits)
      then show ?thesis using base same same3 by (simp add: call_settled_def)
    qed
  qed
qed

text \<open>
  C6. A call that returns without error, or with the protocol error that the decision loop shows to the
  model, leaves the journal settled: either no tool was dispatched and the journal is as before, or
  one was, and behind the old frames there is its intent and its observation, for this turn and one
  action, and the epoch the intent reserved covers the session's epoch.  So no action is uncertain
  after it.
\<close>

theorem call_settles_journal:
  assumes "call_execute env cfg a line fallback = Some (a', e)" "e = None \<or> e = Some ERR_PROTOCOL"
    and "value_lib parse (ce_xwrite env)" "journal_holds parse (ag_session a) fs" "ss_epoch (ag_session a) < 2 ^ 63"
  shows "(ag_tool_calls a' = ag_tool_calls a \<and> journal_holds parse (ag_session a') fs) \<or>
    (ag_tool_calls a' = Suc (ag_tool_calls a) \<and>
     (\<exists>epoch. int (ss_epoch (ag_session a')) \<le> epoch \<and>
        journal_holds parse (ag_session a') (fs @ [F_action (ts_id (ag_turn a)) (ce_action_id env) epoch,
          F_observed (ts_id (ag_turn a)) (ce_action_id env)])))"
  using call_settles [OF assms] by (auto simp: call_settled_def)

section \<open>The effect of a call\<close>

definition standing where
  "standing a = (ag_phase a, ag_profile a, pinned (ag_turn a), ag_selection a, convo (ag_session a))"

definition quiet :: "agent \<Rightarrow> agent \<Rightarrow> bool" where
  "quiet a a' \<longleftrightarrow> ag_tool_calls a' = ag_tool_calls a \<and> ag_invoked a' = ag_invoked a \<and>
     ss_epoch (ag_session a') = ss_epoch (ag_session a)"

lemma authority_quiet: "authority a' = authority a \<Longrightarrow> quiet a a' \<and> standing a' = standing a"
  by (simp add: authority_def quiet_def standing_def)

lemma observe_epoch:
  "observe_result env a cx r = (a1, e) \<Longrightarrow> ss_epoch (ag_session a1) = ss_epoch (ag_session a) \<and>
     convo (ag_session a1) = convo (ag_session a)"
  by (auto simp: observe_result_def split: prod.splits option.splits dest: turn_journal_epoch turn_journal_convo)

lemma announce_epoch:
  "announce env cfg a cx = (a1, e) \<Longrightarrow> ss_epoch (ag_session a1) = ss_epoch (ag_session a) \<and>
     convo (ag_session a1) = convo (ag_session a) \<and> pinned (ag_turn a1) = pinned (ag_turn a)"
  by (auto simp: announce_def Let_def split: if_splits prod.splits dest: turn_journal_epoch turn_journal_convo)

lemma settle_turn:
  assumes "settle env cfg a cx pos r = (a1, e)"
  shows "pinned (ag_turn a1) = pinned (ag_turn a) \<and> convo (ag_session a1) = convo (ag_session a)"
proof -
  have "convo (ag_session a1) = convo (ag_session a)" using settle_keeps(7) [OF assms] by simp
  moreover have "pinned (ag_turn (new_epoch env b cx pos)) = pinned (ag_turn b)" "ag_turn (cache_result env cfg b cx r) = ag_turn b" for b
    by (simp_all add: new_epoch_def cache_result_def Let_def split: option.split)
  moreover have "a1 = fst (settle env cfg a cx pos r)" using assms by simp
  ultimately show ?thesis unfolding settle_def Let_def split_beta by simp
qed

lemma dispatch_effect:
  assumes "dispatch env cfg a cx pos = (a', e)"
  shows "standing a' = standing a \<and> (quiet a a' \<or>
    ag_tool_calls a' = Suc (ag_tool_calls a) \<and>
    ag_invoked a' = ag_invoked a @ (if ce_cancel env then [] else [(cc_tool (cx_sel cx), cx_exec cx)]) \<and>
    (cc_read_only (cx_sel cx) \<longrightarrow> ss_epoch (ag_session a') = ss_epoch (ag_session a)))"
proof -
  obtain a1 e1 where s1: "announce env cfg a cx = (a1, e1)" by fastforce
  obtain a2 e2 where s2: "revoke_evidence env a1 cx = (a2, e2)" by fastforce
  obtain a3 r where s3: "run_tool env a2 cx = (a3, r)" by fastforce
  obtain a4 e4 where s4: "observe_result env a3 cx r = (a4, e4)" by fastforce
  obtain a5 e5 where s5: "settle env cfg a4 cx pos r = (a5, e5)" by fastforce
  have q1: "quiet a a1 \<and> standing a1 = standing a"
    using announce_keeps [OF s1] announce_epoch [OF s1] by (simp add: quiet_def standing_def)
  have "pinned (ag_turn a2) = pinned (ag_turn a1) \<and> convo (ag_session a2) = convo (ag_session a1)" using s2 by (auto simp: revoke_evidence_def split: if_splits prod.splits)
  then have q2: "quiet a a2 \<and> standing a2 = standing a" using revoke_keeps [OF s2] q1 by (simp add: quiet_def standing_def)
  have r3: "standing a3 = standing a \<and> ag_tool_calls a3 = Suc (ag_tool_calls a) \<and>
      ag_invoked a3 = ag_invoked a @ (if ce_cancel env then [] else [(cc_tool (cx_sel cx), cx_exec cx)]) \<and>
      ss_epoch (ag_session a3) = ss_epoch (ag_session a)"
    using run_tool_does [OF s3] q2 by (auto simp: quiet_def standing_def)
  have r4: "standing a4 = standing a \<and> ag_tool_calls a4 = Suc (ag_tool_calls a) \<and>
      ag_invoked a4 = ag_invoked a @ (if ce_cancel env then [] else [(cc_tool (cx_sel cx), cx_exec cx)]) \<and>
      ss_epoch (ag_session a4) = ss_epoch (ag_session a)"
    using observe_keeps [OF s4] observe_epoch [OF s4] r3 by (simp add: standing_def)
  have r5: "standing a5 = standing a \<and> ag_tool_calls a5 = Suc (ag_tool_calls a) \<and>
      ag_invoked a5 = ag_invoked a @ (if ce_cancel env then [] else [(cc_tool (cx_sel cx), cx_exec cx)]) \<and>
      (cc_read_only (cx_sel cx) \<longrightarrow> ss_epoch (ag_session a5) = ss_epoch (ag_session a))"
    using settle_keeps(1-5,7) [OF s5] settle_turn [OF s5] r4 by (simp add: standing_def mutated_def)
  consider "a' = a1" | "a' = a2" | "a' = a4" | "a' = a5"
    using assms s1 s2 s3 s4 s5 by (auto simp: dispatch_def then_do_def split: option.splits)
  then show ?thesis by cases (use q1 q2 r4 r5 in simp_all)
qed

lemma gated_effect:
  assumes "call_gated env cfg a cx pos = Some (a', e)"
  shows "standing a' = standing a \<and> (quiet a a' \<or>
    ag_tool_calls a' = Suc (ag_tool_calls a) \<and>
    ag_invoked a' = ag_invoked a @ (if ce_cancel env then [] else [(cc_tool (cx_sel cx), cx_exec cx)]) \<and>
    (cc_read_only (cx_sel cx) \<longrightarrow> ss_epoch (ag_session a') = ss_epoch (ag_session a)))"
proof -
  obtain g where g: "gate env cfg a cx = Some g" using assms by (auto simp: call_gated_def split: option.splits)
  have q: "quiet a (after_gate a g)" "standing (after_gate a g) = standing a"
    by (simp_all add: quiet_def standing_def after_gate_keeps)
  show ?thesis
  proof (cases "gr_err g = None \<and> gr_allowed g")
    case True
    then have "dispatch env cfg (after_gate a g) cx pos = (a', e)" using assms g by (simp add: call_gated_def Let_def)
    from dispatch_effect [OF this] show ?thesis using q by (auto simp: quiet_def after_gate_keeps)
  next
    case False
    then have "quiet (after_gate a g) a' \<and> standing a' = standing (after_gate a g)"
      using assms g
      by (auto simp: call_gated_def Let_def quiet_def standing_def authority_def split: if_splits dest!: refuse_authority)
    then show ?thesis using q by (simp add: quiet_def)
  qed
qed

lemma call_effect:
  assumes "call_execute env cfg a line fallback = Some (a', e)"
  shows "standing a' = standing a \<and> (quiet a a' \<or> (\<exists>cx. cleared env cfg a line cx \<and>
    ag_tool_calls a' = Suc (ag_tool_calls a) \<and>
    ag_invoked a' = ag_invoked a @ (if ce_cancel env then [] else [(cc_tool (cx_sel cx), cx_exec cx)]) \<and>
    (cc_read_only (cx_sel cx) \<longrightarrow> ss_epoch (ag_session a') = ss_epoch (ag_session a))))"
  using assms
proof (cases rule: call_execute_cases)
  case blocked
  then show ?thesis using authority_quiet by blast
next
  case (guarded a1 cx)
  note same = authority_fields [OF guarded(2)] authority_quiet [OF guarded(2)]
  from guarded(1) show ?thesis
  proof (cases rule: call_guarded_cases)
    case blocked
    then show ?thesis using authority_quiet [of a' a1] same by (auto simp: quiet_def)
  next
    case (gated a3)
    have "cleared env cfg a line cx" unfolding cleared_def using guarded gated(3,4) same by auto
    moreover have "authority a3 = authority a" using gated(2) guarded(2) by simp
    ultimately show ?thesis
      using gated_effect [OF gated(1)] authority_quiet [of a3 a] by (auto simp: quiet_def)
  qed
qed

section \<open>The same call again\<close>





section \<open>A concrete call\<close>

definition sample_command :: catalog_command where
  "sample_command =
     \<lparr>cc_cmd = \<lparr>sc_ref = ''sh'', sc_command = ''run'', sc_sha = ''s''\<rparr>, cc_tool = ''sh.run'', cc_read_only = False,
      cc_destructive = False, cc_idempotent = False\<rparr>"

definition sample_agent :: agent where
  "sample_agent =
     \<lparr>ag_turn = sample_state, ag_session = empty_session,
      ag_work = \<lparr>ws_store = None, ws_recovery = False, ws_busy = True, ws_root = ''/w''\<rparr>, ag_store = empty_store,
      ag_grants = [], ag_cache = [], ag_profile = CODING_SANDBOXED, ag_phase = PHASE_ACTION, ag_selection = [sample_command],
      ag_notes = [], ag_keys = [], ag_osc_a = [], ag_osc_b = [], ag_osc_cycles = 0, ag_repeats = 0, ag_futile = 0,
      ag_call_mute = False, ag_tool_calls = 0, ag_tools_used = False, ag_tool_ok = False, ag_wrote = False,
      ag_blocked = False, ag_labels = [], ag_invoked = [], ag_scenes = []\<rparr>"

definition sample_config :: call_config where
  "sample_config =
     \<lparr>cl_native = False, cl_max_tools = 8, cl_cache = \<lparr>tc_on = False, tc_ttl = 0, tc_max = 0\<rparr>, cl_confirm = CONFIRM_ALLOW,
      cl_asper = False\<rparr>"

definition plan_fine :: journal_plan where
  "plan_fine = \<lparr>jp_size_ok = True, jp_io = io_fine, jp_fault = {}\<rparr>"

definition idle_gate :: gate_env where
  "idle_gate =
     \<lparr>ge_io_request = (True, io_fine), ge_io_finish = (True, io_fine), ge_publish = None, ge_answers = [],
      ge_polls = [\<lparr>po_answers = [], po_cancel = False, po_expired = True, po_broken = False\<rparr>],
      ge_cancel = False, ge_expired = False, ge_late_cancel = False, ge_late_expired = False, ge_first = Ok [], ge_fresh = Ok [],
      ge_valid = True\<rparr>"

definition sample_env :: "(xnode \<Rightarrow> string option) \<Rightarrow> call_env" where
  "sample_env wr =
     \<lparr>ce_tools_on = True, ce_parse = (\<lambda>_. Some (''sh'', ''run'', ''{}'')), ce_annotated = (\<lambda>_ _. None),
      ce_validate = (\<lambda>_ _. None), ce_revalidate = (\<lambda>_ _. None), ce_last_error = [], ce_draft = (\<lambda>_. Err ERR_IO),
      ce_push = (\<lambda>_. None), ce_error_text = (\<lambda>_ _ _ _. None), ce_result_text = (\<lambda>_ _ _. Some ''ok''),
      ce_draft_hash = ''h'', ce_hash = ''h'', ce_hash_after = ''i'', ce_now = 0, ce_tick = 0, ce_base_root = ''/w'',
      ce_random = [], ce_redactor = (\<lambda>x. Ok (Some x)), ce_gate = idle_gate, ce_event = None, ce_remaining = None, ce_action_id = sample_id,
      ce_jp_action = plan_fine, ce_jp_observed = plan_fine, ce_io_revoke = (True, io_fine), ce_io_observe = (True, io_fine),
      ce_cancel = False, ce_result = \<lparr>tr_err = None, tr_ok = True, tr_xcdn = Some ''{}'', tr_code = None\<rparr>,
      ce_proof_base = None, ce_proof_after = None, ce_digest = (\<lambda>_. None), ce_xparse = (\<lambda>_. None), ce_xwrite = wr\<rparr>"

text \<open>A library that knows two values.\<close>

definition pair_write :: "xnode \<Rightarrow> xnode \<Rightarrow> xnode \<Rightarrow> string option" where
  "pair_write n1 n2 n = (if n = n1 then Some ''x'' else if n = n2 then Some ''y'' else None)"

definition pair_parse :: "xnode \<Rightarrow> xnode \<Rightarrow> string \<Rightarrow> xnode list option" where
  "pair_parse n1 n2 tx = (if tx = ''x'' then Some [n1] else if tx = ''y'' then Some [n2] else None)"

lemma pair_lib: "value_lib (pair_parse n1 n2) (pair_write n1 n2)"
  by (simp add: value_lib_def pair_parse_def pair_write_def)

lemma plan_fine_journal:
  assumes "turn_frame (ts_id t) state (journal_fields now s t state act) = Some v" "wr (xnode_new v) = Some [c]"
    and "\<not> ss_recovery s" "st_open (ss_journal_st s)" "length (st_file (ss_journal_st s)) < 1000"
  shows "turn_journal wr plan_fine now s t state act =
    (s\<lparr>ss_journal_st := (ss_journal_st s)\<lparr>st_file := st_file (ss_journal_st s) @ wal_frame [c]\<rparr>\<rparr>, None)"
proof -
  have "wal_append True io_fine (ss_journal_st s) [c] =
      ((ss_journal_st s)\<lparr>st_file := st_file (ss_journal_st s) @ wal_frame [c]\<rparr>, None)"
    by (rule wal_append_fine) (use assms(4,5) in \<open>simp_all add: WAL_FRAME_MAX_def WAL_LOG_MAX_def\<close>)
  then show ?thesis using assms by (simp add: turn_journal_def journal_put_def plan_fine_def boundary_def)
qed

lemma byte_frame_small: "length (wal_frame ''x'') < 1000"
  using wal_frame_length [of 1 "''x''"] by (simp add: wal_record_def no_nul_def WAL_FRAME_MAX_def)

lemma allowed_gate:
  "cl_confirm cfg = CONFIRM_ALLOW \<Longrightarrow> gate env cfg a cx = Some \<lparr>gr_store = (ag_store a)\<lparr>as_recovery := ss_recovery (ag_session a)\<rparr>,
     gr_grants = ag_grants a, gr_allowed = True, gr_code = ''astools/denied'', gr_approval = [], gr_err = None\<rparr>"
  by (simp add: gate_def call_confirm_def no_review_needed_def Let_def)


definition sample_turn :: turn_state where
  "sample_turn = sample_state\<lparr>ts_approval := [], ts_mutates := True, ts_action := sample_id\<rparr>"

text \<open>The agent behind the gate.\<close>

definition sample_behind :: "agent \<Rightarrow> bool" where
  "sample_behind a \<longleftrightarrow> ag_tool_calls a = 0 \<and> ag_turn a = sample_state\<lparr>ts_approval := []\<rparr> \<and> ag_session a = empty_session \<and>
     ws_store (ag_work a) = None \<and> ag_invoked a = []"

definition sample_context :: "string option \<Rightarrow> call_ctx" where
  "sample_context fb =
     \<lparr>cx_sel = sample_command, cx_ref = ''sh'', cx_cmd = ''run'', cx_args = ''{}'', cx_expanded = None, cx_draft = None,
      cx_fallback = fb\<rparr>"

lemma empty_session_fields [simp]: "ss_recovery empty_session = False" "ss_epoch empty_session = 0"
  "empty_session\<lparr>ss_recovery := False\<rparr> = empty_session"
  by (simp_all add: empty_session_def)

lemma sample_plain: "\<not> is_draft_call sample_config ''sh'' ''run'' ''{}''"
  "expand_write_draft (cl_native sample_config) ''sh'' ''run'' (Some ''{}'') content = Ok None"
  by (simp_all add: is_draft_call_def expand_write_draft_def tool_ref_is_def sample_config_def)

lemma sample_found: "tools_find [sample_command] ''sh'' ''run'' = Some 0"
  by (simp add: sample_command_def)

text \<open>The agent behind the guards, and the answer of the gate.\<close>

definition sample_clear :: "string option \<Rightarrow> call_env \<Rightarrow> agent" where
  "sample_clear fb env =
     (let key = call_state_key (cx_intent (sample_context fb)) (ce_hash env) (ss_epoch (ag_session sample_agent)) in
      sample_agent\<lparr>ag_osc_b := ag_osc_a sample_agent, ag_osc_a := key, ag_repeats := 0, ag_keys := [key], ag_futile := 0\<rparr>)"

definition sample_allowed :: "agent \<Rightarrow> gate_result" where
  "sample_allowed a =
     \<lparr>gr_store = (ag_store a)\<lparr>as_recovery := ss_recovery (ag_session a)\<rparr>,
      gr_grants = ag_grants a, gr_allowed = True, gr_code = ''astools/denied'', gr_approval = [], gr_err = None\<rparr>"

lemma sample_head:
  "\<exists>a3. call_execute (sample_env wr) sample_config sample_agent line fb =
     Some (dispatch (sample_env wr) sample_config a3 (sample_context fb) 0) \<and> sample_behind a3"
proof -
  have keys: "ag_keys sample_agent = []" "ag_tool_calls sample_agent = 0" by (simp_all add: sample_agent_def)
  have behind: "sample_behind (after_gate (sample_clear fb env) (sample_allowed (sample_clear fb env)))" for env
    by (simp add: sample_behind_def after_gate_def sample_clear_def sample_allowed_def sample_agent_def Let_def)
  have conf: "tc_on (cl_cache sample_config) = False" "cl_max_tools sample_config = 8" "cl_confirm sample_config = CONFIRM_ALLOW"
    by (simp_all add: sample_config_def)
  have "call_execute (sample_env wr) sample_config sample_agent line fb =
      call_profiled (sample_env wr) sample_config sample_agent (sample_context fb)"
    using sample_plain sample_found
    by (simp add: call_execute_def call_drafted_def draft_guard_def sample_env_def sample_agent_def sample_context_def)
  also have "\<dots> = call_guarded (sample_env wr) sample_config sample_agent (sample_context fb)"
    by (simp add: call_profiled_def readonly_excludes_def sample_agent_def sample_context_def)
  also have "\<dots> = Some (dispatch (sample_env wr) sample_config
      (after_gate (sample_clear fb (sample_env wr)) (sample_allowed (sample_clear fb (sample_env wr)))) (sample_context fb) 0)"
    using allowed_gate [of sample_config]
    by (simp add: call_guarded_def repeat_guard_def cap_guard_def cache_guard_def call_gated_def cacheable_def Let_def keys conf
      remember_key_def sample_clear_def sample_allowed_def)
  finally show ?thesis using behind by blast
qed

lemma sample_call:
  obtains wr parse a' where "value_lib parse wr"
    "call_execute (sample_env wr) sample_config sample_agent line fb = Some (a', None)"
    "ag_invoked a' = [(''sh.run'', ''{}'')]" "ag_tool_calls a' = 1"
proof -
  define s1 where "s1 = empty_session\<lparr>ss_journal_st := (ss_journal_st empty_session)\<lparr>st_file := wal_frame ''x''\<rparr>\<rparr>"
  define t1 where "t1 = sample_state\<lparr>ts_approval := [], ts_mutates := True, ts_action := sample_id\<rparr>"
  define t2 where "t2 = t1\<lparr>ts_attempted := False, ts_verified := False\<rparr>"
  obtain v1 v2 where
    v1: "turn_frame (ts_id t1) ''action'' (journal_fields 0 empty_session t1 ''action'' (Some ''sh.run {}'')) = Some v1" and
    v2: "turn_frame (ts_id t2) ''observed'' (journal_fields 0 s1 t2 ''observed'' (Some ''{}'')) = Some v2"
    by (simp add: turn_frame_def)
  define wr where "wr = pair_write (xnode_new v1) (xnode_new v2)"
  define env where "env = sample_env wr"
  obtain a3 where a3: "call_execute env sample_config sample_agent line fb = Some (dispatch env sample_config a3 (sample_context fb) 0)"
    "sample_behind a3" using sample_head [of wr line fb] unfolding env_def by blast
  have j1: "turn_journal wr plan_fine 0 empty_session t1 ''action'' (Some ''sh.run {}'') = (s1, None)"
    using plan_fine_journal [OF v1, of wr "CHR ''x''"] by (simp add: wr_def pair_write_def s1_def empty_session_def)
  have "xstr (xfield (Some v1) ''state'') = Some ''action''" "xstr (xfield (Some v2) ''state'') = Some ''observed''"
    unfolding v1 [symmetric] v2 [symmetric] by (simp_all add: turn_frame_def)
  then have "wr (xnode_new v2) = Some ''y''"
    by (auto simp: wr_def pair_write_def xnode_new_def)
  then obtain s2 where j2: "turn_journal wr plan_fine 0 s1 t2 ''observed'' (Some ''{}'') = (s2, None)"
    using plan_fine_journal [OF v2, of wr "CHR ''y''"] byte_frame_small by (simp add: s1_def empty_session_def)
  have fields: "ce_xwrite env = wr" "ce_jp_action env = plan_fine" "ce_jp_observed env = plan_fine" "ce_now env = 0"
    "ce_event env = None" "ce_remaining env = None" "ce_action_id env = sample_id" "\<not> ce_cancel env"
    "ce_result env = \<lparr>tr_err = None, tr_ok = True, tr_xcdn = Some ''{}'', tr_code = None\<rparr>"
    by (simp_all add: env_def sample_env_def)
  have cx: "cx_ref (sample_context fb) = ''sh''" "cx_cmd (sample_context fb) = ''run''" "cx_exec (sample_context fb) = ''{}''"
    "cc_read_only (cx_sel (sample_context fb)) = False" "cc_tool (cx_sel (sample_context fb)) = ''sh.run''" "\<not> cx_verifies (sample_context fb)"
    by (simp_all add: sample_context_def cx_exec_def sample_command_def cx_verifies_def verification_command_def)
  obtain a4 where a4: "announce env sample_config a3 (sample_context fb) = (a4, None)" "ag_session a4 = s1" "ag_turn a4 = t1"
    "ws_store (ag_work a4) = None" "ag_invoked a4 = []" "ag_tool_calls a4 = 0"
    using j1 a3(2) by (simp add: announce_def fields cx sample_behind_def t1_def)
  obtain a5 where a5: "revoke_evidence env a4 (sample_context fb) = (a5, None)" "ag_session a5 = s1" "ag_turn a5 = t2" "ag_invoked a5 = []"
    using a4(2-5) by (simp add: revoke_evidence_def fields cx work_revoke_def t2_def s1_def)
  obtain a6 r where a6: "run_tool env a5 (sample_context fb) = (a6, r)" by fastforce
  then have a6': "ag_session a6 = s1" "ag_turn a6 = t2" "ag_invoked a6 = [(''sh.run'', ''{}'')]" "r = ce_result env"
    using a5(2-4) fields(8) cx by (auto simp: run_tool_def tools_invoke_def verify_def)
  obtain a7 where a7: "observe_result env a6 (sample_context fb) r = (a7, None)"
    using a6' j2 cx(6) by (simp add: observe_result_def fields cx observed_text_def work_observe_def cx_verifies_def)
  have "snd (settle env sample_config a7 (sample_context fb) 0 r) = None"
    by (simp add: settle_def Let_def split_beta fields a6'(4) show_result_def work_push_def env_def sample_env_def)
  then obtain a8 where a8: "settle env sample_config a7 (sample_context fb) 0 r = (a8, None)" by (metis surjective_pairing)
  have "dispatch env sample_config a3 (sample_context fb) 0 = (a8, None)"
    using a4(1) a5(1) a6 a7 a8 by (simp add: dispatch_def then_do_def)
  moreover have "ag_invoked a8 = [(''sh.run'', ''{}'')]" "ag_tool_calls a8 = 1"
    using settle_keeps(1,2) [OF a8] observe_keeps [OF a7] a6'(3) run_tool_does [OF a6] revoke_keeps [OF a5(1)] a4(6) by simp_all
  ultimately show thesis
    using that [of "pair_parse (xnode_new v1) (xnode_new v2)" wr a8] a3(1) pair_lib by (simp add: env_def wr_def)
qed

theorem tool_runs_only_behind_gates_witness:
  "\<exists>wr a' cx g sn. call_execute (sample_env wr) sample_config sample_agent ''sh.run'' None = Some (a', None) \<and>
    ag_invoked a' = [(cc_tool (cx_sel cx), cx_exec cx)] \<and>
    cleared (sample_env wr) sample_config sample_agent ''sh.run'' cx \<and>
    gate (sample_env wr) sample_config sample_agent cx = Some g \<and> gr_allowed g \<and>
    ag_scenes a' = [sn] \<and> scene_ready (sample_env wr) sample_agent g cx sn"
proof -
  obtain wr parse a' where c: "call_execute (sample_env wr) sample_config sample_agent ''sh.run'' None = Some (a', None)"
    "ag_invoked a' = [(''sh.run'', ''{}'')]" by (rule sample_call)
  have none: "ag_invoked sample_agent = []" "ag_scenes sample_agent = []" by (simp_all add: sample_agent_def)
  with c(2) have "ag_invoked a' \<noteq> ag_invoked sample_agent" by simp
  from tool_runs_only_behind_gates [OF c(1) this, unfolded none append_Nil] c(1) show ?thesis by blast
qed

theorem call_settles_journal_witness:
  "\<exists>wr parse a' epoch. call_execute (sample_env wr) sample_config sample_agent ''sh.run'' None = Some (a', None) \<and>
    journal_holds parse (ag_session a') [F_action sample_id sample_id epoch, F_observed sample_id sample_id]"
proof -
  obtain wr parse a' where c: "value_lib parse wr"
    "call_execute (sample_env wr) sample_config sample_agent ''sh.run'' None = Some (a', None)"
    "ag_tool_calls a' = 1" by (rule sample_call)
  have lib: "value_lib parse (ce_xwrite (sample_env wr))" using c(1) by (simp add: sample_env_def)
  have start: "journal_holds parse (ag_session sample_agent) []" "ss_epoch (ag_session sample_agent) < 2 ^ 63"
    "ag_tool_calls sample_agent = 0" "ts_id (ag_turn sample_agent) = sample_id"
    by (simp_all add: journal_holds_def sample_agent_def sample_state_def) (simp add: empty_session_def)
  have "ce_action_id (sample_env wr) = sample_id" by (simp add: sample_env_def)
  then obtain epoch where "journal_holds parse (ag_session a') [F_action sample_id sample_id epoch, F_observed sample_id sample_id]"
    using call_settles_journal [OF c(2) _ lib start(1,2)] c start by auto
  with c(2) show ?thesis by blast
qed


end
