(* ===== verification/Actions.thy ===== *)
theory Actions
  imports Steps Dispatch
begin

text \<open>
  The action controller: \<^verbatim>\<open>asngn_action_apply\<close> of \<^verbatim>\<open>src/action_apply.c\<close>, the decision loop over the
  model's lines in \<^verbatim>\<open>src/action_loop.c\<close>, the predicates of \<^verbatim>\<open>src/action_state.c\<close>, the discovery of a
  selection in \<^verbatim>\<open>src/tools.c\<close>, and the step of \<^verbatim>\<open>src/loop.c\<close> that leads from the actions to the response.

  What happens around one pass of the loop is a record: the flags another thread or the clock may
  have set, the model's line, the answers of memory, blobs and discovery, and the environment of a
  tool call.  The environments of the passes are a function of the pass number, so that nothing is
  assumed about how long a model goes on.  Prompt texts, telemetry and log lines are left out.
\<close>

section \<open>State and environment\<close>

datatype route_task = RTASK_CHAT | RTASK_LOOKUP | RTASK_EXPLAIN | RTASK_EDIT | RTASK_BUILD | RTASK_GENERATE
  | RTASK_REFACTOR | RTASK_DEBUG

record controller =
  ct_agent :: agent
  ct_steps :: nat
  ct_thinks_row :: nat
  ct_thinks_total :: nat
  ct_think_mute :: bool
  ct_recall_keys :: "string list"
  ct_recalls :: nat
  ct_forced :: bool
  ct_clarify :: bool
  ct_answer :: "string option"

record action_config =
  ac_call :: call_config
  ac_task :: route_task
  ac_complex :: bool
  ac_tools :: bool
  ac_asper :: bool
  ac_max_steps :: int
  ac_think_limit :: int
  ac_working_tokens :: int
  ac_tool_limit :: int
  ac_schema_bytes :: int

record pass_env =
  pe_cancel :: bool
  pe_expired :: bool
  pe_prepare :: "asngn_err option"
  pe_line :: "string outcome"
  pe_event :: "asngn_err option"
  pe_apply_cancel :: bool
  pe_apply_expired :: bool
  pe_call :: call_env
  pe_discover :: "string \<Rightarrow> nat \<Rightarrow> nat \<Rightarrow> bool \<Rightarrow> catalog_command list option"
  pe_recall :: "string \<Rightarrow> string option"
  pe_blobs :: nat
  pe_blob_read :: "nat \<Rightarrow> int \<Rightarrow> nat \<Rightarrow> string option outcome"
  pe_tokens :: "string \<Rightarrow> nat"
  pe_fresh :: "workspace_info \<Rightarrow> workspace_info \<times> bool"

section \<open>Predicates\<close>

definition coding_task :: "route_task \<Rightarrow> bool" where
  "coding_task task \<longleftrightarrow> task = RTASK_GENERATE \<or> task = RTASK_EDIT \<or> task = RTASK_REFACTOR \<or> task = RTASK_DEBUG \<or>
     task = RTASK_BUILD"

definition needs_artifact :: "action_config \<Rightarrow> agent \<Rightarrow> bool" where
  "needs_artifact cfg a \<longleftrightarrow>
     ac_task cfg = RTASK_GENERATE \<and> ac_tools cfg \<and> \<not> ts_written (ag_turn a) \<and> \<not> ag_blocked a \<and>
     ag_profile a \<noteq> CODING_READONLY"

text \<open>The check of a verification forgets one that the workspace has outgrown.\<close>

definition verification_unresolved :: "action_config \<Rightarrow> (workspace_info \<Rightarrow> workspace_info \<times> bool) \<Rightarrow> agent \<Rightarrow> agent \<times> bool" where
  "verification_unresolved cfg fresh a =
     (if \<not> coding_task (ac_task cfg) \<or> \<not> ts_written (ag_turn a) then (a, False)
      else if \<not> ts_attempted (ag_turn a) then (a, True)
      else case Turn_Journal.verification_current fresh (ag_session a) (ag_turn a) of (t, ok) \<Rightarrow> (a\<lparr>ag_turn := t\<rparr>, \<not> ok))"

section \<open>Discovery\<close>

text \<open>The longest prefix of at most n bytes that is valid UTF-8.\<close>

primrec utf8_cut :: "nat \<Rightarrow> string \<Rightarrow> nat" where
  "utf8_cut 0 s = 0"
| "utf8_cut (Suc n) s = (if utf8_valid (take (Suc n) s) then Suc n else utf8_cut n s)"

definition tools_query :: "string option \<Rightarrow> string" where
  "tools_query intent =
     (case intent of
        None \<Rightarrow> []
      | Some s \<Rightarrow> if 4096 < length s then take (utf8_cut 4096 s) s else s)"

definition tools_select :: "pass_env \<Rightarrow> action_config \<Rightarrow> agent \<Rightarrow> string option \<Rightarrow> agent outcome" where
  "tools_select env cfg a intent =
     (if \<not> ac_tools cfg then Err ERR_UNSUPPORTED
      else if ac_tool_limit cfg < 1 \<or> 64 < ac_tool_limit cfg \<or> ac_schema_bytes cfg < 1 \<or> 1024 * 1024 < ac_schema_bytes cfg
        then Err ERR_CONFIG
      else case pe_discover env (tools_query intent) (nat (ac_tool_limit cfg)) (nat (ac_schema_bytes cfg))
            (ag_profile a = CODING_READONLY) of
        None \<Rightarrow> Err ERR_SIBLING
      | Some selection \<Rightarrow> Ok (a\<lparr>ag_selection := selection\<rparr>))"

section \<open>Applying a decision\<close>

definition push_note :: "pass_env \<Rightarrow> agent \<Rightarrow> string \<Rightarrow> agent" where
  "push_note env a text = fst (work_push (pe_call env) a text)"

definition apply_discover :: "pass_env \<Rightarrow> action_config \<Rightarrow> step \<Rightarrow> bool \<Rightarrow> agent \<Rightarrow> agent \<times> asngn_err option" where
  "apply_discover env cfg st discover_now a =
     (if \<not> discover_now then
        work_push (pe_call env) (a\<lparr>ag_futile := ag_futile a + 1\<rparr>) ''[notice] tool discovery is disabled for this turn''
      else
        (case tools_select env cfg a (st_text st) of
           Err e \<Rightarrow> (a\<lparr>ag_futile := 0\<rparr>, Some e)
         | Ok a1 \<Rightarrow> work_push (pe_call env) (a1\<lparr>ag_futile := 0\<rparr>)
             ''[notice] tool selection replaced; use the current catalog for the next action''))"

definition think_spent :: "string" where
  "think_spent = ''[notice] thinking budget complete '' @ EM_DASH @ '' use the analysis and take the next useful step''"

definition apply_think :: "pass_env \<Rightarrow> action_config \<Rightarrow> step \<Rightarrow> bool \<Rightarrow> controller \<Rightarrow> controller" where
  "apply_think env cfg st think_now c =
     (let c1 = c\<lparr>ct_thinks_total := ct_thinks_total c + 1\<rparr>; a = ct_agent c in
      if \<not> think_now then c1\<lparr>ct_agent := a\<lparr>ag_futile := ag_futile a + 1\<rparr>, ct_think_mute := True\<rparr>
      else
        let a1 = push_note env (a\<lparr>ag_futile := 0\<rparr>) (''THINK: '' @ (case st_text st of Some s \<Rightarrow> s | None \<Rightarrow> []));
            row = ct_thinks_row c + 1
        in if ac_think_limit cfg \<le> int row
           then c1\<lparr>ct_agent := push_note env a1 think_spent, ct_thinks_row := row, ct_think_mute := True\<rparr>
           else c1\<lparr>ct_agent := a1, ct_thinks_row := row\<rparr>)"

definition recall_spent :: "string" where
  "recall_spent = ''[notice] memory already consulted '' @ EM_DASH @ '' act or answer''"

definition push_data :: "pass_env \<Rightarrow> agent \<Rightarrow> string \<Rightarrow> agent" where
  "push_data env a text = push_note env a (data_item text)"

definition apply_recall :: "pass_env \<Rightarrow> step \<Rightarrow> controller \<Rightarrow> controller" where
  "apply_recall env st c =
     (let a = ct_agent c; question = (case st_text st of Some s \<Rightarrow> s | None \<Rightarrow> []); key = asngn_sha256 question in
      if key \<in> set (ct_recall_keys c) \<or> 3 \<le> ct_recalls c
      then c\<lparr>ct_agent := push_note env (a\<lparr>ag_futile := ag_futile a + 1\<rparr>) recall_spent\<rparr>
      else
        let a1 = a\<lparr>ag_futile := 0\<rparr>;
            a2 = (case pe_recall env question of
                    None \<Rightarrow> a1
                  | Some block \<Rightarrow>
                      let masked = context_text (ss_redact (ag_session a)) block in
                      push_data env a1 (case ce_digest (pe_call env) masked of Some digest \<Rightarrow> digest | None \<Rightarrow> masked))
        in c\<lparr>ct_agent := a2, ct_recall_keys := ct_recall_keys c @ [key], ct_recalls := ct_recalls c + 1\<rparr>)"

text \<open>What is left of the working zone, at least 64 tokens.\<close>

definition free_chars :: "pass_env \<Rightarrow> action_config \<Rightarrow> agent \<Rightarrow> nat" where
  "free_chars env cfg a =
     (let used = sum_list (map (pe_tokens env) (ag_notes a)); limit = nat (ac_working_tokens cfg mod 2 ^ 64)
      in 4 * max 64 (limit - used))"

definition blob_gone :: "string option outcome \<Rightarrow> string" where
  "blob_gone r =
     (case r of Ok _ \<Rightarrow> ''[notice] end of blob''
      | Err _ \<Rightarrow> ''[notice] evidence range unavailable: check its byte offset and UTF-8 boundary'')"

definition apply_open :: "pass_env \<Rightarrow> action_config \<Rightarrow> step \<Rightarrow> agent \<Rightarrow> agent" where
  "apply_open env cfg st a =
     (let n = fst (st_blob st) in
      if n < 1 \<or> int (pe_blobs env) < n
      then push_note env (a\<lparr>ag_futile := ag_futile a + 1\<rparr>) ''[notice] no such blob''
      else case pe_blob_read env (nat (n - 1)) (snd (st_blob st)) (free_chars env cfg a) of
        Ok (Some part) \<Rightarrow> push_data env (a\<lparr>ag_futile := 0\<rparr>) part
      | r \<Rightarrow> push_note env (a\<lparr>ag_futile := ag_futile a + 1\<rparr>) (blob_gone r))"

definition call_line :: "step \<Rightarrow> string" where
  "call_line st = (case st_call st of Some (ref, cmd, args) \<Rightarrow> ''CALL '' @ ref @ ''.'' @ cmd @ '' '' @ args | None \<Rightarrow> [])"

definition apply_call ::
    "pass_env \<Rightarrow> action_config \<Rightarrow> step \<Rightarrow> bool \<Rightarrow> agent \<Rightarrow> (agent \<times> asngn_err option) option" where
  "apply_call env cfg st call_now a =
     (if \<not> call_now
      then Some (push_note env (a\<lparr>ag_futile := ag_futile a + 1\<rparr>) ''[notice] CALL is unavailable for this decision'', None)
      else call_execute (pe_call env) (ac_call cfg) a (call_line st) (st_fallback st))"

text \<open>One decision: the new state, whether the actions are over, the error.  None means that the
  host never answers a confirmation.\<close>

definition apply_kind ::
    "pass_env \<Rightarrow> action_config \<Rightarrow> step \<Rightarrow> bool \<Rightarrow> bool \<Rightarrow> bool \<Rightarrow> controller \<Rightarrow> (controller \<times> bool \<times> asngn_err option) option" where
  "apply_kind env cfg st call_now think_now discover_now c =
     (case st_kind st of
        STEP_ANSWER \<Rightarrow>
          if needs_artifact cfg (ct_agent c) then Some (c, False, Some ERR_PROTOCOL) else Some (c, True, None)
      | STEP_DISCOVER \<Rightarrow>
          (case apply_discover env cfg st discover_now (ct_agent c) of
             (a, e) \<Rightarrow> Some (c\<lparr>ct_agent := a, ct_thinks_row := 0\<rparr>, False, e))
      | STEP_CLARIFY \<Rightarrow> Some (c\<lparr>ct_clarify := True, ct_answer := st_text st\<rparr>, True, None)
      | STEP_THINK \<Rightarrow> Some (apply_think env cfg st think_now c, False, None)
      | STEP_RECALL \<Rightarrow> Some (apply_recall env st (c\<lparr>ct_thinks_row := 0\<rparr>), False, None)
      | STEP_OPEN \<Rightarrow> Some (c\<lparr>ct_agent := apply_open env cfg st (ct_agent c), ct_thinks_row := 0\<rparr>, False, None)
      | STEP_CALL \<Rightarrow>
          (case apply_call env cfg st call_now (ct_agent c) of
             None \<Rightarrow> None
           | Some (a, e) \<Rightarrow> Some (c\<lparr>ct_agent := a, ct_thinks_row := 0\<rparr>, False, e)))"

definition action_apply ::
    "pass_env \<Rightarrow> action_config \<Rightarrow> step \<Rightarrow> bool \<Rightarrow> bool \<Rightarrow> bool \<Rightarrow> controller \<Rightarrow> (controller \<times> bool \<times> asngn_err option) option" where
  "action_apply env cfg st call_now think_now discover_now c =
     (if ag_phase (ct_agent c) \<noteq> PHASE_ACTION then Some (c, False, Some ERR_PROTOCOL)
      else if pe_apply_cancel env then Some (c, False, Some ERR_CANCELLED)
      else if pe_apply_expired env then Some (c, False, Some ERR_TIMEOUT)
      else if ac_max_steps cfg \<le> int (ct_steps c) then Some (c, False, Some ERR_LIMIT)
      else apply_kind env cfg st call_now think_now discover_now (c\<lparr>ct_steps := ct_steps c + 1\<rparr>))"

section \<open>The decision loop\<close>

definition steps_spent :: "string" where
  "steps_spent = ''[notice] step budget exhausted '' @ EM_DASH @ '' answer with what you have''"

definition no_progress :: "string" where
  "no_progress = ''[notice] no further progress '' @ EM_DASH @ '' answering with what you have''"

definition leave_spent :: "pass_env \<Rightarrow> action_config \<Rightarrow> controller \<Rightarrow> controller \<times> asngn_err option" where
  "leave_spent env cfg c =
     (if needs_artifact cfg (ct_agent c) then (c, Some ERR_PROTOCOL)
      else (c\<lparr>ct_agent := push_note env (ct_agent c) steps_spent, ct_forced := True\<rparr>, None))"

text \<open>The model's line, parsed; a line without its newline was cut off.\<close>

definition read_decision :: "'j json_api \<Rightarrow> pass_env \<Rightarrow> step outcome" where
  "read_decision api env =
     (case pe_prepare env of
        Some e \<Rightarrow> Err e
      | None \<Rightarrow>
          (case pe_line env of
             Err e \<Rightarrow> Err e
           | Ok line \<Rightarrow>
               if NL \<notin> set line then Err ERR_PROTOCOL
               else case step_parse api (Some line) of Err e \<Rightarrow> Err ERR_PROTOCOL | Ok st \<Rightarrow> Ok st))"

definition offers :: "action_config \<Rightarrow> controller \<Rightarrow> controller \<times> bool \<times> bool" where
  "offers cfg c =
     (c\<lparr>ct_agent := (ct_agent c)\<lparr>ag_call_mute := False\<rparr>, ct_think_mute := False\<rparr>,
      ac_tools cfg \<and> ag_selection (ct_agent c) \<noteq> [] \<and> \<not> ag_call_mute (ct_agent c),
      0 < ac_think_limit cfg \<and> \<not> ct_think_mute c)"

definition invalid_call :: "string" where
  "invalid_call = ''[notice] the previous tool action was invalid; issue a corrected workspace-relative call''"

text \<open>A call the tool protocol refused is shown to the model, and the generator decides from then on.\<close>

definition retry_call :: "pass_env \<Rightarrow> controller \<Rightarrow> controller" where
  "retry_call env c = c\<lparr>ct_agent := (let a = push_note env (ct_agent c) invalid_call in a\<lparr>ag_futile := ag_futile a + 1\<rparr>)\<rparr>"

definition futile_check :: "pass_env \<Rightarrow> action_config \<Rightarrow> controller \<Rightarrow> controller \<times> bool" where
  "futile_check env cfg c =
     (if ag_futile (ct_agent c) < 2 \<or> \<not> ag_tool_ok (ct_agent c) then (c, False)
      else case verification_unresolved cfg (pe_fresh env) (ct_agent c) of
        (a, True) \<Rightarrow> (c\<lparr>ct_agent := a\<rparr>, False)
      | (a, False) \<Rightarrow> (c\<lparr>ct_agent := push_note env a no_progress, ct_forced := True\<rparr>, True))"

text \<open>What follows a decision that was applied: the state, the tier, and how the loop ends, if it does.\<close>

definition after_apply ::
    "pass_env \<Rightarrow> action_config \<Rightarrow> bool \<Rightarrow> step \<Rightarrow> controller \<times> bool \<times> asngn_err option \<Rightarrow>
     controller \<times> bool \<times> asngn_err option option" where
  "after_apply env cfg generator st r =
     (case r of
        (c, over, e) \<Rightarrow>
          let retry = (e = Some ERR_PROTOCOL \<and> st_kind st = STEP_CALL);
              c1 = (if retry then retry_call env c else c);
              g1 = (generator \<or> retry);
              e1 = (if retry then None else e)
          in if e1 \<noteq> None \<or> over then (c1, g1, Some e1)
             else
               let tiered = (st_kind st = STEP_CALL \<and> 2 \<le> ag_repeats (ct_agent c1) \<and> \<not> g1);
                   c2 = (if tiered then c1\<lparr>ct_agent := (ct_agent c1)\<lparr>ag_call_mute := False\<rparr>\<rparr> else c1)
               in (case futile_check env cfg c2 of
                     (c3, stop) \<Rightarrow> (c3, g1 \<or> tiered, if stop then Some None else None)))"

definition decide_pass ::
    "'j json_api \<Rightarrow> pass_env \<Rightarrow> action_config \<Rightarrow> bool \<Rightarrow> controller \<Rightarrow>
     (controller \<times> bool \<times> asngn_err option option) option" where
  "decide_pass api env cfg generator c =
     (if ac_max_steps cfg \<le> int (ct_steps c) \<or> pe_expired env \<or> 2 < ag_osc_cycles (ct_agent c)
      then (case leave_spent env cfg c of (c1, e) \<Rightarrow> Some (c1, generator, Some e))
      else case offers cfg c of
        (c1, call_now, think_now) \<Rightarrow>
          (case read_decision api env of
             Err e \<Rightarrow> Some (c1, generator, Some (Some e))
           | Ok st \<Rightarrow>
               if ac_asper cfg \<and> pe_event env \<noteq> None then Some (c1, generator, Some (pe_event env))
               else map_option (after_apply env cfg generator st)
                      (action_apply env cfg st call_now think_now (ac_tools cfg) c1)))"

partial_function (option) actions_loop ::
    "'j json_api \<Rightarrow> (nat \<Rightarrow> pass_env) \<Rightarrow> action_config \<Rightarrow> nat \<Rightarrow> bool \<Rightarrow> controller \<Rightarrow>
     (controller \<times> asngn_err option) option" where
  "actions_loop api envs cfg i generator c =
     (if pe_cancel (envs i) then Some (c, Some ERR_CANCELLED)
      else Option.bind (decide_pass api (envs i) cfg generator c)
        (\<lambda>r. case snd (snd r) of
            Some e \<Rightarrow> Some (fst r, e)
          | None \<Rightarrow> actions_loop api envs cfg (Suc i) (fst (snd r)) (fst r)))"

text \<open>The loop of the constrained protocol; the branch to native function calling before it is taken
  where the turn loop acts (\<^verbatim>\<open>loop_act\<close> of \<^verbatim>\<open>Turn.thy\<close>).\<close>

definition actions_run ::
    "'j json_api \<Rightarrow> (nat \<Rightarrow> pass_env) \<Rightarrow> action_config \<Rightarrow> controller \<Rightarrow> (controller \<times> asngn_err option) option" where
  "actions_run api envs cfg c =
     (if ag_phase (ct_agent c) \<noteq> PHASE_ACTION then Some (c, Some ERR_PROTOCOL)
      else actions_loop api envs cfg 0 (coding_task (ac_task cfg) \<or> ac_complex cfg) c)"

section \<open>What a decision leaves alone\<close>

text \<open>The part of an agent that only a tool call changes.\<close>

definition grounded where
  "grounded a = (ag_phase a, ag_profile a, pinned (ag_turn a), ag_tool_calls a, ag_invoked a, ag_session a)"

lemma push_note_grounded [simp]: "grounded (push_note env a text) = grounded a"
  by (simp add: push_note_def grounded_def)

lemma push_data_grounded [simp]: "grounded (push_data env a text) = grounded a"
  by (simp add: push_data_def)

lemma grounded_update [simp]: "grounded (a\<lparr>ag_futile := n\<rparr>) = grounded a" "grounded (a\<lparr>ag_call_mute := b\<rparr>) = grounded a"
  "grounded (a\<lparr>ag_selection := v\<rparr>) = grounded a"
  by (simp_all add: grounded_def)

lemma push_note_fields [simp]: "ag_selection (push_note env a text) = ag_selection a" "ag_phase (push_note env a text) = ag_phase a"
  "ag_turn (push_note env a text) = ag_turn a" "ag_tool_ok (push_note env a text) = ag_tool_ok a"
  by (simp_all add: push_note_def work_push_def split: option.split)

lemma apply_discover_grounded: "apply_discover env cfg st now a = (a', e) \<Longrightarrow> grounded a' = grounded a"
proof -
  have g: "grounded (fst (work_push env' b tx)) = grounded b" for env' b tx by (simp add: grounded_def)
  assume "apply_discover env cfg st now a = (a', e)"
  then have "a' = fst (apply_discover env cfg st now a)" by simp
  then show ?thesis
    by (simp add: apply_discover_def g tools_select_def Let_def split: option.split sum.split if_splits)
qed

lemma apply_think_grounded: "grounded (ct_agent (apply_think env cfg st now c)) = grounded (ct_agent c)"
  by (simp add: apply_think_def Let_def)

lemma apply_recall_grounded: "grounded (ct_agent (apply_recall env st c)) = grounded (ct_agent c)"
  by (simp add: apply_recall_def Let_def split: option.split)

lemma apply_open_grounded: "grounded (apply_open env cfg st a) = grounded a"
  by (simp add: apply_open_def Let_def split: option.split sum.split)

lemma unresolved_grounded: "verification_unresolved cfg fresh a = (a', b) \<Longrightarrow> grounded a' = grounded a"
  by (auto simp: verification_unresolved_def Turn_Journal.verification_current_def grounded_def split: if_splits prod.splits)

lemma futile_check_grounded:
  assumes "futile_check env cfg c = (c', stop)"
  shows "grounded (ct_agent c') = grounded (ct_agent c) \<and> ct_steps c' = ct_steps c"
proof (cases "ag_futile (ct_agent c) < 2 \<or> \<not> ag_tool_ok (ct_agent c)")
  case True
  then show ?thesis using assms by (simp add: futile_check_def)
next
  case False
  obtain a b where "verification_unresolved cfg (pe_fresh env) (ct_agent c) = (a, b)" by fastforce
  from assms False this unresolved_grounded [OF this] show ?thesis by (cases b) (auto simp: futile_check_def)
qed

lemma retry_call_grounded [simp]: "grounded (ct_agent (retry_call env c)) = grounded (ct_agent c)" "ct_steps (retry_call env c) = ct_steps c"
  by (simp_all add: retry_call_def Let_def)

text \<open>The effect of a decision: that of the call it made, or none.\<close>

lemma apply_kind_cases:
  assumes "apply_kind env cfg st call_now think_now discover_now c = Some (c', over, e)"
  obtains (calm) "grounded (ct_agent c') = grounded (ct_agent c)"
  | (call) line fallback where "st_kind st = STEP_CALL" "over = False"
      "call_execute (pe_call env) (ac_call cfg) (ct_agent c) line fallback = Some (ct_agent c', e)"
proof (cases "st_kind st = STEP_CALL \<and> call_now")
  case True
  then show thesis using assms call
    by (auto simp: apply_kind_def apply_call_def split: option.splits)
next
  case False
  then have "grounded (ct_agent c') = grounded (ct_agent c)"
    using assms apply_discover_grounded apply_think_grounded apply_recall_grounded [of env st "c\<lparr>ct_thinks_row := 0\<rparr>"] apply_open_grounded
    by (auto simp: apply_kind_def apply_call_def split: step_kind.splits prod.splits option.splits if_splits)
  then show thesis by (rule calm)
qed

lemma apply_kind_steps:
  assumes "apply_kind env cfg st call_now think_now discover_now c = Some (c', over, e)"
  shows "ct_steps c' = ct_steps c"
  using assms
  by (auto simp: apply_kind_def apply_think_def apply_recall_def Let_def split: step_kind.splits prod.splits option.splits if_splits)

lemma action_apply_cases:
  assumes "action_apply env cfg st call_now think_now discover_now c = Some (c', over, e)" "ag_phase (ct_agent c) = PHASE_ACTION"
  obtains (refused) "c' = c" "\<not> over" "e \<noteq> None" "e \<noteq> Some ERR_PROTOCOL"
  | (applied) "int (ct_steps c) < ac_max_steps cfg" "ct_steps c' = Suc (ct_steps c)"
      "apply_kind env cfg st call_now think_now discover_now (c\<lparr>ct_steps := ct_steps c + 1\<rparr>) = Some (c', over, e)"
  using assms apply_kind_steps [of env cfg st call_now think_now discover_now "c\<lparr>ct_steps := ct_steps c + 1\<rparr>" c' over e]
  by (auto simp: action_apply_def split: if_splits)

lemma after_apply_grounded:
  assumes "after_apply env cfg g st (c, over, e) = (c', g', v)"
  shows "grounded (ct_agent c') = grounded (ct_agent c)" "ct_steps c' = ct_steps c"
    "v = None \<or> v = Some None \<Longrightarrow> e = None \<or> e = Some ERR_PROTOCOL \<and> st_kind st = STEP_CALL"
    "v = None \<Longrightarrow> \<not> over"
  using assms
  by (auto simp: after_apply_def Let_def split: if_splits prod.splits dest!: futile_check_grounded)

lemma offers_grounded:
  assumes "offers cfg c = (c1, call_now, think_now)"
  shows "grounded (ct_agent c1) = grounded (ct_agent c)" "ct_steps c1 = ct_steps c" "ag_selection (ct_agent c1) = ag_selection (ct_agent c)"
  using assms by (auto simp: offers_def)

text \<open>The budgets that end the actions from outside: decisions, time, and calls in a circle.\<close>

definition budget_spent :: "pass_env \<Rightarrow> action_config \<Rightarrow> controller \<Rightarrow> bool" where
  "budget_spent env cfg c \<longleftrightarrow> ac_max_steps cfg \<le> int (ct_steps c) \<or> pe_expired env \<or> 2 < ag_osc_cycles (ct_agent c)"

text \<open>The ways of one pass: the budget is spent, there is no decision, or one was applied.\<close>

lemma decide_pass_ways:
  assumes "decide_pass api env cfg g c = Some (c', g', v)"
  obtains (spent) e where "leave_spent env cfg c = (c', e)" "v = Some e" "budget_spent env cfg c"
  | (unread) call_now think_now e where "offers cfg c = (c', call_now, think_now)" "v = Some (Some e)"
  | (applied) c1 call_now think_now st d over e where "offers cfg c = (c1, call_now, think_now)"
      "action_apply env cfg st call_now think_now (ac_tools cfg) c1 = Some (d, over, e)"
      "after_apply env cfg g st (d, over, e) = (c', g', v)" "read_decision api env = Ok st"
proof (cases "ac_max_steps cfg \<le> int (ct_steps c) \<or> pe_expired env \<or> 2 < ag_osc_cycles (ct_agent c)")
  case True
  then show thesis using assms spent by (auto simp: decide_pass_def budget_spent_def split: prod.splits)
next
  case go: False
  obtain c1 call_now think_now where o: "offers cfg c = (c1, call_now, think_now)" by (metis prod_cases3)
  show thesis
  proof (cases "\<exists>st. read_decision api env = Ok st \<and> \<not> (ac_asper cfg \<and> pe_event env \<noteq> None)")
    case False
    then have "c' = c1 \<and> (\<exists>e. v = Some (Some e))" using assms go o by (auto simp: decide_pass_def split: sum.splits if_splits)
    then show thesis using unread o by blast
  next
    case True
    then obtain st r where "action_apply env cfg st call_now think_now (ac_tools cfg) c1 = Some r"
      "after_apply env cfg g st r = (c', g', v)" "read_decision api env = Ok st"
      using assms go o by (auto simp: decide_pass_def)
    then show thesis using applied [OF o] by (metis prod_cases3)
  qed
qed

lemma grounded_phase: "grounded a = grounded b \<Longrightarrow> ag_phase a = ag_phase b"
  by (simp add: grounded_def)

lemma decide_pass_cases:
  assumes "decide_pass api env cfg g c = Some (c', g', v)" "ag_phase (ct_agent c) = PHASE_ACTION"
  obtains (calm) "grounded (ct_agent c') = grounded (ct_agent c)"
      "ct_steps c' = ct_steps c \<and> v \<noteq> None \<or> ct_steps c' = Suc (ct_steps c) \<and> int (ct_steps c) < ac_max_steps cfg"
  | (call) b a line fallback e where "grounded b = grounded (ct_agent c)" "ag_selection b = ag_selection (ct_agent c)"
      "call_execute (pe_call env) (ac_call cfg) b line fallback = Some (a, e)" "grounded (ct_agent c') = grounded a"
      "ct_steps c' = Suc (ct_steps c)" "int (ct_steps c) < ac_max_steps cfg"
      "v = None \<or> v = Some None \<Longrightarrow> e = None \<or> e = Some ERR_PROTOCOL"
proof -
  from assms(1) show thesis
  proof (cases rule: decide_pass_ways)
    case (spent e)
    then have "grounded (ct_agent c') = grounded (ct_agent c) \<and> ct_steps c' = ct_steps c"
      by (auto simp: leave_spent_def split: if_splits)
    then show thesis using calm spent(2) by blast
  next
    case (unread call_now think_now e)
    then show thesis using calm offers_grounded [OF unread(1)] by blast
  next
    case (applied c1 call_now think_now st d over e)
    note o1 = offers_grounded [OF applied(1)] and f = after_apply_grounded [OF applied(3)]
    have "ag_phase (ct_agent c1) = PHASE_ACTION" using grounded_phase [OF o1(1)] assms(2) by simp
    from applied(2) this show thesis
    proof (cases rule: action_apply_cases)
      case refused
      have "v \<noteq> None"
      proof
        assume "v = None"
        then have "e = None \<or> e = Some ERR_PROTOCOL \<and> st_kind st = STEP_CALL" using f(3) by simp
        with refused(3,4) show False by simp
      qed
      then show thesis using calm f(1,2) o1 refused(1) by simp
    next
      case taken: applied
      from taken(3) show thesis
      proof (cases rule: apply_kind_cases)
        case calm
        then show thesis using that(1) f(1,2) o1 taken by simp
      next
        case (call line fallback)
        show thesis
          by (rule that(2) [of "ct_agent c1" line fallback "ct_agent d" e]) (use call f o1 taken in auto)
      qed
    qed
  qed
qed

section \<open>The loop\<close>

text \<open>How to reason about a loop that returned.\<close>

lemma actions_loop_rule_at:
  assumes "actions_loop api envs cfg i g c = Some (c', e)" "I i c"
    and "\<And>i g c d g'. I i c \<Longrightarrow> decide_pass api (envs i) cfg g c = Some (d, g', None) \<Longrightarrow> I (Suc i) d"
    and "\<And>i g c d g' e. I i c \<Longrightarrow> decide_pass api (envs i) cfg g c = Some (d, g', Some e) \<Longrightarrow> Q d e"
    and "\<And>i c. I i c \<Longrightarrow> Q c (Some ERR_CANCELLED)"
  shows "Q c' e"
proof -
  have "api = api \<and> envs = envs \<and> cfg = cfg \<longrightarrow> I i c \<longrightarrow> Q (fst r) (snd r)" if "actions_loop api envs cfg i g c = Some r" for r
  proof (rule actions_loop.raw_induct [where P = "\<lambda>api' envs' cfg' i g c r.
      api' = api \<and> envs' = envs \<and> cfg' = cfg \<longrightarrow> I i c \<longrightarrow> Q (fst r) (snd r)", OF _ that])
    fix f api' envs' cfg' i g c r
    assume IH: "\<And>api' envs' cfg' i g c r. f api' envs' cfg' i g c = Some r \<Longrightarrow>
        api' = api \<and> envs' = envs \<and> cfg' = cfg \<longrightarrow> I i c \<longrightarrow> Q (fst r) (snd r)"
      and eq: "(if pe_cancel (envs' i) then Some (c, Some ERR_CANCELLED)
        else Option.bind (decide_pass api' (envs' i) cfg' g c)
          (\<lambda>r. case snd (snd r) of None \<Rightarrow> f api' envs' cfg' (Suc i) (fst (snd r)) (fst r)
             | Some e \<Rightarrow> Some (fst r, e))) = Some r"
    show "api' = api \<and> envs' = envs \<and> cfg' = cfg \<longrightarrow> I i c \<longrightarrow> Q (fst r) (snd r)"
    proof (intro impI)
    assume same: "api' = api \<and> envs' = envs \<and> cfg' = cfg" and I: "I i c"
    show "Q (fst r) (snd r)"
    proof (cases "pe_cancel (envs i)")
      case True
      then show ?thesis using eq same assms(5) [OF I] by auto
    next
      case False
      then obtain d g' v where d: "decide_pass api (envs i) cfg g c = Some (d, g', v)"
        using eq same by (cases "decide_pass api (envs i) cfg g c") auto
      show ?thesis
      proof (cases v)
        case None
        then have "f api envs cfg (Suc i) g' d = Some r" using eq same False d by simp
        from IH [OF this] show ?thesis using assms(3) [OF I d [unfolded None]] by simp
      next
        case (Some e)
        then have "r = (d, e)" using eq same False d by simp
        then show ?thesis using assms(4) [OF I d [unfolded Some]] by simp
      qed
    qed
    qed
  qed
  from this [OF assms(1)] assms(2) show ?thesis by simp
qed

lemma actions_loop_rule:
  assumes "actions_loop api envs cfg i g c = Some (c', e)" "I c"
    and "\<And>i g c d g'. I c \<Longrightarrow> decide_pass api (envs i) cfg g c = Some (d, g', None) \<Longrightarrow> I d"
    and "\<And>i g c d g' e. I c \<Longrightarrow> decide_pass api (envs i) cfg g c = Some (d, g', Some e) \<Longrightarrow> Q d e"
    and "\<And>c. I c \<Longrightarrow> Q c (Some ERR_CANCELLED)"
  shows "Q c' e"
  by (rule actions_loop_rule_at [where I = "\<lambda>_. I", OF assms(1,2)]) (erule (1) assms(3) | erule (1) assms(4) | erule assms(5))+

text \<open>A confirmation that ends: a wait that is cancelled or expires at some poll, at the latest.\<close>

definition wait_ends :: "gate_env \<Rightarrow> bool" where
  "wait_ends g \<longleftrightarrow> ge_cancel g \<or> ge_expired g \<or> list_ex (\<lambda>p. po_cancel p \<or> po_expired p) (ge_polls g)"

lemma confirm_wait_ends:
  "cancel \<or> expired \<or> list_ex (\<lambda>p. po_cancel p \<or> po_expired p) ps \<Longrightarrow> confirm_wait wr l cancel expired ps \<noteq> None"
  by (induction wr l cancel expired ps rule: confirm_wait.induct) (auto simp: Let_def)

lemma gate_answers:
  assumes "wait_ends (ce_gate env)"
  shows "gate env cfg a cx \<noteq> None"
proof -
  have w: "confirm_wait wr l (ge_cancel (ce_gate env)) (ge_expired (ce_gate env)) (ge_polls (ce_gate env)) \<noteq> None" for wr l
    using assms by (intro confirm_wait_ends) (simp add: wait_ends_def)
  show ?thesis
    unfolding gate_def call_confirm_def Let_def
    by (simp add: w split: prod.split sum.split option.split)
qed

lemma call_returns:
  assumes "wait_ends (ce_gate env)"
  shows "call_execute env cfg a line fallback \<noteq> None"
proof -
  have g: "gate env cfg b cx \<noteq> None" for b cx using assms by (rule gate_answers)
  have "call_gated env cfg b cx pos \<noteq> None" for b cx pos by (simp add: call_gated_def g Let_def split: option.split)
  then have "call_guarded env cfg b cx \<noteq> None" for b cx by (simp add: call_guarded_def split: sum.split)
  then have "call_profiled env cfg b cx \<noteq> None" for b cx by (simp add: call_profiled_def)
  then have "call_drafted env cfg b sel ref cmd args fallback \<noteq> None" for b sel ref cmd args
    by (simp add: call_drafted_def split: sum.split prod.split)
  then show ?thesis by (simp add: call_execute_def Let_def split: option.split prod.split)
qed

lemma action_apply_returns:
  assumes "wait_ends (ce_gate (pe_call env))"
  shows "action_apply env cfg st call_now think_now discover_now d \<noteq> None"
proof -
  have k: "apply_call env cfg st now a \<noteq> None" for st now a using call_returns [OF assms] by (simp add: apply_call_def)
  have k2: "apply_kind env cfg st call_now think_now discover_now d \<noteq> None" for d
    by (cases "st_kind st") (auto simp: apply_kind_def k split: prod.split option.split)
  show ?thesis by (simp add: action_apply_def k2 del: not_None_eq)
qed

lemma decide_pass_returns:
  assumes "wait_ends (ce_gate (pe_call env))"
  shows "decide_pass api env cfg g c \<noteq> None"
  by (simp add: decide_pass_def action_apply_returns [OF assms] del: not_None_eq split: prod.split sum.split)

text \<open>Who acts: the phase, the profile and the turn.\<close>

definition ident where
  "ident a = (ag_phase a, ag_profile a, pinned (ag_turn a), convo (ag_session a))"

lemma grounded_ident: "grounded a = grounded b \<Longrightarrow> ident a = ident b"
  by (simp add: grounded_def ident_def)

lemma standing_ident: "standing a = standing b \<Longrightarrow> ident a = ident b"
  by (simp add: standing_def ident_def)

lemma decide_pass_ident:
  assumes "decide_pass api env cfg g c = Some (c', g', v)" "ag_phase (ct_agent c) = PHASE_ACTION"
  shows "ident (ct_agent c') = ident (ct_agent c)"
  using assms
proof (cases rule: decide_pass_cases)
  case calm
  then show ?thesis by (intro grounded_ident)
next
  case (call b a line fallback e)
  have "ident a = ident b" using call_effect [OF call(3)] by (intro standing_ident) simp
  then show ?thesis using grounded_ident [OF call(1)] grounded_ident [OF call(4)] by simp
qed

lemma decide_pass_steps:
  assumes "decide_pass api env cfg g c = Some (c', g', v)" "ag_phase (ct_agent c) = PHASE_ACTION"
  shows "ct_steps c' = ct_steps c \<and> v \<noteq> None \<or> ct_steps c' = Suc (ct_steps c) \<and> int (ct_steps c) < ac_max_steps cfg"
  using assms by (cases rule: decide_pass_cases) auto

lemma actions_loop_returns:
  assumes "\<And>i. wait_ends (ce_gate (pe_call (envs i)))" "ag_phase (ct_agent c) = PHASE_ACTION"
  shows "actions_loop api envs cfg i g c \<noteq> None"
  using assms(2)
proof (induction "nat (ac_max_steps cfg - int (ct_steps c))" arbitrary: i g c rule: less_induct)
  case less
  show ?case
  proof (cases "pe_cancel (envs i)")
    case True
    then show ?thesis by (simp add: actions_loop.simps)
  next
    case False
    obtain d g' v where d: "decide_pass api (envs i) cfg g c = Some (d, g', v)"
      using decide_pass_returns [OF assms(1)] by (metis not_None_eq prod_cases3)
    show ?thesis
    proof (cases v)
      case None
      have "nat (ac_max_steps cfg - int (ct_steps d)) < nat (ac_max_steps cfg - int (ct_steps c))"
        using decide_pass_steps [OF d less(2)] None by auto
      moreover have "ag_phase (ct_agent d) = PHASE_ACTION" using decide_pass_ident [OF d less(2)] less(2) by (simp add: ident_def)
      ultimately have "actions_loop api envs cfg (Suc i) g' d \<noteq> None" by (rule less(1))
      then show ?thesis using False d None by (subst actions_loop.simps) simp
    next
      case (Some e)
      then show ?thesis using False d by (subst actions_loop.simps) simp
    qed
  qed
qed

text \<open>The budgets of a turn, spent from one state to another.\<close>

definition within_budget :: "action_config \<Rightarrow> controller \<Rightarrow> controller \<Rightarrow> bool" where
  "within_budget cfg c c' \<longleftrightarrow>
     ident (ct_agent c') = ident (ct_agent c) \<and>
     ct_steps c \<le> ct_steps c' \<and> int (ct_steps c') \<le> max (int (ct_steps c)) (ac_max_steps cfg) \<and>
     ag_tool_calls (ct_agent c) \<le> ag_tool_calls (ct_agent c') \<and>
     ag_tool_calls (ct_agent c') - ag_tool_calls (ct_agent c) \<le> ct_steps c' - ct_steps c \<and>
     int (ag_tool_calls (ct_agent c')) \<le> max (int (ag_tool_calls (ct_agent c))) (cl_max_tools (ac_call cfg)) \<and>
     length (ag_invoked (ct_agent c')) \<le> length (ag_invoked (ct_agent c)) + (ag_tool_calls (ct_agent c') - ag_tool_calls (ct_agent c))"

lemma within_budget_refl: "within_budget cfg c c"
  by (simp add: within_budget_def)

lemma within_budget_calm:
  assumes "within_budget cfg c0 c" "grounded (ct_agent c') = grounded (ct_agent c)"
    and "ct_steps c' = ct_steps c \<or> ct_steps c' = Suc (ct_steps c) \<and> int (ct_steps c) < ac_max_steps cfg"
  shows "within_budget cfg c0 c'"
proof -
  have "ag_tool_calls (ct_agent c') = ag_tool_calls (ct_agent c)" "ag_invoked (ct_agent c') = ag_invoked (ct_agent c)"
    using assms(2) by (simp_all add: grounded_def)
  then show ?thesis using assms(1,3) grounded_ident [OF assms(2)] unfolding within_budget_def by auto
qed

lemma within_budget_call:
  assumes "within_budget cfg c0 c" "call_execute env (ac_call cfg) b line fallback = Some (a, e)"
    and "grounded b = grounded (ct_agent c)" "grounded (ct_agent c') = grounded a"
    and "ct_steps c' = Suc (ct_steps c)" "int (ct_steps c) < ac_max_steps cfg"
  shows "within_budget cfg c0 c'"
proof -
  have b: "ag_tool_calls b = ag_tool_calls (ct_agent c)" "ag_invoked b = ag_invoked (ct_agent c)"
    "ag_tool_calls a = ag_tool_calls (ct_agent c')" "ag_invoked a = ag_invoked (ct_agent c')"
    using assms(3,4) by (simp_all add: grounded_def)
  have "ident a = ident b" using call_effect [OF assms(2)] by (intro standing_ident) simp
  then have id: "ident (ct_agent c') = ident (ct_agent c0)"
    using grounded_ident [OF assms(3)] grounded_ident [OF assms(4)] assms(1) by (simp add: within_budget_def)
  from call_effect [OF assms(2)] consider "quiet b a"
    | cx where "cleared env (ac_call cfg) b line cx" "ag_tool_calls a = Suc (ag_tool_calls b)"
      "length (ag_invoked a) \<le> Suc (length (ag_invoked b))" by (auto split: if_splits)
  then show ?thesis
  proof cases
    case 1
    then show ?thesis using assms(1,5,6) id b unfolding within_budget_def quiet_def by auto
  next
    case 2
    then have "int (ag_tool_calls b) < cl_max_tools (ac_call cfg)" by (simp add: cleared_def)
    then show ?thesis using assms(1,5,6) id b 2 unfolding within_budget_def by auto
  qed
qed

lemma within_budget_step:
  assumes "within_budget cfg c0 c" "decide_pass api env cfg g c = Some (c', g', v)" "ag_phase (ct_agent c0) = PHASE_ACTION"
  shows "within_budget cfg c0 c'"
proof -
  have phase: "ag_phase (ct_agent c) = PHASE_ACTION" using assms(1,3) by (simp add: within_budget_def ident_def)
  from assms(2) phase show ?thesis
  proof (cases rule: decide_pass_cases)
    case calm
    then show ?thesis using within_budget_calm [OF assms(1) calm(1)] by blast
  next
    case (call b a line fallback e)
    then show ?thesis using within_budget_call [OF assms(1) call(3) call(1) call(4) call(5) call(6)] by blast
  qed
qed

lemma actions_run_budget:
  assumes "actions_run api envs cfg c = Some (c', e)"
  shows "within_budget cfg c c'"
proof (cases "ag_phase (ct_agent c) = PHASE_ACTION")
  case False
  then show ?thesis using assms by (simp add: actions_run_def within_budget_refl)
next
  case True
  then have r: "actions_loop api envs cfg 0 (coding_task (ac_task cfg) \<or> ac_complex cfg) c = Some (c', e)"
    using assms by (simp add: actions_run_def)
  show ?thesis
  proof (rule actions_loop_rule [where I = "within_budget cfg c" and Q = "\<lambda>d e. within_budget cfg c d", OF r within_budget_refl])
    show "within_budget cfg c d'" if "within_budget cfg c d" "decide_pass api (envs i) cfg g d = Some (d', g', None)" for i g d d' g'
      using that True by (rule within_budget_step)
    show "within_budget cfg c d'" if "within_budget cfg c d" "decide_pass api (envs i) cfg g d = Some (d', g', Some e)" for i g d d' g' e
      using that True by (rule within_budget_step)
  qed
qed

text \<open>
  C8. The action phase of a turn always ends.  Whatever the model decides at each pass, as long as the
  wait for a confirmation ends, \<^verbatim>\<open>asngn_actions_run\<close> returns; it applied at most \<^verbatim>\<open>max_steps\<close> decisions,
  dispatched at most \<^verbatim>\<open>max_tool_calls\<close> tools, at most one per decision, and asked the tools library to
  run nothing else.  The phase, the security profile, the turn and the conversation are those it started
  with.
\<close>

theorem actions_terminate:
  assumes "\<And>i. wait_ends (ce_gate (pe_call (envs i)))"
  shows "\<exists>c' e. actions_run api envs cfg c = Some (c', e) \<and> within_budget cfg c c'"
proof (cases "ag_phase (ct_agent c) = PHASE_ACTION")
  case False
  then show ?thesis by (simp add: actions_run_def within_budget_refl)
next
  case True
  obtain c' e where r: "actions_loop api envs cfg 0 (coding_task (ac_task cfg) \<or> ac_complex cfg) c = Some (c', e)"
    using actions_loop_returns [where api = api and cfg = cfg and i = 0 and envs = envs and c = c
      and g = "coding_task (ac_task cfg) \<or> ac_complex cfg", OF assms True] by auto
  have "actions_run api envs cfg c = Some (c', e)" using r True by (simp add: actions_run_def)
  then show ?thesis using actions_run_budget by blast
qed

section \<open>The selection\<close>

text \<open>Every command on offer is one that the turn started with or that a discovery returned.\<close>

definition offers_from :: "catalog_command set \<Rightarrow> pass_env \<Rightarrow> bool" where
  "offers_from K env \<longleftrightarrow> (\<forall>q n m ro sel. pe_discover env q n m ro = Some sel \<longrightarrow> set sel \<subseteq> K)"

lemma push_note_selection: "ag_selection (push_data env a tx) = ag_selection a"
  by (simp add: push_data_def)

lemma apply_discover_selection:
  assumes "apply_discover env cfg st now a = (a', e)" "offers_from K env" "set (ag_selection a) \<subseteq> K"
  shows "set (ag_selection a') \<subseteq> K"
proof -
  have "a' = fst (apply_discover env cfg st now a)" using assms(1) by simp
  moreover have "set (ag_selection b) \<subseteq> K" if "tools_select env cfg a intent = Ok b" for b intent
    using that assms(2) [unfolded offers_from_def, rule_format, of "tools_query intent" "nat (ac_tool_limit cfg)"
      "nat (ac_schema_bytes cfg)" "ag_profile a = CODING_READONLY"]
    by (cases "pe_discover env (tools_query intent) (nat (ac_tool_limit cfg)) (nat (ac_schema_bytes cfg)) (ag_profile a = CODING_READONLY)")
      (auto simp: tools_select_def simp del: subset_iff split: if_splits)
  ultimately show ?thesis using assms(3)
    by (auto simp: apply_discover_def Let_def split: sum.splits if_splits)
qed

lemma apply_kind_selection:
  assumes "apply_kind env cfg st call_now think_now discover_now c = Some (c', over, e)" "offers_from K env"
    and "set (ag_selection (ct_agent c)) \<subseteq> K"
  shows "set (ag_selection (ct_agent c')) \<subseteq> K"
proof (cases "st_kind st")
  case STEP_CALL
  then show ?thesis using assms
    by (auto simp: apply_kind_def apply_call_def standing_def dest!: call_effect split: option.splits if_splits)
next
  case STEP_DISCOVER
  obtain a e' where a: "apply_discover env cfg st discover_now (ct_agent c) = (a, e')" by fastforce
  have "ct_agent c' = a" using assms(1) STEP_DISCOVER a by (simp add: apply_kind_def) auto
  then show ?thesis using apply_discover_selection [OF a assms(2,3)] by simp
qed (use assms in \<open>auto simp: apply_kind_def apply_recall_def apply_open_def apply_think_def push_note_selection Let_def
  split: if_splits option.splits sum.splits\<close>)

lemma decide_pass_selection:
  assumes "decide_pass api env cfg g c = Some (c', g', v)" "offers_from K env" "set (ag_selection (ct_agent c)) \<subseteq> K"
  shows "set (ag_selection (ct_agent c')) \<subseteq> K"
proof -
  have un: "ag_selection a' = ag_selection a" if "verification_unresolved cfg fresh a = (a', b)" for fresh a a' b
    using that by (auto simp: verification_unresolved_def split: if_splits prod.splits)
  have fc: "ag_selection (ct_agent c') = ag_selection (ct_agent c)" if "futile_check env cfg c = (c', stop)" for c c' stop
    using that by (auto simp: futile_check_def dest: un split: if_splits prod.splits bool.splits)
  have aa: "ag_selection (ct_agent c') = ag_selection (ct_agent d)" if "after_apply env cfg g st (d, over, e) = (c', g', v)" for st d over e
    using that by (auto simp: after_apply_def retry_call_def Let_def split: if_splits prod.splits dest!: fc)
  have ap: "set (ag_selection (ct_agent d)) \<subseteq> K"
    if "action_apply env cfg st call_now think_now discover_now b = Some (d, over, e)" "set (ag_selection (ct_agent b)) \<subseteq> K"
    for st call_now think_now discover_now b d over e
    using that apply_kind_selection [OF _ assms(2), of cfg st call_now think_now discover_now "b\<lparr>ct_steps := ct_steps b + 1\<rparr>" d over e]
    by (auto simp: action_apply_def split: if_splits)
  from assms(1) show ?thesis
  proof (cases rule: decide_pass_ways)
    case (spent e)
    then show ?thesis using assms(3) by (auto simp: leave_spent_def split: if_splits)
  next
    case (unread call_now think_now e)
    then show ?thesis using offers_grounded(3) [OF unread(1)] assms(3) by simp
  next
    case (applied c1 call_now think_now st d over e)
    then show ?thesis using ap [OF applied(2)] aa [OF applied(3)] offers_grounded(3) [OF applied(1)] assms(3) by simp
  qed
qed

section \<open>A turn that may only read\<close>

lemma tools_find_less: "tools_find vs ref command = Some i \<Longrightarrow> i < length vs"
  by (induction vs arbitrary: i) (auto split: if_splits)

text \<open>From one state to another only commands of \<open>K\<close> that read were run, and the epoch stayed.\<close>

definition only_read :: "catalog_command set \<Rightarrow> agent \<Rightarrow> agent \<Rightarrow> bool" where
  "only_read K a a' \<longleftrightarrow> ss_epoch (ag_session a') = ss_epoch (ag_session a) \<and>
     (\<exists>runs. ag_invoked a' = ag_invoked a @ runs \<and>
        list_all (\<lambda>(tool, args). \<exists>v\<in>K. cc_tool v = tool \<and> cc_read_only v \<and> \<not> cc_destructive v) runs)"

lemma only_read_refl: "only_read K a a"
  by (simp add: only_read_def)

lemma only_read_trans:
  assumes "only_read K a b" "only_read K b c"
  shows "only_read K a c"
proof -
  obtain xs ys where "ag_invoked b = ag_invoked a @ xs" "ag_invoked c = ag_invoked b @ ys"
    "list_all (\<lambda>(tool, args). \<exists>v\<in>K. cc_tool v = tool \<and> cc_read_only v \<and> \<not> cc_destructive v) (xs @ ys)"
    using assms by (auto simp: only_read_def)
  then show ?thesis using assms unfolding only_read_def by (intro conjI exI [of _ "xs @ ys"]) auto
qed

lemma only_read_grounded: "grounded a' = grounded a \<Longrightarrow> only_read K a a'"
  by (simp add: grounded_def only_read_def)

lemma call_only_read:
  assumes "call_execute env cfg a line fallback = Some (a', e)" "ag_profile a = CODING_READONLY" "set (ag_selection a) \<subseteq> K"
  shows "only_read K a a'"
proof -
  from call_effect [OF assms(1)] consider "quiet a a'"
    | cx where "cleared env cfg a line cx" "cc_read_only (cx_sel cx) \<longrightarrow> ss_epoch (ag_session a') = ss_epoch (ag_session a)"
      "ag_invoked a' = ag_invoked a @ (if ce_cancel env then [] else [(cc_tool (cx_sel cx), cx_exec cx)])" by auto
  then show ?thesis
  proof cases
    case 1
    then show ?thesis by (simp add: quiet_def only_read_def)
  next
    case 2
    obtain i where i: "tools_find (ag_selection a) (cx_ref cx) (cx_cmd cx) = Some i" "cx_sel cx = ag_selection a ! i"
      using 2(1) by (auto simp: cleared_def)
    have "cx_sel cx \<in> K" using tools_find_less [OF i(1)] i(2) assms(3) by auto
    moreover have "cc_read_only (cx_sel cx)" "\<not> cc_destructive (cx_sel cx)"
      using 2(1) assms(2) by (auto simp: cleared_def readonly_excludes_def)
    ultimately show ?thesis using 2 by (auto simp: only_read_def)
  qed
qed

lemma decide_pass_only_read:
  assumes "decide_pass api env cfg g c = Some (c', g', v)" "ag_phase (ct_agent c) = PHASE_ACTION"
    and "ag_profile (ct_agent c) = CODING_READONLY" "set (ag_selection (ct_agent c)) \<subseteq> K"
  shows "only_read K (ct_agent c) (ct_agent c')"
  using assms(1,2)
proof (cases rule: decide_pass_cases)
  case calm
  then show ?thesis by (intro only_read_grounded)
next
  case (call b a line fallback e)
  have "only_read K b a" using call_only_read [OF call(3)] call(1,2) assms(3,4) by (simp add: grounded_def)
  then show ?thesis
    using only_read_grounded [OF call(1)] only_read_grounded [OF call(4)] only_read_trans by blast
qed

text \<open>
  C9. A turn under the profile \<^verbatim>\<open>coding-readonly\<close> cannot change anything.  However the model decides and
  whatever selections it discovers, everything the tools library is asked to run during the action
  phase is a command on offer that is annotated read-only and not destructive, and the world epoch
  does not move.
\<close>

theorem readonly_turn_only_reads:
  assumes "actions_run api envs cfg c = Some (c', e)" "ag_profile (ct_agent c) = CODING_READONLY"
    and "set (ag_selection (ct_agent c)) \<subseteq> K" "\<And>i. offers_from K (envs i)"
  shows "only_read K (ct_agent c) (ct_agent c')"
proof (cases "ag_phase (ct_agent c) = PHASE_ACTION")
  case False
  then show ?thesis using assms(1) by (simp add: actions_run_def only_read_refl)
next
  case True
  define I where "I d \<longleftrightarrow> ident (ct_agent d) = ident (ct_agent c) \<and> set (ag_selection (ct_agent d)) \<subseteq> K \<and>
    only_read K (ct_agent c) (ct_agent d)" for d :: controller
  have step: "I d'" if "I d" "decide_pass api (envs i) cfg g d = Some (d', g', v)" for i g d d' g' v
  proof -
    have d: "ag_phase (ct_agent d) = PHASE_ACTION" "ag_profile (ct_agent d) = CODING_READONLY" "set (ag_selection (ct_agent d)) \<subseteq> K"
      "only_read K (ct_agent c) (ct_agent d)"
      using that(1) True assms(2) by (simp_all add: I_def ident_def)
    show ?thesis
      using that(1) decide_pass_ident [OF that(2) d(1)] decide_pass_selection [OF that(2) assms(4) d(3)]
        only_read_trans [OF d(4) decide_pass_only_read [OF that(2) d(1-3)]] by (simp add: I_def)
  qed
  have run: "actions_loop api envs cfg 0 (coding_task (ac_task cfg) \<or> ac_complex cfg) c = Some (c', e)"
    using assms(1) True by (simp add: actions_run_def)
  have "I c" using assms(3) by (simp add: I_def only_read_refl)
  have "I c'"
    by (rule actions_loop_rule [where I = I and Q = "\<lambda>d e. I d", OF run \<open>I c\<close> step step]) assumption+
  then show ?thesis by (simp add: I_def)
qed

section \<open>The journal of the action phase\<close>

text \<open>The two frames of an action that is over.\<close>

definition action_frames :: "string \<Rightarrow> (string \<times> int) list \<Rightarrow> jframe list" where
  "action_frames turn acts = concat (map (\<lambda>(i, epoch). [F_action turn i epoch, F_observed turn i]) acts)"

definition settled_since :: "(string \<Rightarrow> xnode list option) \<Rightarrow> jframe list \<Rightarrow> agent \<Rightarrow> agent \<Rightarrow> bool" where
  "settled_since parse fs a a' \<longleftrightarrow> (\<exists>acts. ag_tool_calls a' = ag_tool_calls a + length acts \<and>
     ss_epoch (ag_session a') \<le> ss_epoch (ag_session a) + length acts \<and>
     journal_holds parse (ag_session a') (fs @ action_frames (ts_id (ag_turn a)) acts))"

lemma settled_since_grounded: "settled_since parse fs a b \<Longrightarrow> grounded b' = grounded b \<Longrightarrow> settled_since parse fs a b'"
  by (simp add: settled_since_def grounded_def)

lemma settled_since_call:
  assumes "settled_since parse fs a0 a" "call_execute env cfg a line fallback = Some (a', e)" "e = None \<or> e = Some ERR_PROTOCOL"
    and "value_lib parse (ce_xwrite env)" "ss_epoch (ag_session a) < 2 ^ 63" "ts_id (ag_turn a) = ts_id (ag_turn a0)"
  shows "settled_since parse fs a0 a'"
proof -
  obtain acts where acts: "ag_tool_calls a = ag_tool_calls a0 + length acts"
      "ss_epoch (ag_session a) \<le> ss_epoch (ag_session a0) + length acts"
      "journal_holds parse (ag_session a) (fs @ action_frames (ts_id (ag_turn a0)) acts)"
    using assms(1) by (auto simp: settled_since_def)
  from call_settles [OF assms(2-4) acts(3) assms(5)]
  consider "ag_tool_calls a' = ag_tool_calls a" "journal_holds parse (ag_session a') (fs @ action_frames (ts_id (ag_turn a0)) acts)"
      "ss_epoch (ag_session a') = ss_epoch (ag_session a)"
    | epoch where "ag_tool_calls a' = Suc (ag_tool_calls a)" "ss_epoch (ag_session a') \<le> Suc (ss_epoch (ag_session a))"
      "journal_holds parse (ag_session a') (fs @ action_frames (ts_id (ag_turn a0)) (acts @ [(ce_action_id env, epoch)]))"
    using assms(6) by (auto simp: call_settled_def action_frames_def)
  then show ?thesis
  proof cases
    case 1
    then show ?thesis using acts unfolding settled_since_def by (intro exI [of _ acts]) simp
  next
    case 2
    then show ?thesis using acts unfolding settled_since_def by (intro exI [of _ "acts @ [(ce_action_id env, epoch)]"]) simp
  qed
qed

lemma settled_epoch: "settled_since parse fs a a' \<Longrightarrow> ag_tool_calls a' - ag_tool_calls a \<le> n \<Longrightarrow> ss_epoch (ag_session a') \<le> ss_epoch (ag_session a) + n"
  by (auto simp: settled_since_def)

text \<open>
  C10. An action phase that ends without error leaves a settled journal.  Behind the frames that were
  there stand exactly one intent and one observation for every tool the phase dispatched, in order
  and for this turn, whether or not calls were refused or repeated in between; no action is left
  uncertain for the next start, and the epoch moved by at most one per action.
\<close>

theorem actions_settle_journal:
  assumes "actions_run api envs cfg c = Some (c', None)" "\<And>i. value_lib parse (ce_xwrite (pe_call (envs i)))"
    and "journal_holds parse (ag_session (ct_agent c)) fs"
    and "int (ss_epoch (ag_session (ct_agent c))) + max 0 (ac_max_steps cfg) < 2 ^ 63"
  shows "settled_since parse fs (ct_agent c) (ct_agent c')"
proof -
  have True: "ag_phase (ct_agent c) = PHASE_ACTION" using assms(1) by (auto simp: actions_run_def split: if_splits)
  have run: "actions_loop api envs cfg 0 (coding_task (ac_task cfg) \<or> ac_complex cfg) c = Some (c', None)"
    using assms(1) True by (simp add: actions_run_def)
  define I where "I d \<longleftrightarrow> within_budget cfg c d \<and> settled_since parse fs (ct_agent c) (ct_agent d)" for d :: controller
  have step: "I d'" if "I d" "decide_pass api (envs i) cfg g d = Some (d', g', v)" "v = None \<or> v = Some None" for i g d d' g' v
  proof -
    have d: "within_budget cfg c d" "settled_since parse fs (ct_agent c) (ct_agent d)" using that(1) by (simp_all add: I_def)
    have phase: "ag_phase (ct_agent d) = PHASE_ACTION" "ts_id (ag_turn (ct_agent d)) = ts_id (ag_turn (ct_agent c))"
      using d(1) True by (simp_all add: within_budget_def ident_def)
    have w: "within_budget cfg c d'" by (rule within_budget_step [OF d(1) that(2) True])
    from that(2) phase(1) have "settled_since parse fs (ct_agent c) (ct_agent d')"
    proof (cases rule: decide_pass_cases)
      case calm
      then show ?thesis using settled_since_grounded [OF d(2)] by simp
    next
      case (call b a line fallback e)
      have "int (ag_tool_calls (ct_agent d)) - int (ag_tool_calls (ct_agent c)) \<le> max 0 (ac_max_steps cfg)"
        using d(1) by (auto simp: within_budget_def)
      then have "ss_epoch (ag_session (ct_agent d)) \<le> ss_epoch (ag_session (ct_agent c)) + nat (max 0 (ac_max_steps cfg))"
        by (intro settled_epoch [OF d(2)]) auto
      then have "ss_epoch (ag_session (ct_agent d)) < 2 ^ 63" using assms(4) by auto
      moreover have "ag_session b = ag_session (ct_agent d)" "ts_id (ag_turn b) = ts_id (ag_turn (ct_agent d))"
        using call(1) by (simp_all add: grounded_def)
      ultimately have "settled_since parse fs (ct_agent c) a"
        using settled_since_call [OF settled_since_grounded [OF d(2) call(1)] call(3) call(7) [OF that(3)] assms(2)] phase(2) by simp
      then show ?thesis by (rule settled_since_grounded) (use call(4) in simp)
    qed
    with w show ?thesis by (simp add: I_def)
  qed
  have start: "I c" using assms(3) unfolding I_def settled_since_def
    by (intro conjI within_budget_refl exI [of _ "[]"]) (simp_all add: action_frames_def)
  have "(None :: asngn_err option) = None \<longrightarrow> I c'"
  proof (rule actions_loop_rule [where I = I and Q = "\<lambda>d e. e = None \<longrightarrow> I d", OF run start])
    show "I d'" if "I d" "decide_pass api (envs i) cfg g d = Some (d', g', None)" for i g d d' g'
      using step [OF that] by simp
    show "e = None \<longrightarrow> I d'" if "I d" "decide_pass api (envs i) cfg g d = Some (d', g', Some e)" for i g d d' g' e
      using step [OF that] by simp
  qed simp
  then show ?thesis by (simp add: I_def)
qed

section \<open>How the action phase ends\<close>

text \<open>Every edit of a coding task was verified, and the verification is current: the workspace asked
  now still has the fingerprint it had then.\<close>

definition edits_verified :: "pass_env \<Rightarrow> action_config \<Rightarrow> agent \<Rightarrow> bool" where
  "edits_verified env cfg a \<longleftrightarrow>
     (coding_task (ac_task cfg) \<and> ts_written (ag_turn a) \<longrightarrow>
        ts_attempted (ag_turn a) \<and> ts_verified (ag_turn a) \<and> ts_snapshot (ag_turn a) \<noteq> [] \<and>
        (case pe_fresh env (ss_workspace (ag_session a)) of
           (w, ok) \<Rightarrow> ok \<and> ts_snapshot (ag_turn a) = wi_fingerprint w))"

text \<open>The three exits, after \<open>k\<close> decisions.  The budget is looked at before a decision, so the pass
  that found it spent is that of index \<open>k\<close>; the others look at the decision of pass \<open>k - 1\<close>.\<close>

definition spent_exit :: "(nat \<Rightarrow> pass_env) \<Rightarrow> action_config \<Rightarrow> nat \<Rightarrow> controller \<Rightarrow> bool" where
  "spent_exit envs cfg k c \<longleftrightarrow> budget_spent (envs k) cfg c \<and> \<not> needs_artifact cfg (ct_agent c)"

definition futile_exit :: "(nat \<Rightarrow> pass_env) \<Rightarrow> action_config \<Rightarrow> nat \<Rightarrow> controller \<Rightarrow> bool" where
  "futile_exit envs cfg k c \<longleftrightarrow> 0 < k \<and> 2 \<le> ag_futile (ct_agent c) \<and> ag_tool_ok (ct_agent c) \<and>
     edits_verified (envs (k - 1)) cfg (ct_agent c)"

definition decided_exit :: "'j json_api \<Rightarrow> (nat \<Rightarrow> pass_env) \<Rightarrow> action_config \<Rightarrow> nat \<Rightarrow> controller \<Rightarrow> bool" where
  "decided_exit api envs cfg k c \<longleftrightarrow> 0 < k \<and> (\<exists>st. read_decision api (envs (k - 1)) = Ok st \<and>
     (if ct_clarify c then st_kind st = STEP_CLARIFY \<and> ct_answer c = st_text st
      else st_kind st = STEP_ANSWER \<and> \<not> needs_artifact cfg (ct_agent c)))"

lemma needs_artifact_push [simp]: "needs_artifact cfg (push_note env a tx) = needs_artifact cfg a"
  by (simp add: needs_artifact_def push_note_def work_push_def split: option.split)

lemma push_note_futile [simp]: "ag_futile (push_note env a tx) = ag_futile a" "ag_osc_cycles (push_note env a tx) = ag_osc_cycles a"
  "ag_session (push_note env a tx) = ag_session a"
  by (simp_all add: push_note_def work_push_def split: option.split)

lemma resolved_fields:
  assumes "verification_unresolved cfg (pe_fresh env) a = (a', False)"
  shows "ag_futile a' = ag_futile a" "ag_tool_ok a' = ag_tool_ok a" "edits_verified env cfg a'"
  using assms
  by (auto simp: verification_unresolved_def Turn_Journal.verification_current_def edits_verified_def split: if_splits prod.splits)

lemma unresolved_keeps:
  assumes "futile_check env cfg c = (c', False)"
  shows "ct_forced c' = ct_forced c \<and> ct_clarify c' = ct_clarify c"
  using assms by (auto simp: futile_check_def split: if_splits prod.splits bool.splits)

lemma futile_check_stops:
  assumes "futile_check env cfg c = (c', True)"
  shows "ct_forced c' \<and> ct_clarify c' = ct_clarify c \<and> 2 \<le> ag_futile (ct_agent c') \<and> ag_tool_ok (ct_agent c') \<and>
    edits_verified env cfg (ct_agent c')"
proof -
  obtain a b where u: "verification_unresolved cfg (pe_fresh env) (ct_agent c) = (a, b)" by fastforce
  have b: "\<not> b" "2 \<le> ag_futile (ct_agent c)" "ag_tool_ok (ct_agent c)"
    "c' = c\<lparr>ct_agent := push_note env a no_progress, ct_forced := True\<rparr>"
    using assms u by (cases b; auto simp: futile_check_def split: if_splits)+
  then show ?thesis using resolved_fields [of cfg env "ct_agent c" a] u by (simp add: edits_verified_def)
qed

text \<open>What a decision makes of the flags that end a turn's actions.\<close>

lemma apply_kind_flags:
  assumes "apply_kind env cfg st call_now think_now discover_now c = Some (c', over, e)"
  shows "ct_forced c' = ct_forced c"
    "\<not> over \<Longrightarrow> ct_clarify c' = ct_clarify c"
    "over \<Longrightarrow> e = None \<and> (st_kind st = STEP_CLARIFY \<and> ct_clarify c' \<and> ct_answer c' = st_text st \<or>
       st_kind st = STEP_ANSWER \<and> ct_clarify c' = ct_clarify c \<and> \<not> needs_artifact cfg (ct_agent c'))"
  using assms
  by (auto simp: apply_kind_def apply_think_def apply_recall_def Let_def split: step_kind.splits prod.splits option.splits if_splits)

lemma retry_call_flags [simp]: "ct_forced (retry_call env c) = ct_forced c" "ct_clarify (retry_call env c) = ct_clarify c"
  by (simp_all add: retry_call_def)

lemma after_apply_ends:
  assumes "after_apply env cfg g st (c, over, e) = (c', g', Some None)"
  obtains (over) "over" "e = None \<Longrightarrow> c' = c" | (futile) c2 where "\<not> over" "ct_clarify c2 = ct_clarify c" "futile_check env cfg c2 = (c', True)"
proof (cases over)
  case True
  then show thesis using assms over by (auto simp: after_apply_def Let_def split: if_splits)
next
  case False
  define retry where "retry = (e = Some ERR_PROTOCOL \<and> st_kind st = STEP_CALL)"
  define c1 where "c1 = (if retry then retry_call env c else c)"
  define tiered where "tiered = (st_kind st = STEP_CALL \<and> 2 \<le> ag_repeats (ct_agent c1) \<and> \<not> (g \<or> retry))"
  define c2 where "c2 = (if tiered then c1\<lparr>ct_agent := (ct_agent c1)\<lparr>ag_call_mute := False\<rparr>\<rparr> else c1)"
  have "retry \<or> e = None"
    using assms False by (auto simp: after_apply_def Let_def retry_def split: if_splits)
  then have "futile_check env cfg c2 = (c', True)"
    using assms False unfolding after_apply_def prod.case Let_def retry_def [symmetric] c1_def [symmetric] tiered_def [symmetric] c2_def [symmetric]
    by (auto split: if_splits prod.splits)
  then show thesis using futile [OF False, of c2] by (simp add: c2_def c1_def)
qed

lemma after_apply_goes_on:
  assumes "after_apply env cfg g st (c, over, e) = (c', g', None)"
  shows "\<not> over \<and> ct_forced c' = ct_forced c \<and> ct_clarify c' = ct_clarify c"
  using assms by (auto simp: after_apply_def Let_def split: if_splits prod.splits dest!: unresolved_keeps)

text \<open>Where the loop stands before pass \<open>i\<close>.\<close>

definition undecided :: "nat \<Rightarrow> nat \<Rightarrow> controller \<Rightarrow> bool" where
  "undecided n i c \<longleftrightarrow> ct_steps c = n + i \<and> ag_phase (ct_agent c) = PHASE_ACTION \<and> \<not> ct_forced c \<and> \<not> ct_clarify c"

definition ended :: "'j json_api \<Rightarrow> (nat \<Rightarrow> pass_env) \<Rightarrow> action_config \<Rightarrow> nat \<Rightarrow> controller \<Rightarrow> bool" where
  "ended api envs cfg n c \<longleftrightarrow>
     (if ct_forced c then spent_exit envs cfg (ct_steps c - n) c \<or> futile_exit envs cfg (ct_steps c - n) c
      else decided_exit api envs cfg (ct_steps c - n) c)"

lemma offers_flags: "offers cfg c = (c1, call_now, think_now) \<Longrightarrow> ct_forced c1 = ct_forced c \<and> ct_clarify c1 = ct_clarify c"
  by (auto simp: offers_def)

lemma decide_pass_goes_on:
  assumes "decide_pass api (envs i) cfg g c = Some (c', g', None)" "undecided n i c"
  shows "undecided n (Suc i) c'"
proof -
  have phase: "ag_phase (ct_agent c) = PHASE_ACTION" using assms(2) by (simp add: undecided_def)
  have "ag_phase (ct_agent c') = PHASE_ACTION" "ct_steps c' = Suc (ct_steps c)"
    using decide_pass_ident [OF assms(1) phase] decide_pass_steps [OF assms(1) phase] phase by (simp_all add: ident_def)
  moreover from assms(1) have "ct_forced c' = ct_forced c \<and> ct_clarify c' = ct_clarify c"
  proof (cases rule: decide_pass_ways)
    case (applied c1 call_now think_now st d over e)
    have "\<not> over" and c': "ct_forced c' = ct_forced d \<and> ct_clarify c' = ct_clarify d"
      using after_apply_goes_on [OF applied(3)] by simp_all
    have "ct_forced d = ct_forced c1 \<and> ct_clarify d = ct_clarify c1"
      using applied(2) \<open>\<not> over\<close> apply_kind_flags(1,2) [of "envs i" cfg st call_now think_now "ac_tools cfg" "c1\<lparr>ct_steps := ct_steps c1 + 1\<rparr>" d over e]
      by (auto simp: action_apply_def split: if_splits)
    then show ?thesis using c' offers_flags [OF applied(1)] by simp
  qed simp_all
  ultimately show ?thesis using assms(2) by (simp add: undecided_def)
qed

lemma decide_pass_ends:
  assumes "decide_pass api (envs i) cfg g c = Some (c', g', Some None)" "undecided n i c"
  shows "ended api envs cfg n c'"
proof -
  have phase: "ag_phase (ct_agent c) = PHASE_ACTION" and steps: "ct_steps c - n = i" "ct_steps c = n + i"
    and flags: "\<not> ct_forced c" "\<not> ct_clarify c" using assms(2) by (simp_all add: undecided_def)
  from assms(1) show ?thesis
  proof (cases rule: decide_pass_ways)
    case (spent e)
    then have "c' = c\<lparr>ct_agent := push_note (envs i) (ct_agent c) steps_spent, ct_forced := True\<rparr>"
      "\<not> needs_artifact cfg (ct_agent c)" by (auto simp: leave_spent_def split: if_splits)
    then show ?thesis using spent(3) steps by (simp add: ended_def spent_exit_def budget_spent_def)
  next
    case (applied c1 call_now think_now st d over e)
    have o1: "ag_phase (ct_agent c1) = PHASE_ACTION" "\<not> ct_forced c1" "\<not> ct_clarify c1" "ct_steps c1 = ct_steps c"
      using offers_grounded(1,2) [OF applied(1)] offers_flags [OF applied(1)] phase flags by (auto dest: grounded_phase)
    have e: "e = None \<or> e = Some ERR_PROTOCOL \<and> st_kind st = STEP_CALL"
      using after_apply_grounded(3) [OF applied(3)] by simp
    from applied(2) o1(1) have taken: "ct_steps d = Suc (ct_steps c1)"
      "apply_kind (envs i) cfg st call_now think_now (ac_tools cfg) (c1\<lparr>ct_steps := ct_steps c1 + 1\<rparr>) = Some (d, over, e)"
      by (cases rule: action_apply_cases; use e in auto)+
    note f = apply_kind_flags [OF taken(2)]
    have "ct_steps c' - n = Suc i" using after_apply_grounded(2) [OF applied(3)] taken(1) o1(4) steps by simp
    moreover from applied(3) have "(if ct_forced c' then futile_exit envs cfg (Suc i) c' else decided_exit api envs cfg (Suc i) c')"
    proof (cases rule: after_apply_ends)
      case over
      then have "c' = d" using f(3) by blast
      then show ?thesis using f(1,3) over(1) o1 applied(4) by (auto simp: decided_exit_def)
    next
      case (futile c2)
      from futile_check_stops [OF futile(3)] show ?thesis by (simp add: futile_exit_def)
    qed
    ultimately show ?thesis by (simp add: ended_def split: if_splits)
  qed simp_all
qed

text \<open>
  C11. The action phase of a turn, started with neither flag set, ends without error for one of three
  reasons only.  The model decided so: its last decision was a question to the user, whose text
  is the answer, or it was to answer, and then the task has its artifact or needs none.  Or the pass
  after the last decision found the budget of decisions or of time spent, or the model calling in a
  circle, and the task has its artifact or needs none.  Or two decisions in a row were blocked after
  some tool had worked, and then every edit of a coding task has been verified with success in the
  state the workspace is in at that very pass.
\<close>

theorem actions_exit:
  assumes "actions_run api envs cfg c = Some (c', None)" "\<not> ct_forced c" "\<not> ct_clarify c"
  shows "if ct_forced c'
    then spent_exit envs cfg (ct_steps c' - ct_steps c) c' \<or> futile_exit envs cfg (ct_steps c' - ct_steps c) c'
    else decided_exit api envs cfg (ct_steps c' - ct_steps c) c'"
proof -
  have run: "actions_loop api envs cfg 0 (coding_task (ac_task cfg) \<or> ac_complex cfg) c = Some (c', None)"
    and "ag_phase (ct_agent c) = PHASE_ACTION"
    using assms(1) by (auto simp: actions_run_def split: if_splits)
  then have start: "undecided (ct_steps c) 0 c" using assms(2,3) by (simp add: undecided_def)
  have "(None :: asngn_err option) = None \<longrightarrow> ended api envs cfg (ct_steps c) c'"
    by (rule actions_loop_rule_at [where I = "undecided (ct_steps c)" and
        Q = "\<lambda>d e. e = None \<longrightarrow> ended api envs cfg (ct_steps c) d", OF run start])
      (auto dest: decide_pass_goes_on decide_pass_ends)
  then show ?thesis by (simp add: ended_def)
qed

section \<open>The table of recalls\<close>

text \<open>The questions asked of memory in this turn, of which there is room for three.\<close>

definition recalls_fit :: "controller \<Rightarrow> bool" where
  "recalls_fit c \<longleftrightarrow> distinct (ct_recall_keys c) \<and> length (ct_recall_keys c) = ct_recalls c \<and> ct_recalls c \<le> 3"

lemma apply_recalls:
  assumes "action_apply env cfg st call_now think_now discover_now c = Some (c', over, e)" "recalls_fit c"
  shows "recalls_fit c'"
proof (cases "st_kind st = STEP_RECALL")
  case True
  then show ?thesis using assms
    by (auto simp: action_apply_def apply_kind_def apply_recall_def recalls_fit_def Let_def split: if_splits)
next
  case False
  then show ?thesis using assms
    by (auto simp: action_apply_def apply_kind_def apply_think_def recalls_fit_def Let_def
      split: if_splits step_kind.splits prod.splits option.splits)
qed

lemma decide_pass_recalls:
  assumes "decide_pass api env cfg g c = Some (c', g', v)" "recalls_fit c"
  shows "recalls_fit c'"
proof -
  have fc: "recalls_fit d' = recalls_fit d" if "futile_check env cfg d = (d', stop)" for d d' stop
    using that by (auto simp: futile_check_def recalls_fit_def split: if_splits prod.splits bool.splits)
  have aa: "recalls_fit d' = recalls_fit d" if "after_apply env cfg g st (d, over, e) = (d', g', v)" for st d d' over e g' v
    using that by (auto simp: after_apply_def retry_call_def Let_def recalls_fit_def split: if_splits prod.splits
      dest!: fc [unfolded recalls_fit_def])
  from assms(1) show ?thesis
  proof (cases rule: decide_pass_ways)
    case (spent e)
    then show ?thesis using assms(2) by (auto simp: leave_spent_def recalls_fit_def split: if_splits)
  next
    case (unread call_now think_now e)
    then show ?thesis using assms(2) by (auto simp: offers_def recalls_fit_def)
  next
    case (applied c1 call_now think_now st d over e)
    have "recalls_fit c1" using applied(1) assms(2) by (auto simp: offers_def recalls_fit_def)
    then show ?thesis using apply_recalls [OF applied(2)] aa [OF applied(3)] by simp
  qed
qed

text \<open>
  The table of recalled questions never overflows: it has three slots, and through the whole action
  phase it holds as many distinct questions as were asked, at most three.
\<close>

theorem recall_table_bounded:
  assumes "actions_run api envs cfg c = Some (c', e)" "recalls_fit c"
  shows "recalls_fit c'"
proof (cases "ag_phase (ct_agent c) = PHASE_ACTION")
  case False
  then show ?thesis using assms by (simp add: actions_run_def)
next
  case True
  then have run: "actions_loop api envs cfg 0 (coding_task (ac_task cfg) \<or> ac_complex cfg) c = Some (c', e)"
    using assms(1) by (simp add: actions_run_def)
  show ?thesis
    by (rule actions_loop_rule [where I = recalls_fit and Q = "\<lambda>d e. recalls_fit d", OF run assms(2)])
      (auto dest: decide_pass_recalls)
qed

section \<open>A concrete action phase\<close>

definition sample_pass :: "(xnode \<Rightarrow> string option) \<Rightarrow> pass_env" where
  "sample_pass wr =
     \<lparr>pe_cancel = False, pe_expired = False, pe_prepare = None, pe_line = Ok (sample_line @ [NL]), pe_event = None,
      pe_apply_cancel = False, pe_apply_expired = False, pe_call = sample_env wr, pe_discover = (\<lambda>_ _ _ _. None),
      pe_recall = (\<lambda>_. None), pe_blobs = 0, pe_blob_read = (\<lambda>_ _ _. Ok None), pe_tokens = length,
      pe_fresh = (\<lambda>w. (w, True))\<rparr>"

definition sample_actions :: action_config where
  "sample_actions =
     \<lparr>ac_call = sample_config, ac_task = RTASK_LOOKUP, ac_complex = False, ac_tools = True, ac_asper = False,
      ac_max_steps = 1, ac_think_limit = 2, ac_working_tokens = 1024, ac_tool_limit = 8, ac_schema_bytes = 4096\<rparr>"

definition sample_controller :: controller where
  "sample_controller =
     \<lparr>ct_agent = sample_agent, ct_steps = 0, ct_thinks_row = 0, ct_thinks_total = 0, ct_think_mute = False,
      ct_recall_keys = [], ct_recalls = 0, ct_forced = False, ct_clarify = False, ct_answer = None\<rparr>"

lemma sample_wait: "wait_ends (ce_gate (pe_call (sample_pass wr)))"
  by (simp add: sample_pass_def sample_env_def idle_gate_def wait_ends_def)

lemma sample_recalls: "recalls_fit sample_controller"
  by (simp add: sample_controller_def recalls_fit_def)

lemma sample_decision:
  "read_decision plain_json (sample_pass wr) = Ok \<lparr>st_kind = STEP_CALL, st_text = None, st_why = Some ''w'',
     st_success = Some ''s'', st_fallback = Some ''f'', st_call = Some (''fs@1.2'', ''read'', ''{a}''), st_blob = (0, 0)\<rparr>"
proof -
  have "step_parse plain_json (Some (sample_line @ [NL])) = Ok \<lparr>st_kind = STEP_CALL, st_text = None, st_why = Some ''w'',
     st_success = Some ''s'', st_fallback = Some ''f'', st_call = Some (''fs@1.2'', ''read'', ''{a}''), st_blob = (0, 0)\<rparr>"
    by code_simp
  then show ?thesis by (simp add: read_decision_def sample_pass_def)
qed

lemma sample_offers: "offers sample_actions sample_controller = (sample_controller, True, True)"
  by (simp add: offers_def sample_actions_def sample_controller_def sample_agent_def)

text \<open>One call is decided and runs; then the budget of one step is spent.\<close>

lemma sample_phase:
  obtains wr parse c' where "value_lib parse wr"
    "actions_run plain_json (\<lambda>i. sample_pass wr) sample_actions sample_controller = Some (c', None)"
    "ag_invoked (ct_agent c') = [(''sh.run'', ''{}'')]" "ag_tool_calls (ct_agent c') = 1"
proof -
  obtain wr parse a' where c: "value_lib parse wr"
    "call_execute (sample_env wr) sample_config sample_agent (call_line \<lparr>st_kind = STEP_CALL, st_text = None, st_why = Some ''w'',
     st_success = Some ''s'', st_fallback = Some ''f'', st_call = Some (''fs@1.2'', ''read'', ''{a}''), st_blob = (0, 0)\<rparr>) (Some ''f'') = Some (a', None)"
    "ag_invoked a' = [(''sh.run'', ''{}'')]" "ag_tool_calls a' = 1" by (rule sample_call)
  let ?env = "sample_pass wr" and ?cfg = sample_actions
  define c1 where "c1 = sample_controller\<lparr>ct_steps := 1, ct_agent := a', ct_thinks_row := 0\<rparr>"
  have fields: "pe_call ?env = sample_env wr" "ac_call ?cfg = sample_config" "ac_max_steps ?cfg = 1" "ac_asper ?cfg = False"
    "pe_cancel ?env = False" "pe_expired ?env = False" "pe_apply_cancel ?env = False" "pe_apply_expired ?env = False"
    "ct_steps sample_controller = 0" "ct_agent sample_controller = sample_agent" "ag_phase sample_agent = PHASE_ACTION"
    "ag_osc_cycles sample_agent = 0" "coding_task (ac_task ?cfg) \<or> ac_complex ?cfg \<longleftrightarrow> False"
    by (simp_all add: sample_pass_def sample_actions_def sample_controller_def sample_agent_def coding_task_def)
  obtain c2 g2 v where c2: "after_apply ?env ?cfg False \<lparr>st_kind = STEP_CALL, st_text = None, st_why = Some ''w'',
     st_success = Some ''s'', st_fallback = Some ''f'', st_call = Some (''fs@1.2'', ''read'', ''{a}''), st_blob = (0, 0)\<rparr> (c1, False, None) =
     (c2, g2, v)" by (metis prod_cases3)
  have pass: "decide_pass plain_json ?env ?cfg False sample_controller = Some (c2, g2, v)"
    using c(2) c2 by (simp add: decide_pass_def fields sample_offers sample_decision action_apply_def apply_kind_def apply_call_def c1_def)
  have v: "v = None \<or> v = Some None" using c2 by (auto simp: after_apply_def Let_def split: if_splits prod.splits)
  have "grounded (ct_agent c2) = grounded a'" "ct_steps c2 = 1"
    using after_apply_grounded(1,2) [OF c2] by (simp_all add: c1_def)
  then have at: "ag_invoked (ct_agent c2) = [(''sh.run'', ''{}'')]" "ag_tool_calls (ct_agent c2) = 1" "ct_steps c2 = 1"
    using c(3,4) by (simp_all add: grounded_def)
  obtain c3 where c3: "leave_spent ?env ?cfg c2 = (c3, None)" "ag_invoked (ct_agent c3) = [(''sh.run'', ''{}'')]"
    "ag_tool_calls (ct_agent c3) = 1"
    using at by (simp add: leave_spent_def needs_artifact_def sample_actions_def push_note_def)
  have "actions_loop plain_json (\<lambda>i. ?env) ?cfg 1 g2 c2 = Some (c3, None)"
    using c3(1) at(3) by (subst actions_loop.simps) (simp add: fields decide_pass_def)
  then have "actions_loop plain_json (\<lambda>i. ?env) ?cfg 0 False sample_controller = Some (if v = None then c3 else c2, None)"
    using pass v by (subst actions_loop.simps) (auto simp: fields)
  then show thesis
    using that [of parse wr "if v = None then c3 else c2"] c(1) at c3 by (simp add: actions_run_def fields)
qed

theorem actions_terminate_witness:
  "\<exists>c' e. actions_run plain_json (\<lambda>i. sample_pass (\<lambda>_. None)) sample_actions sample_controller = Some (c', e) \<and>
    ct_steps c' \<le> 1 \<and> ag_tool_calls (ct_agent c') \<le> 1"
proof -
  obtain c' e where r: "actions_run plain_json (\<lambda>i. sample_pass (\<lambda>_. None)) sample_actions sample_controller = Some (c', e)"
    "within_budget sample_actions sample_controller c'"
    using actions_terminate [where envs = "\<lambda>i. sample_pass (\<lambda>_. None)" and api = plain_json and cfg = sample_actions
        and c = sample_controller, OF sample_wait] by blast
  moreover have "ct_steps c' \<le> 1 \<and> ag_tool_calls (ct_agent c') \<le> 1"
    using r(2) by (auto simp: within_budget_def sample_actions_def sample_controller_def sample_agent_def)
  ultimately show ?thesis by blast
qed

theorem readonly_turn_only_reads_witness:
  "\<exists>c' e. actions_run plain_json (\<lambda>i. sample_pass (\<lambda>_. None)) sample_actions
      (sample_controller\<lparr>ct_agent := sample_agent\<lparr>ag_profile := CODING_READONLY\<rparr>\<rparr>) = Some (c', e) \<and> ag_invoked (ct_agent c') = []"
proof -
  let ?c = "sample_controller\<lparr>ct_agent := sample_agent\<lparr>ag_profile := CODING_READONLY\<rparr>\<rparr>"
  have phase: "ag_phase (ct_agent ?c) = PHASE_ACTION" by (simp add: sample_agent_def)
  obtain c' e where r: "actions_run plain_json (\<lambda>i. sample_pass (\<lambda>_. None)) sample_actions ?c = Some (c', e)"
    using actions_loop_returns [where envs = "\<lambda>i. sample_pass (\<lambda>_. None)" and api = plain_json and cfg = sample_actions and i = 0
        and g = "coding_task (ac_task sample_actions) \<or> ac_complex sample_actions" and c = ?c, OF sample_wait phase] phase
    by (auto simp: actions_run_def)
  have "offers_from {sample_command} (sample_pass (\<lambda>_. None))" by (simp add: offers_from_def sample_pass_def)
  from readonly_turn_only_reads [OF r, of "{sample_command}"] this
  have "only_read {sample_command} (ct_agent ?c) (ct_agent c')" by (simp add: sample_agent_def)
  then have "ag_invoked (ct_agent c') = []" 
    by (cases "ag_invoked (ct_agent c')") (auto simp: only_read_def sample_command_def sample_agent_def)
  with r show ?thesis by blast
qed

theorem actions_settle_journal_witness:
  "\<exists>wr parse c' acts. actions_run plain_json (\<lambda>i. sample_pass wr) sample_actions sample_controller = Some (c', None) \<and>
    length acts = 1 \<and> journal_holds parse (ag_session (ct_agent c')) (action_frames sample_id acts)"
proof -
  obtain wr parse c' where c: "value_lib parse wr"
    "actions_run plain_json (\<lambda>i. sample_pass wr) sample_actions sample_controller = Some (c', None)"
    "ag_tool_calls (ct_agent c') = 1" by (rule sample_phase)
  have start: "journal_holds parse (ag_session (ct_agent sample_controller)) []"
    "int (ss_epoch (ag_session (ct_agent sample_controller))) + max 0 (ac_max_steps sample_actions) < 2 ^ 63"
    "ag_tool_calls (ct_agent sample_controller) = 0" "ts_id (ag_turn (ct_agent sample_controller)) = sample_id"
    by (simp_all add: journal_holds_def sample_controller_def sample_agent_def sample_state_def sample_actions_def)
      (simp add: empty_session_def)
  have "value_lib parse (ce_xwrite (pe_call (sample_pass wr)))" using c(1) by (simp add: sample_pass_def sample_env_def)
  from actions_settle_journal [OF c(2) this start(1,2)] obtain acts where
    "length acts = 1" "journal_holds parse (ag_session (ct_agent c')) (action_frames sample_id acts)"
    using c(3) start(3,4) by (auto simp: settled_since_def)
  with c(2) show ?thesis by blast
qed

theorem actions_exit_witness:
  "\<exists>wr c'. actions_run plain_json (\<lambda>i. sample_pass wr) sample_actions sample_controller = Some (c', None) \<and>
    (if ct_forced c' then spent_exit (\<lambda>i. sample_pass wr) sample_actions (ct_steps c') c' \<or>
        futile_exit (\<lambda>i. sample_pass wr) sample_actions (ct_steps c') c'
     else decided_exit plain_json (\<lambda>i. sample_pass wr) sample_actions (ct_steps c') c')"
proof -
  obtain wr parse c' where c: "actions_run plain_json (\<lambda>i. sample_pass wr) sample_actions sample_controller = Some (c', None)"
    by (rule sample_phase)
  have start: "\<not> ct_forced sample_controller" "\<not> ct_clarify sample_controller" "ct_steps sample_controller = 0"
    by (simp_all add: sample_controller_def)
  have "ct_steps c' - ct_steps sample_controller = ct_steps c'" using start(3) by simp
  from actions_exit [OF c start(1,2), unfolded this] c show ?thesis by blast
qed

theorem recall_table_bounded_witness:
  "\<exists>wr c'. actions_run plain_json (\<lambda>i. sample_pass wr) sample_actions sample_controller = Some (c', None) \<and>
    length (ct_recall_keys c') \<le> 3"
proof -
  obtain wr parse c' where c: "actions_run plain_json (\<lambda>i. sample_pass wr) sample_actions sample_controller = Some (c', None)"
    by (rule sample_phase)
  have "length (ct_recall_keys c') \<le> 3" using recall_table_bounded [OF c sample_recalls] by (auto simp: recalls_fit_def)
  with c show ?thesis by blast
qed

end
