(* ===== verification/Native.thy ===== *)
theory Native
  imports Actions
begin

text \<open>
  The second decision protocol, a provider's function calls: the contract of names offered to the
  provider and the check of a batch of calls (\<^verbatim>\<open>src/native_contract.c\<close>), the bounded history of
  calls and observations (\<^verbatim>\<open>src/native_history.c\<close>), and the loop (\<^verbatim>\<open>src/native_loop.c\<close>).  The provider's
  reply, the JSON library and the preflight of the tools library answer through the environment; the
  texts of descriptions' schemas and of the prompt are left out.
\<close>

section \<open>The contract\<close>

record tool_call =
  tc_id :: string
  tc_name :: string
  tc_args :: string

record native_slot =
  nt_name :: string
  nt_description :: string
  nt_command :: "catalog_command option"
  nt_kind :: step_kind

definition native_name :: "catalog_command \<Rightarrow> string" where
  "native_name v =
     ''t_'' @ take 60 (sha256_hex (Some (sha256_final (sha256_update (sha256_update (sha256_update sha256_init
       (sc_ref (cc_cmd v) @ [NUL])) (sc_command (cc_cmd v) @ [NUL])) (sc_sha (cc_cmd v))))) 32)"

definition native_description :: "(catalog_command \<Rightarrow> string) \<Rightarrow> catalog_command \<Rightarrow> string" where
  "native_description summary v =
     (let d = take 1199 (cc_tool v @ '': '' @ take 1024 (summary v)) in take (utf8_cut (length d) d) d)"

definition native_tool :: "(catalog_command \<Rightarrow> string) \<Rightarrow> catalog_command \<Rightarrow> native_slot" where
  "native_tool summary v =
     \<lparr>nt_name = native_name v, nt_description = native_description summary v, nt_command = Some v, nt_kind = STEP_CALL\<rparr>"

definition native_control :: "step_kind \<Rightarrow> string \<Rightarrow> string \<Rightarrow> native_slot" where
  "native_control kind name description =
     \<lparr>nt_name = name, nt_description = description, nt_command = None, nt_kind = kind\<rparr>"

definition native_controls :: "action_config \<Rightarrow> nat \<Rightarrow> agent \<Rightarrow> native_slot list" where
  "native_controls cfg blobs a =
     (if ac_tools cfg
      then [native_control STEP_DISCOVER ''asterism_discover'' ''Replace the tool shortlist by name or purpose.''] else []) @
     (if ac_asper cfg
      then [native_control STEP_RECALL ''asterism_recall'' ''Retrieve memory evidence for a question.''] else []) @
     (if blobs \<noteq> 0
      then [native_control STEP_OPEN ''asterism_open'' ''Read a redacted evidence blob at an explicit byte offset.''] else []) @
     [native_control STEP_CLARIFY ''asterism_clarify'' ''Ask the user for missing information needed to proceed.''] @
     (if \<not> needs_artifact cfg a
      then [native_control STEP_ANSWER ''asterism_finish''
        ''End actions and prepare a user response. This does not certify task success.''] else [])"

definition contract_build ::
    "(catalog_command \<Rightarrow> string) \<Rightarrow> action_config \<Rightarrow> nat \<Rightarrow> agent \<Rightarrow> bool \<Rightarrow> native_slot list outcome" where
  "contract_build summary cfg blobs a call_now =
     (if 59 < length (ag_selection a) then Err ERR_CONFIG
      else if call_now \<and> \<not> distinct (map native_name (ag_selection a)) then Err ERR_PROTOCOL
      else Ok ((if call_now then map (native_tool summary) (ag_selection a) else []) @ native_controls cfg blobs a))"

section \<open>Calls to decisions\<close>

definition empty_step :: "step_kind \<Rightarrow> step" where
  "empty_step kind = \<lparr>st_kind = kind, st_text = None, st_why = None, st_success = None, st_fallback = None,
     st_call = None, st_blob = (0, 0)\<rparr>"

definition control_args :: "'j json_api \<Rightarrow> nat \<Rightarrow> step_kind \<Rightarrow> string \<Rightarrow> step outcome" where
  "control_args api blobs kind args =
     (case j_parse api args of
        None \<Rightarrow> Err ERR_PROTOCOL
      | Some v \<Rightarrow>
          if j_kind api (Some v) \<noteq> J_OBJECT then Err ERR_PROTOCOL
          else if kind = STEP_ANSWER then
            (if j_count api (Some v) = 0 then Ok (empty_step kind) else Err ERR_PROTOCOL)
          else if kind = STEP_OPEN then
            (case blob_parse api v of
               Err e \<Rightarrow> Err e
             | Ok b \<Rightarrow> if int blobs < fst b then Err ERR_PROTOCOL else Ok ((empty_step kind)\<lparr>st_blob := b\<rparr>))
          else if j_count api (Some v) \<noteq> 1 then Err ERR_PROTOCOL
          else
            (let field = j_get api (Some v) ''input''; n = j_length api field in
             case j_text api field of
               None \<Rightarrow> Err ERR_PROTOCOL
             | Some s \<Rightarrow>
                 if n \<noteq> 0 \<and> n \<le> STEP_TEXT_MAX \<and> n = length s then Ok ((empty_step kind)\<lparr>st_text := Some s\<rparr>)
                 else Err ERR_PROTOCOL))"

text \<open>A call of a tool: the reference is what stands before the last dot of the tool's name, which the
  library always writes as reference, dot, command.\<close>

definition tool_step :: "catalog_command \<Rightarrow> string \<Rightarrow> step" where
  "tool_step v args =
     (empty_step STEP_CALL)\<lparr>st_call := Some (case last_dot (cc_tool v) of Some d \<Rightarrow> take d (cc_tool v) | None \<Rightarrow> [],
       sc_command (cc_cmd v), args)\<rparr>"

definition native_step ::
    "'j json_api \<Rightarrow> (string \<Rightarrow> string \<Rightarrow> tool_err option) \<Rightarrow> nat \<Rightarrow> native_slot list \<Rightarrow> bool \<Rightarrow> tool_call \<Rightarrow> step outcome" where
  "native_step api validate blobs contract batch call =
     (case find (\<lambda>slot. tc_name call = nt_name slot) contract of
        None \<Rightarrow> Err ERR_PROTOCOL
      | Some slot \<Rightarrow>
          if batch \<and> (case nt_command slot of None \<Rightarrow> True | Some v \<Rightarrow> \<not> cc_read_only v \<or> cc_destructive v) then Err ERR_PROTOCOL
          else (case nt_command slot of
              Some v \<Rightarrow> if validate (cc_tool v) (tc_args call) \<noteq> None then Err ERR_PROTOCOL else Ok (tool_step v (tc_args call))
            | None \<Rightarrow> control_args api blobs (nt_kind slot) (tc_args call)))"

fun all_steps :: "(tool_call \<Rightarrow> step outcome) \<Rightarrow> tool_call list \<Rightarrow> step list outcome" where
  "all_steps f [] = Ok []"
| "all_steps f (c # cs) =
     (case f c of
        Err e \<Rightarrow> Err e
      | Ok st \<Rightarrow> (case all_steps f cs of Err e \<Rightarrow> Err e | Ok sts \<Rightarrow> Ok (st # sts)))"

definition native_steps ::
    "'j json_api \<Rightarrow> (string \<Rightarrow> string \<Rightarrow> tool_err option) \<Rightarrow> nat \<Rightarrow> action_config \<Rightarrow> nat \<Rightarrow> native_slot list \<Rightarrow>
     tool_call list \<Rightarrow> step list outcome" where
  "native_steps api validate blobs cfg steps contract reqs =
     (if ac_max_steps cfg \<le> int steps \<or> reqs = [] \<or> 32 < length reqs \<or> ac_max_steps cfg - int steps < int (length reqs)
      then Err ERR_LIMIT
      else all_steps (native_step api validate blobs contract (1 < length reqs)) reqs)"

section \<open>History\<close>

definition NATIVE_HISTORY :: nat where "NATIVE_HISTORY = 64"
definition NATIVE_BYTES :: nat where "NATIVE_BYTES = 1024 * 1024"

record native_entry =
  ne_call :: tool_call
  ne_result :: string

record native_history =
  nh_entries :: "native_entry list"
  nh_bytes :: nat

definition EXCERPT_MARK :: string where
  "EXCERPT_MARK = [NL] @ ''[observation excerpt: middle omitted]'' @ [NL]"

text \<open>Both ends of a long text, cut between characters.\<close>

definition native_excerpt :: "string \<Rightarrow> string" where
  "native_excerpt s =
     (if length s \<le> 60000 then s
      else take (utf8_cut 30000 s) s @ EXCERPT_MARK @ dropWhile utf8_cont (drop (length s - 30000) s))"

fun native_observations :: "string \<Rightarrow> string list \<Rightarrow> string" where
  "native_observations b [] = b"
| "native_observations b (w # ws) =
     (if 60000 < length b then b @ [NL] @ ''[remaining observations omitted]'' @ [NL]
      else native_observations (b @ native_excerpt w @ [NL]) ws)"

definition CONTROL_ACCEPTED :: string where
  "CONTROL_ACCEPTED = ''Control accepted; no tool result or verification receipt was produced.''"

text \<open>A refused entry ends the run, and the history with it: the code leaves it behind, never to be sent.\<close>

definition native_record ::
    "'j json_api \<Rightarrow> agent \<Rightarrow> native_history \<Rightarrow> tool_call \<Rightarrow> nat \<Rightarrow> native_history outcome" where
  "native_record api a h call before =
     (if NATIVE_HISTORY \<le> length (nh_entries h) then Err ERR_CONTEXT
      else
        let args = context_text (ss_redact (ag_session a)) (tc_args call) in
        if j_parse api args = None then Err ERR_PROTOCOL
        else
          let seen = native_observations [] (drop before (ag_notes a));
              result = context_text (ss_redact (ag_session a)) (if seen = [] then CONTROL_ACCEPTED else seen);
              bytes = nh_bytes h + length args + length result + 256
          in if NATIVE_BYTES < bytes then Err ERR_CONTEXT
             else Ok \<lparr>nh_entries = nh_entries h @ [\<lparr>ne_call = call\<lparr>tc_args := args\<rparr>, ne_result = result\<rparr>], nh_bytes = bytes\<rparr>)"

text \<open>The messages of a request.\<close>

datatype native_role = ROLE_SYSTEM | ROLE_DEVELOPER | ROLE_USER | ROLE_ASSISTANT | ROLE_TOOL

datatype native_block = BLOCK_TEXT string | BLOCK_TOOL_CALL string string string | BLOCK_TOOL_RESULT string string

definition native_messages :: "string \<Rightarrow> string \<Rightarrow> string \<Rightarrow> native_history \<Rightarrow> (native_role \<times> native_block) list" where
  "native_messages system status user h =
     [(ROLE_SYSTEM, BLOCK_TEXT system), (ROLE_DEVELOPER, BLOCK_TEXT status), (ROLE_USER, BLOCK_TEXT user)] @
     concat (map (\<lambda>v. [(ROLE_ASSISTANT, BLOCK_TOOL_CALL (tc_id (ne_call v)) (tc_name (ne_call v)) (tc_args (ne_call v))),
                       (ROLE_TOOL, BLOCK_TOOL_RESULT (tc_id (ne_call v)) (ne_result v))]) (nh_entries h))"

section \<open>The loop\<close>

record native_env =
  nv_cancel :: bool
  nv_expired :: bool
  nv_late_cancel :: bool
  nv_summary :: "catalog_command \<Rightarrow> string"
  nv_blobs :: nat
  nv_input :: "asngn_err option"
  nv_reply :: "(string option \<times> int \<times> tool_call list) outcome"
  nv_response_cap :: int
  nv_validate :: "string \<Rightarrow> string \<Rightarrow> tool_err option"
  nv_pass :: "nat \<Rightarrow> pass_env"

record native_state =
  ns_ctl :: controller
  ns_history :: native_history
  ns_answer :: "(string \<times> int \<times> int) option"

definition blank_reply :: "string \<Rightarrow> bool" where
  "blank_reply s \<longleftrightarrow> list_all (\<lambda>c. c = SPACE \<or> c = TAB \<or> c = CHR 0x0D \<or> c = NL) s"

text \<open>A reply without calls proposes an answer.\<close>

definition native_finish ::
    "native_env \<Rightarrow> action_config \<Rightarrow> string option \<Rightarrow> int \<Rightarrow> bool \<Rightarrow> native_state \<Rightarrow>
     (native_state \<times> bool \<times> asngn_err option) option" where
  "native_finish env cfg reply spent call_now s =
     (case reply of
        None \<Rightarrow> Some (s, False, Some ERR_PROTOCOL)
      | Some t \<Rightarrow>
          if blank_reply t \<or> \<not> utf8_valid t then Some (s, False, Some ERR_PROTOCOL)
          else map_option (\<lambda>(c, over, e).
              (s\<lparr>ns_ctl := c, ns_answer := (if e = None \<and> spent < nv_response_cap env
                 then Some (t, spent, nv_response_cap env) else ns_answer s)\<rparr>, over, e))
            (action_apply (nv_pass env 0) cfg (empty_step STEP_ANSWER) call_now False (ac_tools cfg) (ns_ctl s)))"

text \<open>The calls of a batch, each applied and recorded, until one ends the actions or fails.\<close>

fun native_calls ::
    "'j json_api \<Rightarrow> native_env \<Rightarrow> action_config \<Rightarrow> bool \<Rightarrow> nat \<Rightarrow> (tool_call \<times> step) list \<Rightarrow> native_state \<Rightarrow>
     (native_state \<times> bool \<times> asngn_err option) option" where
  "native_calls api env cfg call_now i [] s = Some (s, False, None)"
| "native_calls api env cfg call_now i ((call, st) # rest) s =
     (case action_apply (nv_pass env i) cfg st call_now False (ac_tools cfg) (ns_ctl s) of
        None \<Rightarrow> None
      | Some (c, over, e) \<Rightarrow>
          let s1 = s\<lparr>ns_ctl := c\<rparr> in
          if e \<noteq> None then Some (s1, over, e)
          else if over then Some (s1, True, None)
          else (case native_record api (ct_agent c) (ns_history s) call (length (ag_notes (ct_agent (ns_ctl s)))) of
              Err e \<Rightarrow> Some (s1, False, Some e)
            | Ok h \<Rightarrow> native_calls api env cfg call_now (Suc i) rest (s1\<lparr>ns_history := h\<rparr>)))"

definition native_batch ::
    "'j json_api \<Rightarrow> native_env \<Rightarrow> action_config \<Rightarrow> native_slot list \<Rightarrow> tool_call list \<Rightarrow> bool \<Rightarrow> native_state \<Rightarrow>
     (native_state \<times> bool \<times> asngn_err option) option" where
  "native_batch api env cfg contract reqs call_now s =
     (if NATIVE_HISTORY - length (nh_entries (ns_history s)) < length reqs then Some (s, False, Some ERR_CONTEXT)
      else case native_steps api (nv_validate env) (nv_blobs env) cfg (ct_steps (ns_ctl s)) contract reqs of
        Err e \<Rightarrow> Some (s, False, Some e)
      | Ok steps \<Rightarrow>
          if 1 < length reqs \<and>
             nat ((cl_max_tools (ac_call cfg) - int (ag_tool_calls (ct_agent (ns_ctl s)))) mod 2 ^ 64) < length reqs
          then Some (s, False, Some ERR_LIMIT)
          else native_calls api env cfg call_now 0 (zip reqs steps) s)"

definition native_round ::
    "'j json_api \<Rightarrow> native_env \<Rightarrow> action_config \<Rightarrow> native_state \<Rightarrow> (native_state \<times> bool \<times> asngn_err option) option" where
  "native_round api env cfg s =
     (let c = ns_ctl s; a = ct_agent c;
          call_now = (ac_tools cfg \<and> \<not> ag_call_mute a \<and> int (ag_tool_calls a) < cl_max_tools (ac_call cfg));
          s1 = s\<lparr>ns_ctl := c\<lparr>ct_agent := a\<lparr>ag_call_mute := False\<rparr>\<rparr>\<rparr>
      in case contract_build (nv_summary env) cfg (nv_blobs env) a call_now of
           Err e \<Rightarrow> Some (s1, False, Some e)
         | Ok contract \<Rightarrow>
             if nv_input env \<noteq> None then Some (s1, False, nv_input env)
             else (case nv_reply env of
                 Err e \<Rightarrow> Some (s1, False, Some e)
               | Ok (reply, spent, reqs) \<Rightarrow>
                   if reqs = [] then native_finish env cfg reply spent call_now s1
                   else native_batch api env cfg contract reqs call_now s1))"

definition native_spent :: "string" where
  "native_spent = ''[notice] native action budget exhausted; report remaining work''"

text \<open>One turn of the loop: the state, and how it ends if it does.\<close>

definition native_pass ::
    "'j json_api \<Rightarrow> native_env \<Rightarrow> action_config \<Rightarrow> native_state \<Rightarrow> (native_state \<times> asngn_err option option) option" where
  "native_pass api env cfg s =
     (let c = ns_ctl s in
      if nv_expired env then Some (s, Some (Some ERR_TIMEOUT))
      else if ac_max_steps cfg \<le> int (ct_steps c) \<or> 2 < ag_osc_cycles (ct_agent c) then
        (if needs_artifact cfg (ct_agent c) then Some (s, Some (Some ERR_PROTOCOL))
         else case work_push (pe_call (nv_pass env 0)) (ct_agent c) native_spent of
           (a, e) \<Rightarrow> Some (s\<lparr>ns_ctl := c\<lparr>ct_agent := a, ct_forced := True\<rparr>\<rparr>, Some e))
      else case native_round api env cfg s of
        None \<Rightarrow> None
      | Some (s', over, e) \<Rightarrow> Some (s', if e \<noteq> None \<or> over then Some e else None))"

partial_function (option) native_loop ::
    "'j json_api \<Rightarrow> (nat \<Rightarrow> native_env) \<Rightarrow> action_config \<Rightarrow> nat \<Rightarrow> native_state \<Rightarrow> (native_state \<times> asngn_err option) option" where
  "native_loop api envs cfg i s =
     (if nv_cancel (envs i) then Some (s, Some ERR_CANCELLED)
      else Option.bind (native_pass api (envs i) cfg s)
        (\<lambda>r. case snd r of
            Some e \<Rightarrow> Some (fst r, if nv_late_cancel (envs i) then Some ERR_CANCELLED else e)
          | None \<Rightarrow> native_loop api envs cfg (Suc i) (fst r)))"

definition native_run ::
    "'j json_api \<Rightarrow> (nat \<Rightarrow> native_env) \<Rightarrow> action_config \<Rightarrow> asngn_err option \<Rightarrow> controller \<Rightarrow>
     (native_state \<times> asngn_err option) option" where
  "native_run api envs cfg assemble c =
     (let s = \<lparr>ns_ctl = c, ns_history = \<lparr>nh_entries = [], nh_bytes = 0\<rparr>, ns_answer = None\<rparr> in
      if ag_phase (ct_agent c) \<noteq> PHASE_ACTION then Some (s, Some ERR_PROTOCOL)
      else if assemble \<noteq> None then Some (s, if nv_cancel (envs 0) then Some ERR_CANCELLED else assemble)
      else native_loop api envs cfg 0 s)"

section \<open>Both protocols act through the same gates\<close>

text \<open>A step of the engine between two decisions, or the application of one decision.\<close>

inductive act_step :: "pass_env set \<Rightarrow> action_config \<Rightarrow> controller \<Rightarrow> controller \<Rightarrow> bool" for E cfg where
  between: "grounded (ct_agent c') = grounded (ct_agent c) \<Longrightarrow> ct_steps c' = ct_steps c \<Longrightarrow>
    ag_selection (ct_agent c') = ag_selection (ct_agent c) \<Longrightarrow> act_step E cfg c c'"
| applied: "env \<in> E \<Longrightarrow> action_apply env cfg st call_now think_now discover_now c = Some (c', over, e) \<Longrightarrow> act_step E cfg c c'"

abbreviation act_steps :: "pass_env set \<Rightarrow> action_config \<Rightarrow> controller \<Rightarrow> controller \<Rightarrow> bool" where
  "act_steps E cfg \<equiv> (act_step E cfg)\<^sup>*\<^sup>*"

lemma act_step_budget:
  assumes "act_step E cfg c c'" "within_budget cfg c0 c" "ag_phase (ct_agent c0) = PHASE_ACTION"
  shows "within_budget cfg c0 c'"
  using assms(1)
proof cases
  case between
  then show ?thesis using within_budget_calm [OF assms(2)] by blast
next
  case (applied env st call_now think_now discover_now over e)
  have "ag_phase (ct_agent c) = PHASE_ACTION" using assms(2,3) by (simp add: within_budget_def ident_def)
  from applied(2) this show ?thesis
  proof (cases rule: action_apply_cases)
    case refused
    then show ?thesis using assms(2) by simp
  next
    case taken: applied
    from taken(3) show ?thesis
    proof (cases rule: apply_kind_cases)
      case calm
      then show ?thesis using within_budget_calm [OF assms(2)] taken by simp
    next
      case (call line fallback)
      then show ?thesis using within_budget_call [OF assms(2) call(3)] taken by simp
    qed
  qed
qed

lemma act_steps_budget:
  assumes "act_steps E cfg c c'" "ag_phase (ct_agent c) = PHASE_ACTION"
  shows "within_budget cfg c c'"
  using assms(1)
proof (induction rule: rtranclp_induct)
  case base
  show ?case by (rule within_budget_refl)
next
  case (step d d')
  show ?case by (rule act_step_budget [OF step(2) step(3) assms(2)])
qed

definition readable :: "catalog_command set \<Rightarrow> controller \<Rightarrow> bool" where
  "readable K c \<longleftrightarrow> ag_profile (ct_agent c) = CODING_READONLY \<and> set (ag_selection (ct_agent c)) \<subseteq> K"

lemma act_step_reads:
  assumes "act_step E cfg c c'" "ag_phase (ct_agent c) = PHASE_ACTION" "readable K c" "\<And>env. env \<in> E \<Longrightarrow> offers_from K env"
  shows "only_read K (ct_agent c) (ct_agent c') \<and> set (ag_selection (ct_agent c')) \<subseteq> K"
  using assms(1)
proof cases
  case between
  then show ?thesis using only_read_grounded assms(3) by (simp add: readable_def)
next
  case (applied env st call_now think_now discover_now over e)
  from applied(2) assms(2) show ?thesis
  proof (cases rule: action_apply_cases)
    case refused
    then show ?thesis using assms(3) by (simp add: only_read_refl readable_def)
  next
    case taken: applied
    have sel: "set (ag_selection (ct_agent c')) \<subseteq> K"
      using apply_kind_selection [OF taken(3) assms(4) [OF applied(1)]] assms(3) by (simp add: readable_def)
    from taken(3) show ?thesis
    proof (cases rule: apply_kind_cases)
      case calm
      then show ?thesis using only_read_grounded sel by simp
    next
      case (call line fallback)
      then show ?thesis using call_only_read [OF call(3)] assms(3) sel by (simp add: readable_def)
    qed
  qed
qed

lemma act_steps_read:
  assumes "act_steps E cfg c c'" "ag_phase (ct_agent c) = PHASE_ACTION" "readable K c" "\<And>env. env \<in> E \<Longrightarrow> offers_from K env"
  shows "only_read K (ct_agent c) (ct_agent c') \<and> set (ag_selection (ct_agent c')) \<subseteq> K"
  using assms(1)
proof (induction rule: rtranclp_induct)
  case base
  then show ?case using assms(3) by (simp add: only_read_refl readable_def)
next
  case (step d d')
  have "within_budget cfg c d" by (rule act_steps_budget [OF step(1) assms(2)])
  then have d: "ag_phase (ct_agent d) = PHASE_ACTION" "readable K d"
    using assms(2,3) step(3) by (simp_all add: within_budget_def ident_def readable_def)
  show ?case using act_step_reads [OF step(2) d assms(4)] only_read_trans step(3) by blast
qed

section \<open>The loop acts by steps\<close>

lemma native_calls_steps:
  assumes "native_calls api env cfg call_now i xs s = Some (s', over, e)" "range (nv_pass env) \<subseteq> E"
  shows "act_steps E cfg (ns_ctl s) (ns_ctl s')"
  using assms(1)
proof (induction xs arbitrary: i s)
  case Nil
  then show ?case by simp
next
  case (Cons x rest)
  obtain call st where x: "x = (call, st)" by fastforce
  obtain c over1 e1 where ap: "action_apply (nv_pass env i) cfg st call_now False (ac_tools cfg) (ns_ctl s) = Some (c, over1, e1)"
    using Cons.prems x by (auto split: option.splits)
  have one: "act_steps E cfg (ns_ctl s) c" using act_step.applied [OF _ ap] assms(2) by blast
  show ?case
  proof (cases "\<exists>h. e1 = None \<and> \<not> over1 \<and>
      native_record api (ct_agent c) (ns_history s) call (length (ag_notes (ct_agent (ns_ctl s)))) = Ok h")
    case True
    then obtain h where "native_calls api env cfg call_now (Suc i) rest (s\<lparr>ns_ctl := c, ns_history := h\<rparr>) = Some (s', over, e)"
      using Cons.prems x ap by (auto simp: Let_def)
    from Cons.IH [OF this] one show ?thesis by simp
  next
    case False
    then have "ns_ctl s' = c" using Cons.prems x ap by (auto simp: Let_def split: if_splits sum.splits)
    with one show ?thesis by simp
  qed
qed

lemma native_finish_steps:
  assumes "native_finish env cfg reply spent call_now s = Some (s', over, e)" "range (nv_pass env) \<subseteq> E"
  shows "act_steps E cfg (ns_ctl s) (ns_ctl s') \<and> (e = None \<longrightarrow> over)"
proof (cases "\<exists>t. reply = Some t \<and> \<not> (blank_reply t \<or> \<not> utf8_valid t)")
  case False
  then have "s' = s \<and> e \<noteq> None" using assms(1) by (cases reply) (auto simp: native_finish_def)
  then show ?thesis by auto
next
  case True
  then obtain c where ap: "action_apply (nv_pass env 0) cfg (empty_step STEP_ANSWER) call_now False (ac_tools cfg) (ns_ctl s) = Some (c, over, e)"
      "ns_ctl s' = c"
    using assms(1) by (auto simp: native_finish_def)
  have "e = None \<longrightarrow> over" using ap(1)
    by (auto simp: action_apply_def apply_kind_def empty_step_def split: if_splits)
  then show ?thesis using act_step.applied [OF _ ap(1)] assms(2) ap(2) by blast
qed

lemma all_steps_length: "all_steps f xs = Ok sts \<Longrightarrow> length sts = length xs"
  by (induction xs arbitrary: sts) (auto split: sum.splits)

text \<open>The state a round works on.\<close>

definition unmuted :: "native_state \<Rightarrow> native_state" where
  "unmuted s = s\<lparr>ns_ctl := (ns_ctl s)\<lparr>ct_agent := (ct_agent (ns_ctl s))\<lparr>ag_call_mute := False\<rparr>\<rparr>\<rparr>"

lemma native_batch_ways:
  assumes "native_batch api env cfg contract reqs call_now s = Some (s', over, e)" "reqs \<noteq> []"
  obtains (stopped) "s' = s" "e \<noteq> None" "\<not> over"
  | (ran) xs where "xs \<noteq> []" "native_calls api env cfg call_now 0 xs s = Some (s', over, e)"
proof (cases "\<exists>steps. native_steps api (nv_validate env) (nv_blobs env) cfg (ct_steps (ns_ctl s)) contract reqs = Ok steps \<and>
    native_calls api env cfg call_now 0 (zip reqs steps) s = Some (s', over, e)")
  case True
  then obtain steps where st: "native_steps api (nv_validate env) (nv_blobs env) cfg (ct_steps (ns_ctl s)) contract reqs = Ok steps"
    "native_calls api env cfg call_now 0 (zip reqs steps) s = Some (s', over, e)" by blast
  have "length steps = length reqs" using st(1) all_steps_length by (auto simp: native_steps_def split: if_splits)
  then have "zip reqs steps \<noteq> []" using assms(2) by (cases reqs; cases steps) auto
  then show thesis using ran st(2) by blast
next
  case False
  then show thesis using assms(1) stopped by (auto simp: native_batch_def split: if_splits sum.splits)
qed

lemma native_round_ways:
  assumes "native_round api env cfg s = Some (s', over, e)"
  obtains (stopped) "s' = unmuted s" "e \<noteq> None" "\<not> over"
  | (finished) reply spent call_now where "native_finish env cfg reply spent call_now (unmuted s) = Some (s', over, e)"
  | (ran) xs call_now where "xs \<noteq> []" "native_calls api env cfg call_now 0 xs (unmuted s) = Some (s', over, e)"
proof -
  let ?a = "ct_agent (ns_ctl s)"
  let ?now = "ac_tools cfg \<and> \<not> ag_call_mute ?a \<and> int (ag_tool_calls ?a) < cl_max_tools (ac_call cfg)"
  show thesis
  proof (cases "\<exists>contract reply spent reqs. contract_build (nv_summary env) cfg (nv_blobs env) ?a ?now = Ok contract \<and>
      nv_input env = None \<and> nv_reply env = Ok (reply, spent, reqs)")
    case True
    then obtain contract reply spent reqs where c: "contract_build (nv_summary env) cfg (nv_blobs env) ?a ?now = Ok contract"
      "nv_input env = None" "nv_reply env = Ok (reply, spent, reqs)" by blast
    show thesis
    proof (cases "reqs = []")
      case True
      then show thesis using assms c finished by (simp add: native_round_def unmuted_def Let_def)
    next
      case False
      then have "native_batch api env cfg contract reqs ?now (unmuted s) = Some (s', over, e)"
        using assms c by (simp add: native_round_def unmuted_def Let_def)
      then show thesis using False by (cases rule: native_batch_ways) (use stopped ran in blast)+
    qed
  next
    case False
    then have "s' = unmuted s \<and> e \<noteq> None \<and> \<not> over" using assms
      by (auto simp: native_round_def unmuted_def Let_def simp del: not_None_eq split: sum.splits if_splits)
    then show thesis using stopped by blast
  qed
qed

lemma unmuted_step: "act_step E cfg (ns_ctl s) (ns_ctl (unmuted s))"
  by (rule act_step.between) (simp_all add: unmuted_def)

lemma native_round_steps:
  assumes "native_round api env cfg s = Some (s', over, e)" "range (nv_pass env) \<subseteq> E"
  shows "act_steps E cfg (ns_ctl s) (ns_ctl s')"
proof -
  from assms(1) have "act_steps E cfg (ns_ctl (unmuted s)) (ns_ctl s')"
  proof (cases rule: native_round_ways)
    case stopped
    then show ?thesis by simp
  next
    case (finished reply spent call_now)
    then show ?thesis using native_finish_steps [OF _ assms(2)] by blast
  next
    case (ran xs call_now)
    then show ?thesis using native_calls_steps [OF _ assms(2)] by blast
  qed
  with unmuted_step show ?thesis by (rule converse_rtranclp_into_rtranclp)
qed

text \<open>A round that does not end the loop has spent a step.\<close>

lemma native_calls_spend:
  assumes "native_calls api env cfg call_now i xs s = Some (s', over, None)" "xs \<noteq> []" "ag_phase (ct_agent (ns_ctl s)) = PHASE_ACTION"
  shows "ct_steps (ns_ctl s) < ct_steps (ns_ctl s')"
proof -
  obtain call st rest where x: "xs = (call, st) # rest" using assms(2) by (metis list.exhaust surj_pair)
  obtain c over1 where ap: "action_apply (nv_pass env i) cfg st call_now False (ac_tools cfg) (ns_ctl s) = Some (c, over1, None)"
    using assms(1) x by (auto simp: Let_def split: option.splits if_splits)
  have c: "ct_steps c = Suc (ct_steps (ns_ctl s))" using ap assms(3) by (cases rule: action_apply_cases) auto
  have phase: "ag_phase (ct_agent c) = PHASE_ACTION"
    using act_step_budget [OF act_step.applied [OF _ ap] within_budget_refl assms(3)] assms(3)
    by (auto simp: within_budget_def ident_def)
  have "act_steps (range (nv_pass env)) cfg c (ns_ctl s')"
  proof (cases "\<exists>h. \<not> over1 \<and> native_record api (ct_agent c) (ns_history s) call (length (ag_notes (ct_agent (ns_ctl s)))) = Ok h")
    case True
    then obtain h where "native_calls api env cfg call_now (Suc i) rest (s\<lparr>ns_ctl := c, ns_history := h\<rparr>) = Some (s', over, None)"
      using assms(1) x ap by (auto simp: Let_def)
    from native_calls_steps [OF this subset_refl] show ?thesis by simp
  next
    case False
    then have "ns_ctl s' = c" using assms(1) x ap by (auto simp: Let_def split: if_splits sum.splits)
    then show ?thesis by simp
  qed
  from act_steps_budget [OF this phase] c show ?thesis by (simp add: within_budget_def)
qed

lemma native_pass_steps:
  assumes "native_pass api env cfg s = Some (s', v)" "range (nv_pass env) \<subseteq> E"
  shows "act_steps E cfg (ns_ctl s) (ns_ctl s')"
proof (cases "\<exists>over e. native_round api env cfg s = Some (s', over, e)")
  case True
  then show ?thesis using native_round_steps [OF _ assms(2)] by blast
next
  case False
  have g: "grounded a' = grounded a \<and> ag_selection a' = ag_selection a" if "work_push env' a tx = (a', e)" for env' a tx a' e
    using that by (auto simp: work_push_def grounded_def split: option.splits)
  have "act_step E cfg (ns_ctl s) (ns_ctl s')"
    by (rule act_step.between)
      (use assms(1) False in \<open>auto simp: native_pass_def Let_def split: if_splits option.splits prod.splits dest!: g\<close>)
  then show ?thesis by blast
qed

lemma native_pass_spends:
  assumes "native_pass api env cfg s = Some (s', None)" "ag_phase (ct_agent (ns_ctl s)) = PHASE_ACTION"
  shows "ct_steps (ns_ctl s) < ct_steps (ns_ctl s') \<and> int (ct_steps (ns_ctl s)) < ac_max_steps cfg"
proof -
  have r: "native_round api env cfg s = Some (s', False, None)" "int (ct_steps (ns_ctl s)) < ac_max_steps cfg"
    using assms(1) by (auto simp: native_pass_def Let_def split: if_splits option.splits prod.splits)
  from r(1) have "ct_steps (ns_ctl s) < ct_steps (ns_ctl s')"
  proof (cases rule: native_round_ways)
    case (finished reply spent call_now)
    then show ?thesis using native_finish_steps [OF finished subset_refl] by blast
  next
    case (ran xs call_now)
    then show ?thesis using native_calls_spend [OF ran(2,1)] assms(2) by (simp add: unmuted_def)
  qed simp
  with r(2) show ?thesis by simp
qed

lemma native_pass_returns:
  assumes "\<And>i. wait_ends (ce_gate (pe_call (nv_pass env i)))"
  shows "native_pass api env cfg s \<noteq> None"
proof -
  note k = action_apply_returns [OF assms]
  have k1: "native_calls api env cfg call_now i xs s \<noteq> None" for call_now i xs s
  proof (induction xs arbitrary: i s)
    case (Cons x rest)
    obtain call st where x: "x = (call, st)" by fastforce
    obtain c over e where "action_apply (nv_pass env i) cfg st call_now False (ac_tools cfg) (ns_ctl s) = Some (c, over, e)"
      using k by (metis not_None_eq prod_cases3)
    then show ?case using x Cons.IH by (simp add: Let_def ex_bool_eq split: sum.split)
  qed simp
  have k2: "native_finish env cfg reply spent call_now s \<noteq> None" for reply spent call_now s
    by (simp add: native_finish_def k del: not_None_eq split: option.split)
  have k3: "native_round api env cfg s \<noteq> None"
    by (simp add: native_round_def native_batch_def Let_def k1 k2 del: not_None_eq split: sum.split prod.split)
  show ?thesis by (simp add: native_pass_def Let_def k3 del: not_None_eq split: prod.split option.split)
qed

lemma native_loop_rule:
  assumes "native_loop api envs cfg i s = Some (s', e)" "I s"
    and "\<And>i s d v. I s \<Longrightarrow> native_pass api (envs i) cfg s = Some (d, v) \<Longrightarrow> I d"
  shows "I s'"
proof -
  have "api = api \<and> envs = envs \<and> cfg = cfg \<longrightarrow> I s \<longrightarrow> I (fst r)" if "native_loop api envs cfg i s = Some r" for r
  proof (rule native_loop.raw_induct [where P = "\<lambda>api' envs' cfg' i s r.
      api' = api \<and> envs' = envs \<and> cfg' = cfg \<longrightarrow> I s \<longrightarrow> I (fst r)", OF _ that])
    fix f api' envs' cfg' i s r
    assume IH: "\<And>api' envs' cfg' i s r. f api' envs' cfg' i s = Some r \<Longrightarrow>
        api' = api \<and> envs' = envs \<and> cfg' = cfg \<longrightarrow> I s \<longrightarrow> I (fst r)"
      and eq: "(if nv_cancel (envs' i) then Some (s, Some ERR_CANCELLED)
        else Option.bind (native_pass api' (envs' i) cfg' s)
          (\<lambda>r. case snd r of None \<Rightarrow> f api' envs' cfg' (Suc i) (fst r)
             | Some e \<Rightarrow> Some (fst r, if nv_late_cancel (envs' i) then Some ERR_CANCELLED else e))) = Some r"
    show "api' = api \<and> envs' = envs \<and> cfg' = cfg \<longrightarrow> I s \<longrightarrow> I (fst r)"
    proof (intro impI)
      assume same: "api' = api \<and> envs' = envs \<and> cfg' = cfg" and I: "I s"
      show "I (fst r)"
      proof (cases "nv_cancel (envs i)")
        case True
        then show ?thesis using eq same I by auto
      next
        case False
        then obtain d v where d: "native_pass api (envs i) cfg s = Some (d, v)"
          using eq same by (cases "native_pass api (envs i) cfg s") auto
        have "I d" by (rule assms(3) [OF I d])
        then show ?thesis using IH [of api envs cfg "Suc i" d r] eq same False d by (cases v) auto
      qed
    qed
  qed
  from this [OF assms(1)] assms(2) show ?thesis by simp
qed

lemma native_loop_returns:
  assumes "\<And>i j. wait_ends (ce_gate (pe_call (nv_pass (envs i) j)))" "ag_phase (ct_agent (ns_ctl s)) = PHASE_ACTION"
  shows "native_loop api envs cfg i s \<noteq> None"
  using assms(2)
proof (induction "nat (ac_max_steps cfg - int (ct_steps (ns_ctl s)))" arbitrary: i s rule: less_induct)
  case less
  show ?case
  proof (cases "nv_cancel (envs i)")
    case True
    then show ?thesis by (simp add: native_loop.simps)
  next
    case False
    obtain d v where d: "native_pass api (envs i) cfg s = Some (d, v)"
      using native_pass_returns [OF assms(1)] by (metis not_None_eq surj_pair)
    show ?thesis
    proof (cases v)
      case None
      have "nat (ac_max_steps cfg - int (ct_steps (ns_ctl d))) < nat (ac_max_steps cfg - int (ct_steps (ns_ctl s)))"
        using native_pass_spends [OF d [unfolded None] less(2)] by auto
      moreover have "ag_phase (ct_agent (ns_ctl d)) = PHASE_ACTION"
        using act_steps_budget [OF native_pass_steps [OF d subset_refl] less(2)] less(2) by (simp add: within_budget_def ident_def)
      ultimately have "native_loop api envs cfg (Suc i) d \<noteq> None" by (rule less(1))
      then show ?thesis using False d None by (subst native_loop.simps) simp
    next
      case (Some e)
      then show ?thesis using False d by (subst native_loop.simps) simp
    qed
  qed
qed

text \<open>Everything a native run does is a sequence of the engine's own steps.\<close>

definition all_passes :: "(nat \<Rightarrow> native_env) \<Rightarrow> pass_env set" where
  "all_passes envs = (\<Union>i. range (nv_pass (envs i)))"

lemma native_run_steps:
  assumes "native_run api envs cfg assemble c = Some (s', e)"
  shows "act_steps (all_passes envs) cfg c (ns_ctl s')"
proof (cases "ag_phase (ct_agent c) = PHASE_ACTION \<and> assemble = None")
  case False
  then show ?thesis using assms by (auto simp: native_run_def Let_def split: if_splits)
next
  case True
  then have run: "native_loop api envs cfg 0 \<lparr>ns_ctl = c, ns_history = \<lparr>nh_entries = [], nh_bytes = 0\<rparr>, ns_answer = None\<rparr> = Some (s', e)"
    using assms by (simp add: native_run_def Let_def)
  show ?thesis
  proof (rule native_loop_rule [where I = "\<lambda>s. act_steps (all_passes envs) cfg c (ns_ctl s)", OF run])
    show "act_steps (all_passes envs) cfg c (ns_ctl d)"
      if "act_steps (all_passes envs) cfg c (ns_ctl s)" "native_pass api (envs i) cfg s = Some (d, v)" for i s d v
    proof -
      have "range (nv_pass (envs i)) \<subseteq> all_passes envs" by (auto simp: all_passes_def)
      from rtranclp_trans [OF that(1) native_pass_steps [OF that(2) this]] show ?thesis .
    qed
  qed simp
qed

text \<open>
  C40. A native run always ends, too, and within the same budgets as the text protocol: whatever calls
  the provider answers with, as long as the wait for a confirmation ends, \<^verbatim>\<open>asngn_native_run\<close> returns
  after at most \<^verbatim>\<open>max_steps\<close> applied decisions and \<^verbatim>\<open>max_tool_calls\<close> dispatched tools.
\<close>

theorem native_terminates:
  assumes "\<And>i j. wait_ends (ce_gate (pe_call (nv_pass (envs i) j)))"
  shows "\<exists>s' e. native_run api envs cfg assemble c = Some (s', e) \<and> within_budget cfg c (ns_ctl s')"
proof (cases "ag_phase (ct_agent c) = PHASE_ACTION")
  case False
  then show ?thesis by (simp add: native_run_def Let_def within_budget_refl)
next
  case True
  let ?s = "\<lparr>ns_ctl = c, ns_history = \<lparr>nh_entries = [], nh_bytes = 0\<rparr>, ns_answer = None\<rparr>"
  have "native_loop api envs cfg 0 ?s \<noteq> None" by (rule native_loop_returns) (use assms True in simp_all)
  then obtain s' e where r: "native_run api envs cfg assemble c = Some (s', e)"
    using True by (cases assemble) (auto simp: native_run_def Let_def)
  then show ?thesis using act_steps_budget [OF native_run_steps [OF r] True] by blast
qed

text \<open>
  Under the profile \<^verbatim>\<open>coding-readonly\<close> a native run changes nothing either: all it asks the tools
  library to run are commands on offer that are read-only and not destructive.
\<close>

theorem native_run_only_reads:
  assumes "native_run api envs cfg assemble c = Some (s', e)" "ag_profile (ct_agent c) = CODING_READONLY"
    and "set (ag_selection (ct_agent c)) \<subseteq> K" "\<And>i j. offers_from K (nv_pass (envs i) j)"
  shows "only_read K (ct_agent c) (ct_agent (ns_ctl s'))"
proof (cases "ag_phase (ct_agent c) = PHASE_ACTION")
  case False
  then show ?thesis using assms(1) by (auto simp: native_run_def Let_def only_read_refl)
next
  case True
  have offers: "offers_from K env" if "env \<in> all_passes envs" for env using that assms(4) by (auto simp: all_passes_def)
  show ?thesis
    using act_steps_read [OF native_run_steps [OF assms(1)] True _ offers] assms(2,3) by (simp add: readable_def)
qed

section \<open>Batches\<close>

lemma native_name_head: "take 2 (native_name v) = ''t_''"
  by (simp add: native_name_def)

lemma contract_tools:
  assumes "contract_build summary cfg blobs a call_now = Ok contract" "slot \<in> set contract" "nt_command slot = Some v"
  shows "v \<in> set (ag_selection a) \<and> nt_name slot = native_name v"
  using assms
  by (auto simp: contract_build_def native_tool_def native_controls_def native_control_def split: if_splits)

text \<open>Every name the contract offers stands for one slot.\<close>

lemma contract_names_distinct:
  assumes "contract_build summary cfg blobs a call_now = Ok contract"
  shows "distinct (map nt_name contract) \<and> length contract \<le> 64"
proof -
  let ?tools = "if call_now then map native_name (ag_selection a) else []"
  have controls: "distinct (map nt_name (native_controls cfg blobs a))" "length (native_controls cfg blobs a) \<le> 5"
      "\<forall>n\<in>set (map nt_name (native_controls cfg blobs a)). take 2 n = ''as''"
    by (auto simp: native_controls_def native_control_def)
  have names: "map nt_name contract = ?tools @ map nt_name (native_controls cfg blobs a)"
    and fits: "length (ag_selection a) \<le> 59" and tools: "distinct ?tools"
    using assms by (auto simp: contract_build_def native_tool_def split: if_splits)
  have "\<forall>n\<in>set ?tools. take 2 n = ''t_''" by (auto simp: native_name_head)
  then have "set ?tools \<inter> set (map nt_name (native_controls cfg blobs a)) = {}" using controls(3) by fastforce
  then have "distinct (map nt_name contract)" using names tools controls(1) by simp
  moreover have "length contract = length ?tools + length (native_controls cfg blobs a)"
    using arg_cong [OF names, of length] by simp
  ultimately show ?thesis using fits controls(2) by (auto split: if_splits)
qed

lemma all_steps_each: "all_steps f xs = Ok sts \<Longrightarrow> list_all2 (\<lambda>x st. f x = Ok st) xs sts"
  by (induction xs arbitrary: sts) (auto split: sum.splits)

definition batched_call :: "(string \<Rightarrow> string \<Rightarrow> tool_err option) \<Rightarrow> agent \<Rightarrow> tool_call \<Rightarrow> step \<Rightarrow> bool" where
  "batched_call validate a req st \<longleftrightarrow> (\<exists>v\<in>set (ag_selection a). tc_name req = native_name v \<and>
     cc_read_only v \<and> \<not> cc_destructive v \<and> validate (cc_tool v) (tc_args req) = None \<and> st = tool_step v (tc_args req))"

lemma native_step_batched:
  assumes "native_step api validate blobs contract True req = Ok st" "contract_build summary cfg blobs a call_now = Ok contract"
  shows "batched_call validate a req st"
proof -
  obtain slot where slot: "find (\<lambda>slot. tc_name req = nt_name slot) contract = Some slot"
    using assms(1) by (auto simp: native_step_def split: option.splits)
  then obtain v where v: "nt_command slot = Some v" "cc_read_only v" "\<not> cc_destructive v"
    using assms(1) by (auto simp: native_step_def split: option.splits if_splits)
  have "slot \<in> set contract" "tc_name req = nt_name slot" using slot by (auto simp: find_Some_iff)
  then show ?thesis
    using contract_tools [OF assms(2) _ v(1)] v assms(1) slot
    by (auto simp: batched_call_def native_step_def split: if_splits)
qed

text \<open>
  C15. A batch of several calls can only read.  The whole proposal is checked before its first effect:
  when it is accepted, every call names a command of the contract that is on offer, annotated
  read-only and not destructive, with arguments the tools library accepts, and becomes exactly the
  call of that command; the batch fits the budget of steps.
\<close>

theorem native_batch_only_reads:
  assumes "contract_build summary cfg blobs a call_now = Ok contract"
    and "native_steps api validate blobs cfg steps contract reqs = Ok sts" "1 < length reqs"
  shows "list_all2 (batched_call validate a) reqs sts \<and> length reqs \<le> 32 \<and> int (steps + length reqs) \<le> ac_max_steps cfg"
proof -
  have f: "list_all2 (\<lambda>req st. native_step api validate blobs contract True req = Ok st) reqs sts"
    and small: "length reqs \<le> 32" "int (steps + length reqs) \<le> ac_max_steps cfg"
    using assms(2,3) all_steps_each by (auto simp: native_steps_def split: if_splits)
  from f have "list_all2 (batched_call validate a) reqs sts"
    by (rule list_all2_mono) (rule native_step_batched [OF _ assms(1)])
  with small show ?thesis by simp
qed

section \<open>The history of a run\<close>

text \<open>What the history holds is what it counts, and it never outgrows the arrays of a request.\<close>

definition history_fits :: "native_history \<Rightarrow> bool" where
  "history_fits h \<longleftrightarrow> length (nh_entries h) \<le> NATIVE_HISTORY \<and> nh_bytes h \<le> NATIVE_BYTES \<and>
     nh_bytes h = sum_list (map (\<lambda>v. length (tc_args (ne_call v)) + length (ne_result v) + 256) (nh_entries h))"

lemma native_record_fits:
  assumes "native_record api a h call before = Ok h'" "history_fits h"
  shows "history_fits h'"
  using assms by (auto simp: native_record_def history_fits_def Let_def split: if_splits)

lemma native_calls_fits:
  assumes "native_calls api env cfg call_now i xs s = Some (s', over, e)" "history_fits (ns_history s)"
  shows "history_fits (ns_history s')"
  using assms
proof (induction xs arbitrary: i s)
  case (Cons x rest)
  obtain call st where x: "x = (call, st)" by fastforce
  obtain c over1 e1 where ap: "action_apply (nv_pass env i) cfg st call_now False (ac_tools cfg) (ns_ctl s) = Some (c, over1, e1)"
    using Cons.prems x by (auto split: option.splits)
  show ?case
  proof (cases "\<exists>h. e1 = None \<and> \<not> over1 \<and>
      native_record api (ct_agent c) (ns_history s) call (length (ag_notes (ct_agent (ns_ctl s)))) = Ok h")
    case True
    then obtain h where h: "native_record api (ct_agent c) (ns_history s) call (length (ag_notes (ct_agent (ns_ctl s)))) = Ok h"
      "native_calls api env cfg call_now (Suc i) rest (s\<lparr>ns_ctl := c, ns_history := h\<rparr>) = Some (s', over, e)"
      using Cons.prems x ap by (auto simp: Let_def)
    from Cons.IH [OF h(2)] native_record_fits [OF h(1) Cons.prems(2)] show ?thesis by simp
  next
    case False
    then have "ns_history s' = ns_history s" using Cons.prems x ap by (auto simp: Let_def split: if_splits sum.splits)
    with Cons.prems(2) show ?thesis by simp
  qed
qed simp

lemma native_finish_history:
  "native_finish env cfg reply spent call_now s = Some (s', over, e) \<Longrightarrow> ns_history s' = ns_history s"
  by (auto simp: native_finish_def split: option.splits if_splits)

lemma native_pass_fits:
  assumes "native_pass api env cfg s = Some (s', v)" "history_fits (ns_history s)"
  shows "history_fits (ns_history s')"
proof (cases "\<exists>over e. native_round api env cfg s = Some (s', over, e)")
  case False
  then have "ns_history s' = ns_history s"
    using assms(1) by (auto simp: native_pass_def Let_def split: if_splits option.splits prod.splits)
  with assms(2) show ?thesis by simp
next
  case True
  have start: "ns_history (unmuted s) = ns_history s" by (simp add: unmuted_def)
  from True obtain over e where r: "native_round api env cfg s = Some (s', over, e)" by blast
  from r show ?thesis
  proof (cases rule: native_round_ways)
    case (finished reply spent call_now)
    then show ?thesis using native_finish_history [OF finished] start assms(2) by simp
  next
    case (ran xs call_now)
    then show ?thesis using native_calls_fits [OF ran(2)] start assms(2) by simp
  qed (use start assms(2) in simp)
qed

lemma native_messages_length: "length (native_messages system status user h) = 3 + 2 * length (nh_entries h)"
  by (induction "nh_entries h" arbitrary: h rule: list.induct) (simp_all add: native_messages_def length_concat comp_def sum_list_triv)

text \<open>
  The history of a native run stays within its bounds: 64 entries and one megabyte, counted as what
  the entries really hold, so the messages of every request fit the fixed array of 131 that the loop
  declares for them, and no contract has more than the 64 names of its table.
\<close>

theorem native_history_bounded:
  assumes "native_run api envs cfg assemble c = Some (s', e)"
  shows "history_fits (ns_history s') \<and> length (native_messages system status user (ns_history s')) \<le> 131"
proof -
  let ?s = "\<lparr>ns_ctl = c, ns_history = \<lparr>nh_entries = [], nh_bytes = 0\<rparr>, ns_answer = None\<rparr>"
  have start: "history_fits (ns_history ?s)" by (simp add: history_fits_def)
  have "history_fits (ns_history s')"
  proof (cases "ag_phase (ct_agent c) = PHASE_ACTION \<and> assemble = None")
    case False
    then show ?thesis using assms start by (auto simp: native_run_def Let_def split: if_splits)
  next
    case True
    then have run: "native_loop api envs cfg 0 ?s = Some (s', e)" using assms by (simp add: native_run_def Let_def)
    show ?thesis by (rule native_loop_rule [where I = "\<lambda>s. history_fits (ns_history s)", OF run start])
      (rule native_pass_fits)
  qed
  then show ?thesis by (simp add: history_fits_def native_messages_length NATIVE_HISTORY_def)
qed

section \<open>A concrete run\<close>

definition sample_native :: native_env where
  "sample_native =
     \<lparr>nv_cancel = False, nv_expired = False, nv_late_cancel = False, nv_summary = (\<lambda>_. ''lists files''), nv_blobs = 0,
      nv_input = None, nv_reply = Ok (None, 3, [\<lparr>tc_id = ''1'', tc_name = ''asterism_finish'', tc_args = ''{}''\<rparr>]),
      nv_response_cap = 64, nv_validate = (\<lambda>_ _. None), nv_pass = (\<lambda>_. sample_pass (\<lambda>_. None))\<rparr>"

lemma sample_native_waits: "wait_ends (ce_gate (pe_call (nv_pass sample_native j)))"
  by (simp add: sample_native_def sample_wait)

lemma sample_native_returns:
  assumes "ag_phase (ct_agent c) = PHASE_ACTION"
  obtains s' e where "native_run api (\<lambda>i. sample_native) cfg None c = Some (s', e)"
proof -
  have "native_loop api (\<lambda>i. sample_native) cfg 0
      \<lparr>ns_ctl = c, ns_history = \<lparr>nh_entries = [], nh_bytes = 0\<rparr>, ns_answer = None\<rparr> \<noteq> None"
    by (rule native_loop_returns) (use assms sample_native_waits in simp_all)
  then show thesis using that assms by (auto simp: native_run_def Let_def)
qed

theorem native_terminates_witness:
  "\<exists>s' e. native_run plain_json (\<lambda>i. sample_native) sample_actions None sample_controller = Some (s', e) \<and>
    ct_steps (ns_ctl s') \<le> 1 \<and> ag_tool_calls (ct_agent (ns_ctl s')) \<le> 1"
proof -
  obtain s' e where r: "native_run plain_json (\<lambda>i. sample_native) sample_actions None sample_controller = Some (s', e)"
    "within_budget sample_actions sample_controller (ns_ctl s')"
    using native_terminates [where envs = "\<lambda>i. sample_native" and api = plain_json and cfg = sample_actions
        and c = sample_controller and assemble = None, OF sample_native_waits] by blast
  moreover have "ct_steps (ns_ctl s') \<le> 1 \<and> ag_tool_calls (ct_agent (ns_ctl s')) \<le> 1"
    using r(2) by (auto simp: within_budget_def sample_actions_def sample_controller_def sample_agent_def)
  ultimately show ?thesis by blast
qed

theorem native_run_only_reads_witness:
  "\<exists>s' e. native_run plain_json (\<lambda>i. sample_native) sample_actions None
      (sample_controller\<lparr>ct_agent := sample_agent\<lparr>ag_profile := CODING_READONLY\<rparr>\<rparr>) = Some (s', e) \<and>
    ag_invoked (ct_agent (ns_ctl s')) = []"
proof -
  let ?c = "sample_controller\<lparr>ct_agent := sample_agent\<lparr>ag_profile := CODING_READONLY\<rparr>\<rparr>"
  have "ag_phase (ct_agent ?c) = PHASE_ACTION" by (simp add: sample_agent_def)
  then obtain s' e where r: "native_run plain_json (\<lambda>i. sample_native) sample_actions None ?c = Some (s', e)"
    by (rule sample_native_returns)
  have "offers_from {sample_command} (nv_pass sample_native j)" for j
    by (simp add: offers_from_def sample_native_def sample_pass_def)
  from native_run_only_reads [OF r, of "{sample_command}"] this
  have "only_read {sample_command} (ct_agent ?c) (ct_agent (ns_ctl s'))" by (simp add: sample_agent_def)
  then have "ag_invoked (ct_agent (ns_ctl s')) = []"
    by (cases "ag_invoked (ct_agent (ns_ctl s'))") (auto simp: only_read_def sample_command_def sample_agent_def)
  with r show ?thesis by blast
qed

theorem native_history_bounded_witness:
  "\<exists>s' e. native_run plain_json (\<lambda>i. sample_native) sample_actions None sample_controller = Some (s', e) \<and>
    length (native_messages ''s'' ''t'' ''u'' (ns_history s')) \<le> 131"
proof -
  have "ag_phase (ct_agent sample_controller) = PHASE_ACTION" by (simp add: sample_controller_def sample_agent_def)
  then obtain s' e where r: "native_run plain_json (\<lambda>i. sample_native) sample_actions None sample_controller = Some (s', e)"
    by (rule sample_native_returns)
  with native_history_bounded [OF r] show ?thesis by blast
qed

definition sample_reader :: catalog_command where
  "sample_reader = sample_command\<lparr>cc_read_only := True\<rparr>"

definition sample_batch :: "tool_call list" where
  "sample_batch = [\<lparr>tc_id = ''1'', tc_name = native_name sample_reader, tc_args = ''{a}''\<rparr>,
     \<lparr>tc_id = ''2'', tc_name = native_name sample_reader, tc_args = ''{b}''\<rparr>]"

definition sample_plan :: action_config where
  "sample_plan = sample_actions\<lparr>ac_max_steps := 4\<rparr>"

theorem native_batch_only_reads_witness:
  "\<exists>contract sts. contract_build (\<lambda>_. []) sample_plan 0 (sample_agent\<lparr>ag_selection := [sample_reader]\<rparr>) True = Ok contract \<and>
    native_steps plain_json (\<lambda>_ _. None) 0 sample_plan 0 contract sample_batch = Ok sts \<and>
    list_all2 (batched_call (\<lambda>_ _. None) (sample_agent\<lparr>ag_selection := [sample_reader]\<rparr>)) sample_batch sts"
proof -
  let ?a = "sample_agent\<lparr>ag_selection := [sample_reader]\<rparr>"
  let ?contract = "native_tool (\<lambda>_. []) sample_reader # native_controls sample_plan 0 ?a"
  let ?sts = "[tool_step sample_reader ''{a}'', tool_step sample_reader ''{b}'']"
  have c: "contract_build (\<lambda>_. []) sample_plan 0 ?a True = Ok ?contract" by (simp add: contract_build_def)
  have s: "native_steps plain_json (\<lambda>_ _. None) 0 sample_plan 0 ?contract sample_batch = Ok ?sts"
    by (simp add: sample_plan_def native_steps_def sample_batch_def native_step_def native_tool_def sample_reader_def sample_command_def)
  from native_batch_only_reads [OF c s] c s show ?thesis by (simp add: sample_batch_def)
qed

end
