(* ===== verification/Answer.thy ===== *)
theory Answer
  imports Actions
begin

text \<open>
  The user-facing answer: the level of detail (\<^verbatim>\<open>src/detail.c\<close>), the judge's verdict
  (\<^verbatim>\<open>src/judge.c\<close>) and the response pass with its protocol gate, its output ceiling and the ladder of
  judged attempts (\<^verbatim>\<open>src/answer.c\<close>).  The models and the astools library answer through the
  environment; prompt texts are left out.
\<close>

section \<open>Level of detail\<close>

datatype detail_level = DETAIL_AUTO | DETAIL_TERSE | DETAIL_NORMAL | DETAIL_RICH

datatype route_class = CLASS_SIMPLE | CLASS_MODERATE | CLASS_COMPLEX

datatype judge_mode = JUDGE_OFF | JUDGE_LIGHT | JUDGE_FULL

record answer_config =
  aw_act :: action_config
  aw_terse :: int
  aw_normal :: int
  aw_rich :: int
  aw_default :: detail_level
  aw_judge :: judge_mode
  aw_threshold :: int
  aw_max_escalations :: int

fun detail_cap :: "answer_config \<Rightarrow> detail_level \<Rightarrow> int" where
  "detail_cap cfg DETAIL_TERSE = aw_terse cfg"
| "detail_cap cfg DETAIL_RICH = aw_rich cfg"
| "detail_cap cfg DETAIL_NORMAL = aw_normal cfg"
| "detail_cap cfg DETAIL_AUTO = aw_normal cfg"

fun detail_name :: "detail_level \<Rightarrow> string" where
  "detail_name DETAIL_TERSE = ''terse''"
| "detail_name DETAIL_NORMAL = ''normal''"
| "detail_name DETAIL_RICH = ''rich''"
| "detail_name DETAIL_AUTO = ''auto''"

fun detail_ci_strstr :: "string \<Rightarrow> string \<Rightarrow> bool" where
  "detail_ci_strstr [] needle = False"
| "detail_ci_strstr (c # s) needle =
     (map str_lower_char (take (length needle) (c # s)) = map str_lower_char needle \<or> detail_ci_strstr s needle)"

definition TERSE_CUES :: "string list" where "TERSE_CUES = [''briefly'', ''one line'', ''tl;dr'']"
definition RICH_CUES :: "string list" where "RICH_CUES = [''in detail'', ''thoroughly'', ''step by step'']"

definition detail_cue :: "string option \<Rightarrow> detail_level" where
  "detail_cue message =
     (case message of
        None \<Rightarrow> DETAIL_AUTO
      | Some m \<Rightarrow>
          if list_ex (detail_ci_strstr m) TERSE_CUES then DETAIL_TERSE
          else if list_ex (detail_ci_strstr m) RICH_CUES then DETAIL_RICH
          else DETAIL_AUTO)"

text \<open>The spend pressure is read against two thresholds only: the warning level and one.\<close>

definition detail_effective ::
    "answer_config \<Rightarrow> detail_level \<Rightarrow> detail_level \<Rightarrow> route_class \<Rightarrow> bool \<Rightarrow> bool \<Rightarrow> detail_level" where
  "detail_effective cfg user vote k warned full =
     (if user \<noteq> DETAIL_AUTO then user
      else
        let d = (if aw_default cfg \<noteq> DETAIL_AUTO then aw_default cfg else vote);
            d = (if d = DETAIL_AUTO then DETAIL_NORMAL else d)
        in if k = CLASS_SIMPLE \<and> warned
           then (if d = DETAIL_RICH then DETAIL_NORMAL else if d = DETAIL_NORMAL \<and> full then DETAIL_TERSE else d)
           else d)"

lemma detail_effective_concrete: "detail_effective cfg user vote k warned full \<noteq> DETAIL_AUTO"
  by (auto simp: detail_effective_def Let_def)

section \<open>The judge\<close>

definition JUDGE_EVIDENCE_MAX :: nat where "JUDGE_EVIDENCE_MAX = 32768"
definition JUDGE_ANSWER_MAX :: nat where "JUDGE_ANSWER_MAX = 49152"

primrec back_off :: "nat \<Rightarrow> string \<Rightarrow> nat" where
  "back_off 0 s = 0"
| "back_off (Suc n) s = (if utf8_cont (c_at s (Suc n)) then back_off n s else Suc n)"

definition append_capped :: "string \<Rightarrow> string \<Rightarrow> nat \<Rightarrow> string" where
  "append_capped b src cap =
     (if length src \<le> cap then b @ src
      else b @ take (back_off cap src) src @ [CHR 0xE2, CHR 0x80, CHR 0xA6])"

definition judge_request :: "string \<Rightarrow> string option \<Rightarrow> string \<Rightarrow> string" where
  "judge_request request evidence answer =
     (let b = ''Request:'' @ [NL] @ request @ [NL, NL] @ ''Evidence:'' @ [NL];
          b = (case evidence of
                 Some ev \<Rightarrow> if ev \<noteq> [] then append_capped b ev JUDGE_EVIDENCE_MAX else b @ ''(none)''
               | None \<Rightarrow> b @ ''(none)'')
      in append_capped (b @ [NL, NL] @ ''Answer:'' @ [NL]) answer JUDGE_ANSWER_MAX)"

definition blank :: "char \<Rightarrow> bool" where
  "blank c \<longleftrightarrow> c = SPACE \<or> c = TAB"

text \<open>The digits of the score and what follows them.\<close>

definition score_digits :: "string \<Rightarrow> (int \<times> string) option" where
  "score_digits p =
     (if take 2 p = ''10'' then Some (10, drop 2 p)
      else if p \<noteq> [] \<and> is_digit (hd p) then Some (int (byte (hd p)) - 48, tl p)
      else None)"

definition parse_score_line :: "string option \<Rightarrow> (int \<times> string) option" where
  "parse_score_line txt =
     (case txt of
        None \<Rightarrow> None
      | Some s \<Rightarrow>
          if take 6 s \<noteq> ''SCORE '' then None
          else (case score_digits (drop 6 s) of
              None \<Rightarrow> None
            | Some (n, p) \<Rightarrow>
                if p \<noteq> [] \<and> is_digit (hd p) then None
                else (case dropWhile blank p of
                    [] \<Rightarrow> None
                  | c # q \<Rightarrow>
                      if c \<noteq> CHR ''|'' then None
                      else Some (n, rev (dropWhile (\<lambda>c. blank c \<or> c = CHR 0x0D)
                             (rev (takeWhile (\<lambda>c. c \<noteq> NL) (dropWhile blank q))))))))"

record judge_env =
  jg_slot :: bool
  jg_expired :: bool
  jg_reply :: "string \<Rightarrow> (string option \<times> int) outcome"

text \<open>What a review adds to the auxiliary tokens, and its score with a critique or its error.\<close>

definition judge_run :: "judge_env \<Rightarrow> string \<Rightarrow> string option \<Rightarrow> string option \<Rightarrow> nat \<times> (int \<times> string option) outcome" where
  "judge_run env request evidence answer =
     (case answer of
        None \<Rightarrow> (0, Err ERR_INVALID)
      | Some a \<Rightarrow>
          if \<not> jg_slot env then (0, Err ERR_MODEL)
          else if jg_expired env then (0, Err ERR_TIMEOUT)
          else (case jg_reply env (judge_request request evidence a) of
              Err e \<Rightarrow> (0, Err e)
            | Ok (txt, spent) \<Rightarrow>
                (nat spent,
                 case parse_score_line txt of
                   None \<Rightarrow> Err ERR_PROTOCOL
                 | Some (n, crit) \<Rightarrow> Ok (n, if crit = [] then None else Some crit))))"

section \<open>The protocol gate\<close>

definition call_char :: "char \<Rightarrow> bool" where
  "call_char c \<longleftrightarrow> is_lower c \<or> is_upper c \<or> is_digit c \<or> c = CHR ''_'' \<or> c = CHR ''-'' \<or> c = CHR ''@'' \<or> c = CHR ''.''"

definition call_opens :: "char option \<Rightarrow> bool" where
  "call_opens prev \<longleftrightarrow>
     (case prev of
        None \<Rightarrow> True
      | Some c \<Rightarrow> c = SPACE \<or> c = TAB \<or> c = NL \<or> c = CHR 0x0D \<or> c = CHR 0x60 \<or> c = CHR '':'' \<or> c = CHR ''('')"

definition call_shape :: "(string \<Rightarrow> string \<Rightarrow> bool) \<Rightarrow> string \<Rightarrow> bool" where
  "call_shape known p =
     (let name = takeWhile call_char p; q = dropWhile blank (dropWhile call_char p) in
      case last_dot name of
        None \<Rightarrow> False
      | Some d \<Rightarrow>
          let ref = take d name; cmd = drop (Suc d) name in
          q \<noteq> [] \<and> hd q = CHR ''{'' \<and> ref \<noteq> [] \<and> cmd \<noteq> [] \<and> length ref < 64 \<and> length cmd < 64 \<and> known ref cmd)"

fun call_scan :: "(string \<Rightarrow> string \<Rightarrow> bool) \<Rightarrow> char option \<Rightarrow> string \<Rightarrow> bool" where
  "call_scan known prev [] = False"
| "call_scan known prev (c # s) = (call_opens prev \<and> call_shape known (c # s) \<or> call_scan known (Some c) s)"

record answer_env =
  ae_pass :: pass_env
  ae_cancel :: bool
  ae_expired :: bool
  ae_tools :: bool
  ae_parse :: "string \<Rightarrow> bool"
  ae_known :: "string \<Rightarrow> string \<Rightarrow> bool"
  ae_up :: "int \<Rightarrow> int"

definition response_has_tool_protocol :: "answer_env \<Rightarrow> string option \<Rightarrow> bool" where
  "response_has_tool_protocol env answer =
     (case answer of
        None \<Rightarrow> False
      | Some s \<Rightarrow>
          s \<noteq> [] \<and>
          (c_strstr s (''{action: '' @ [CHR 0x22] @ ''call'' @ [CHR 0x22]) \<noteq> None \<or>
           c_strstr s (''{action:'' @ [CHR 0x22] @ ''call'' @ [CHR 0x22]) \<noteq> None \<or>
           c_strstr s ''CALL '' \<noteq> None \<or>
           ae_tools env \<and> (ae_parse env s \<or> call_scan (ae_known env) None s)))"

section \<open>One response\<close>

text \<open>The prompt tells the model its real ceiling, so it is built again until the ceiling it announces
  is one the context has room for.\<close>

record once_env =
  oe_prompt :: "int \<Rightarrow> int outcome"
  oe_window :: int
  oe_margin :: int
  oe_validate :: "asngn_err option"
  oe_reply :: "int \<Rightarrow> (string option \<times> int) outcome"

definition physical_cap :: "once_env \<Rightarrow> int \<Rightarrow> int" where
  "physical_cap env tokens = (if 0 < oe_window env then oe_window env else 32768) - max 0 tokens - oe_margin env"

function answer_ceiling :: "once_env \<Rightarrow> int \<Rightarrow> int outcome" where
  "answer_ceiling env cap =
     (case oe_prompt env cap of
        Err e \<Rightarrow> Err e
      | Ok tokens \<Rightarrow>
          let room = physical_cap env tokens in
          if room < 1 then Err ERR_CONTEXT else if cap \<le> room then Ok cap else answer_ceiling env room)"
  by pat_completeness auto
termination by (relation "measure (\<lambda>(env, cap). nat cap)") auto

declare answer_ceiling.simps [simp del]

definition answer_once :: "once_env \<Rightarrow> turn_phase \<Rightarrow> int \<Rightarrow> (string option \<times> int \<times> int) outcome" where
  "answer_once env phase cap0 =
     (if phase \<noteq> PHASE_RESPONSE then Err ERR_PROTOCOL
      else case answer_ceiling env cap0 of
        Err e \<Rightarrow> Err e
      | Ok cap \<Rightarrow>
          if oe_validate env \<noteq> None then Err (the (oe_validate env))
          else (case oe_reply env cap of Err e \<Rightarrow> Err e | Ok (out, tokens) \<Rightarrow> Ok (out, tokens, cap)))"

section \<open>The response pass\<close>

record turn_run =
  rn_ctl :: controller
  rn_native :: "(string \<times> int \<times> int) option"
  rn_detail :: detail_level
  rn_class :: route_class
  rn_slot :: int
  rn_escalations :: nat
  rn_capped :: bool

abbreviation rn_agent :: "turn_run \<Rightarrow> agent" where
  "rn_agent r \<equiv> ct_agent (rn_ctl r)"

abbreviation rn_turn :: "turn_run \<Rightarrow> turn_state" where
  "rn_turn r \<equiv> ag_turn (rn_agent r)"

definition on_agent :: "(agent \<Rightarrow> agent) \<Rightarrow> turn_run \<Rightarrow> turn_run" where
  "on_agent f r = r\<lparr>rn_ctl := (rn_ctl r)\<lparr>ct_agent := f (rn_agent r)\<rparr>\<rparr>"

definition on_turn :: "(turn_state \<Rightarrow> turn_state) \<Rightarrow> turn_run \<Rightarrow> turn_run" where
  "on_turn f = on_agent (\<lambda>a. a\<lparr>ag_turn := f (ag_turn a)\<rparr>)"

definition on_ledger :: "(ledger_entry \<Rightarrow> ledger_entry) \<Rightarrow> turn_run \<Rightarrow> turn_run" where
  "on_ledger f = on_turn (\<lambda>t. t\<lparr>ts_led := f (ts_led t)\<rparr>)"

definition PROTOCOL_NOTICE :: string where
  "PROTOCOL_NOTICE =
     ''[notice] response protocol violation: write only the user-facing message; never print tool syntax''"

definition critique_note :: "int \<Rightarrow> string option \<Rightarrow> string" where
  "critique_note score critique =
     ''judge critique (score '' @ decimal (nat score) @ ''/10): '' @ (case critique of Some c \<Rightarrow> c | None \<Rightarrow> ''(none)'')"

text \<open>A proposal of the native protocol may serve as the first attempt.\<close>

definition native_eligible :: "answer_env \<Rightarrow> action_config \<Rightarrow> turn_run \<Rightarrow> turn_run \<times> bool" where
  "native_eligible env cfg r =
     (let a = rn_agent r; t = ag_turn a in
      if ae_cancel env \<or> ts_continuation t \<or> ct_forced (rn_ctl r) \<or> ag_blocked a \<or> ae_expired env \<or> needs_artifact cfg a
      then (r, False)
      else if \<not> ts_written t then (r, True)
      else if \<not> ts_attempted t then (r, False)
      else case Turn_Journal.verification_current (pe_fresh (ae_pass env)) (ag_session a) t of
        (t', ok) \<Rightarrow> (on_turn (\<lambda>_. t') r, ok))"

definition judge_wanted :: "answer_config \<Rightarrow> turn_run \<Rightarrow> bool" where
  "judge_wanted cfg r \<longleftrightarrow>
     \<not> ct_clarify (rn_ctl r) \<and>
     (case aw_judge cfg of
        JUDGE_OFF \<Rightarrow> False
      | JUDGE_LIGHT \<Rightarrow> rn_class r \<noteq> CLASS_SIMPLE
      | JUDGE_FULL \<Rightarrow> True)"

definition evidence_of :: "agent \<Rightarrow> string option" where
  "evidence_of a = (if ag_notes a = [] then None else Some (concat (map (\<lambda>n. n @ [NL]) (ag_notes a))))"

text \<open>A finished response is handed over.\<close>

definition ship :: "turn_run \<Rightarrow> string option \<Rightarrow> turn_run \<times> asngn_err option" where
  "ship r answer = (on_turn (\<lambda>t. t\<lparr>ts_answer := Some (case answer of Some s \<Rightarrow> s | None \<Rightarrow> [])\<rparr>) r, None)"

text \<open>One attempt's text: charged unless it was prepaid, cut at a sentence when it filled its ceiling.\<close>

definition charge :: "bool \<Rightarrow> int \<Rightarrow> turn_run \<Rightarrow> turn_run" where
  "charge prepaid tokens r =
     (if prepaid then r else on_ledger (\<lambda>l. l\<lparr>le_answer := le_answer l + nat tokens\<rparr>) r)"

definition trim_capped :: "int \<Rightarrow> int \<Rightarrow> string option \<Rightarrow> turn_run \<Rightarrow> turn_run \<times> string option" where
  "trim_capped tokens cap answer r =
     (case answer of
        Some s \<Rightarrow> if cap \<le> tokens then (r\<lparr>rn_capped := True\<rparr>, Some (take (asngn_sentence_trim s) s)) else (r, Some s)
      | None \<Rightarrow> (r, None))"

text \<open>The review of an attempt: its verdict on the ledger, and its score.\<close>

definition review :: "judge_env \<Rightarrow> string option \<Rightarrow> turn_run \<Rightarrow> nat \<Rightarrow> turn_run \<times> nat \<times> (int \<times> string option) option" where
  "review env answer r aux =
     (case judge_run env (ts_user (rn_turn r)) (evidence_of (rn_agent r)) answer of
        (spent, Err e) \<Rightarrow> (r, aux + spent, None)
      | (spent, Ok (score, critique)) \<Rightarrow>
          (on_ledger (\<lambda>l. l\<lparr>le_judge := Some (score, - 1)\<rparr>) r, aux + spent, Some (score, critique)))"

definition escalate :: "answer_env \<Rightarrow> answer_config \<Rightarrow> turn_run \<Rightarrow> turn_run option" where
  "escalate env cfg r =
     (let up = ae_up env (rn_slot r) in
      if 0 \<le> up \<and> int (rn_escalations r) < aw_max_escalations cfg
      then Some (r\<lparr>rn_slot := up, rn_escalations := Suc (rn_escalations r)\<rparr>) else None)"

text \<open>The attempts that are left, with the answer of a prepaid first one and the best attempt so far.
  The second failed review needs a higher tier, the third attempt is the last.\<close>

fun answer_tries ::
    "answer_env \<Rightarrow> (nat \<Rightarrow> once_env) \<Rightarrow> (nat \<Rightarrow> judge_env) \<Rightarrow> answer_config \<Rightarrow> bool \<Rightarrow> nat \<Rightarrow>
     (string option \<times> int) option \<Rightarrow> int \<Rightarrow> (string option \<times> int) \<Rightarrow> nat \<Rightarrow> turn_run \<Rightarrow> turn_run \<times> nat \<times> asngn_err option" where
  "answer_tries env once judges cfg judging 0 prepaid cap best aux r = (case ship r None of (r', e) \<Rightarrow> (r', aux, e))"
| "answer_tries env once judges cfg judging (Suc n) prepaid cap0 best aux r =
     (case (case prepaid of
              Some (s, tokens) \<Rightarrow> Ok (s, tokens, cap0)
            | None \<Rightarrow> answer_once (once n) (ag_phase (rn_agent r)) (detail_cap cfg (rn_detail r))) of
        Err e \<Rightarrow> (r, aux, Some e)
      | Ok (out, tokens, cap) \<Rightarrow>
          (case trim_capped tokens cap out (charge (prepaid \<noteq> None) tokens r) of (r1, answer) \<Rightarrow>
             if response_has_tool_protocol env answer then
               (if n = 0 then (r1\<lparr>rn_capped := False\<rparr>, aux, Some ERR_PROTOCOL)
                else answer_tries env once judges cfg judging n None cap best aux
                  (on_agent (\<lambda>a. push_note (ae_pass env) a PROTOCOL_NOTICE) (r1\<lparr>rn_capped := False\<rparr>)))
             else if \<not> judging then (case ship r1 answer of (r', e) \<Rightarrow> (r', aux, e))
             else (case review (judges n) answer r1 aux of
                 (r2, aux', None) \<Rightarrow> (case ship r2 answer of (r', e) \<Rightarrow> (r', aux', e))
               | (r2, aux', Some (score, critique)) \<Rightarrow>
                   let best' = (if snd best < score then (answer, score) else best) in
                   if aw_threshold cfg \<le> score then (case ship r2 answer of (r', e) \<Rightarrow> (r', aux', e))
                   else
                     (let r3 = on_agent (\<lambda>a. push_note (ae_pass env) a (critique_note score critique)) r2 in
                      case (if n = 1 then escalate env cfg r3 else if n = 0 then None else Some r3) of
                        None \<Rightarrow> (case ship r3 (fst best') of (r', e) \<Rightarrow> (r', aux', e))
                      | Some r4 \<Rightarrow> answer_tries env once judges cfg judging n None cap best' aux' (r4\<lparr>rn_capped := False\<rparr>)))))"

definition answer_run ::
    "answer_env \<Rightarrow> (nat \<Rightarrow> once_env) \<Rightarrow> (nat \<Rightarrow> judge_env) \<Rightarrow> answer_config \<Rightarrow> turn_run \<Rightarrow> turn_run \<times> nat \<times> asngn_err option" where
  "answer_run env once judges cfg r =
     (if ag_phase (rn_agent r) \<noteq> PHASE_RESPONSE then (r, 0, Some ERR_PROTOCOL)
      else case rn_native r of
        None \<Rightarrow> answer_tries env once judges cfg (judge_wanted cfg r) 3 None (detail_cap cfg (rn_detail r)) (None, - 1) 0 r
      | Some (s, tokens, cap) \<Rightarrow>
          (case native_eligible env (aw_act cfg) (r\<lparr>rn_native := None\<rparr>) of (r1, ok) \<Rightarrow>
             if ok then answer_tries env once judges cfg (judge_wanted cfg r1) 3 (Some (Some s, tokens)) cap (None, - 1) 0 r1
             else answer_tries env once judges cfg (judge_wanted cfg r1) 3 None (detail_cap cfg (rn_detail r1)) (None, - 1) 0 r1))"

section \<open>What the response pass leaves alone\<close>

text \<open>The action phase is over: the response pass changes nothing a tool call answers for.\<close>

lemma on_agent_simps [simp]:
  "rn_agent (on_agent f r) = f (rn_agent r)" "rn_native (on_agent f r) = rn_native r" "rn_detail (on_agent f r) = rn_detail r"
  "rn_class (on_agent f r) = rn_class r" "rn_slot (on_agent f r) = rn_slot r"
  "rn_escalations (on_agent f r) = rn_escalations r" "rn_capped (on_agent f r) = rn_capped r"
  by (simp_all add: on_agent_def)

definition settled :: "turn_run \<Rightarrow> turn_run \<Rightarrow> bool" where
  "settled r r' \<longleftrightarrow> grounded (rn_agent r') = grounded (rn_agent r) \<and> ag_work (rn_agent r') = ag_work (rn_agent r) \<and>
     rn_escalations r' = rn_escalations r"

lemma settled_refl [simp]: "settled r r"
  by (simp add: settled_def)

lemma settled_trans: "settled r r' \<Longrightarrow> settled r' r'' \<Longrightarrow> settled r r''"
  by (simp add: settled_def)

lemma settled_capped [simp]: "settled r (r'\<lparr>rn_capped := b\<rparr>) = settled r r'"
  by (simp add: settled_def)

lemma charge_settled [simp]: "settled r (charge prepaid tokens r)"
  by (simp add: charge_def on_ledger_def on_turn_def settled_def grounded_def)

lemma ship_settled: "ship r answer = (r', e) \<Longrightarrow> settled r r'"
  by (auto simp: ship_def on_turn_def settled_def grounded_def)

lemma pushed_settled [simp]: "settled r (on_agent (\<lambda>a. push_note env a tx) r)"
  by (simp add: settled_def) (simp add: push_note_def work_push_def split: option.split)

lemma trimmed_settled: "trim_capped tokens cap out r = (r', answer) \<Longrightarrow> settled r r'"
  by (auto simp: trim_capped_def settled_def split: option.splits if_splits)

lemma reviewed_settled: "review env answer r aux = (r', aux', v) \<Longrightarrow> settled r r'"
  by (auto simp: review_def on_ledger_def on_turn_def settled_def grounded_def split: prod.splits sum.splits)

definition gated :: "answer_env \<Rightarrow> string option \<Rightarrow> bool" where
  "gated env answer \<longleftrightarrow> \<not> response_has_tool_protocol env answer"

lemma gated_none [simp]: "gated env None" "gated env (Some [])"
  by (simp_all add: gated_def response_has_tool_protocol_def)

text \<open>An attempt climbs a tier after the second failed review only, and then at most one.\<close>

definition climbed :: "answer_config \<Rightarrow> nat \<Rightarrow> turn_run \<Rightarrow> turn_run \<Rightarrow> bool" where
  "climbed cfg n r r' \<longleftrightarrow> settled r r' \<or>
     n = 1 \<and> settled (r\<lparr>rn_escalations := Suc (rn_escalations r)\<rparr>) r' \<and> int (rn_escalations r') \<le> aw_max_escalations cfg"

lemma escalated_climbed: "escalate env cfg r1 = Some r' \<Longrightarrow> settled r r1 \<Longrightarrow> climbed cfg 1 r r'"
  by (auto simp: escalate_def climbed_def settled_def Let_def split: if_splits)

lemma climbed_capped [simp]: "climbed cfg n r (r'\<lparr>rn_capped := b\<rparr>) = climbed cfg n r r'"
  by (simp add: climbed_def)

lemma answer_tries_cases:
  assumes run: "answer_tries env once judges cfg judging (Suc n) prepaid cap best aux r = (r', aux', e)" and best: "gated env (fst best)"
  obtains (failed) "settled r r'" "e \<noteq> None"
  | (shipped) r1 answer where "settled r r1" "gated env answer" "ship r1 answer = (r', e)"
  | (again) r1 best1 aux1 cap1 where "climbed cfg n r r1" "gated env (fst best1)"
      "answer_tries env once judges cfg judging n None cap1 best1 aux1 r1 = (r', aux', e)"
proof -
  let ?first = "case prepaid of Some (s, tokens) \<Rightarrow> Ok (s, tokens, cap)
    | None \<Rightarrow> answer_once (once n) (ag_phase (rn_agent r)) (detail_cap cfg (rn_detail r))"
  show thesis
  proof (cases ?first)
    case (Inl err)
    then have "r' = r" "e = Some err" using run by auto
    then show thesis using failed by simp
  next
    case (Inr first)
    obtain out tokens cap1 where got: "?first = Ok (out, tokens, cap1)" using Inr by (cases first) auto
    obtain r1 answer where r1: "trim_capped tokens cap1 out (charge (prepaid \<noteq> None) tokens r) = (r1, answer)" by fastforce
    have s1: "settled r r1" by (rule settled_trans [OF charge_settled trimmed_settled [OF r1]])
    note run1 = run [unfolded answer_tries.simps got sum.case prod.case r1]
    show thesis
    proof (cases "response_has_tool_protocol env answer")
      case True
      let ?r = "on_agent (\<lambda>a. push_note (ae_pass env) a PROTOCOL_NOTICE) (r1\<lparr>rn_capped := False\<rparr>)"
      have "settled r ?r" by (rule settled_trans [OF _ pushed_settled]) (simp add: s1)
      then show thesis using run1 True again [of ?r best cap1 aux] failed s1 best
        by (cases "n = 0") (auto simp: climbed_def)
    next
      case False
      then have ok: "gated env answer" by (simp add: gated_def)
      obtain r2 aux2 v where r2: "review (judges n) answer r1 aux = (r2, aux2, v)" by (metis prod_cases3)
      have s2: "settled r r2" by (rule settled_trans [OF s1 reviewed_settled [OF r2]])
      show thesis
      proof (cases "judging \<and> (\<exists>score critique. v = Some (score, critique) \<and> score < aw_threshold cfg)")
        case False
        then have "(\<exists>a1. ship r1 answer = (r', e) \<and> a1 = aux') \<or> ship r2 answer = (r', e)"
          using run1 \<open>\<not> response_has_tool_protocol env answer\<close> r2
          by (cases v) (auto simp: Let_def split: prod.splits if_splits)
        then show thesis using shipped s1 s2 ok by blast
      next
        case True
        then obtain score critique where v: "judging" "v = Some (score, critique)" "score < aw_threshold cfg" by blast
        define best1 where "best1 = (if snd best < score then (answer, score) else best)"
        define r3 where "r3 = on_agent (\<lambda>a. push_note (ae_pass env) a (critique_note score critique)) r2"
        have s3: "settled r r3" unfolding r3_def by (rule settled_trans [OF s2 pushed_settled])
        have b1: "gated env (fst best1)" using ok best by (simp add: best1_def)
        let ?next = "if n = 1 then escalate env cfg r3 else if n = 0 then None else Some r3"
        have run2: "(case ?next of None \<Rightarrow> (case ship r3 (fst best1) of (r', e) \<Rightarrow> (r', aux2, e))
            | Some r4 \<Rightarrow> answer_tries env once judges cfg judging n None cap1 best1 aux2 (r4\<lparr>rn_capped := False\<rparr>)) = (r', aux', e)"
          using run1 \<open>\<not> response_has_tool_protocol env answer\<close> v(1) linorder_not_le [THEN iffD2, OF v(3)]
          by (simp only: r2 v(2) prod.case option.case Let_def best1_def r3_def if_True if_False not_True_eq_False)
        show thesis
        proof (cases ?next)
          case None
          then have "ship r3 (fst best1) = (r', e)" using run2 by (auto split: prod.splits)
          then show thesis using shipped s3 b1 by blast
        next
          case (Some r4)
          have "climbed cfg n r r4" using Some s3 escalated_climbed [of env cfg r3 r4 r]
            by (auto simp: climbed_def split: if_splits)
          then show thesis using run2 Some again [of "r4\<lparr>rn_capped := False\<rparr>" best1 cap1 aux2] b1 by simp
        qed
      qed
    qed
  qed
qed

lemma settled_climbed: "settled r r' \<Longrightarrow> climbed cfg n r r'"
  by (simp add: climbed_def)

lemma answer_tries_gated:
  assumes "answer_tries env once judges cfg judging n prepaid cap best aux r = (r', aux', e)" "gated env (fst best)"
  shows "grounded (rn_agent r') = grounded (rn_agent r) \<and> ag_work (rn_agent r') = ag_work (rn_agent r) \<and>
    (e = None \<longrightarrow> ts_answer (rn_turn r') \<noteq> None \<and> gated env (ts_answer (rn_turn r'))) \<and>
    (rn_escalations r' = rn_escalations r \<or>
     2 \<le> n \<and> rn_escalations r' = Suc (rn_escalations r) \<and> int (rn_escalations r') \<le> aw_max_escalations cfg)"
  using assms
proof (induction n arbitrary: prepaid cap best aux r)
  case 0
  then show ?case using ship_settled [of r None r' e]
    by (auto simp: ship_def on_turn_def settled_def split: prod.splits)
next
  case (Suc n)
  from Suc.prems show ?case
  proof (cases rule: answer_tries_cases)
    case failed
    then show ?thesis by (auto simp: settled_def)
  next
    case (shipped r1 answer)
    have "settled r r'" by (rule settled_trans [OF shipped(1) ship_settled [OF shipped(3)]])
    moreover have "ts_answer (rn_turn r') \<noteq> None \<and> gated env (ts_answer (rn_turn r'))"
      using shipped(2,3) by (cases answer) (auto simp: ship_def on_turn_def)
    ultimately show ?thesis by (simp add: settled_def)
  next
    case (again r1 best1 aux1 cap1)
    from Suc.IH [OF again(3,2)] again(1) show ?thesis by (auto simp: climbed_def settled_def)
  qed
qed

text \<open>
  C18. Whatever the models say, the answer of a turn that is shown never contains a tool call: it has
  passed the protocol gate, also when it is the best of several rejected attempts or the prepaid text of
  the native protocol.  The pass climbs at most one tier, within the configured limit, and touches
  neither the session nor the contract of the turn.
\<close>

theorem answer_shown_is_gated:
  assumes "answer_run env once judges cfg r = (r', aux, None)"
  shows "(\<exists>s. ts_answer (rn_turn r') = Some s \<and> \<not> response_has_tool_protocol env (Some s)) \<and>
    grounded (rn_agent r') = grounded (rn_agent r) \<and> ag_work (rn_agent r') = ag_work (rn_agent r) \<and>
    (rn_escalations r' = rn_escalations r \<or>
     rn_escalations r' = Suc (rn_escalations r) \<and> int (rn_escalations r') \<le> aw_max_escalations cfg)"
proof -
  have "settled r r1" if "native_eligible env cfg' (r\<lparr>rn_native := None\<rparr>) = (r1, ok)" for cfg' r1 ok
    using that by (auto simp: native_eligible_def Let_def on_turn_def settled_def grounded_def
        Turn_Journal.verification_current_def split: prod.splits if_splits)
  moreover have "\<exists>judging prepaid cap r1. (r1 = r \<or> (\<exists>ok. native_eligible env (aw_act cfg) (r\<lparr>rn_native := None\<rparr>) = (r1, ok))) \<and>
      answer_tries env once judges cfg judging 3 prepaid cap (None, - 1) 0 r1 = (r', aux, None)"
    using assms by (auto simp: answer_run_def split: if_splits option.splits prod.splits)
  ultimately obtain judging prepaid cap r1 where r1: "settled r r1"
      "answer_tries env once judges cfg judging 3 prepaid cap (None, - 1) 0 r1 = (r', aux, None)"
    using settled_refl by blast
  have "gated env (fst (None, - 1 :: int))" by simp
  note out = answer_tries_gated [OF r1(2) this]
  then obtain s where "ts_answer (rn_turn r') = Some s" "\<not> response_has_tool_protocol env (Some s)"
    by (auto simp: gated_def)
  with out r1(1) show ?thesis by (auto simp: settled_def)
qed

section \<open>The announced ceiling\<close>

text \<open>
  C19. The output ceiling the prompt announces is real: building the prompt again for every smaller
  ceiling comes to an end, and the ceiling it ends with is at least one token, at most the configured
  one, and fits the context window beside the very prompt that announces it and the safety margin.
\<close>

theorem answer_ceiling_fits:
  assumes "answer_ceiling env cap = Ok cap'" "1 \<le> cap"
  shows "1 \<le> cap' \<and> cap' \<le> cap \<and> (\<exists>tokens. oe_prompt env cap' = Ok tokens \<and> cap' \<le> physical_cap env tokens)"
  using assms
proof (induction env cap rule: answer_ceiling.induct)
  case (1 env cap)
  obtain tokens where t: "oe_prompt env cap = Ok tokens"
    using 1(2) by (subst (asm) answer_ceiling.simps) (auto split: sum.splits)
  show ?case
  proof (cases "cap \<le> physical_cap env tokens")
    case True
    then show ?thesis using 1(2,3) t by (subst (asm) answer_ceiling.simps) (auto simp: Let_def split: if_splits)
  next
    case False
    then have room: "1 \<le> physical_cap env tokens" "answer_ceiling env (physical_cap env tokens) = Ok cap'"
      using 1(2) t by (subst (asm) answer_ceiling.simps; auto simp: Let_def split: if_splits)+
    have "1 \<le> cap' \<and> cap' \<le> physical_cap env tokens \<and> (\<exists>tokens. oe_prompt env cap' = Ok tokens \<and> cap' \<le> physical_cap env tokens)"
      by (rule 1(1) [OF t refl _ False room(2,1)]) (use room(1) in simp)
    then show ?thesis using False by (auto intro: order_trans)
  qed
qed

section \<open>The judge's line\<close>

text \<open>A verdict is read back as it is meant, and a score is never out of its range.\<close>

lemma score_digits_range: "score_digits p = Some (n, q) \<Longrightarrow> 0 \<le> n \<and> n \<le> 10"
  by (auto simp: score_digits_def is_digit_def byte_in_def split: if_splits)

lemma parse_score_range: "parse_score_line txt = Some (n, crit) \<Longrightarrow> 0 \<le> n \<and> n \<le> 10"
  using score_digits_range
  by (fastforce simp: parse_score_line_def split: option.splits if_splits list.splits)

lemma parse_score_reads:
  assumes "w \<noteq> []" "list_all (\<lambda>c. \<not> blank c \<and> c \<noteq> NL \<and> c \<noteq> CHR 0x0D) w" "n \<le> 10"
  shows "parse_score_line (Some (''SCORE '' @ decimal n @ [SPACE, CHR ''|'', SPACE] @ w @ [NL])) = Some (int n, w)"
proof -
  let ?rest = "[SPACE, CHR ''|'', SPACE] @ w @ [NL]"
  obtain c u where first: "w = c # u" using assms(1) by (cases w) auto
  obtain v d where final: "w = v @ [d]" using assms(1) by (cases w rule: rev_cases) auto
  have w: "dropWhile blank (w @ [NL]) = w @ [NL]" "rev (dropWhile (\<lambda>c. blank c \<or> c = CHR 0x0D) (rev w)) = w"
    using assms(2) by (simp add: first) (use assms(2) in \<open>simp add: final\<close>)
  have "takeWhile (\<lambda>c. c \<noteq> NL) (w @ [NL]) = w" using assms(2) by (simp add: list_all_iff takeWhile_append)
  note w = w this
  have digits: "score_digits (decimal n @ ?rest) = Some (int n, ?rest)"
  proof (cases "n = 10")
    case True
    moreover have "decimal 10 = ''10''" by code_simp
    ultimately show ?thesis by (simp add: score_digits_def)
  next
    case False
    then have n: "n < 10" using assms(3) by simp
    then show ?thesis by (auto simp: score_digits_def decimal.simps [of n]) (simp add: digit_char_def)
  qed
  show ?thesis
    using w digits by (simp add: parse_score_line_def) (simp add: blank_def is_digit_def byte_in_def)
qed

section \<open>A concrete ladder\<close>

text \<open>The first attempt fills its ceiling, is cut at its sentence and scored five; the second is short
  and scored three; no higher tier is left.\<close>

definition ladder_env :: answer_env where
  "ladder_env = \<lparr>ae_pass = sample_pass (\<lambda>_. None), ae_cancel = False, ae_expired = False, ae_tools = True,
     ae_parse = (\<lambda>_. False), ae_known = (\<lambda>_ _. True), ae_up = (\<lambda>_. - 1)\<rparr>"

definition ladder_once :: "nat \<Rightarrow> once_env" where
  "ladder_once n = \<lparr>oe_prompt = (\<lambda>cap. Ok (cap + 10)), oe_window = 100, oe_margin = 8, oe_validate = None,
     oe_reply = (\<lambda>cap. Ok (if n = 2 then (Some ''One. Two'', cap) else (Some ''No.'', 1)))\<rparr>"

definition ladder_judge :: "nat \<Rightarrow> judge_env" where
  "ladder_judge n = \<lparr>jg_slot = True, jg_expired = False,
     jg_reply = (\<lambda>_. Ok (Some (if n = 2 then ''SCORE 5 | partly'' else ''SCORE 3 | worse''), 4))\<rparr>"

definition ladder_config :: answer_config where
  "ladder_config = \<lparr>aw_act = sample_actions, aw_terse = 16, aw_normal = 64, aw_rich = 256, aw_default = DETAIL_AUTO,
     aw_judge = JUDGE_FULL, aw_threshold = 6, aw_max_escalations = 2\<rparr>"

definition ladder_run :: turn_run where
  "ladder_run = \<lparr>rn_ctl = sample_controller\<lparr>ct_agent := sample_agent\<lparr>ag_phase := PHASE_RESPONSE\<rparr>\<rparr>, rn_native = None,
     rn_detail = DETAIL_NORMAL, rn_class = CLASS_COMPLEX, rn_slot = 0, rn_escalations = 0, rn_capped = False\<rparr>"

lemma ladder_ceiling: "answer_ceiling (ladder_once n) 64 = Ok 18"
  by code_simp

lemma ladder_texts:
  "\<not> response_has_tool_protocol ladder_env (Some ''One.'')" "\<not> response_has_tool_protocol ladder_env (Some ''No.'')"
  "asngn_sentence_trim ''One. Two'' = 4"
  "parse_score_line (Some ''SCORE 5 | partly'') = Some (5, ''partly'')"
  "parse_score_line (Some ''SCORE 3 | worse'') = Some (3, ''worse'')"
  by code_simp+

lemma ladder_attempts:
  "answer_once (ladder_once (Suc (Suc 0))) PHASE_RESPONSE 64 = Ok (Some ''One. Two'', 18, 18)"
  "answer_once (ladder_once (Suc 0)) PHASE_RESPONSE 64 = Ok (Some ''No.'', 1, 18)"
  by (simp_all add: answer_once_def ladder_ceiling) (simp_all add: ladder_once_def)

lemma ladder_reviews:
  "judge_run (ladder_judge (Suc (Suc 0))) request evidence (Some a) = (4, Ok (5, Some ''partly''))"
  "judge_run (ladder_judge (Suc 0)) request evidence (Some a) = (4, Ok (3, Some ''worse''))"
  by (simp_all add: judge_run_def ladder_judge_def ladder_texts)

lemma ladder_ships:
  "\<exists>r'. answer_run ladder_env ladder_once ladder_judge ladder_config ladder_run = (r', 8, None) \<and>
    ts_answer (rn_turn r') = Some ''One.'' \<and> \<not> rn_capped r'"
proof -
  have fields: "rn_native ladder_run = None" "rn_detail ladder_run = DETAIL_NORMAL" "ag_phase (rn_agent ladder_run) = PHASE_RESPONSE"
    "rn_slot ladder_run = 0" "rn_capped ladder_run = False" "\<not> ct_clarify (rn_ctl ladder_run)"
    "aw_normal ladder_config = 64" "aw_judge ladder_config = JUDGE_FULL" "aw_threshold ladder_config = 6"
    "ae_up ladder_env = (\<lambda>_. - 1)"
    by (simp_all add: ladder_run_def ladder_config_def ladder_env_def sample_controller_def)
  have kept: "ag_phase (push_note env a tx) = ag_phase a" for env a tx
    using push_note_grounded [of env a tx] by (simp add: grounded_def)
  have wanted: "judge_wanted ladder_config ladder_run" by (simp add: judge_wanted_def fields)
  show ?thesis
    by (simp add: answer_run_def fields wanted numeral_3_eq_3 ladder_attempts trim_capped_def charge_def ladder_texts review_def
        ladder_reviews on_ledger_def on_turn_def kept Let_def escalate_def ship_def)
qed

theorem answer_shown_is_gated_witness:
  "\<exists>r' s. answer_run ladder_env ladder_once ladder_judge ladder_config ladder_run = (r', 8, None) \<and>
    ts_answer (rn_turn r') = Some s \<and> \<not> response_has_tool_protocol ladder_env (Some s) \<and>
    response_has_tool_protocol ladder_env (Some ''try fs.read {}'')"
proof -
  obtain r' where run: "answer_run ladder_env ladder_once ladder_judge ladder_config ladder_run = (r', 8, None)"
    using ladder_ships by blast
  have "response_has_tool_protocol ladder_env (Some ''try fs.read {}'')" by code_simp
  with run answer_shown_is_gated [OF run] show ?thesis by blast
qed

theorem answer_ceiling_fits_witness:
  "answer_ceiling (ladder_once 2) 64 = Ok 18 \<and> 18 \<le> physical_cap (ladder_once 2) 28"
proof -
  have "oe_prompt (ladder_once 2) 18 = Ok 28" by (simp add: ladder_once_def)
  then show ?thesis using answer_ceiling_fits [OF ladder_ceiling [of 2]] by (auto simp: ladder_ceiling)
qed

end
