(* ===== verification/Turn.thy ===== *)
theory Turn
  imports Answer Native
begin

text \<open>
  One turn from its message to its commit (\<^verbatim>\<open>src/loop.c\<close>): ingest, memory, the answer cache, routing, the
  action phase (\<^verbatim>\<open>Actions\<close> or \<^verbatim>\<open>Native\<close>), the response pass (\<^verbatim>\<open>Answer\<close>) and the commit
  (\<^verbatim>\<open>Turn_Journal\<close>).  Retrieval, the cache's similarity search, the classifier and the models answer
  through the environment; telemetry, statistics and the stream of the answer are left out.
\<close>

section \<open>State and environment\<close>

datatype route_mode = MODE_DIRECT | MODE_PLAN

record route_profile =
  rp_class :: route_class
  rp_detail :: detail_level
  rp_mode :: route_mode
  rp_task :: route_task

record turn_exec =
  tx_run :: turn_run
  tx_started :: bool
  tx_turns_before :: nat
  tx_mode :: route_mode
  tx_task :: route_task

record turn_config =
  tg_answer :: answer_config
  tg_coding :: bool
  tg_cache :: bool
  tg_native :: bool
  tg_usage :: usage_mode
  tg_no_cache :: bool
  tg_retry_up :: bool
  tg_detail :: detail_level

datatype probe_outcome = PROBE_HIT | PROBE_ADAPT | PROBE_MISS

record cache_probe =
  pb_outcome :: probe_outcome
  pb_answer :: "string option"
  pb_detail :: string
  pb_tier :: string
  pb_tokens :: nat
  pb_vec :: bool

record 'j loop_env =
  lp_refresh :: "workspace_info \<Rightarrow> workspace_info \<times> asngn_err option"
  lp_sync :: "asngn_err option"
  lp_cancelled :: bool
  lp_expired :: bool
  lp_slot :: int
  lp_now :: int
  lp_pass :: pass_env
  lp_query :: "asngn_err option"
  lp_code :: "string option outcome"
  lp_heuristic :: "route_mode \<times> route_task"
  lp_probe :: "cache_probe option"
  lp_adapter :: int
  lp_adapt :: "(string option \<times> int) outcome"
  lp_adapt_judge :: judge_env
  lp_hint :: "string option"
  lp_cancel_route :: bool
  lp_route :: "(route_profile \<times> nat) outcome"
  lp_warned :: bool
  lp_full :: bool
  lp_up :: "int \<Rightarrow> int"
  lp_down :: "int \<Rightarrow> int"
  lp_router :: int
  lp_clean :: bool
  lp_tier :: "int \<Rightarrow> string"
  lp_json :: "'j json_api"
  lp_decisions :: "nat \<Rightarrow> pass_env"
  lp_calls :: "nat \<Rightarrow> native_env"
  lp_assemble :: "asngn_err option"
  lp_cancel_answer :: bool
  lp_response :: answer_env
  lp_once :: "nat \<Rightarrow> once_env"
  lp_judges :: "nat \<Rightarrow> judge_env"
  lp_cancel_commit :: bool
  lp_end :: int
  lp_elapsed :: nat
  lp_refresh_end :: "workspace_info \<Rightarrow> workspace_info \<times> asngn_err option"
  lp_write :: "xnode \<Rightarrow> string option"
  lp_commit :: commit_plan

abbreviation tx_agent :: "turn_exec \<Rightarrow> agent" where
  "tx_agent t \<equiv> rn_agent (tx_run t)"

abbreviation tx_session :: "turn_exec \<Rightarrow> session" where
  "tx_session t \<equiv> ag_session (tx_agent t)"

abbreviation tx_turn :: "turn_exec \<Rightarrow> turn_state" where
  "tx_turn t \<equiv> ag_turn (tx_agent t)"

definition over_run :: "(turn_run \<Rightarrow> turn_run) \<Rightarrow> turn_exec \<Rightarrow> turn_exec" where
  "over_run f t = t\<lparr>tx_run := f (tx_run t)\<rparr>"

definition over_agent :: "(agent \<Rightarrow> agent) \<Rightarrow> turn_exec \<Rightarrow> turn_exec" where
  "over_agent f = over_run (on_agent f)"

definition over_turn :: "(turn_state \<Rightarrow> turn_state) \<Rightarrow> turn_exec \<Rightarrow> turn_exec" where
  "over_turn f = over_run (on_turn f)"

definition over_ledger :: "(ledger_entry \<Rightarrow> ledger_entry) \<Rightarrow> turn_exec \<Rightarrow> turn_exec" where
  "over_ledger f = over_run (on_ledger f)"

definition over_session :: "(session \<Rightarrow> session) \<Rightarrow> turn_exec \<Rightarrow> turn_exec" where
  "over_session f = over_agent (\<lambda>a. a\<lparr>ag_session := f (ag_session a)\<rparr>)"

text \<open>The configuration of the phases, once the request is classified.\<close>

definition act_config :: "turn_config \<Rightarrow> turn_exec \<Rightarrow> action_config" where
  "act_config cfg t = (aw_act (tg_answer cfg))\<lparr>ac_task := tx_task t, ac_complex := (rn_class (tx_run t) = CLASS_COMPLEX)\<rparr>"

definition answer_cfg :: "turn_config \<Rightarrow> turn_exec \<Rightarrow> answer_config" where
  "answer_cfg cfg t = (tg_answer cfg)\<lparr>aw_act := act_config cfg t\<rparr>"

fun class_name :: "route_class \<Rightarrow> string" where
  "class_name CLASS_SIMPLE = ''simple''"
| "class_name CLASS_MODERATE = ''moderate''"
| "class_name CLASS_COMPLEX = ''complex''"

definition mode_name :: "route_mode \<Rightarrow> string" where
  "mode_name m = (if m = MODE_DIRECT then ''direct'' else ''plan'')"

section \<open>Ingest\<close>

definition loop_begin :: "'j loop_env \<Rightarrow> turn_config \<Rightarrow> turn_exec \<Rightarrow> turn_exec \<times> asngn_err option" where
  "loop_begin env cfg t =
     (case lp_refresh env (ss_workspace (tx_session t)) of (w, e) \<Rightarrow>
        let t1 = over_session (\<lambda>s. s\<lparr>ss_workspace := w\<rparr>) t; e1 = (if e = None then lp_sync env else e) in
        if e1 \<noteq> None then (t1, e1)
        else
          let t2 = over_agent (\<lambda>a. a\<lparr>ag_phase := PHASE_ACTION\<rparr>) t1 in
          if lp_cancelled env then (t2, Some ERR_CANCELLED)
          else if lp_expired env then (t2, Some ERR_TIMEOUT)
          else
            let t3 = over_turn (\<lambda>x. x\<lparr>ts_log_before := length (ss_log (tx_session t2)),
                  ts_led := (ts_led x)\<lparr>le_id := ts_id x, le_cache := ''off''\<rparr>\<rparr>)
                (t2\<lparr>tx_started := True, tx_turns_before := ss_turns (tx_session t2)\<rparr>);
                up = lp_up env (lp_slot env)
            in (over_run (\<lambda>r. if tg_retry_up cfg \<and> 0 \<le> up
                   then r\<lparr>rn_slot := up, rn_escalations := Suc (rn_escalations r)\<rparr> else r\<lparr>rn_slot := lp_slot env\<rparr>) t3, None))"

definition user_turn :: "'j loop_env \<Rightarrow> session \<Rightarrow> turn_state \<Rightarrow> turn" where
  "user_turn env s x =
     \<lparr>tn_n = ss_turns s + 1, tn_workspace = wi_root (ss_workspace s), tn_commit = wi_head (ss_workspace s),
      tn_project = (case ss_project s of Some p \<Rightarrow> p | None \<Rightarrow> []), tn_id = ts_id x, tn_event = [], tn_role = ''user'',
      tn_text = ts_user x, tn_at = lp_now env, tn_pinned = False, tn_class = [], tn_detail = [], tn_mode = [], tn_tier = [],
      tn_cache = [], tn_steps = 0\<rparr>"

definition loop_ingest :: "'j loop_env \<Rightarrow> turn_exec \<Rightarrow> turn_exec \<times> asngn_err option" where
  "loop_ingest env t =
     (let s = tx_session t; x = tx_turn t;
          t1 = (if ts_continuation x then t
                else over_session (\<lambda>s. (stage_turn s (user_turn env s x))\<lparr>ss_turns := ss_turns s + 1\<rparr>) t);
          t2 = over_ledger (\<lambda>l. l\<lparr>le_turn := ss_turns (tx_session t1) + 1\<rparr>) t1;
          t3 = (case ss_last_answer s of
                  Some partial \<Rightarrow> if ts_continuation x
                    then over_agent (\<lambda>a. push_note (lp_pass env) a (''assistant (partial): '' @ partial)) t2 else t2
                | None \<Rightarrow> t2)
      in (t3, None))"

definition loop_memory :: "'j loop_env \<Rightarrow> turn_config \<Rightarrow> turn_exec \<Rightarrow> turn_exec \<times> asngn_err option" where
  "loop_memory env cfg t =
     (let act = aw_act (tg_answer cfg) in
      case (if ac_tools act
            then (case tools_select (lp_pass env) act (tx_agent t) (Some (ts_user (tx_turn t))) of
                    Err e \<Rightarrow> (t, Some e) | Ok a \<Rightarrow> (over_agent (\<lambda>_. a) t, None))
            else (t, None)) of
        (t1, Some e) \<Rightarrow> (t1, Some e)
      | (t1, None) \<Rightarrow>
          if lp_query env \<noteq> None then (t1, lp_query env)
          else if tg_usage cfg = USAGE_CODING \<and> ac_tools act then
            (case lp_code env of
               Err e \<Rightarrow> (t1, Some e)
             | Ok None \<Rightarrow> (t1, None)
             | Ok (Some block) \<Rightarrow>
                 (case work_push (pe_call (lp_pass env)) (tx_agent t1) (data_item block) of (a, e) \<Rightarrow> (over_agent (\<lambda>_. a) t1, e)))
          else (t1, None))"

section \<open>The answer cache\<close>

definition user_detail :: "turn_config \<Rightarrow> turn_exec \<Rightarrow> detail_level" where
  "user_detail cfg t = (if tg_detail cfg \<noteq> DETAIL_AUTO then tg_detail cfg else detail_cue (Some (ts_user (tx_turn t))))"

definition serve_cached :: "string \<Rightarrow> string \<Rightarrow> string \<Rightarrow> string \<Rightarrow> nat \<Rightarrow> turn_exec \<Rightarrow> turn_exec" where
  "serve_cached answer cache detail tier saved t =
     over_agent (\<lambda>a. a\<lparr>ag_phase := PHASE_RESPONSE\<rparr>)
       (over_turn (\<lambda>x. x\<lparr>ts_answer := Some answer,
          ts_led := (ts_led x)\<lparr>le_cache := cache, le_class := ''simple'', le_detail := detail, le_mode := ''direct'',
            le_tier := tier, le_saved_cache := saved\<rparr>\<rparr>) t)"

text \<open>An answer adapted from a similar question's: it may be rejected by the judge, and falls through to
  a miss.\<close>

definition adapt_answer :: "'j loop_env \<Rightarrow> turn_config \<Rightarrow> cache_probe \<Rightarrow> turn_exec \<Rightarrow> turn_exec \<times> bool" where
  "adapt_answer env cfg probe t =
     (let level = detail_effective (tg_answer cfg) (user_detail cfg t) DETAIL_NORMAL CLASS_SIMPLE (lp_warned env) (lp_full env);
          t1 = over_run (\<lambda>r. r\<lparr>rn_detail := level\<rparr>) t
      in if lp_adapter env < 0 then (t1, False)
         else (case lp_adapt env of
             Err e \<Rightarrow> (t1, False)
           | Ok (out, tokens) \<Rightarrow>
               let t2 = over_ledger (\<lambda>l. l\<lparr>le_aux := le_aux l + nat tokens\<rparr>) t1 in
               (case out of
                  None \<Rightarrow> (t2, False)
                | Some adapted \<Rightarrow>
                    if adapted = [] then (t2, False)
                    else
                      (case (if aw_judge (tg_answer cfg) = JUDGE_FULL
                             then judge_run (lp_adapt_judge env) (ts_user (tx_turn t2)) None (Some adapted)
                             else (0, Err ERR_INVALID)) of
                         (extra, verdict) \<Rightarrow>
                           let t3 = (case verdict of
                                 Ok _ \<Rightarrow> over_ledger (\<lambda>l. l\<lparr>le_aux := le_aux l + extra\<rparr>) t2 | Err _ \<Rightarrow> t2);
                               rejected = (case verdict of Ok (score, _) \<Rightarrow> score < aw_threshold (tg_answer cfg) | Err _ \<Rightarrow> False)
                           in if rejected \<or> response_has_tool_protocol (lp_response env) (Some adapted) then (t3, False)
                              else (serve_cached adapted ''adapt'' (detail_name level) (take 15 (lp_tier env (lp_adapter env)))
                                     (pb_tokens probe) t3, True)))))"

definition cache_bypassed :: "'j loop_env \<Rightarrow> turn_config \<Rightarrow> turn_exec \<Rightarrow> bool" where
  "cache_bypassed env cfg t \<longleftrightarrow>
     tg_usage cfg = USAGE_CHAT \<or> tg_coding cfg \<or> fst (lp_heuristic env) = MODE_PLAN \<or> coding_task (snd (lp_heuristic env)) \<or>
     tg_no_cache cfg \<or> ts_continuation (tx_turn t) \<or> \<not> tg_cache cfg"

definition served_by_cache :: "'j loop_env \<Rightarrow> turn_config \<Rightarrow> cache_probe \<Rightarrow> turn_exec \<Rightarrow> turn_exec \<times> bool" where
  "served_by_cache env cfg probe t =
     (case pb_answer probe of
        None \<Rightarrow> (t, False)
      | Some answer \<Rightarrow>
          if pb_outcome probe = PROBE_HIT \<and> \<not> response_has_tool_protocol (lp_response env) (Some answer)
          then (serve_cached answer ''hit'' (pb_detail probe) (pb_tier probe) (pb_tokens probe) t, True)
          else if pb_outcome probe = PROBE_ADAPT then adapt_answer env cfg probe t
          else (t, False))"

definition missed :: "'j loop_env \<Rightarrow> cache_probe \<Rightarrow> turn_exec \<Rightarrow> turn_exec" where
  "missed env probe t =
     over_ledger (\<lambda>l. l\<lparr>le_cache := ''miss''\<rparr>)
       (case lp_hint env of
          Some hint \<Rightarrow> if pb_vec probe then over_agent (\<lambda>a. push_note (lp_pass env) a hint) t else t
        | None \<Rightarrow> t)"

definition loop_cache :: "'j loop_env \<Rightarrow> turn_config \<Rightarrow> turn_exec \<Rightarrow> turn_exec \<times> bool" where
  "loop_cache env cfg t =
     (if cache_bypassed env cfg t then (t, False)
      else case lp_probe env of
        None \<Rightarrow> (t, False)
      | Some probe \<Rightarrow>
          (case served_by_cache env cfg probe t of (t1, served) \<Rightarrow> if served then (t1, True) else (missed env probe t1, False)))"

section \<open>Routing\<close>

definition loop_tier :: "'j loop_env \<Rightarrow> turn_config \<Rightarrow> turn_exec \<Rightarrow> turn_exec" where
  "loop_tier env cfg t =
     (let r = tx_run t; up = lp_up env (rn_slot r); down = lp_down env (rn_slot r) in
      if rn_class r = CLASS_COMPLEX \<and> \<not> tg_retry_up cfg \<and> int (rn_escalations r) < aw_max_escalations (tg_answer cfg) then
        (if 0 \<le> up then over_run (\<lambda>r. r\<lparr>rn_slot := up, rn_escalations := Suc (rn_escalations r)\<rparr>) t else t)
      else if \<not> tg_coding cfg \<and> (tx_task t = RTASK_CHAT \<or> tx_task t = RTASK_LOOKUP) \<and> rn_class r = CLASS_SIMPLE \<and>
          tx_mode t = MODE_DIRECT \<and> \<not> tg_retry_up cfg \<and> lp_clean env then
        (if 0 \<le> down \<and> down \<noteq> lp_router env then over_run (\<lambda>r. r\<lparr>rn_slot := down\<rparr>) t else t)
      else t)"

definition loop_route :: "'j loop_env \<Rightarrow> turn_config \<Rightarrow> turn_exec \<Rightarrow> turn_exec \<times> asngn_err option" where
  "loop_route env cfg t =
     (case lp_route env of
        Err e \<Rightarrow> (t, Some e)
      | Ok (prof, aux) \<Rightarrow>
          let level = detail_effective (tg_answer cfg) (user_detail cfg t) (rp_detail prof) (rp_class prof) (lp_warned env) (lp_full env);
              chat = (tg_usage cfg = USAGE_CHAT);
              mode = (if ts_continuation (tx_turn t) \<or> chat then MODE_DIRECT else rp_mode prof);
              t1 = over_run (\<lambda>r. r\<lparr>rn_class := rp_class prof, rn_detail := level\<rparr>)
                (t\<lparr>tx_mode := mode, tx_task := (if chat then RTASK_CHAT else rp_task prof)\<rparr>);
              t2 = loop_tier env cfg t1
          in (over_ledger (\<lambda>l. l\<lparr>le_aux := le_aux l + aux, le_class := class_name (rp_class prof), le_detail := detail_name level,
                le_mode := mode_name mode\<rparr>) t2, None))"

section \<open>Acting and answering\<close>

text \<open>The action phase under either protocol; None when a wait for the host does not end.\<close>

definition loop_act :: "'j loop_env \<Rightarrow> turn_config \<Rightarrow> turn_exec \<Rightarrow> (turn_exec \<times> asngn_err option) option" where
  "loop_act env cfg t =
     (if tx_mode t \<noteq> MODE_PLAN then Some (t, None)
      else
        let t1 = over_agent (\<lambda>a. a\<lparr>ag_phase := PHASE_ACTION\<rparr>) t; act = act_config cfg t; c = rn_ctl (tx_run t1) in
        if tg_native cfg then
          map_option (\<lambda>(s, e). (over_run (\<lambda>r. r\<lparr>rn_ctl := ns_ctl s, rn_native := ns_answer s\<rparr>) t1, e))
            (native_run (lp_json env) (lp_calls env) act (lp_assemble env) c)
        else
          map_option (\<lambda>(c', e). (over_run (\<lambda>r. r\<lparr>rn_ctl := c'\<rparr>) t1, e))
            (actions_run (lp_json env) (lp_decisions env) act c))"

definition loop_respond :: "'j loop_env \<Rightarrow> turn_config \<Rightarrow> turn_exec \<Rightarrow> turn_exec \<times> asngn_err option" where
  "loop_respond env cfg t =
     (if ct_clarify (rn_ctl (tx_run t)) \<or> lp_cancel_answer env then (t, None)
      else if needs_artifact (act_config cfg t) (tx_agent t) then (t, Some ERR_PROTOCOL)
      else
        let t1 = over_agent (\<lambda>a. a\<lparr>ag_phase := PHASE_RESPONSE\<rparr>) t in
        (case answer_run (lp_response env) (lp_once env) (lp_judges env) (answer_cfg cfg t) (tx_run t1) of
           (r, aux, e) \<Rightarrow>
             let t2 = over_run (\<lambda>_. r) t1 in
             (if e = None then over_ledger (\<lambda>l. l\<lparr>le_aux := le_aux l + aux\<rparr>) t2 else t2, e)))"

text \<open>A question back to the user is the answer of its turn.\<close>

definition loop_clarify :: "'j loop_env \<Rightarrow> turn_exec \<Rightarrow> turn_exec" where
  "loop_clarify env t =
     (let c = rn_ctl (tx_run t);
          t1 = (if ct_clarify c
                then over_agent (\<lambda>a. a\<lparr>ag_phase := PHASE_RESPONSE\<rparr>)
                  (over_turn (\<lambda>x. x\<lparr>ts_answer := ct_answer c, ts_led := (ts_led x)\<lparr>le_class := ''clarify''\<rparr>\<rparr>) t)
                else t);
          slot = rn_slot (tx_run t1)
      in over_ledger (\<lambda>l. l\<lparr>le_tier := take 15 (if 0 \<le> slot then lp_tier env slot else ''none''),
           le_escalations := int (rn_escalations (tx_run t1))\<rparr>) t1)"

definition loop_work :: "'j loop_env \<Rightarrow> turn_config \<Rightarrow> turn_exec \<Rightarrow> (turn_exec \<times> asngn_err option) option" where
  "loop_work env cfg t =
     (case loop_route env cfg t of
        (t1, Some e) \<Rightarrow> Some (t1, Some e)
      | (t1, None) \<Rightarrow>
          map_option (\<lambda>r. then_do (then_do r (loop_respond env cfg)) (\<lambda>t. (loop_clarify env t, None))) (loop_act env cfg t1))"

section \<open>Commit\<close>

definition answer_turn :: "'j loop_env \<Rightarrow> session \<Rightarrow> turn_exec \<Rightarrow> turn" where
  "answer_turn env s t =
     (let x = tx_turn t; l = ts_led x in
      \<lparr>tn_n = ss_turns s + 1, tn_workspace = wi_root (ss_workspace s), tn_commit = wi_head (ss_workspace s),
       tn_project = (case ss_project s of Some p \<Rightarrow> p | None \<Rightarrow> []), tn_id = ts_id x, tn_event = [], tn_role = ''assistant'',
       tn_text = (case ts_answer x of Some a \<Rightarrow> a | None \<Rightarrow> []), tn_at = le_at l, tn_pinned = False, tn_class = le_class l,
       tn_detail = le_detail l, tn_mode = le_mode l, tn_tier = le_tier l, tn_cache = le_cache l,
       tn_steps = int (ct_steps (rn_ctl (tx_run t)))\<rparr>)"

definition loop_commit :: "'j loop_env \<Rightarrow> turn_exec \<Rightarrow> turn_exec \<times> asngn_err option" where
  "loop_commit env t =
     (if lp_cancel_commit env then (t, Some ERR_CANCELLED)
      else if response_has_tool_protocol (lp_response env) (ts_answer (tx_turn t)) then (t, Some ERR_PROTOCOL)
      else
        let t1 = over_ledger (\<lambda>l. l\<lparr>le_at := lp_end env, le_duration := lp_elapsed env, le_capped := rn_capped (tx_run t)\<rparr>) t in
        (case lp_refresh_end env (ss_workspace (tx_session t1)) of
           (w, Some e) \<Rightarrow> (over_session (\<lambda>s. s\<lparr>ss_workspace := w\<rparr>) t1, Some e)
         | (w, None) \<Rightarrow>
             let t2 = over_session (\<lambda>s. s\<lparr>ss_workspace := w\<rparr>) t1;
                 a = answer_turn env (tx_session t2) t2
             in (case turn_commit (lp_write env) (lp_commit env) (tx_session t2) (tx_turn t2)
                    (map_option wr_state (ws_store (ag_work (tx_agent t2)))) a of
                   (s, x, Some e) \<Rightarrow> (over_agent (\<lambda>g. g\<lparr>ag_session := s, ag_turn := x\<rparr>) t2, Some e)
                 | (s, x, None) \<Rightarrow>
                     (over_agent (\<lambda>g. g\<lparr>ag_turn := x\<lparr>ts_led := (ts_led x)\<lparr>le_turn := tn_n a\<rparr>\<rparr>,
                        ag_session := s\<lparr>ss_turns := tn_n a, ss_last_user := Some (ts_user x), ss_last_answer := Some (tn_text a),
                          ss_last_capped := rn_capped (tx_run t2), ss_last_turn := tn_n a\<rparr>\<rparr>) t2, None))))"

section \<open>The turn\<close>

definition loop_run :: "'j loop_env \<Rightarrow> turn_config \<Rightarrow> turn_exec \<Rightarrow> (turn_exec \<times> asngn_err option) option" where
  "loop_run env cfg t =
     (case then_do (then_do (loop_begin env cfg t) (loop_ingest env)) (loop_memory env cfg) of
        (t1, Some e) \<Rightarrow> Some (t1, Some e)
      | (t1, None) \<Rightarrow>
          (case loop_cache env cfg t1 of
             (t2, served) \<Rightarrow>
               map_option (\<lambda>r. then_do r (loop_commit env))
                 (if \<not> served \<and> \<not> lp_cancel_route env then loop_work env cfg t2 else Some (t2, None))))"

section \<open>What a phase leaves alone\<close>

lemmas over_defs = over_run_def over_agent_def over_turn_def over_ledger_def over_session_def on_turn_def on_ledger_def on_agent_def

text \<open>The conversation of a turn, and the turn's hold on it.\<close>

definition story where
  "story t = (convo (tx_session t), pinned (tx_turn t), tx_started t, tx_turns_before t)"

lemma over_story [simp]:
  "story (over_ledger f t) = story t"
  "story (over_agent (\<lambda>a. a\<lparr>ag_phase := p\<rparr>) t) = story t"
  "story (over_agent (\<lambda>a. push_note env a tx) t) = story t"
  "story (over_session (\<lambda>s. s\<lparr>ss_workspace := w\<rparr>) t) = story t"
  "story (t\<lparr>tx_mode := m\<rparr>) = story t" "story (t\<lparr>tx_task := k\<rparr>) = story t"
  using push_note_grounded [of env "tx_agent t" tx]
  by (simp_all add: story_def over_defs grounded_def)

lemma over_run_story: "(\<And>r. rn_ctl (f r) = rn_ctl r) \<Longrightarrow> story (over_run f t) = story t"
  by (simp add: story_def over_run_def)

lemma loop_memory_story:
  assumes "loop_memory env cfg t = (t', e)"
  shows "story t' = story t"
proof -
  have g: "story (over_agent (\<lambda>_. a) t) = story t" if "grounded a = grounded (tx_agent t)" for a t
    using that by (simp add: story_def over_defs grounded_def)
  have pushed: "grounded a' = grounded a" if "work_push env' a tx = (a', e')" for env' a tx a' e'
    using that by (auto simp: work_push_def grounded_def split: option.splits)
  have chosen: "grounded a' = grounded a" if "tools_select env' act a intent = Ok a'" for env' act a intent a'
    using that by (auto simp: tools_select_def grounded_def split: if_splits option.splits)
  have second: "story t' = story t1"
    if "(if lp_query env \<noteq> None then (t1, lp_query env)
        else if tg_usage cfg = USAGE_CODING \<and> ac_tools (aw_act (tg_answer cfg)) then
          (case lp_code env of Err e \<Rightarrow> (t1, Some e) | Ok None \<Rightarrow> (t1, None)
           | Ok (Some block) \<Rightarrow> (case work_push (pe_call (lp_pass env)) (tx_agent t1) (data_item block) of (a, e) \<Rightarrow> (over_agent (\<lambda>_. a) t1, e)))
        else (t1, None)) = (t', e)" for t1
    using that g pushed by (auto split: if_splits sum.splits option.splits prod.splits)
  show ?thesis
  proof (cases "ac_tools (aw_act (tg_answer cfg))")
    case False
    then show ?thesis using assms second [of t] by (simp add: loop_memory_def)
  next
    case True
    show ?thesis
    proof (cases "tools_select (lp_pass env) (aw_act (tg_answer cfg)) (tx_agent t) (Some (ts_user (tx_turn t)))")
      case (Inl err)
      then show ?thesis using assms True by (simp add: loop_memory_def)
    next
      case (Inr a)
      then show ?thesis using assms True second [of "over_agent (\<lambda>_. a) t"] g [OF chosen [OF Inr]] by (simp add: loop_memory_def)
    qed
  qed
qed

lemma serve_cached_story [simp]: "story (serve_cached answer cache detail tier saved t) = story t"
  by (simp add: serve_cached_def story_def over_defs)

lemma adapt_answer_story: "story (fst (adapt_answer env cfg probe t)) = story t"
  by (simp add: adapt_answer_def Let_def over_run_story split: sum.split option.split prod.split)

lemma loop_cache_story: "story (fst (loop_cache env cfg t)) = story t"
proof -
  have "story (fst (served_by_cache env cfg probe t)) = story t" for probe
    by (simp add: served_by_cache_def adapt_answer_story split: option.split)
  moreover have "story (missed env probe t) = story t" for probe t
    by (simp add: missed_def split: option.split)
  ultimately show ?thesis by (simp add: loop_cache_def split: option.split prod.split) (metis fst_conv)
qed

lemma loop_route_story: "loop_route env cfg t = (t', e) \<Longrightarrow> story t' = story t"
proof -
  have "story (loop_tier env cfg t) = story t" for t
    by (simp add: loop_tier_def Let_def over_run_story)
  moreover assume "loop_route env cfg t = (t', e)"
  moreover have "story (t\<lparr>tx_mode := m, tx_task := k\<rparr>) = story t" for t m k by (simp add: story_def)
  ultimately show ?thesis
    by (auto simp: loop_route_def Let_def over_run_story split: sum.splits prod.splits)
qed

lemma budget_story:
  assumes "within_budget cfg (rn_ctl (tx_run t)) c"
  shows "story (over_run (\<lambda>r. r\<lparr>rn_ctl := c, rn_native := v\<rparr>) t) = story t"
    "story (over_run (\<lambda>r. r\<lparr>rn_ctl := c\<rparr>) t) = story t"
  using assms by (simp_all add: within_budget_def ident_def story_def over_run_def)

lemma native_run_budget:
  assumes "native_run api envs cfg assemble c = Some (s', e)"
  shows "within_budget cfg c (ns_ctl s')"
proof (cases "ag_phase (ct_agent c) = PHASE_ACTION")
  case True
  then show ?thesis by (rule act_steps_budget [OF native_run_steps [OF assms]])
next
  case False
  then show ?thesis using assms by (auto simp: native_run_def Let_def within_budget_refl)
qed

lemma loop_act_story:
  assumes "loop_act env cfg t = Some (t', e)"
  shows "story t' = story t"
proof (cases "tx_mode t = MODE_PLAN")
  case False
  then show ?thesis using assms by (simp add: loop_act_def)
next
  case True
  let ?t = "over_agent (\<lambda>a. a\<lparr>ag_phase := PHASE_ACTION\<rparr>) t"
  consider s where "native_run (lp_json env) (lp_calls env) (act_config cfg t) (lp_assemble env) (rn_ctl (tx_run ?t)) = Some (s, e)"
      "t' = over_run (\<lambda>r. r\<lparr>rn_ctl := ns_ctl s, rn_native := ns_answer s\<rparr>) ?t"
    | c where "actions_run (lp_json env) (lp_decisions env) (act_config cfg t) (rn_ctl (tx_run ?t)) = Some (c, e)"
      "t' = over_run (\<lambda>r. r\<lparr>rn_ctl := c\<rparr>) ?t"
    using assms True by (cases "tg_native cfg") (auto simp: loop_act_def Let_def)
  then show ?thesis
  proof cases
    case 1
    then show ?thesis using budget_story(1) [OF native_run_budget [OF 1(1)]] by simp
  next
    case 2
    then show ?thesis using budget_story(2) [OF actions_run_budget [OF 2(1)]] by simp
  qed
qed

lemma answer_run_grounded:
  assumes "answer_run env once judges cfg r = (r', aux, e)"
  shows "grounded (rn_agent r') = grounded (rn_agent r)"
proof -
  have "settled r r1" if "native_eligible env cfg' (r\<lparr>rn_native := None\<rparr>) = (r1, ok)" for cfg' r1 ok
    using that by (auto simp: native_eligible_def Let_def on_turn_def settled_def grounded_def
        Turn_Journal.verification_current_def split: prod.splits if_splits)
  moreover have "r' = r \<or> (\<exists>judging prepaid cap r1. (r1 = r \<or> (\<exists>ok. native_eligible env (aw_act cfg) (r\<lparr>rn_native := None\<rparr>) = (r1, ok))) \<and>
      answer_tries env once judges cfg judging 3 prepaid cap (None, - 1) 0 r1 = (r', aux, e))"
    using assms by (auto simp: answer_run_def split: if_splits option.splits prod.splits)
  ultimately consider "r' = r" | judging prepaid cap r1 where "settled r r1"
      "answer_tries env once judges cfg judging 3 prepaid cap (None, - 1) 0 r1 = (r', aux, e)"
    using settled_refl by blast
  then show ?thesis
  proof cases
    case 2
    have "gated env (fst (None, - 1 :: int))" by simp
    from answer_tries_gated [OF 2(2) this] 2(1) show ?thesis by (simp add: settled_def)
  qed simp
qed

lemma loop_respond_story:
  assumes "loop_respond env cfg t = (t', e)"
  shows "story t' = story t"
proof -
  let ?t = "over_agent (\<lambda>a. a\<lparr>ag_phase := PHASE_RESPONSE\<rparr>) t"
  have "story (over_run (\<lambda>_. r) ?t) = story t" if "answer_run env' once judges cfg' (tx_run ?t) = (r, aux, e')" for env' once judges cfg' r aux e'
    using answer_run_grounded [OF that] by (simp add: story_def over_defs grounded_def)
  then show ?thesis using assms
    by (auto simp: loop_respond_def Let_def split: if_splits prod.splits)
qed

lemma loop_clarify_story [simp]: "story (loop_clarify env t) = story t"
  by (simp add: loop_clarify_def Let_def) (simp add: story_def over_defs)

lemma loop_work_story:
  assumes "loop_work env cfg t = Some (t', e)"
  shows "story t' = story t"
proof -
  obtain t1 e1 where t1: "loop_route env cfg t = (t1, e1)" by fastforce
  note s1 = loop_route_story [OF t1]
  show ?thesis
  proof (cases e1)
    case (Some err)
    then show ?thesis using assms t1 s1 by (simp add: loop_work_def)
  next
    case None
    then obtain t2 e2 where t2: "loop_act env cfg t1 = Some (t2, e2)"
      "then_do (then_do (t2, e2) (loop_respond env cfg)) (\<lambda>t. (loop_clarify env t, None)) = (t', e)"
      using assms t1 by (auto simp: loop_work_def)
    have resp: "story (fst (loop_respond env cfg x)) = story x" for x
      using loop_respond_story [of env cfg x "fst (loop_respond env cfg x)" "snd (loop_respond env cfg x)"] by simp
    have "story (fst (then_do (then_do (t2, e2) (loop_respond env cfg)) (\<lambda>t. (loop_clarify env t, None)))) = story t1"
      by (intro then_do_inv [where P = "\<lambda>t. story t = story t1"])
        (use loop_act_story [OF t2(1)] in \<open>simp_all add: resp\<close>)
    then show ?thesis using t2(2) s1 by simp
  qed
qed

section \<open>A turn and its conversation\<close>

text \<open>A turn that has not committed: it never started, or its own message is all it added.\<close>

definition staged :: "turn_exec \<Rightarrow> turn_exec \<Rightarrow> bool" where
  "staged t t' \<longleftrightarrow> \<not> ts_committed (tx_turn t') \<and>
     (if tx_started t' then
        ts_log_before (tx_turn t') = length (ss_log (tx_session t)) \<and> tx_turns_before t' = ss_turns (tx_session t) \<and>
        (\<exists>own n. convo (tx_session t') = convo ((tx_session t)\<lparr>ss_log := ss_log (tx_session t) @ own, ss_turns := n\<rparr>))
      else convo (tx_session t') = convo (tx_session t))"

lemma staged_story: "staged t t1 \<Longrightarrow> story t2 = story t1 \<Longrightarrow> staged t t2"
  by (simp add: staged_def story_def)

lemma loop_begin_staged:
  assumes "loop_begin env cfg t = (t', e)" "\<not> tx_started t" "\<not> ts_committed (tx_turn t)"
  shows "staged t t' \<and> (e = None \<longrightarrow> tx_started t' \<and> convo (tx_session t') = convo (tx_session t) \<and>
    pinned (tx_turn t') = pinned ((tx_turn t)\<lparr>ts_log_before := length (ss_log (tx_session t))\<rparr>))"
proof -
  obtain w e0 where w: "lp_refresh env (ss_workspace (tx_session t)) = (w, e0)" by fastforce
  show ?thesis
    using assms w
    by (auto simp: loop_begin_def Let_def staged_def over_defs split: if_splits intro!: exI [of _ "[]"])
      (auto simp: convo_def)
qed

lemma loop_ingest_staged:
  assumes "staged t t1" "tx_started t1" "convo (tx_session t1) = convo (tx_session t)"
  shows "staged t (fst (loop_ingest env t1)) \<and> tx_started (fst (loop_ingest env t1))"
proof -
  let ?s = "tx_session t1"
  define t2 where "t2 = (if ts_continuation (tx_turn t1) then t1
      else over_session (\<lambda>s. (stage_turn s (user_turn env s (tx_turn t1)))\<lparr>ss_turns := ss_turns s + 1\<rparr>) t1)"
  have "staged t t2 \<and> tx_started t2"
  proof (cases "ts_continuation (tx_turn t1)")
    case True
    then show ?thesis using assms by (simp add: t2_def)
  next
    case False
    have "convo (tx_session t2) = convo ((tx_session t)\<lparr>ss_log := ss_log (tx_session t) @ [user_turn env ?s (tx_turn t1)],
        ss_turns := ss_turns (tx_session t) + 1\<rparr>)"
      using assms(3) False by (simp add: t2_def over_defs stage_turn_def convo_def)
    moreover have "tx_started t2" "tx_turn t2 = tx_turn t1" "tx_turns_before t2 = tx_turns_before t1"
      using assms(2) False by (simp_all add: t2_def over_defs)
    ultimately show ?thesis using assms(1,2) unfolding staged_def by auto
  qed
  moreover have "story (fst (loop_ingest env t1)) = story t2"
    by (simp add: loop_ingest_def Let_def t2_def split: option.split)
  ultimately show ?thesis using staged_story [of t t2] by (auto simp: story_def)
qed

lemma turn_commit_ways:
  assumes "turn_commit wr cm s t0 store a = (s', t', e)" "\<not> ts_committed t0"
  obtains (left) "\<not> ts_committed t'" "convo s' = convo s" "pinned t' = pinned t0" "e \<noteq> None"
  | (kept) "ts_committed t'" "e = None \<Longrightarrow> \<not> ss_recovery s'" "ts_answer t' = ts_answer t0" "ts_user t' = ts_user t0"
proof -
  have current: "ts_committed (fst (Turn_Journal.verification_current snap s t0)) = ts_committed t0 \<and>
      pinned (fst (Turn_Journal.verification_current snap s t0)) = pinned t0 \<and>
      ts_answer (fst (Turn_Journal.verification_current snap s t0)) = ts_answer t0" for snap
    by (simp add: Turn_Journal.verification_current_def split: prod.split)
  define t where "t = fst (Turn_Journal.verification_current (cm_snapshot cm) s t0)"
  have t: "\<not> ts_committed t" "pinned t = pinned t0" "ts_answer t = ts_answer t0" using current assms(2) by (simp_all add: t_def)
  have run: "(\<not> ts_committed t' \<and> convo s' = convo s \<and> t' = t \<and> e \<noteq> None) \<or>
      (t' = t\<lparr>ts_committed := True\<rparr> \<and> (e = None \<longrightarrow> \<not> ss_recovery s'))"
    using assms(1) t(1) unfolding turn_commit_def t_def [symmetric]
    by (auto simp: Let_def split: option.splits if_splits prod.splits)
  then show thesis using left kept t by auto
qed

text \<open>How a turn ends: before its commit with the conversation it had, or in it.\<close>

lemma loop_commit_ways:
  assumes "loop_commit env t = (t', e)" "\<not> ts_committed (tx_turn t)"
  obtains (left) "story t' = story t" "e \<noteq> None"
  | (kept) "ts_committed (tx_turn t')" "\<not> response_has_tool_protocol (lp_response env) (ts_answer (tx_turn t'))"
      "e = None \<Longrightarrow> \<not> ss_recovery (tx_session t') \<and> ss_turns (tx_session t') = Suc (ss_turns (tx_session t)) \<and>
         ss_last_answer (tx_session t') = Some (case ts_answer (tx_turn t') of Some s \<Rightarrow> s | None \<Rightarrow> []) \<and>
         ss_last_user (tx_session t') = Some (ts_user (tx_turn t'))"
proof (cases "lp_cancel_commit env \<or> response_has_tool_protocol (lp_response env) (ts_answer (tx_turn t))")
  case True
  then show thesis using assms(1) left by (auto simp: loop_commit_def split: if_splits)
next
  case False
  define t1 where "t1 = over_ledger (\<lambda>l. l\<lparr>le_at := lp_end env, le_duration := lp_elapsed env, le_capped := rn_capped (tx_run t)\<rparr>) t"
  have t1: "story t1 = story t" "ts_answer (tx_turn t1) = ts_answer (tx_turn t)" by (simp add: t1_def) (simp add: t1_def over_defs)
  obtain w e1 where w: "lp_refresh_end env (ss_workspace (tx_session t1)) = (w, e1)" by fastforce
  define t2 where "t2 = over_session (\<lambda>s. s\<lparr>ss_workspace := w\<rparr>) t1"
  have t2: "story t2 = story t" "ts_answer (tx_turn t2) = ts_answer (tx_turn t)"
    using t1 by (simp add: t2_def) (use t1 in \<open>simp add: t2_def over_defs\<close>)
  note run = assms(1) [unfolded loop_commit_def, folded t1_def, unfolded Let_def w prod.case, folded t2_def]
  show thesis
  proof (cases e1)
    case (Some err)
    then show thesis using run False t2 left by (auto split: if_splits)
  next
    case None
    obtain s x e2 where c: "turn_commit (lp_write env) (lp_commit env) (tx_session t2) (tx_turn t2)
        (map_option wr_state (ws_store (ag_work (tx_agent t2)))) (answer_turn env (tx_session t2) t2) = (s, x, e2)"
      by (metis prod_cases3)
    have open2: "\<not> ts_committed (tx_turn t2)" using t2(1) assms(2) by (simp add: story_def)
    have e: "e = e2" using run False None c by (auto split: option.splits if_splits)
    from c open2 show thesis
    proof (cases rule: turn_commit_ways)
      case ways: left
      then obtain err where "e2 = Some err" by auto
      then have "t' = over_agent (\<lambda>g. g\<lparr>ag_session := s, ag_turn := x\<rparr>) t2" using run False None c by (auto split: if_splits)
      then have "story t' = story t2" using ways(2,3) by (simp add: story_def over_defs)
      then show thesis using t2(1) ways(4) e left by simp
    next
      case ways: kept
      show thesis
      proof (cases e2)
        case (Some err)
        then have "t' = over_agent (\<lambda>g. g\<lparr>ag_session := s, ag_turn := x\<rparr>) t2" using run False None c by (auto split: if_splits)
        then have "tx_turn t' = x" by (simp add: over_defs)
        then show thesis using kept ways False t2 Some e by simp
      next
        case ok: None
        then have t': "t' = over_agent (\<lambda>g. g\<lparr>ag_turn := x\<lparr>ts_led := (ts_led x)\<lparr>le_turn := tn_n (answer_turn env (tx_session t2) t2)\<rparr>\<rparr>,
            ag_session := s\<lparr>ss_turns := tn_n (answer_turn env (tx_session t2) t2), ss_last_user := Some (ts_user x),
              ss_last_answer := Some (tn_text (answer_turn env (tx_session t2) t2)),
              ss_last_capped := rn_capped (tx_run t2), ss_last_turn := tn_n (answer_turn env (tx_session t2) t2)\<rparr>\<rparr>) t2"
          using run False None c by (auto split: if_splits)
        have "tn_n (answer_turn env (tx_session t2) t2) = Suc (ss_turns (tx_session t2))"
          "tn_text (answer_turn env (tx_session t2) t2) = (case ts_answer (tx_turn t2) of Some s \<Rightarrow> s | None \<Rightarrow> [])"
          by (simp_all add: answer_turn_def Let_def)
        moreover have "ss_turns (tx_session t2) = ss_turns (tx_session t)" using t2(1) by (simp add: story_def convo_def)
        ultimately show thesis using kept ways False t2 ok e by (simp add: t' over_defs)
      qed
    qed
  qed
qed

text \<open>The turn is under way: staged, with its message counted.\<close>

definition ingested :: "turn_exec \<Rightarrow> turn_exec \<Rightarrow> bool" where
  "ingested t t' \<longleftrightarrow> staged t t' \<and> tx_started t' \<and> ts_user (tx_turn t') = ts_user (tx_turn t) \<and>
     ss_turns (tx_session t') = ss_turns (tx_session t) + (if ts_continuation (tx_turn t) then 0 else 1)"

lemma ingested_story: "ingested t t1 \<Longrightarrow> story t2 = story t1 \<Longrightarrow> ingested t t2"
  using staged_story [of t t1 t2] by (simp add: ingested_def story_def convo_def)

lemma loop_ingest_ingested:
  assumes "loop_begin env cfg t = (t1, None)" "\<not> tx_started t" "\<not> ts_committed (tx_turn t)"
  shows "ingested t (fst (loop_ingest env t1))"
proof -
  note b = loop_begin_staged [OF assms]
  then have k: "staged t t1" "tx_started t1" "convo (tx_session t1) = convo (tx_session t)" "ts_user (tx_turn t1) = ts_user (tx_turn t)"
    "ts_continuation (tx_turn t1) = ts_continuation (tx_turn t)" "ss_turns (tx_session t1) = ss_turns (tx_session t)"
    by (auto simp: convo_def)
  have "ts_user (tx_turn (fst (loop_ingest env t1))) = ts_user (tx_turn t1) \<and>
      ss_turns (tx_session (fst (loop_ingest env t1))) = ss_turns (tx_session t1) + (if ts_continuation (tx_turn t1) then 0 else 1)"
    using push_note_grounded [of "lp_pass env"]
    by (simp add: loop_ingest_def Let_def over_defs stage_turn_def grounded_def split: option.split)
  then show ?thesis using loop_ingest_staged [OF k(1-3), of env] k(4-6) by (simp add: ingested_def)
qed

lemma loop_run_ways:
  assumes "loop_run env cfg t = Some (t', e)" "\<not> tx_started t" "\<not> ts_committed (tx_turn t)"
  obtains (left) "staged t t'" "e \<noteq> None"
  | (kept) "ts_committed (tx_turn t')" "\<not> response_has_tool_protocol (lp_response env) (ts_answer (tx_turn t'))"
      "e = None \<Longrightarrow> \<not> ss_recovery (tx_session t') \<and>
         ss_turns (tx_session t') = ss_turns (tx_session t) + (if ts_continuation (tx_turn t) then 1 else 2) \<and>
         ss_last_answer (tx_session t') = Some (case ts_answer (tx_turn t') of Some s \<Rightarrow> s | None \<Rightarrow> [])"
proof -
  obtain t1 e1 where b: "loop_begin env cfg t = (t1, e1)" by fastforce
  show thesis
  proof (cases e1)
    case (Some err)
    then have "t' = t1" "e = Some err" using assms(1) b by (auto simp: loop_run_def then_do_def)
    then show thesis using loop_begin_staged [OF b assms(2,3)] left by simp
  next
    case None
    define t2 where "t2 = fst (loop_ingest env t1)"
    have i: "ingested t t2" unfolding t2_def by (rule loop_ingest_ingested [OF b [unfolded None] assms(2,3)])
    have ing: "loop_ingest env t1 = (t2, None)" by (simp add: t2_def loop_ingest_def Let_def)
    obtain t3 e3 where m: "loop_memory env cfg t2 = (t3, e3)" by fastforce
    have i3: "ingested t t3" by (rule ingested_story [OF i loop_memory_story [OF m]])
    show thesis
    proof (cases e3)
      case (Some err)
      then have "t' = t3" "e = Some err" using assms(1) b None ing m by (auto simp: loop_run_def then_do_def)
      then show thesis using i3 left by (simp add: ingested_def)
    next
      case none3: None
      obtain t4 served where c: "loop_cache env cfg t3 = (t4, served)" by fastforce
      have i4: "ingested t t4" using ingested_story [OF i3 loop_cache_story] c by (metis fst_conv)
      obtain t5 e5 where w: "(if \<not> served \<and> \<not> lp_cancel_route env then loop_work env cfg t4 else Some (t4, None)) = Some (t5, e5)"
        "then_do (t5, e5) (loop_commit env) = (t', e)"
        using assms(1) b None ing m none3 c by (auto simp: loop_run_def then_do_def split: option.splits)
      have i5: "ingested t t5" using w(1) i4 ingested_story [OF i4 loop_work_story] by (auto split: if_splits)
      show thesis
      proof (cases e5)
        case (Some err)
        then have "t' = t5" "e = Some err" using w(2) by (auto simp: then_do_def)
        then show thesis using i5 left by (simp add: ingested_def)
      next
        case none5: None
        then have run: "loop_commit env t5 = (t', e)" using w(2) by (simp add: then_do_def)
        have "\<not> ts_committed (tx_turn t5)" using i5 by (simp add: ingested_def staged_def)
        with run show thesis
        proof (cases rule: loop_commit_ways)
          case ways: left
          have "staged t t'" using ingested_story [OF i5 ways(1)] by (simp add: ingested_def)
          then show thesis using left ways(2) by simp
        next
          case ways: kept
          show thesis by (rule kept [OF ways(1,2)]) (use ways(3) i5 in \<open>auto simp: ingested_def\<close>)
        qed
      qed
    qed
  qed
qed

text \<open>
  C12. A turn that ends well is committed and nothing else is: its frame is durable and projected, so the
  session needs no recovery; the conversation has grown by exactly the user's message and the answer
  (the answer alone when it continues an earlier one); the answer that is remembered is the answer of
  the turn, and it has passed the gate against tool-call syntax, however it was produced, whether by
  the cache, by an adaptation, by a clarification, by the native protocol or by the response pass.
\<close>

theorem turn_ends_committed:
  assumes "loop_run env cfg t = Some (t', None)" "\<not> tx_started t" "\<not> ts_committed (tx_turn t)"
  shows "ts_committed (tx_turn t') \<and> \<not> ss_recovery (tx_session t') \<and>
    ss_turns (tx_session t') = ss_turns (tx_session t) + (if ts_continuation (tx_turn t) then 1 else 2) \<and>
    (\<exists>s. ss_last_answer (tx_session t') = Some s \<and> \<not> response_has_tool_protocol (lp_response env) (Some s))"
  using assms
proof (cases rule: loop_run_ways)
  case kept
  have "\<not> response_has_tool_protocol (lp_response env) (Some (case ts_answer (tx_turn t') of Some s \<Rightarrow> s | None \<Rightarrow> []))"
    using kept(2) by (cases "ts_answer (tx_turn t')") (simp_all add: response_has_tool_protocol_def)
  then show ?thesis using kept(1,3) by simp
qed simp

section \<open>A concrete turn\<close>

text \<open>A continuation whose classifier says direct and simple, answered at the first attempt.\<close>

lemma fine_projects:
  assumes "frame_records v = Some (None, a, led)"
  obtains s' where "turn_project (\<lambda>_. Some ''x'') fine_project (empty_session\<lparr>ss_recovery := r, ss_journal_st := st\<rparr>) v = (s', None)"
proof -
  let ?wr = "\<lambda>_. Some ''x''" and ?s = "empty_session\<lparr>ss_recovery := r, ss_journal_st := st\<rparr>"
  obtain lnode where l: "ledger_node led = Some lnode" using ledger_node_some by blast
  have a: "append_turn ?wr (pp_assistant fine_project) ?s a = (?s\<lparr>ss_log := [a]\<rparr>, None)"
    by (simp add: append_turn_def remember_turn_def fine_project_def Let_def empty_session_def)
  obtain s3 where b: "ledger_append ?wr (pp_ledger fine_project) (?s\<lparr>ss_log := [a]\<rparr>) led = (s3, None)"
    using l by (simp add: ledger_append_def ledger_write_def fine_project_def Let_def stream_append_fine
      empty_session_def as_line_def needs_newline_def)
  obtain s' where c: "save_manifest (pp_manifest fine_project) (answered s3 a None led) = (s', None)"
    using fine_manifest by (metis prod.collapse)
  have f: "pp_fault fine_project = {}" by (simp add: fine_project_def Let_def)
  show thesis
    by (rule that [of s']) (use assms in \<open>simp add: turn_project_def then_do_def reach_point_def boundary_def a b c f\<close>)
qed

lemma fine_commits:
  assumes "commit_ready empty_session t a" "ts_continuation t" "\<not> ts_verified t"
  obtains s' where "turn_commit (\<lambda>_. Some ''x'') (fine_commit io_fine) empty_session t store a = (s', t\<lparr>ts_committed := True\<rparr>, None)"
proof -
  have same: "fst (Turn_Journal.verification_current f s t) = t" for f s
    using assms(3) by (simp add: Turn_Journal.verification_current_def)
  obtain lnode where l: "ledger_node (ts_led t) = Some lnode" using ledger_node_some by blast
  obtain v where v: "commit_frame empty_session t store a = Some v"
    using l assms(2)
    by (auto simp: commit_frame_def turn_frame_def turn_node_value xobj_put_def xobj_put_node_def xobject_def)
  have log: "staged_user empty_session t = None" using assms(2) by (simp add: staged_user_def)
  obtain st where wal: "wal_append True io_fine (ss_journal_st empty_session) ''x'' = (st, None)"
    by (simp add: wal_append_def stream_append_fine empty_session_def WAL_FRAME_MAX_def WAL_LOG_MAX_def)
  from commit_frame_records [OF v assms(1)] log have "frame_records (Some v) = Some (None, a\<lparr>tn_event := []\<rparr>, ts_led t)" by simp
  from fine_projects [OF this] obtain s1 where
    p: "turn_project (\<lambda>_. Some ''x'') fine_project (empty_session\<lparr>ss_recovery := True, ss_journal_st := st\<rparr>) (Some v) = (s1, None)" .
  show thesis
    by (rule that [of "s1\<lparr>ss_recovery := False\<rparr>"])
      (use v wal p in \<open>simp add: turn_commit_def same Let_def fine_commit_def boundary_def then_do_def reach_point_def turn_checkpoint_def
        split: option.split\<close>)
qed

definition plain_response :: answer_env where
  "plain_response = \<lparr>ae_pass = sample_pass (\<lambda>_. None), ae_cancel = False, ae_expired = False, ae_tools = True,
     ae_parse = (\<lambda>_. False), ae_known = (\<lambda>_ _. True), ae_up = (\<lambda>_. - 1)\<rparr>"

definition plain_once :: "nat \<Rightarrow> once_env" where
  "plain_once n = \<lparr>oe_prompt = (\<lambda>cap. Ok 10), oe_window = 100, oe_margin = 8, oe_validate = None,
     oe_reply = (\<lambda>cap. Ok (Some ''done'', 2))\<rparr>"

definition plain_env :: "(json_scalar + (string \<times> json_scalar) list) loop_env" where
  "plain_env =
     \<lparr>lp_refresh = (\<lambda>w. (w, None)), lp_sync = None, lp_cancelled = False, lp_expired = False, lp_slot = - 1, lp_now = 0,
      lp_pass = sample_pass (\<lambda>_. None), lp_query = None, lp_code = Ok None, lp_heuristic = (MODE_DIRECT, RTASK_CHAT),
      lp_probe = None, lp_adapter = - 1, lp_adapt = Err ERR_MODEL, lp_adapt_judge = ladder_judge 0, lp_hint = None,
      lp_cancel_route = False,
      lp_route = Ok (\<lparr>rp_class = CLASS_SIMPLE, rp_detail = DETAIL_NORMAL, rp_mode = MODE_DIRECT, rp_task = RTASK_CHAT\<rparr>, 0),
      lp_warned = False, lp_full = False, lp_up = (\<lambda>_. - 1), lp_down = (\<lambda>_. - 1), lp_router = 0, lp_clean = True,
      lp_tier = (\<lambda>_. []), lp_json = plain_json, lp_decisions = (\<lambda>_. sample_pass (\<lambda>_. None)), lp_calls = (\<lambda>_. sample_native),
      lp_assemble = None, lp_cancel_answer = False, lp_response = plain_response, lp_once = plain_once,
      lp_judges = ladder_judge, lp_cancel_commit = False, lp_end = 0, lp_elapsed = 5, lp_refresh_end = (\<lambda>w. (w, None)),
      lp_write = (\<lambda>_. Some ''x''), lp_commit = fine_commit io_fine\<rparr>"

definition plain_config :: turn_config where
  "plain_config = \<lparr>tg_answer = ladder_config\<lparr>aw_judge := JUDGE_OFF, aw_act := sample_actions\<lparr>ac_tools := False\<rparr>\<rparr>,
     tg_coding = False, tg_cache = True, tg_native = False, tg_usage = USAGE_AUTOMATE, tg_no_cache = False, tg_retry_up = False,
     tg_detail = DETAIL_AUTO\<rparr>"

definition plain_turn :: turn_exec where
  "plain_turn = \<lparr>tx_run = \<lparr>rn_ctl = sample_controller, rn_native = None, rn_detail = DETAIL_AUTO, rn_class = CLASS_SIMPLE, rn_slot = 0,
       rn_escalations = 0, rn_capped = False\<rparr>,
     tx_started = False, tx_turns_before = 0, tx_mode = MODE_DIRECT, tx_task = RTASK_CHAT\<rparr>"

lemma plain_answer: "answer_once (plain_once n) PHASE_RESPONSE 64 = Ok (Some ''done'', 2, 64)"
proof -
  have "answer_ceiling (plain_once n) 64 = Ok 64"
    by (subst answer_ceiling.simps) (simp add: plain_once_def physical_cap_def)
  then show ?thesis by (simp add: answer_once_def plain_once_def)
qed

lemma plain_gate: "\<not> response_has_tool_protocol plain_response (Some ''done'')"
  by code_simp

text \<open>The turn under way and as it reaches its commit.\<close>

definition plain_entry :: ledger_entry where
  "plain_entry = sample_entry\<lparr>le_id := sample_id, le_cache := ''off'', le_class := ''simple'', le_detail := ''normal'',
     le_mode := ''direct'', le_answer := 9, le_tier := ''none''\<rparr>"

definition plain_run :: "turn_phase \<Rightarrow> detail_level \<Rightarrow> ledger_entry \<Rightarrow> string option \<Rightarrow> turn_run" where
  "plain_run phase level led answer = \<lparr>rn_ctl = sample_controller\<lparr>ct_agent := sample_agent\<lparr>ag_phase := phase,
       ag_turn := sample_state\<lparr>ts_led := led, ts_answer := answer\<rparr>\<rparr>\<rparr>,
     rn_native = None, rn_detail = level, rn_class = CLASS_SIMPLE, rn_slot = - 1, rn_escalations = 0, rn_capped = False\<rparr>"

definition plain_state :: "turn_phase \<Rightarrow> detail_level \<Rightarrow> ledger_entry \<Rightarrow> string option \<Rightarrow> turn_exec" where
  "plain_state phase level led answer =
     \<lparr>tx_run = plain_run phase level led answer, tx_started = True, tx_turns_before = 0, tx_mode = MODE_DIRECT, tx_task = RTASK_CHAT\<rparr>"

lemmas plain_defs = plain_env_def plain_config_def plain_turn_def plain_state_def plain_run_def ladder_config_def
  sample_controller_def sample_agent_def sample_state_def

lemma plain_begins:
  "then_do (then_do (loop_begin plain_env plain_config plain_turn) (loop_ingest plain_env)) (loop_memory plain_env plain_config) =
    (plain_state PHASE_ACTION DETAIL_AUTO (sample_entry\<lparr>le_id := sample_id, le_cache := ''off''\<rparr>) None, None)"
  by (simp add: loop_begin_def loop_ingest_def loop_memory_def then_do_def Let_def over_defs plain_defs)
    (simp add: empty_session_def sample_entry_def)

lemma plain_uncached: "loop_cache plain_env plain_config (plain_state p l d a) = (plain_state p l d a, False)"
  by (simp add: loop_cache_def cache_bypassed_def plain_defs)

lemma plain_routes:
  "loop_route plain_env plain_config (plain_state PHASE_ACTION DETAIL_AUTO led None) =
    (plain_state PHASE_ACTION DETAIL_NORMAL (led\<lparr>le_class := ''simple'', le_detail := ''normal'', le_mode := ''direct''\<rparr>) None, None)"
proof -
  have "detail_cue (Some ''go'') = DETAIL_AUTO" by code_simp
  then show ?thesis
    by (simp add: loop_route_def loop_tier_def Let_def over_defs plain_defs user_detail_def detail_effective_def mode_name_def)
qed

lemma plain_acts: "loop_act plain_env plain_config (plain_state p l d a) = Some (plain_state p l d a, None)"
  by (simp add: loop_act_def plain_defs)

lemma plain_responds:
  "loop_respond plain_env plain_config (plain_state PHASE_ACTION DETAIL_NORMAL led None) =
    (plain_state PHASE_RESPONSE DETAIL_NORMAL (led\<lparr>le_answer := le_answer led + 2\<rparr>) (Some ''done''), None)"
proof -
  have gate: "\<not> response_has_tool_protocol plain_response (Some ''done'')" by (rule plain_gate)
  have answer: "answer_run plain_response plain_once ladder_judge cfg (plain_run PHASE_RESPONSE DETAIL_NORMAL led None) =
      (plain_run PHASE_RESPONSE DETAIL_NORMAL (led\<lparr>le_answer := le_answer led + 2\<rparr>) (Some ''done''), 0, None)"
    if "aw_judge cfg = JUDGE_OFF" "aw_normal cfg = 64" for cfg
    using that gate
    by (simp add: answer_run_def plain_run_def numeral_3_eq_3 judge_wanted_def plain_answer trim_capped_def charge_def ship_def
        on_ledger_def on_turn_def on_agent_def)
  have cfg: "aw_judge (answer_cfg plain_config t) = JUDGE_OFF" "aw_normal (answer_cfg plain_config t) = 64" for t
    by (simp_all add: answer_cfg_def plain_config_def ladder_config_def)
  have start: "over_agent (\<lambda>a. a\<lparr>ag_phase := PHASE_RESPONSE\<rparr>) (plain_state PHASE_ACTION DETAIL_NORMAL led None) =
      plain_state PHASE_RESPONSE DETAIL_NORMAL led None"
    by (simp add: over_defs plain_state_def plain_run_def)
  have fields: "\<not> ct_clarify (rn_ctl (plain_run p l d a))" "\<not> lp_cancel_answer plain_env"
    "\<not> needs_artifact (act_config plain_config (plain_state p l d a)) (rn_agent (plain_run p l d a))"
    "lp_response plain_env = plain_response" "lp_once plain_env = plain_once" "lp_judges plain_env = ladder_judge"
    "tx_run (plain_state p l d a) = plain_run p l d a" for p l d a
    by (simp_all add: plain_defs needs_artifact_def act_config_def)
  have finish: "over_ledger (\<lambda>l. l\<lparr>le_aux := le_aux l + 0\<rparr>) (over_run (\<lambda>_. plain_run p l d a) (plain_state p' l' d' a')) =
      plain_state p l d a" for p l d a p' l' d' a'
    by (simp add: over_defs plain_state_def plain_run_def)
  show ?thesis
    by (simp only: loop_respond_def fields start answer [OF cfg] finish Let_def prod.case if_False if_True disj_not1 simp_thms)
qed

lemma plain_clarifies:
  "loop_clarify plain_env (plain_state p l d a) = plain_state p l (d\<lparr>le_tier := ''none'', le_escalations := 0\<rparr>) a"
  by (simp add: loop_clarify_def Let_def over_defs plain_defs)

lemma plain_ready:
  "commit_ready empty_session (sample_state\<lparr>ts_led := plain_entry\<lparr>le_duration := 5\<rparr>, ts_answer := Some ''done''\<rparr>)
    (answer_turn env empty_session (plain_state PHASE_RESPONSE l (plain_entry\<lparr>le_duration := 5\<rparr>) (Some ''done'')))"
proof -
  have "0 \<le> rfc_year 0 \<and> rfc_year 0 \<le> 9999" unfolding rfc_year_def by code_simp
  moreover have "uuid_valid (Some sample_id)" "length sample_id = 36" by simp_all
  ultimately show ?thesis
    by (simp add: commit_ready_def staged_user_def answer_turn_def Let_def plain_state_def plain_run_def turn_ok_def ledger_ok_def
        plain_entry_def)
      (simp add: sample_state_def sample_entry_def empty_session_def sample_controller_def)
qed

lemma plain_commits:
  obtains t where "loop_commit plain_env (plain_state PHASE_RESPONSE l plain_entry (Some ''done'')) = (t, None)"
proof -
  let ?t = "plain_state PHASE_RESPONSE l (plain_entry\<lparr>le_duration := 5\<rparr>) (Some ''done'')"
  let ?a = "answer_turn plain_env empty_session ?t"
  have t: "over_ledger (\<lambda>l. l\<lparr>le_at := 0, le_duration := 5, le_capped := False\<rparr>) (plain_state PHASE_RESPONSE l plain_entry (Some ''done'')) = ?t"
    by (simp add: over_defs plain_state_def plain_run_def plain_entry_def sample_entry_def)
  have fields: "\<not> lp_cancel_commit plain_env" "lp_response plain_env = plain_response" "lp_end plain_env = 0" "lp_elapsed plain_env = 5"
    "lp_refresh_end plain_env = (\<lambda>w. (w, None))" "lp_write plain_env = (\<lambda>_. Some ''x'')" "lp_commit plain_env = fine_commit io_fine"
    "ts_answer (tx_turn (plain_state p l d a)) = a" "rn_capped (tx_run (plain_state p l d a)) = False"
    "tx_session (plain_state p l d a) = empty_session" "tx_turn (plain_state p l d a) = sample_state\<lparr>ts_led := d, ts_answer := a\<rparr>"
    "over_session (\<lambda>s. s\<lparr>ss_workspace := ss_workspace empty_session\<rparr>) (plain_state p l d a) = plain_state p l d a" for p l d a
    by (simp_all add: plain_defs over_defs)
  have x: "ts_continuation (sample_state\<lparr>ts_led := d, ts_answer := a\<rparr>)" "\<not> ts_verified (sample_state\<lparr>ts_led := d, ts_answer := a\<rparr>)" for d a
    by (simp_all add: sample_state_def)
  obtain s' where c: "turn_commit (\<lambda>_. Some ''x'') (fine_commit io_fine) empty_session
      (sample_state\<lparr>ts_led := plain_entry\<lparr>le_duration := 5\<rparr>, ts_answer := Some ''done''\<rparr>)
      (map_option wr_state (ws_store (ag_work (tx_agent ?t)))) ?a =
      (s', (sample_state\<lparr>ts_led := plain_entry\<lparr>le_duration := 5\<rparr>, ts_answer := Some ''done''\<rparr>)\<lparr>ts_committed := True\<rparr>, None)"
    by (rule fine_commits [OF plain_ready x])
  have "snd (loop_commit plain_env (plain_state PHASE_RESPONSE l plain_entry (Some ''done''))) = None"
    using c plain_gate by (simp add: loop_commit_def fields t Let_def)
  then show thesis using that by (metis prod.collapse)
qed

lemma plain_continues: "\<not> lp_cancel_route plain_env"
  by (simp add: plain_env_def)

lemma plain_runs:
  obtains t where "loop_run plain_env plain_config plain_turn = Some (t, None)"
proof -
  let ?l0 = "sample_entry\<lparr>le_id := sample_id, le_cache := ''off''\<rparr>"
  have l: "(?l0\<lparr>le_class := ''simple'', le_detail := ''normal'', le_mode := ''direct'', le_answer := 9, le_tier := ''none'',
      le_escalations := 0\<rparr>) = plain_entry" by (simp add: plain_entry_def sample_entry_def)
  have "loop_work plain_env plain_config (plain_state PHASE_ACTION DETAIL_AUTO ?l0 None) =
      Some (plain_state PHASE_RESPONSE DETAIL_NORMAL plain_entry (Some ''done''), None)"
    by (simp add: loop_work_def plain_routes plain_acts then_do_def plain_responds plain_clarifies l [symmetric]) (simp add: sample_entry_def)
  moreover obtain t where "loop_commit plain_env (plain_state PHASE_RESPONSE DETAIL_NORMAL plain_entry (Some ''done'')) = (t, None)"
    by (rule plain_commits)
  ultimately show thesis
    using that [of t] plain_continues by (simp add: loop_run_def plain_begins plain_uncached) (simp add: then_do_def)
qed

theorem turn_ends_committed_witness:
  "\<exists>t. loop_run plain_env plain_config plain_turn = Some (t, None) \<and> ts_committed (tx_turn t) \<and> ss_turns (tx_session t) = 1"
proof -
  obtain t where r: "loop_run plain_env plain_config plain_turn = Some (t, None)" by (rule plain_runs)
  have "\<not> tx_started plain_turn" "\<not> ts_committed (tx_turn plain_turn)" "ts_continuation (tx_turn plain_turn)"
    "ss_turns (tx_session plain_turn) = 0"
    by (simp_all add: plain_turn_def sample_controller_def sample_agent_def sample_state_def empty_session_def)
  with r turn_ends_committed [OF r] show ?thesis by auto
qed

end
