(* ===== verification/Scheduler.thy ===== *)
theory Scheduler
  imports Turn "HOL-Library.Multiset"
begin

text \<open>
  The session scheduler (\<^verbatim>\<open>src/worker.c\<close>) and the admission of a turn (\<^verbatim>\<open>submit_common\<close> of
  \<^verbatim>\<open>src/api.c\<close>): the bounded queue, the lanes that drain it, the end of a task with the rollback of an
  uncommitted turn, the shutdown, and the watchdog over a model call (\<^verbatim>\<open>src/generation.c\<close>).  A lock
  makes the code under it one step; threads are the interleaving of the steps.
\<close>

section \<open>The end of a task\<close>

record turn_result =
  rs_answer :: "string option"
  rs_turn :: nat
  rs_class :: string
  rs_detail :: string
  rs_tier :: string
  rs_cache :: string
  rs_capped :: bool
  rs_clarify :: bool
  rs_prompt :: nat
  rs_gen :: nat
  rs_saved :: nat
  rs_duration :: nat

definition result_of :: "turn_exec \<Rightarrow> turn_result" where
  "result_of t =
     (let l = ts_led (tx_turn t) in
      \<lparr>rs_answer = ts_answer (tx_turn t), rs_turn = le_turn l, rs_class = le_class l, rs_detail = le_detail l,
       rs_tier = le_tier l, rs_cache = le_cache l, rs_capped = rn_capped (tx_run t), rs_clarify = ct_clarify (rn_ctl (tx_run t)),
       rs_prompt = le_system l + le_memory l + le_catalog l + le_summary l + le_verbatim l + le_working l,
       rs_gen = le_decision l + le_answer l + le_aux l, rs_saved = le_saved_cache l + le_saved_digest l,
       rs_duration = le_duration l\<rparr>)"

text \<open>An uncommitted turn leaves no message behind.\<close>

definition roll_back :: "turn_exec \<Rightarrow> session \<Rightarrow> session" where
  "roll_back t s =
     (if tx_started t \<and> \<not> ts_committed (tx_turn t)
      then s\<lparr>ss_log := take (ts_log_before (tx_turn t)) (ss_log s), ss_turns := tx_turns_before t\<rparr> else s)"

definition task_finish ::
    "(xnode \<Rightarrow> string option) \<Rightarrow> journal_plan \<Rightarrow> turn_exec \<Rightarrow> asngn_err option \<Rightarrow> turn_exec \<times> asngn_err option \<times> turn_result" where
  "task_finish wr jp t verdict =
     (case turn_finished wr jp (tx_session t) (tx_turn t) verdict of
        (s, saved) \<Rightarrow>
          let s1 = (if saved \<noteq> None then s\<lparr>ss_recovery := True\<rparr> else s);
              t1 = over_agent (\<lambda>a. a\<lparr>ag_session := roll_back t s1, ag_turn := (ag_turn a)\<lparr>ts_answer := None\<rparr>\<rparr>) t
          in (t1, if saved \<noteq> None then saved else verdict, result_of t))"

section \<open>Tasks, lanes and the queue\<close>

record sched_task =
  sk_id :: nat
  sk_session :: nat
  sk_turn :: turn_exec
  sk_cancel :: bool

datatype lane = LANE_WAIT | LANE_BUSY sched_task | LANE_DONE sched_task "asngn_err option" | LANE_GONE

record session_slot =
  sl_session :: session
  sl_running :: "nat option"

abbreviation sl_busy :: "session_slot \<Rightarrow> bool" where
  "sl_busy slot \<equiv> sl_running slot \<noteq> None"

record completion =
  co_id :: nat
  co_verdict :: "asngn_err option"
  co_result :: turn_result
  co_taken :: bool

record scheduler =
  sd_stop :: bool
  sd_queue :: "sched_task list"
  sd_n :: nat
  sd_lanes :: "lane list"
  sd_slots :: "nat \<Rightarrow> session_slot"
  sd_accepted :: "nat list"
  sd_taken :: "nat list"
  sd_finished :: "completion list"

text \<open>What the rest of the engine and the system answer, by task.\<close>

record 'j sched_world =
  wd_capacity :: nat
  wd_write :: "xnode \<Rightarrow> string option"
  wd_now :: "nat \<Rightarrow> int"
  wd_started :: "nat \<Rightarrow> journal_plan"
  wd_finished :: "nat \<Rightarrow> journal_plan"
  wd_expired :: "nat \<Rightarrow> bool"
  wd_env :: "nat \<Rightarrow> 'j loop_env"
  wd_config :: "nat \<Rightarrow> turn_config"

definition set_slot :: "nat \<Rightarrow> (session_slot \<Rightarrow> session_slot) \<Rightarrow> scheduler \<Rightarrow> scheduler" where
  "set_slot k f d = d\<lparr>sd_slots := (sd_slots d)(k := f (sd_slots d k))\<rparr>"

section \<open>Admission\<close>

text \<open>Under the queue's lock: full or stopping, then the durable intent, then the queue.\<close>

definition worker_submit :: "'j sched_world \<Rightarrow> sched_task \<Rightarrow> scheduler \<Rightarrow> scheduler \<times> asngn_err option" where
  "worker_submit W task d =
     (if sd_stop d \<or> wd_capacity W \<le> sd_n d then (d, Some ERR_BUSY)
      else
        let k = sk_session task; x = tx_turn (sk_turn task) in
        (case turn_journal (wd_write W) (wd_started W (sk_id task)) (wd_now W (sk_id task)) (sl_session (sd_slots d k)) x ''started''
            (Some (ts_user x)) of
           (s, Some e) \<Rightarrow> (set_slot k (\<lambda>v. v\<lparr>sl_session := s\<rparr>) d, Some e)
         | (s, None) \<Rightarrow>
             ((set_slot k (\<lambda>v. v\<lparr>sl_session := s\<rparr>) d)\<lparr>sd_queue := sd_queue d @ [task], sd_n := Suc (sd_n d),
                sd_accepted := sd_accepted d @ [sk_id task]\<rparr>, None)))"

text \<open>
  The admission: busy or in recovery is refused, then the session is marked and the task submitted.
  The code marks the session under the session's lock and submits under the queue's lock; here the
  two are one step, which hides only interleavings that find the session already marked.  The copies
  of the session's mode and profile into the turn are part of the task as it is given.
\<close>

definition admitted :: "sched_task \<Rightarrow> sched_task" where
  "admitted task = task\<lparr>sk_turn := over_turn (\<lambda>x. x\<lparr>ts_work_revision :=
       (case ws_store (ag_work (tx_agent (sk_turn task))) of Some w \<Rightarrow> nat (wk_revision (wr_state w)) | None \<Rightarrow> 0)\<rparr>) (sk_turn task)\<rparr>"

definition submit_common :: "'j sched_world \<Rightarrow> sched_task \<Rightarrow> scheduler \<Rightarrow> scheduler \<times> asngn_err option" where
  "submit_common W task d =
     (let k = sk_session task; slot = sd_slots d k in
      if sl_busy slot \<or> ss_recovery (sl_session slot) then (d, Some ERR_BUSY)
      else
        (case worker_submit W (admitted task) (set_slot k (\<lambda>v. v\<lparr>sl_running := Some (sk_id task)\<rparr>) d) of
           (d1, Some e) \<Rightarrow> (set_slot k (\<lambda>v. v\<lparr>sl_running := None\<rparr>) d1, Some e)
         | (d1, None) \<Rightarrow> (d1, None)))"

lemma admitted_same [simp]:
  "sk_id (admitted task) = sk_id task" "sk_session (admitted task) = sk_session task" "sk_cancel (admitted task) = sk_cancel task"
  by (simp_all add: admitted_def)

section \<open>A lane\<close>

definition set_lane :: "nat \<Rightarrow> lane \<Rightarrow> scheduler \<Rightarrow> scheduler" where
  "set_lane i v d = d\<lparr>sd_lanes := (sd_lanes d)[i := v]\<rparr>"

text \<open>The head of the queue goes to the lane; a lane that finds the queue empty in a shutdown ends.\<close>

definition lane_take :: "nat \<Rightarrow> scheduler \<Rightarrow> scheduler option" where
  "lane_take i d =
     (if i < length (sd_lanes d) \<and> sd_lanes d ! i = LANE_WAIT then
        (case sd_queue d of
           [] \<Rightarrow> if sd_stop d then Some (set_lane i LANE_GONE d) else None
         | task # rest \<Rightarrow>
             Some (set_lane i (LANE_BUSY task) (d\<lparr>sd_queue := rest, sd_n := sd_n d - 1, sd_taken := sd_taken d @ [sk_id task]\<rparr>)))
      else None)"

definition run_task :: "'j sched_world \<Rightarrow> session \<Rightarrow> sched_task \<Rightarrow> (sched_task \<times> asngn_err option) option" where
  "run_task W s task =
     (let t = over_session (\<lambda>_. s) (sk_turn task) in
      if sk_cancel task then Some (task\<lparr>sk_turn := t\<rparr>, Some ERR_CANCELLED)
      else if wd_expired W (sk_id task) then Some (task\<lparr>sk_turn := t\<rparr>, Some ERR_TIMEOUT)
      else map_option (\<lambda>(t', e). (task\<lparr>sk_turn := t'\<rparr>, e)) (loop_run (wd_env W (sk_id task)) (wd_config W (sk_id task)) t))"

definition lane_run :: "'j sched_world \<Rightarrow> nat \<Rightarrow> scheduler \<Rightarrow> scheduler option" where
  "lane_run W i d =
     (if i < length (sd_lanes d) then
        (case sd_lanes d ! i of
           LANE_BUSY task \<Rightarrow>
             map_option (\<lambda>(task', e). set_lane i (LANE_DONE task' e)
                 (set_slot (sk_session task) (\<lambda>v. v\<lparr>sl_session := tx_session (sk_turn task')\<rparr>) d))
               (run_task W (sl_session (sd_slots d (sk_session task))) task)
         | _ \<Rightarrow> None)
      else None)"

text \<open>The outcome is journaled and the session freed before the task is published.\<close>

definition publish :: "'j sched_world \<Rightarrow> sched_task \<Rightarrow> asngn_err option \<Rightarrow> scheduler \<Rightarrow> scheduler" where
  "publish W task verdict d =
     (let k = sk_session task in
      case task_finish (wd_write W) (wd_finished W (sk_id task))
          (over_session (\<lambda>_. sl_session (sd_slots d k)) (sk_turn task)) verdict of
        (t, e, r) \<Rightarrow>
          (set_slot k (\<lambda>v. v\<lparr>sl_session := tx_session t, sl_running := None\<rparr>) d)
            \<lparr>sd_finished := sd_finished d @ [\<lparr>co_id = sk_id task, co_verdict = e, co_result = r, co_taken = False\<rparr>]\<rparr>)"

definition lane_finish :: "'j sched_world \<Rightarrow> nat \<Rightarrow> scheduler \<Rightarrow> scheduler option" where
  "lane_finish W i d =
     (if i < length (sd_lanes d) then
        (case sd_lanes d ! i of
           LANE_DONE task e \<Rightarrow> Some (set_lane i LANE_WAIT (publish W task e d))
         | _ \<Rightarrow> None)
      else None)"

section \<open>Waiting for a task\<close>

definition no_result :: turn_result where
  "no_result = \<lparr>rs_answer = None, rs_turn = 0, rs_class = [], rs_detail = [], rs_tier = [], rs_cache = [], rs_capped = False,
     rs_clarify = False, rs_prompt = 0, rs_gen = 0, rs_saved = 0, rs_duration = 0\<rparr>"

text \<open>A wait that times out; one that finds the task finished, whose result moves out exactly once.\<close>

definition task_wait :: "nat \<Rightarrow> turn_result \<Rightarrow> scheduler \<Rightarrow> scheduler \<times> turn_result \<times> asngn_err option" where
  "task_wait i out d =
     (case find (\<lambda>c. co_id c = i) (sd_finished d) of
        None \<Rightarrow> (d, out, Some ERR_BUSY)
      | Some c \<Rightarrow>
          (if co_taken c then d
           else d\<lparr>sd_finished := map (\<lambda>c. if co_id c = i then c\<lparr>co_result := no_result, co_taken := True\<rparr> else c) (sd_finished d)\<rparr>,
           co_result c, co_verdict c))"

section \<open>Cancelling and stopping\<close>

definition cancel_lane :: "lane \<Rightarrow> lane" where
  "cancel_lane v =
     (case v of
        LANE_BUSY task \<Rightarrow> LANE_BUSY (task\<lparr>sk_cancel := True\<rparr>)
      | _ \<Rightarrow> v)"

definition task_cancel :: "nat \<Rightarrow> scheduler \<Rightarrow> scheduler" where
  "task_cancel i d =
     (let flag = (\<lambda>task. if sk_id task = i then task\<lparr>sk_cancel := True\<rparr> else task) in
      d\<lparr>sd_queue := map flag (sd_queue d),
        sd_lanes := map (\<lambda>v. case v of LANE_BUSY task \<Rightarrow> LANE_BUSY (flag task) | _ \<Rightarrow> v) (sd_lanes d)\<rparr>)"

definition workers_stop :: "scheduler \<Rightarrow> scheduler" where
  "workers_stop d =
     d\<lparr>sd_stop := True, sd_queue := map (\<lambda>task. task\<lparr>sk_cancel := True\<rparr>) (sd_queue d), sd_lanes := map cancel_lane (sd_lanes d)\<rparr>"

text \<open>After the lanes are joined, whatever is still queued is finished as cancelled; the count of the
  queue is not touched any more.\<close>

definition drain_one :: "'j sched_world \<Rightarrow> scheduler \<Rightarrow> scheduler option" where
  "drain_one W d =
     (if sd_stop d \<and> list_all (\<lambda>v. v = LANE_GONE) (sd_lanes d) then
        (case sd_queue d of
           [] \<Rightarrow> None
         | task # rest \<Rightarrow> Some (publish W task (Some ERR_CANCELLED) (d\<lparr>sd_queue := rest, sd_taken := sd_taken d @ [sk_id task]\<rparr>)))
      else None)"

section \<open>Starting\<close>

record pool_model =
  pm_embedded :: bool
  pm_ram :: "64 word"
  pm_gpu :: int
  pm_vram :: "64 word"

definition local_ram :: "pool_model list \<Rightarrow> 64 word" where
  "local_ram ms = foldl (\<lambda>n m. if pm_embedded m then n + pm_ram m else n) 512 ms"

definition local_vram :: "pool_model list \<Rightarrow> 64 word" where
  "local_vram ms =
     foldl (\<lambda>n m. if pm_embedded m \<and> pm_gpu m \<noteq> 0 then n + (if pm_vram m \<noteq> 0 then pm_vram m else pm_ram m + 512) else n) 0 ms"

text \<open>One lane fewer than fit beside the coordinator; None is a division by zero, which the sum of the
  models' memory meets when it wraps to zero.\<close>

definition scheduler_capacity :: "int \<Rightarrow> int \<Rightarrow> int \<Rightarrow> pool_model list \<Rightarrow> 64 word option" where
  "scheduler_capacity workers max_ram max_vram ms =
     (let w = word_of_int workers :: 64 word;
          n = (if w < 1 then 1 else if 8 < w then 8 else w);
          ram = local_ram ms; vram = local_vram ms
      in if \<not> list_ex pm_embedded ms then Some n
         else if max_ram \<le> 0 \<or> vram \<noteq> 0 \<and> max_vram \<le> 0 then Some 1
         else if ram = 0 then None
         else
           let slots = word_of_int max_ram div ram in
           if slots < 2 then Some 1
           else
             let n1 = (if slots - 1 < n then slots - 1 else n) in
             if vram = 0 then Some n1
             else
               let slots2 = word_of_int max_vram div vram in
               if slots2 < 2 then Some 1 else Some (if slots2 - 1 < n1 then slots2 - 1 else n1))"

definition first_error :: "asngn_err option list \<Rightarrow> asngn_err option" where
  "first_error es = (case find (\<lambda>e. e \<noteq> None) es of Some e \<Rightarrow> e | None \<Rightarrow> None)"

definition workers_start ::
    "int \<Rightarrow> int \<Rightarrow> nat \<Rightarrow> (nat \<Rightarrow> asngn_err option) \<Rightarrow> (nat \<Rightarrow> asngn_err option) \<Rightarrow> asngn_err option \<Rightarrow> lane list outcome" where
  "workers_start workers queue lanes create thread background =
     (if workers < 1 \<or> 8 < workers \<or> queue < 1 \<or> 65536 < queue then Err ERR_CONFIG
      else case first_error ((if lanes = 1 then [] else map create [0..<lanes]) @ map thread [0..<lanes] @ [background]) of
        Some e \<Rightarrow> Err e
      | None \<Rightarrow> Ok (replicate lanes LANE_WAIT))"

section \<open>Steps\<close>

text \<open>A step of a worker, or of a client.\<close>

inductive work_step :: "'j sched_world \<Rightarrow> scheduler \<Rightarrow> scheduler \<Rightarrow> bool" for W where
  take: "lane_take i d = Some d' \<Longrightarrow> work_step W d d'"
| run: "lane_run W i d = Some d' \<Longrightarrow> work_step W d d'"
| finish: "lane_finish W i d = Some d' \<Longrightarrow> work_step W d d'"
| drain: "drain_one W d = Some d' \<Longrightarrow> work_step W d d'"

inductive sched_step :: "'j sched_world \<Rightarrow> scheduler \<Rightarrow> scheduler \<Rightarrow> bool" for W where
  work: "work_step W d d' \<Longrightarrow> sched_step W d d'"
| submit: "submit_common W task d = (d', e) \<Longrightarrow> sk_id task \<notin> set (sd_accepted d) \<Longrightarrow> \<not> tx_started (sk_turn task) \<Longrightarrow>
    \<not> ts_committed (tx_turn (sk_turn task)) \<Longrightarrow> sched_step W d d'"
| wait: "task_wait i out d = (d', r, e) \<Longrightarrow> sched_step W d d'"
| cancel: "sched_step W d (task_cancel i d)"
| stop: "sched_step W d (workers_stop d)"

definition started :: "scheduler \<Rightarrow> bool" where
  "started d \<longleftrightarrow> \<not> sd_stop d \<and> sd_queue d = [] \<and> sd_n d = 0 \<and> sd_lanes d \<noteq> [] \<and> list_all (\<lambda>v. v = LANE_WAIT) (sd_lanes d) \<and>
     (\<forall>k. sl_running (sd_slots d k) = None) \<and> sd_accepted d = [] \<and> sd_taken d = [] \<and> sd_finished d = []"

inductive sched_reachable :: "'j sched_world \<Rightarrow> scheduler \<Rightarrow> bool" for W where
  start: "started d \<Longrightarrow> sched_reachable W d"
| step: "sched_reachable W d \<Longrightarrow> sched_step W d d' \<Longrightarrow> sched_reachable W d'"

section \<open>Where a task is\<close>

definition key :: "sched_task \<Rightarrow> nat \<times> nat" where
  "key task = (sk_id task, sk_session task)"

fun lane_task :: "lane \<Rightarrow> sched_task list" where
  "lane_task LANE_WAIT = []"
| "lane_task (LANE_BUSY task) = [task]"
| "lane_task (LANE_DONE task e) = [task]"
| "lane_task LANE_GONE = []"

definition lane_keys :: "lane list \<Rightarrow> (nat \<times> nat) list" where
  "lane_keys vs = concat (map (\<lambda>v. map key (lane_task v)) vs)"

abbreviation queue_keys :: "scheduler \<Rightarrow> (nat \<times> nat) list" where
  "queue_keys d \<equiv> map key (sd_queue d)"

definition in_flight :: "scheduler \<Rightarrow> (nat \<times> nat) list" where
  "in_flight d = queue_keys d @ lane_keys (sd_lanes d)"

lemma lane_keys_update:
  assumes "i < length vs"
  shows "mset (lane_keys (vs[i := v])) + mset (map key (lane_task (vs ! i))) = mset (lane_keys vs) + mset (map key (lane_task v))"
proof -
  have "vs = take i vs @ vs ! i # drop (Suc i) vs" by (rule id_take_nth_drop [OF assms])
  then have "mset (lane_keys vs) = mset (lane_keys (take i vs)) + mset (map key (lane_task (vs ! i))) + mset (lane_keys (drop (Suc i) vs))"
    by (metis (no_types, lifting) add.assoc concat.simps(2) concat_append lane_keys_def list.simps(9) map_append mset_append)
  moreover have "mset (lane_keys (vs[i := v])) =
      mset (lane_keys (take i vs)) + mset (map key (lane_task v)) + mset (lane_keys (drop (Suc i) vs))"
    using assms by (simp add: upd_conv_take_nth_drop lane_keys_def)
  ultimately show ?thesis by simp
qed

definition sched_ok :: "'j sched_world \<Rightarrow> scheduler \<Rightarrow> bool" where
  "sched_ok W d \<longleftrightarrow>
     sd_lanes d \<noteq> [] \<and> sd_n d = length (sd_queue d) \<and> length (sd_queue d) \<le> wd_capacity W \<and>
     sd_accepted d = sd_taken d @ map fst (queue_keys d) \<and> distinct (sd_accepted d) \<and>
     mset (sd_taken d) = mset (map fst (lane_keys (sd_lanes d))) + mset (map co_id (sd_finished d)) \<and>
     (\<forall>i k. (i, k) \<in> set (in_flight d) \<longleftrightarrow> sl_running (sd_slots d k) = Some i) \<and>
     (LANE_GONE \<in> set (sd_lanes d) \<longrightarrow> sd_stop d \<and> sd_queue d = []) \<and>
     (sd_stop d \<longrightarrow> list_all sk_cancel (sd_queue d))"

lemma sched_okD:
  assumes "sched_ok W d"
  shows "sd_lanes d \<noteq> []" "sd_n d = length (sd_queue d)" "length (sd_queue d) \<le> wd_capacity W"
    "sd_accepted d = sd_taken d @ map fst (queue_keys d)" "distinct (sd_accepted d)"
    "mset (sd_taken d) = mset (map fst (lane_keys (sd_lanes d))) + mset (map co_id (sd_finished d))"
    "\<forall>i k. (i, k) \<in> set (in_flight d) \<longleftrightarrow> sl_running (sd_slots d k) = Some i"
    "LANE_GONE \<in> set (sd_lanes d) \<longrightarrow> sd_stop d \<and> sd_queue d = []" "sd_stop d \<longrightarrow> list_all sk_cancel (sd_queue d)"
  using assms unfolding sched_ok_def by blast+

lemma started_ok: "started d \<Longrightarrow> sched_ok W d"
proof -
  assume "started d"
  moreover then have "lane_keys (sd_lanes d) = []" by (auto simp: started_def lane_keys_def list_all_iff)
  ultimately show ?thesis by (auto simp: started_def sched_ok_def in_flight_def list_all_iff)
qed

text \<open>The ids of the tasks in flight are distinct from each other.\<close>

lemma in_flight_distinct:
  assumes "sched_ok W d"
  shows "distinct (map fst (in_flight d)) \<and> set (map co_id (sd_finished d)) \<inter> set (map fst (in_flight d)) = {} \<and>
    distinct (map co_id (sd_finished d))"
proof -
  have "mset (sd_accepted d) = mset (map fst (in_flight d)) + mset (map co_id (sd_finished d))"
    using assms by (simp add: sched_ok_def in_flight_def)
  then have "mset (sd_accepted d) = mset (map fst (in_flight d) @ map co_id (sd_finished d))" by simp
  then have "distinct (map fst (in_flight d) @ map co_id (sd_finished d))"
    using assms mset_eq_imp_distinct_iff unfolding sched_ok_def by blast
  then show ?thesis by auto
qed

text \<open>What the invariant reads of a state.\<close>

lemma sched_ok_cong:
  assumes ok: "sched_ok W d" and keys: "queue_keys d' = queue_keys d" "mset (lane_keys (sd_lanes d')) = mset (lane_keys (sd_lanes d))"
    and same: "\<And>k. sl_running (sd_slots d' k) = sl_running (sd_slots d k)" "sd_n d' = sd_n d" "sd_accepted d' = sd_accepted d"
      "sd_taken d' = sd_taken d" "map co_id (sd_finished d') = map co_id (sd_finished d)" "sd_lanes d' \<noteq> []"
    and gone: "LANE_GONE \<in> set (sd_lanes d') \<Longrightarrow> sd_stop d' \<and> sd_queue d' = []"
    and flags: "sd_stop d' \<Longrightarrow> list_all sk_cancel (sd_queue d')"
  shows "sched_ok W d'"
proof -
  have len: "length (sd_queue d') = length (sd_queue d)" using arg_cong [OF keys(1), of length] by simp
  have "set (lane_keys (sd_lanes d')) = set (lane_keys (sd_lanes d))" by (metis keys(2) set_mset_mset)
  then have flight: "set (in_flight d') = set (in_flight d)" using keys(1) unfolding in_flight_def by simp
  have fst: "mset (map fst (lane_keys (sd_lanes d'))) = mset (map fst (lane_keys (sd_lanes d)))" by (simp add: keys(2))
  show ?thesis using ok gone flags unfolding sched_ok_def keys(1) same(1-5) len flight fst
    by (intro conjI same(6)) (elim conjE, assumption | blast)+
qed

lemma stop_ok:
  assumes ok: "sched_ok W d" shows "sched_ok W (workers_stop d)"
proof (rule sched_ok_cong [OF ok])
  have "key \<circ> (\<lambda>task. task\<lparr>sk_cancel := True\<rparr>) = key" by (auto simp: key_def)
  then show "queue_keys (workers_stop d) = queue_keys d" by (simp add: workers_stop_def)
  have "map key (lane_task (cancel_lane v)) = map key (lane_task v)" for v
    by (cases v) (simp_all add: cancel_lane_def key_def)
  then show "mset (lane_keys (sd_lanes (workers_stop d))) = mset (lane_keys (sd_lanes d))"
    by (simp add: workers_stop_def lane_keys_def comp_def)
  have "cancel_lane v = LANE_GONE \<Longrightarrow> v = LANE_GONE" for v by (cases v) (simp_all add: cancel_lane_def)
  then show "sd_stop (workers_stop d) \<and> sd_queue (workers_stop d) = []" if "LANE_GONE \<in> set (sd_lanes (workers_stop d))"
    using that ok by (auto simp: workers_stop_def sched_ok_def dest: sym)
  show "sd_lanes (workers_stop d) \<noteq> []" using ok by (simp add: workers_stop_def sched_ok_def)
qed (simp_all add: workers_stop_def list_all_iff)

lemma cancel_ok: "sched_ok W d \<Longrightarrow> sched_ok W (task_cancel i d)"
proof -
  assume ok: "sched_ok W d"
  let ?flag = "\<lambda>task. if sk_id task = i then task\<lparr>sk_cancel := True\<rparr> else task"
  let ?lane = "\<lambda>v. case v of LANE_BUSY task \<Rightarrow> LANE_BUSY (?flag task) | _ \<Rightarrow> v"
  have f: "key (?flag task) = key task" for task by (simp add: key_def)
  show ?thesis
  proof (rule sched_ok_cong [OF ok])
    show "queue_keys (task_cancel i d) = queue_keys d" by (simp add: task_cancel_def Let_def f comp_def)
    have "map key (lane_task (?lane v)) = map key (lane_task v)" for v by (cases v) (simp_all add: key_def)
    then show "mset (lane_keys (sd_lanes (task_cancel i d))) = mset (lane_keys (sd_lanes d))"
      by (simp add: task_cancel_def lane_keys_def comp_def Let_def)
    have "?lane v = LANE_GONE \<Longrightarrow> v = LANE_GONE" for v by (cases v) simp_all
    then show "sd_stop (task_cancel i d) \<and> sd_queue (task_cancel i d) = []" if "LANE_GONE \<in> set (sd_lanes (task_cancel i d))"
      using that ok by (auto simp: task_cancel_def Let_def sched_ok_def dest: sym)
    show "sd_lanes (task_cancel i d) \<noteq> []" using ok by (simp add: task_cancel_def Let_def sched_ok_def)
    show "list_all sk_cancel (sd_queue (task_cancel i d))" if "sd_stop (task_cancel i d)"
      using that ok by (auto simp: task_cancel_def Let_def sched_ok_def list_all_iff)
  qed (simp_all add: task_cancel_def Let_def)
qed

lemma wait_ok:
  assumes "task_wait i out d = (d', r, e)" "sched_ok W d"
  shows "sched_ok W d'"
  using assms(1) sched_okD [OF assms(2)]
  by (intro sched_ok_cong [OF assms(2)]) (auto simp: task_wait_def comp_def split: option.splits if_splits)

lemma lane_gone_update: "LANE_GONE \<in> set (vs[i := v]) \<Longrightarrow> v \<noteq> LANE_GONE \<Longrightarrow> LANE_GONE \<in> set vs"
  using set_update_subset_insert [of vs i v] by auto

lemma take_ok:
  assumes "lane_take i d = Some d'" "sched_ok W d"
  shows "sched_ok W d'"
proof -
  have i: "i < length (sd_lanes d)" "sd_lanes d ! i = LANE_WAIT" using assms(1) by (auto simp: lane_take_def split: if_splits)
  show ?thesis
  proof (cases "sd_queue d")
    case Nil
    then have d': "d' = set_lane i LANE_GONE d" "sd_stop d" using assms(1) i by (auto simp: lane_take_def split: if_splits)
    show ?thesis
    proof (rule sched_ok_cong [OF assms(2)])
      show "mset (lane_keys (sd_lanes d')) = mset (lane_keys (sd_lanes d))"
        using lane_keys_update [OF i(1), of LANE_GONE] i(2) by (simp add: d' set_lane_def)
    qed (use d' Nil i(1) in \<open>auto simp: set_lane_def\<close>)
  next
    case (Cons task rest)
    then have d': "d' = set_lane i (LANE_BUSY task) (d\<lparr>sd_queue := rest, sd_n := sd_n d - 1, sd_taken := sd_taken d @ [sk_id task]\<rparr>)"
      using assms(1) i by (auto simp: lane_take_def split: if_splits)
    have keys: "mset (lane_keys (sd_lanes d')) = add_mset (key task) (mset (lane_keys (sd_lanes d)))"
      using lane_keys_update [OF i(1), of "LANE_BUSY task"] i(2) by (simp add: d' set_lane_def)
    have fst: "mset (map fst (lane_keys (sd_lanes d'))) = add_mset (sk_id task) (mset (map fst (lane_keys (sd_lanes d))))"
      by (simp add: keys key_def)
    have "set (lane_keys (sd_lanes d')) = insert (key task) (set (lane_keys (sd_lanes d)))"
      using arg_cong [OF keys, of set_mset] by simp
    then have flight: "set (in_flight d') = set (in_flight d)" using Cons by (auto simp: in_flight_def d' set_lane_def)
    have "LANE_GONE \<notin> set (sd_lanes d)" using assms(2) Cons by (auto simp: sched_ok_def)
    then have gone: "LANE_GONE \<notin> set (sd_lanes d')" using lane_gone_update [of "sd_lanes d" i "LANE_BUSY task"] by (auto simp: d' set_lane_def)
    have same: "sd_queue d' = rest" "sd_n d' = sd_n d - 1" "sd_accepted d' = sd_accepted d" "sd_taken d' = sd_taken d @ [sk_id task]"
      "sd_finished d' = sd_finished d" "sd_stop d' = sd_stop d" "sd_slots d' = sd_slots d" "sd_lanes d' \<noteq> []"
      using i(1) by (auto simp: d' set_lane_def)
    have acc: "distinct (sd_accepted d)" using assms(2) unfolding sched_ok_def by (elim conjE)
    have "sd_accepted d = sd_taken d @ map fst (map key (task # rest))" using assms(2) unfolding sched_ok_def Cons by (elim conjE)
    then have ids: "sd_accepted d = (sd_taken d @ [sk_id task]) @ map fst (map key rest)" by (simp add: key_def)
    have "mset (sd_taken d) = mset (map fst (lane_keys (sd_lanes d))) + mset (map co_id (sd_finished d))"
      using assms(2) unfolding sched_ok_def by (elim conjE)
    then have took: "mset (sd_taken d @ [sk_id task]) =
        add_mset (sk_id task) (mset (map fst (lane_keys (sd_lanes d)))) + mset (map co_id (sd_finished d))" by simp
    have run: "\<forall>i k. (i, k) \<in> set (in_flight d) \<longleftrightarrow> sl_running (sd_slots d k) = Some i"
      using assms(2) unfolding sched_ok_def by (elim conjE)
    have ok: "sd_n d = Suc (length rest)" "Suc (length rest) \<le> wd_capacity W" "sd_stop d \<Longrightarrow> list_all sk_cancel rest"
      using assms(2) unfolding sched_ok_def Cons by simp_all
    have "LANE_GONE \<in> set (sd_lanes d') \<longrightarrow> sd_stop d \<and> rest = []" using gone by blast
    moreover have "sd_n d - 1 = length rest \<and> length rest \<le> wd_capacity W" using ok(1,2) by simp
    ultimately show ?thesis unfolding sched_ok_def same flight fst using acc ids took run ok(3) same(8) by blast
  qed
qed

lemma run_key: "run_task W s task = Some (task', e) \<Longrightarrow> key task' = key task"
  by (auto simp: run_task_def Let_def key_def split: if_splits)

lemma run_ok:
  assumes "lane_run W i d = Some d'" "sched_ok W d"
  shows "sched_ok W d'"
proof -
  obtain task task' e where i: "i < length (sd_lanes d)" "sd_lanes d ! i = LANE_BUSY task"
    "run_task W (sl_session (sd_slots d (sk_session task))) task = Some (task', e)"
    "d' = set_lane i (LANE_DONE task' e) (set_slot (sk_session task) (\<lambda>v. v\<lparr>sl_session := tx_session (sk_turn task')\<rparr>) d)"
    using assms(1) by (auto simp: lane_run_def split: if_splits lane.splits)
  have lanes: "sd_lanes d' = (sd_lanes d)[i := LANE_DONE task' e]" by (simp add: i(4) set_lane_def set_slot_def)
  show ?thesis
  proof (rule sched_ok_cong [OF assms(2)])
    show "mset (lane_keys (sd_lanes d')) = mset (lane_keys (sd_lanes d))"
      using lane_keys_update [OF i(1), of "LANE_DONE task' e"] i(2) run_key [OF i(3)] by (simp add: lanes)
    show "sd_stop d' \<and> sd_queue d' = []" if "LANE_GONE \<in> set (sd_lanes d')"
    proof -
      have "LANE_GONE \<in> set (sd_lanes d)" using that unfolding lanes by (rule lane_gone_update) simp
      then show ?thesis using assms(2) by (simp add: sched_ok_def i(4) set_lane_def set_slot_def)
    qed
  qed (use i(1) assms(2) in \<open>auto simp: i(4) set_lane_def set_slot_def sched_ok_def\<close>)
qed

lemma publish_fields:
  "sd_stop (publish W task v d) = sd_stop d" "sd_queue (publish W task v d) = sd_queue d" "sd_n (publish W task v d) = sd_n d"
  "sd_lanes (publish W task v d) = sd_lanes d" "sd_accepted (publish W task v d) = sd_accepted d"
  "sd_taken (publish W task v d) = sd_taken d"
  "sl_running (sd_slots (publish W task v d) k) = (if k = sk_session task then None else sl_running (sd_slots d k))"
  "map co_id (sd_finished (publish W task v d)) = map co_id (sd_finished d) @ [sk_id task]"
  by (simp_all add: publish_def Let_def set_slot_def split: prod.splits)

lemma finish_ok:
  assumes "lane_finish W i d = Some d'" "sched_ok W d"
  shows "sched_ok W d'"
proof -
  obtain task e where i: "i < length (sd_lanes d)" "sd_lanes d ! i = LANE_DONE task e"
    "d' = set_lane i LANE_WAIT (publish W task e d)"
    using assms(1) by (auto simp: lane_finish_def split: if_splits lane.splits)
  let ?L = "lane_keys (sd_lanes d)" and ?L' = "lane_keys (sd_lanes d')"
  have keys: "mset ?L = add_mset (key task) (mset ?L')"
    using lane_keys_update [OF i(1), of LANE_WAIT] i(2) by (simp add: i(3) set_lane_def publish_fields)
  have same: "sd_queue d' = sd_queue d" "sd_n d' = sd_n d" "sd_accepted d' = sd_accepted d" "sd_taken d' = sd_taken d"
    "sd_stop d' = sd_stop d" "sd_lanes d' \<noteq> []"
    "\<And>k. sl_running (sd_slots d' k) = (if k = sk_session task then None else sl_running (sd_slots d k))"
    "map co_id (sd_finished d') = map co_id (sd_finished d) @ [sk_id task]"
    using i(1) by (auto simp: i(3) set_lane_def publish_fields)
  have run: "(j, k) \<in> set (in_flight d) \<longleftrightarrow> sl_running (sd_slots d k) = Some j" for j k
    using assms(2) by (simp add: sched_ok_def)
  have "mset (in_flight d) = add_mset (key task) (mset (in_flight d'))" by (simp add: in_flight_def same(1) keys)
  then have whole: "mset (in_flight d) = mset (key task # in_flight d')" by simp
  then have split: "set (in_flight d) = insert (key task) (set (in_flight d'))" by (metis list.simps(15) set_mset_mset)
  have "mset (map fst (in_flight d)) = mset (map fst (key task # in_flight d'))" by (simp only: mset_map whole)
  then have "distinct (map fst (key task # in_flight d'))"
    using in_flight_distinct [OF assms(2)] mset_eq_imp_distinct_iff by blast
  then have notin: "key task \<notin> set (in_flight d')" by force
  have run': "(j, k) \<in> set (in_flight d') \<longleftrightarrow> sl_running (sd_slots d' k) = Some j" for j k
  proof (cases "k = sk_session task")
    case True
    have "sl_running (sd_slots d k) = Some (sk_id task)" using run [of "sk_id task" k] split True by (simp add: key_def)
    then show ?thesis using run [of j k] split notin True by (auto simp: same(7) key_def)
  next
    case False
    then show ?thesis using run [of j k] split by (auto simp: same(7) key_def)
  qed
  have acc: "distinct (sd_accepted d)" "sd_accepted d = sd_taken d @ map fst (queue_keys d)"
    "mset (sd_taken d) = mset (map fst ?L) + mset (map co_id (sd_finished d))"
    by (rule sched_okD [OF assms(2)])+
  have took: "mset (sd_taken d) = mset (map fst ?L') + mset (map co_id (sd_finished d'))"
    using acc(3) by (simp add: keys same(8) key_def del: map_map)
  have gone: "LANE_GONE \<in> set (sd_lanes d') \<longrightarrow> sd_stop d \<and> sd_queue d = []"
    using lane_gone_update [of "sd_lanes d" i LANE_WAIT] assms(2) by (auto simp: i(3) set_lane_def publish_fields sched_ok_def)
  have rest: "sd_n d = length (sd_queue d)" "length (sd_queue d) \<le> wd_capacity W" "sd_stop d \<longrightarrow> list_all sk_cancel (sd_queue d)"
    using assms(2) by (simp_all add: sched_ok_def)
  show ?thesis unfolding sched_ok_def same(1-5) using acc(1,2) took run' gone rest same(6) by blast
qed

lemma submit_ok:
  assumes "submit_common W task d = (d', e)" "sk_id task \<notin> set (sd_accepted d)" "sched_ok W d"
  shows "sched_ok W d'"
proof (cases e)
  case (Some err)
  then have same: "sd_queue d' = sd_queue d" "sd_n d' = sd_n d" "sd_accepted d' = sd_accepted d" "sd_taken d' = sd_taken d"
    "sd_stop d' = sd_stop d" "sd_lanes d' = sd_lanes d" "sd_finished d' = sd_finished d"
    "\<And>k. sl_running (sd_slots d' k) = sl_running (sd_slots d k)"
    using assms(1) by (auto simp: submit_common_def worker_submit_def Let_def set_slot_def split: if_splits prod.splits option.splits)
  show ?thesis
    using assms(3) by (intro sched_ok_cong [OF assms(3)]) (simp_all add: same sched_ok_def)
next
  case None
  let ?k = "sk_session task"
  have same: "sd_queue d' = sd_queue d @ [admitted task]" "sd_n d' = Suc (sd_n d)" "sd_accepted d' = sd_accepted d @ [sk_id task]"
    "sd_taken d' = sd_taken d" "\<not> sd_stop d" "sd_stop d' = sd_stop d" "sd_lanes d' = sd_lanes d" "sd_finished d' = sd_finished d"
    "\<And>k. sl_running (sd_slots d' k) = (if k = ?k then Some (sk_id task) else sl_running (sd_slots d k))"
    "sd_n d < wd_capacity W" "sl_running (sd_slots d ?k) = None"
    using assms(1) None
    by (auto simp: submit_common_def worker_submit_def Let_def set_slot_def split: if_splits prod.splits option.splits)
  have run: "(j, k) \<in> set (in_flight d) \<longleftrightarrow> sl_running (sd_slots d k) = Some j" for j k
    using assms(3) by (simp add: sched_ok_def)
  have flight: "set (in_flight d') = insert (key task) (set (in_flight d))" by (auto simp: in_flight_def same key_def)
  have run': "\<forall>j k. (j, k) \<in> set (in_flight d') \<longleftrightarrow> sl_running (sd_slots d' k) = Some j"
    using run same(9,11) by (auto simp: flight key_def)
  have acc: "distinct (sd_accepted d)" "sd_accepted d = sd_taken d @ map fst (queue_keys d)"
    "mset (sd_taken d) = mset (map fst (lane_keys (sd_lanes d))) + mset (map co_id (sd_finished d))" "sd_lanes d \<noteq> []"
    by (rule sched_okD [OF assms(3)])+
  have acc': "distinct (sd_accepted d @ [sk_id task])" using acc(1) assms(2) by simp
  have ids: "sd_accepted d @ [sk_id task] = sd_taken d @ map fst (map key (sd_queue d @ [admitted task]))" by (simp add: acc(2) key_def)
  have n: "Suc (sd_n d) = length (sd_queue d @ [admitted task])" "length (sd_queue d @ [admitted task]) \<le> wd_capacity W"
    "LANE_GONE \<notin> set (sd_lanes d)"
    using assms(3) same(5,10) by (auto simp: sched_ok_def)
  show ?thesis unfolding sched_ok_def same(1-4,6-8) using acc(3,4) acc' ids run' n same(5) by blast
qed

lemma drain_ok: "sched_ok W d \<Longrightarrow> drain_one W d = None"
  by (auto simp: drain_one_def sched_ok_def list_all_iff neq_Nil_conv split: list.splits)

lemma sched_reachable_ok: "sched_reachable W d \<Longrightarrow> sched_ok W d"
proof (induction rule: sched_reachable.induct)
  case (start d)
  then show ?case by (rule started_ok)
next
  case (step d d')
  from step.hyps(2) show ?case
  proof cases
    case work
    then show ?thesis
      by cases (use step.IH in \<open>auto dest: take_ok run_ok finish_ok simp: drain_ok\<close>)
  qed (use step.IH in \<open>auto intro: submit_ok cancel_ok stop_ok wait_ok\<close>)
qed

section \<open>Admission order and the bound of the queue\<close>

text \<open>C17. In every reachable state of the scheduler its count is the length of the queue, the queue is
  within the configured capacity, and the tasks taken so far followed by the tasks queued are the accepted
  ones in the order of their admission.\<close>

theorem queue_bounded_fifo:
  assumes "sched_reachable W d"
  shows "sd_n d = length (sd_queue d) \<and> length (sd_queue d) \<le> wd_capacity W \<and> sd_accepted d = sd_taken d @ map sk_id (sd_queue d)"
proof -
  have "map fst (queue_keys d) = map sk_id (sd_queue d)" by (simp add: key_def comp_def)
  then show ?thesis using sched_okD(2-4) [OF sched_reachable_ok [OF assms]] by simp
qed

text \<open>C16. In every reachable state no session has two tasks queued or running, a session is busy exactly
  when one of its tasks is, and every accepted task is at one place: queued, on one lane, or finished once.\<close>

theorem one_turn_per_session:
  assumes "sched_reachable W d"
  shows "distinct (map snd (in_flight d)) \<and> (\<forall>k. sl_busy (sd_slots d k) \<longleftrightarrow> k \<in> snd ` set (in_flight d)) \<and>
    distinct (map fst (in_flight d) @ map co_id (sd_finished d)) \<and>
    set (sd_accepted d) = set (map fst (in_flight d) @ map co_id (sd_finished d))"
proof -
  note ok = sched_reachable_ok [OF assms]
  have run: "(i, k) \<in> set (in_flight d) \<longleftrightarrow> sl_running (sd_slots d k) = Some i" for i k using sched_okD(7) [OF ok] by blast
  then have "inj_on snd (set (in_flight d))" by (auto simp: inj_on_def)
  moreover have "distinct (in_flight d)" using in_flight_distinct [OF ok] by (simp add: distinct_map)
  moreover have "mset (sd_accepted d) = mset (map fst (in_flight d) @ map co_id (sd_finished d))"
    using sched_okD(4,6) [OF ok] by (simp add: in_flight_def)
  then have "set (sd_accepted d) = set (map fst (in_flight d) @ map co_id (sd_finished d))" by (metis set_mset_mset)
  moreover have "sl_busy (sd_slots d k) \<longleftrightarrow> k \<in> snd ` set (in_flight d)" for k
    using run [of _ k] by (cases "sl_running (sd_slots d k)") force+
  ultimately show ?thesis using in_flight_distinct [OF ok] by (auto simp: distinct_map)
qed

section \<open>Every accepted turn finishes\<close>

fun lane_work :: "lane \<Rightarrow> nat" where
  "lane_work LANE_WAIT = 1"
| "lane_work (LANE_BUSY task) = 3"
| "lane_work (LANE_DONE task e) = 2"
| "lane_work LANE_GONE = 0"

definition sched_work :: "scheduler \<Rightarrow> nat" where
  "sched_work d = 4 * length (sd_queue d) + sum_list (map lane_work (sd_lanes d))"

text \<open>A wait for the host's answer ends, in every turn of every task.\<close>

definition waits_end :: "'j sched_world \<Rightarrow> bool" where
  "waits_end W \<longleftrightarrow>
     (\<forall>i j k. wait_ends (ce_gate (pe_call (nv_pass (lp_calls (wd_env W i) j) k)))) \<and>
     (\<forall>i j. wait_ends (ce_gate (pe_call (lp_decisions (wd_env W i) j))))"

lemma lane_work_update:
  "i < length vs \<Longrightarrow> sum_list (map lane_work (vs[i := v])) + lane_work (vs ! i) = sum_list (map lane_work vs) + lane_work v"
proof (induction vs arbitrary: i)
  case (Cons a vs)
  then show ?case by (cases i) auto
qed simp

lemma work_step_less:
  assumes "work_step W d d'" "sched_ok W d"
  shows "sched_work d' < sched_work d \<and> sd_accepted d' = sd_accepted d \<and> sd_stop d' = sd_stop d"
  using assms(1)
proof cases
  case (take i)
  then have i: "i < length (sd_lanes d)" "sd_lanes d ! i = LANE_WAIT" by (auto simp: lane_take_def split: if_splits)
  show ?thesis
    using take i lane_work_update [OF i(1), of LANE_GONE] lane_work_update [OF i(1), of "LANE_BUSY (hd (sd_queue d))"]
    by (auto simp: lane_take_def sched_work_def set_lane_def split: list.splits if_splits)
next
  case (run i)
  then obtain task task' e where i: "i < length (sd_lanes d)" "sd_lanes d ! i = LANE_BUSY task"
    "d' = set_lane i (LANE_DONE task' e) (set_slot (sk_session task) (\<lambda>v. v\<lparr>sl_session := tx_session (sk_turn task')\<rparr>) d)"
    by (auto simp: lane_run_def split: if_splits lane.splits)
  then show ?thesis using lane_work_update [OF i(1), of "LANE_DONE task' e"] by (simp add: sched_work_def set_lane_def set_slot_def)
next
  case (finish i)
  then obtain task e where i: "i < length (sd_lanes d)" "sd_lanes d ! i = LANE_DONE task e"
    "d' = set_lane i LANE_WAIT (publish W task e d)"
    by (auto simp: lane_finish_def split: if_splits lane.splits)
  then show ?thesis using lane_work_update [OF i(1), of LANE_WAIT] by (simp add: sched_work_def set_lane_def publish_fields)
next
  case drain
  then show ?thesis using drain_ok [OF assms(2)] by simp
qed

lemma work_step_ok: "work_step W d d' \<Longrightarrow> sched_ok W d \<Longrightarrow> sched_ok W d'"
  by (erule work_step.cases) (auto dest: take_ok run_ok finish_ok simp: drain_ok)

lemma work_steps_less:
  assumes "(work_step W ^^ n) d d'" "sched_ok W d"
  shows "sched_ok W d' \<and> n + sched_work d' \<le> sched_work d \<and> sd_accepted d' = sd_accepted d \<and> sd_stop d' = sd_stop d"
  using assms(1)
proof (induction n arbitrary: d')
  case 0
  then show ?case using assms(2) by simp
next
  case (Suc n)
  then obtain d1 where d1: "(work_step W ^^ n) d d1" "work_step W d1 d'" by (auto simp: relcompp_apply)
  show ?case using Suc.IH [OF d1(1)] work_step_less [OF d1(2)] work_step_ok [OF d1(2)] by auto
qed

lemma work_ends: "sched_ok W d \<Longrightarrow> \<exists>n d'. (work_step W ^^ n) d d' \<and> (\<nexists>d''. work_step W d' d'')"
proof (induction "sched_work d" arbitrary: d rule: less_induct)
  case less
  show ?case
  proof (cases "\<exists>d1. work_step W d d1")
    case True
    then obtain d1 where d1: "work_step W d d1" by blast
    obtain n d' where n: "(work_step W ^^ n) d1 d'" "\<nexists>d''. work_step W d' d''"
      using less.hyps [of d1] work_step_less [OF d1 less.prems] work_step_ok [OF d1 less.prems] by blast
    have "(work_step W ^^ Suc n) d d'" by (rule relpowp_Suc_I2 [OF d1 n(1)])
    with n(2) show ?thesis by blast
  next
    case False
    then show ?thesis by (intro exI [of _ 0] exI [of _ d]) simp
  qed
qed

lemma loop_run_returns:
  assumes "waits_end W"
  shows "loop_run (wd_env W i) cfg t \<noteq> None"
proof -
  let ?env = "wd_env W i"
  have act: "loop_act ?env cfg t \<noteq> None" for t
  proof -
    let ?t = "over_agent (\<lambda>a. a\<lparr>ag_phase := PHASE_ACTION\<rparr>) t"
    let ?c = "rn_ctl (tx_run ?t)"
    have p: "ag_phase (ct_agent ?c) = PHASE_ACTION" by (simp add: over_defs)
    have "native_loop (lp_json ?env) (lp_calls ?env) cfg' 0 \<lparr>ns_ctl = ?c, ns_history = h, ns_answer = None\<rparr> \<noteq> None" for cfg' h
      by (rule native_loop_returns) (use assms p in \<open>simp_all add: waits_end_def\<close>)
    moreover have "actions_loop (lp_json ?env) (lp_decisions ?env) cfg' 0 g ?c \<noteq> None" for cfg' g
      by (rule actions_loop_returns) (use assms p in \<open>simp_all add: waits_end_def\<close>)
    ultimately show ?thesis
      using p by (simp add: loop_act_def native_run_def actions_run_def Let_def del: not_None_eq split: option.split)
  qed
  show ?thesis using act by (simp add: loop_run_def loop_work_def Let_def del: not_None_eq split: prod.split option.split)
qed

lemma settled_lanes:
  assumes ok: "sched_ok W d" and stuck: "\<nexists>d'. work_step W d d'" and ends: "waits_end W"
  shows "in_flight d = [] \<and> (sd_stop d \<longrightarrow> list_all (\<lambda>v. v = LANE_GONE) (sd_lanes d))"
proof -
  let ?vs = "sd_lanes d"
  have idle: "?vs ! i = LANE_WAIT \<or> ?vs ! i = LANE_GONE" if i: "i < length ?vs" for i
  proof (cases "?vs ! i")
    case (LANE_BUSY task)
    have "run_task W (sl_session (sd_slots d (sk_session task))) task \<noteq> None"
      using loop_run_returns [OF ends, of "sk_id task"] by (simp add: run_task_def Let_def del: not_None_eq)
    then have "lane_run W i d \<noteq> None" using i LANE_BUSY by (simp add: lane_run_def del: not_None_eq)
    then show ?thesis using stuck work_step.run by blast
  next
    case (LANE_DONE task e)
    then have "lane_finish W i d \<noteq> None" using i by (simp add: lane_finish_def)
    then show ?thesis using stuck work_step.finish by blast
  qed simp_all
  have untaken: "?vs ! i \<noteq> LANE_WAIT" if "i < length ?vs" "sd_queue d \<noteq> [] \<or> sd_stop d" for i
  proof
    assume "?vs ! i = LANE_WAIT"
    then have "lane_take i d \<noteq> None" using that by (auto simp: lane_take_def neq_Nil_conv split: list.split)
    then show False using stuck work_step.take by blast
  qed
  have queue: "sd_queue d = []"
  proof (rule ccontr)
    assume q: "sd_queue d \<noteq> []"
    have z: "0 < length ?vs" using sched_okD(1) [OF ok] by simp
    then have "?vs ! 0 = LANE_GONE" using untaken [OF z] idle [OF z] q by blast
    then have "LANE_GONE \<in> set ?vs" using z nth_mem by metis
    then show False using sched_okD(8) [OF ok] q by blast
  qed
  have "lane_task v = []" if m: "v \<in> set ?vs" for v
  proof -
    obtain i where "i < length ?vs" "v = ?vs ! i" using m by (auto simp: in_set_conv_nth)
    then have "v = LANE_WAIT \<or> v = LANE_GONE" using idle by blast
    then show ?thesis by (elim disjE) simp_all
  qed
  then have "lane_keys ?vs = []" by (simp add: lane_keys_def)
  moreover have "list_all (\<lambda>v. v = LANE_GONE) ?vs" if "sd_stop d"
    using untaken idle that by (auto simp: list_all_length)
  ultimately show ?thesis using queue by (simp add: in_flight_def)
qed

text \<open>C14. The workers make progress and lose nothing: as long as waits for a confirmation end, from a
  reachable state they take at most
  \<^term>\<open>sched_work d\<close> steps, and when none is left every accepted task has finished exactly once and no
  session is busy; in a shutdown every lane has ended as well.\<close>

theorem accepted_turns_finish:
  assumes "sched_reachable W d" "waits_end W" "(work_step W ^^ n) d d'"
  shows "n + sched_work d' \<le> sched_work d \<and>
    ((\<exists>d''. work_step W d' d'') \<or>
      mset (map co_id (sd_finished d')) = mset (sd_accepted d) \<and> distinct (sd_accepted d) \<and> (\<forall>k. \<not> sl_busy (sd_slots d' k)) \<and>
      (sd_stop d \<longrightarrow> list_all (\<lambda>v. v = LANE_GONE) (sd_lanes d')))"
proof -
  note ok = sched_reachable_ok [OF assms(1)]
  note less = work_steps_less [OF assms(3) ok]
  have ok': "sched_ok W d'" using less by blast
  show ?thesis
  proof (cases "\<exists>d''. work_step W d' d''")
    case True
    then show ?thesis using less by simp
  next
    case False
    note settled = settled_lanes [OF ok' False assms(2)]
    have "mset (map co_id (sd_finished d')) = mset (sd_accepted d')"
      using sched_okD(4,6) [OF ok'] settled by (simp add: in_flight_def)
    moreover have "\<not> sl_busy (sd_slots d' k)" for k
      using sched_okD(7) [OF ok'] settled by (cases "sl_running (sd_slots d' k)") auto
    ultimately show ?thesis using less settled sched_okD(5) [OF ok] by simp
  qed
qed

section \<open>A failed turn leaves no trace in the conversation\<close>

text \<open>C13. When a task whose turn ran to its end is finished, either its turn was committed and the finish
  leaves its conversation alone, or the conversation, its counters and its ledger are those before the turn
  and the task reports an error.\<close>

theorem failed_turn_rolls_back:
  assumes "loop_run env cfg t = Some (t1, e)" "\<not> tx_started t" "\<not> ts_committed (tx_turn t)" "task_finish wr jp t1 e = (t2, v, r)"
  shows "if ts_committed (tx_turn t1) then convo (tx_session t2) = convo (tx_session t1)
    else convo (tx_session t2) = convo (tx_session t) \<and> v \<noteq> None"
proof -
  obtain s saved where f: "turn_finished wr jp (tx_session t1) (tx_turn t1) e = (s, saved)" by fastforce
  define s1 where "s1 = (if saved \<noteq> None then s\<lparr>ss_recovery := True\<rparr> else s)"
  have s1: "convo s1 = convo (tx_session t1)" using turn_finished_convo [OF f] by (simp add: s1_def)
  have t2: "tx_session t2 = roll_back t1 s1" "v = (if saved \<noteq> None then saved else e)"
    using assms(4) f by (auto simp: task_finish_def Let_def over_defs s1_def)
  show ?thesis
  proof (cases "ts_committed (tx_turn t1)")
    case True
    then show ?thesis by (simp add: t2 roll_back_def s1)
  next
    case False
    from assms(1-3) have st: "staged t t1 \<and> e \<noteq> None"
    proof (cases rule: loop_run_ways)
      case left
      then show ?thesis by simp
    next
      case kept
      with False show ?thesis by simp
    qed
    have "convo (roll_back t1 s1) = convo (tx_session t)"
    proof (cases "tx_started t1")
      case True
      then obtain own n where o: "convo (tx_session t1) = convo ((tx_session t)\<lparr>ss_log := ss_log (tx_session t) @ own, ss_turns := n\<rparr>)"
        and at: "ts_log_before (tx_turn t1) = length (ss_log (tx_session t))" "tx_turns_before t1 = ss_turns (tx_session t)"
        using st by (auto simp: staged_def)
      have "convo s1 = convo ((tx_session t)\<lparr>ss_log := ss_log (tx_session t) @ own, ss_turns := n\<rparr>)" using s1 o by simp
      then show ?thesis using True False at by (simp add: roll_back_def convo_def)
    next
      case False
      then show ?thesis using st s1 by (simp add: roll_back_def staged_def)
    qed
    then show ?thesis using st False by (simp add: t2)
  qed
qed

section \<open>The lanes fit in memory\<close>

definition ram_sum :: "pool_model list \<Rightarrow> nat" where
  "ram_sum ms = 512 + sum_list (map (\<lambda>m. unat (pm_ram m)) (filter pm_embedded ms))"

definition vram_sum :: "pool_model list \<Rightarrow> nat" where
  "vram_sum ms =
     sum_list (map (\<lambda>m. if pm_vram m \<noteq> 0 then unat (pm_vram m) else unat (pm_ram m) + 512) (filter (\<lambda>m. pm_embedded m \<and> pm_gpu m \<noteq> 0) ms))"

lemma foldl_word_sum:
  fixes f :: "'a \<Rightarrow> 64 word"
  assumes "unat a + sum_list (map g (filter P xs)) < 2 ^ 64" "\<And>x. f x = of_nat (g x)"
  shows "unat (foldl (\<lambda>n x. if P x then n + f x else n) a xs) = unat a + sum_list (map g (filter P xs))"
  using assms(1)
proof (induction xs arbitrary: a)
  case (Cons x xs)
  show ?case
  proof (cases "P x")
    case True
    then have b: "unat a + g x < 2 ^ 64" using Cons.prems by simp
    then have "unat (f x) = g x" by (simp add: assms(2) unat_of_nat)
    then have u: "unat (a + f x) = unat a + g x" using b by (simp add: unat_word_ariths)
    then show ?thesis using Cons.IH [of "a + f x"] Cons.prems True by simp
  qed (use Cons in simp)
qed simp

lemma local_ram_sum: "ram_sum ms < 2 ^ 64 \<Longrightarrow> unat (local_ram ms) = ram_sum ms"
  using foldl_word_sum [of 512 "\<lambda>m. unat (pm_ram m)" pm_embedded ms pm_ram] by (simp add: local_ram_def ram_sum_def)

lemma local_vram_sum: "vram_sum ms < 2 ^ 64 \<Longrightarrow> unat (local_vram ms) = vram_sum ms"
  using foldl_word_sum [of 0 "\<lambda>m. if pm_vram m \<noteq> 0 then unat (pm_vram m) else unat (pm_ram m) + 512"
      "\<lambda>m. pm_embedded m \<and> pm_gpu m \<noteq> 0" ms "\<lambda>m. if pm_vram m \<noteq> 0 then pm_vram m else pm_ram m + 512"]
  by (simp add: local_vram_def vram_sum_def)

lemma slots_fit:
  fixes r :: "64 word"
  assumes "\<not> word_of_int m div r < 2" "0 < m" "m < 2 ^ 31" "r \<noteq> 0" "n \<le> word_of_int m div r - 1"
  shows "int ((unat n + 1) * unat r) \<le> m"
proof -
  have m: "unat (word_of_int m :: 64 word) = nat m"
    using assms(2,3) by (simp add: unat_eq_nat_uint uint_word_of_int take_bit_int_eq_self)
  have d: "unat (word_of_int m div r) = nat m div unat r" by (simp add: unat_div m)
  have "2 \<le> nat m div unat r" using assms(1) by (simp add: word_less_nat_alt d)
  moreover then have "unat (word_of_int m div r - 1) = nat m div unat r - 1" by (simp add: unat_sub_if' d)
  ultimately have "unat n + 1 \<le> nat m div unat r" using assms(5) by (simp add: word_le_nat_alt)
  then have "(unat n + 1) * unat r \<le> nat m div unat r * unat r" by (rule mult_le_mono1)
  then have "(unat n + 1) * unat r \<le> nat m" using div_times_less_eq_dividend order_trans by blast
  then show ?thesis using assms(2) by linarith
qed

text \<open>C21. The number of lanes is between one and eight; when it is more than one and a model is local,
  the models of every lane and of the coordinator fit together in the configured memory, provided the
  declared sizes do not overflow their sum.\<close>

theorem capacity_fits_memory:
  assumes "scheduler_capacity workers max_ram max_vram ms = Some n" "max_ram < 2 ^ 31" "max_vram < 2 ^ 31"
    and "ram_sum ms < 2 ^ 64" "vram_sum ms < 2 ^ 64"
  shows "1 \<le> n \<and> n \<le> 8 \<and>
    (1 < n \<and> list_ex pm_embedded ms \<longrightarrow>
      int ((unat n + 1) * ram_sum ms) \<le> max_ram \<and> (vram_sum ms \<noteq> 0 \<longrightarrow> int ((unat n + 1) * vram_sum ms) \<le> max_vram))"
proof -
  define lanes where "lanes = (let w = word_of_int workers :: 64 word in if w < 1 then 1 else if 8 < w then 8 else w)"
  have lanes: "1 \<le> lanes" "lanes \<le> 8" by (auto simp: lanes_def Let_def word_le_nat_alt word_less_nat_alt)
  let ?ram = "local_ram ms" and ?vram = "local_vram ms"
  let ?a = "word_of_int max_ram div ?ram :: 64 word" and ?b = "word_of_int max_vram div ?vram :: 64 word"
  note sums = local_ram_sum [OF assms(4)] local_vram_sum [OF assms(5)]
  have vz: "?vram = 0 \<longleftrightarrow> vram_sum ms = 0" using sums(2) by (metis unat_eq_0)
  have ram: "?ram \<noteq> 0" using sums(1) by (auto simp: ram_sum_def)
  have one: "1 \<le> c - 1" if "\<not> c < 2" for c :: "64 word"
    using that by (simp add: word_le_nat_alt word_less_nat_alt unat_sub_if')
  have smaller: "(if x < y then x else y) = min x y" for x y :: "64 word"
    unfolding min_def using less_le_not_le [of x y] by (metis linear order.antisym)
  have cap: "scheduler_capacity workers max_ram max_vram ms =
      (if \<not> list_ex pm_embedded ms then Some lanes
       else if max_ram \<le> 0 \<or> ?vram \<noteq> 0 \<and> max_vram \<le> 0 then Some 1
       else if ?ram = 0 then None
       else if ?a < 2 then Some 1
       else if ?vram = 0 then Some (min (?a - 1) lanes)
       else if ?b < 2 then Some 1 else Some (min (?b - 1) (min (?a - 1) lanes)))"
    unfolding scheduler_capacity_def lanes_def Let_def smaller by (rule refl)
  consider "n = 1" | "\<not> list_ex pm_embedded ms" "n = lanes"
    | "0 < max_ram" "\<not> ?a < 2" "?vram = 0" "n = min (?a - 1) lanes"
    | "0 < max_ram" "\<not> ?a < 2" "?vram \<noteq> 0" "0 < max_vram" "\<not> ?b < 2" "n = min (?b - 1) (min (?a - 1) lanes)"
    using assms(1) [unfolded cap] ram by (auto simp del: word_of_int_less_iff split: if_splits)
  then show ?thesis
  proof cases
    case 1
    then show ?thesis by (simp add: word_le_nat_alt)
  next
    case 2
    then show ?thesis using lanes by simp
  next
    case 3
    have "1 \<le> n" "n \<le> 8" "n \<le> ?a - 1" using 3 lanes one [OF 3(2)] by (auto simp: min_def)
    moreover from this have "int ((unat n + 1) * ram_sum ms) \<le> max_ram"
      using slots_fit [OF 3(2,1) assms(2) ram, of n] unfolding sums by blast
    moreover have "vram_sum ms = 0" using vz 3(3) by blast
    ultimately show ?thesis by blast
  next
    case 4
    have "1 \<le> n" "n \<le> 8" "n \<le> ?a - 1" "n \<le> ?b - 1" using 4 lanes one [OF 4(2)] one [OF 4(5)] by (auto simp: min_def)
    moreover from this have "int ((unat n + 1) * ram_sum ms) \<le> max_ram" "int ((unat n + 1) * vram_sum ms) \<le> max_vram"
      using slots_fit [OF 4(2,1) assms(2) ram, of n] slots_fit [OF 4(5,4) assms(3) 4(3), of n] unfolding sums by blast+
    ultimately show ?thesis by blast
  qed
qed

text \<open>Without that bound the sum may be zero: the start then divides by it.\<close>

lemma capacity_divides_by_zero:
  "scheduler_capacity 1 4096 0
     [\<lparr>pm_embedded = True, pm_ram = 9223372036854775552, pm_gpu = 0, pm_vram = 0\<rparr>,
      \<lparr>pm_embedded = True, pm_ram = 9223372036854775552, pm_gpu = 0, pm_vram = 0\<rparr>] = None"
  by (simp add: scheduler_capacity_def local_ram_def local_vram_def)

section \<open>A concrete scheduler\<close>

text \<open>One lane, a queue of one, and a continuation to answer.\<close>

definition plain_world :: "(json_scalar + (string \<times> json_scalar) list) sched_world" where
  "plain_world = \<lparr>wd_capacity = 1, wd_write = (\<lambda>_. Some ''x''), wd_now = (\<lambda>_. 0), wd_started = (\<lambda>_. plan_fine),
     wd_finished = (\<lambda>_. plan_fine), wd_expired = (\<lambda>_. False), wd_env = (\<lambda>_. plain_env), wd_config = (\<lambda>_. plain_config)\<rparr>"

definition idle_scheduler :: scheduler where
  "idle_scheduler = \<lparr>sd_stop = False, sd_queue = [], sd_n = 0, sd_lanes = [LANE_WAIT],
     sd_slots = (\<lambda>_. \<lparr>sl_session = empty_session, sl_running = None\<rparr>), sd_accepted = [], sd_taken = [], sd_finished = []\<rparr>"

definition plain_task :: sched_task where
  "plain_task = \<lparr>sk_id = 7, sk_session = 0, sk_turn = plain_turn, sk_cancel = False\<rparr>"

lemma plain_fresh: "\<not> tx_started plain_turn" "\<not> ts_committed (tx_turn plain_turn)"
  by (simp_all add: plain_turn_def sample_controller_def sample_agent_def sample_state_def)

lemma plain_submit:
  obtains d where "sched_reachable plain_world d" "sd_queue d = [admitted plain_task]" "sd_lanes d = [LANE_WAIT]" "sd_accepted d = [7]"
    "sd_taken d = []"
proof -
  let ?x = "tx_turn (sk_turn (admitted plain_task))"
  obtain v where v: "turn_frame (ts_id ?x) ''started'' (journal_fields 0 empty_session ?x ''started'' (Some (ts_user ?x))) = Some v"
    by (simp add: turn_frame_def)
  have j: "turn_journal (\<lambda>_. Some ''x'') plan_fine 0 empty_session ?x ''started'' (Some (ts_user ?x)) =
      (empty_session\<lparr>ss_journal_st := (ss_journal_st empty_session)\<lparr>st_file := st_file (ss_journal_st empty_session) @ wal_frame ''x''\<rparr>\<rparr>, None)"
    by (rule plan_fine_journal [OF v]) (simp_all add: empty_session_def)
  obtain d where d: "submit_common plain_world plain_task idle_scheduler = (d, None)" "sd_queue d = [admitted plain_task]"
      "sd_lanes d = [LANE_WAIT]" "sd_accepted d = [7]" "sd_taken d = []"
    using j by (simp add: submit_common_def worker_submit_def plain_world_def idle_scheduler_def set_slot_def Let_def plain_task_def
        empty_session_def)
  have "started idle_scheduler" by (simp add: started_def idle_scheduler_def)
  moreover have "sched_step plain_world idle_scheduler d"
    by (rule sched_step.submit [OF d(1)]) (use plain_fresh in \<open>simp_all add: idle_scheduler_def plain_task_def\<close>)
  ultimately show thesis using that [OF _ d(2-5)] sched_reachable.intros by blast
qed

theorem queue_bounded_fifo_witness:
  "\<exists>d. sched_reachable plain_world d \<and> sd_n d = 1 \<and> sd_accepted d = sd_taken d @ [7]"
proof -
  obtain d where d: "sched_reachable plain_world d" "sd_queue d = [admitted plain_task]" by (rule plain_submit)
  show ?thesis using queue_bounded_fifo [OF d(1)] d by (intro exI [of _ d]) (simp add: plain_task_def)
qed

theorem one_turn_per_session_witness:
  "\<exists>d. sched_reachable plain_world d \<and> in_flight d = [(7, 0)] \<and> sl_busy (sd_slots d 0) \<and> \<not> sl_busy (sd_slots d 1)"
proof -
  obtain d where d: "sched_reachable plain_world d" "sd_queue d = [admitted plain_task]" "sd_lanes d = [LANE_WAIT]" by (rule plain_submit)
  then have f: "in_flight d = [(7, 0)]" by (simp add: in_flight_def key_def lane_keys_def plain_task_def)
  show ?thesis using one_turn_per_session [OF d(1)] d(1) f by (intro exI [of _ d]) simp
qed

lemma plain_waits: "waits_end plain_world"
  by (simp add: waits_end_def plain_world_def plain_env_def sample_wait sample_native_waits)

theorem accepted_turns_finish_witness:
  "\<exists>d n d'. sched_reachable plain_world d \<and> sd_accepted d = [7] \<and> (work_step plain_world ^^ n) d d' \<and> map co_id (sd_finished d') = [7] \<and> n \<le> 5"
proof -
  obtain d where d: "sched_reachable plain_world d" "sd_queue d = [admitted plain_task]" "sd_lanes d = [LANE_WAIT]" "sd_accepted d = [7]"
    by (rule plain_submit)
  obtain n d' where n: "(work_step plain_world ^^ n) d d'" "\<nexists>d''. work_step plain_world d' d''"
    using work_ends [OF sched_reachable_ok [OF d(1)]] by blast
  have "mset (map co_id (sd_finished d')) = mset [7]" "n \<le> sched_work d"
    using accepted_turns_finish [OF d(1) plain_waits n(1)] n(2) d(4) by auto
  then have "map co_id (sd_finished d') = [7]" "n \<le> 5"
    using d(2,3) by (simp_all add: mset_single_iff_right sched_work_def del: mset_map)
  with d(1,4) n(1) show ?thesis by (intro exI conjI)
qed

definition failing_env :: "(json_scalar + (string \<times> json_scalar) list) loop_env" where
  "failing_env = plain_env\<lparr>lp_query := Some ERR_MODEL\<rparr>"

definition asking_turn :: turn_exec where
  "asking_turn = over_turn (\<lambda>x. x\<lparr>ts_continuation := False\<rparr>) plain_turn"

theorem failed_turn_rolls_back_witness:
  "\<exists>t1 t2 v r. loop_run failing_env plain_config asking_turn = Some (t1, Some ERR_MODEL) \<and> length (ss_log (tx_session t1)) = 1 \<and>
     task_finish (\<lambda>_. Some ''x'') plan_fine t1 (Some ERR_MODEL) = (t2, v, r) \<and> ss_log (tx_session t2) = [] \<and> v \<noteq> None"
proof -
  obtain t1 where t1: "loop_run failing_env plain_config asking_turn = Some (t1, Some ERR_MODEL)" "length (ss_log (tx_session t1)) = 1"
      "\<not> ts_committed (tx_turn t1)"
    by (simp add: loop_run_def loop_begin_def loop_ingest_def loop_memory_def then_do_def Let_def over_defs plain_defs failing_env_def
        asking_turn_def empty_session_def stage_turn_def)
  obtain t2 v r where t2: "task_finish (\<lambda>_. Some ''x'') plan_fine t1 (Some ERR_MODEL) = (t2, v, r)" by (metis prod_cases3)
  have "\<not> tx_started asking_turn" "\<not> ts_committed (tx_turn asking_turn)" "ss_log (tx_session asking_turn) = []"
    by (simp_all add: asking_turn_def over_defs plain_defs empty_session_def)
  with failed_turn_rolls_back [OF t1(1) _ _ t2] t1(3) have "ss_log (tx_session t2) = []" "v \<noteq> None"
    by (auto simp: convo_def)
  with t1 t2 show ?thesis by blast
qed

theorem capacity_fits_memory_witness:
  "scheduler_capacity 4 8192 0 [\<lparr>pm_embedded = True, pm_ram = 1024, pm_gpu = 0, pm_vram = 0\<rparr>] = Some 4 \<and> int (5 * 1536) \<le> 8192"
proof -
  let ?ms = "[\<lparr>pm_embedded = True, pm_ram = 1024, pm_gpu = 0, pm_vram = 0\<rparr>]"
  have c: "scheduler_capacity 4 8192 0 ?ms = Some 4" by (simp add: scheduler_capacity_def local_ram_def local_vram_def)
  have s: "ram_sum ?ms = 1536" "vram_sum ?ms = 0" by (simp_all add: ram_sum_def vram_sum_def)
  show ?thesis using capacity_fits_memory [OF c] c s by simp
qed

end
