(* ===== verification/Watchdog.thy ===== *)
theory Watchdog
  imports Prelude
begin

text \<open>
  The watchdog over a model call (\<^verbatim>\<open>src/generation.c\<close>, \<^verbatim>\<open>stall_tick\<close> of \<^verbatim>\<open>src/worker.c\<close>,
  \<^verbatim>\<open>asngn_task_cancel\<close> of \<^verbatim>\<open>src/api.c\<close>): the flags of the call that the agent's thread, the
  background thread and the clients share under one lock, and what the call reports.
\<close>

section \<open>The call under watch\<close>

text \<open>\<^verbatim>\<open>cw_asked\<close> is the turn's own cancel flag.\<close>

record call_watch =
  cw_active :: bool
  cw_cancel :: bool
  cw_stalled :: bool
  cw_started :: int
  cw_last :: int
  cw_asked :: bool

definition arm_call :: "int \<Rightarrow> bool \<Rightarrow> call_watch" where
  "arm_call now asked = \<lparr>cw_active = True, cw_cancel = asked, cw_stalled = False, cw_started = now, cw_last = now, cw_asked = asked\<rparr>"

definition watch_token :: "int \<Rightarrow> call_watch \<Rightarrow> call_watch" where
  "watch_token now w = w\<lparr>cw_last := now, cw_cancel := cw_cancel w \<or> cw_asked w\<rparr>"

text \<open>No timeout, no abort; the time to the first token may be twice the limit.\<close>

definition stall_tick :: "int \<Rightarrow> int \<Rightarrow> call_watch \<Rightarrow> call_watch" where
  "stall_tick timeout now w =
     (if cw_active w then
        let limit = (if cw_last w \<le> cw_started w then timeout * 1000 * 2 else timeout * 1000);
            silence = now - (if cw_started w < cw_last w then cw_last w else cw_started w);
            w1 = (if 0 < timeout \<and> limit < silence then w\<lparr>cw_stalled := True, cw_cancel := True\<rparr> else w)
        in if cw_asked w1 then w1\<lparr>cw_cancel := True\<rparr> else w1
      else w)"

definition cancel_call :: "call_watch \<Rightarrow> call_watch" where
  "cancel_call w = w\<lparr>cw_asked := True, cw_cancel := cw_cancel w \<or> cw_active w\<rparr>"

datatype watch_event = TOKEN int | TICK int | ASK

fun watch_step :: "int \<Rightarrow> watch_event \<Rightarrow> call_watch \<Rightarrow> call_watch" where
  "watch_step timeout (TOKEN now) w = watch_token now w"
| "watch_step timeout (TICK now) w = stall_tick timeout now w"
| "watch_step timeout ASK w = cancel_call w"

text \<open>The model's call reads the cancel flag and answers with an error or none; the guard's trips are
  counted.  An ask that comes between the model's return and the check of the asked flag is not told
  from one that comes before the return.\<close>

definition generate_input ::
    "int \<Rightarrow> int \<Rightarrow> int \<Rightarrow> watch_event list \<Rightarrow> (bool \<Rightarrow> asngn_err option) \<Rightarrow> call_watch \<Rightarrow> call_watch \<times> asngn_err option \<times> nat" where
  "generate_input timeout deadline now events model w =
     (if 0 < deadline \<and> deadline \<le> now then (w, Some ERR_TIMEOUT, 0)
      else
        let w1 = fold (watch_step timeout) events (arm_call now (cw_asked w)); e = model (cw_cancel w1);
            w2 = w1\<lparr>cw_active := False\<rparr>
        in if e = Some ERR_CANCELLED \<and> cw_stalled w1 \<and> \<not> cw_asked w1 then (w2, Some ERR_TIMEOUT, 1) else (w2, e, 0))"

section \<open>Periodic work\<close>

record upkeep =
  uk_warm :: bool
  uk_swept :: int

text \<open>The models are warmed once, the answer cache is swept daily: what a round does at monotonic time
  \<open>now\<close>, and whether it warms and sweeps.\<close>

definition run_due_work :: "int \<Rightarrow> upkeep \<Rightarrow> upkeep \<times> bool \<times> bool" where
  "run_due_work now u =
     (let sweep = (uk_swept u = 0 \<or> 86400000 < now - uk_swept u)
      in (\<lparr>uk_warm = False, uk_swept = (if sweep then now else uk_swept u)\<rparr>, uk_warm u, sweep))"

section \<open>What a silence is\<close>

fun token_time :: "int \<Rightarrow> watch_event list \<Rightarrow> int" where
  "token_time t [] = t"
| "token_time t (TOKEN now # es) = token_time now es"
| "token_time t (e # es) = token_time t es"

definition silent_at :: "int \<Rightarrow> int \<Rightarrow> watch_event list \<Rightarrow> watch_event \<Rightarrow> bool" where
  "silent_at timeout start before e =
     (case e of
        TICK now \<Rightarrow>
          0 < timeout \<and>
          (if token_time start before \<le> start then timeout * 2000 < now - start else timeout * 1000 < now - token_time start before)
      | _ \<Rightarrow> False)"

definition silence_seen :: "int \<Rightarrow> int \<Rightarrow> watch_event list \<Rightarrow> bool" where
  "silence_seen timeout start es = list_ex (\<lambda>i. silent_at timeout start (take i es) (es ! i)) [0..<length es]"

lemma token_time_snoc: "token_time t (es @ [e]) = (case e of TOKEN now \<Rightarrow> now | _ \<Rightarrow> token_time t es)"
  by (induction t es rule: token_time.induct) (simp_all split: watch_event.split)

lemma silence_seen_snoc: "silence_seen timeout start (es @ [e]) \<longleftrightarrow> silence_seen timeout start es \<or> silent_at timeout start es e"
proof -
  have "list_ex (\<lambda>i. silent_at timeout start (take i (es @ [e])) ((es @ [e]) ! i)) [0..<length es] \<longleftrightarrow> silence_seen timeout start es"
    by (auto simp: silence_seen_def list_ex_iff nth_append)
  then show ?thesis by (simp add: silence_seen_def)
qed

lemma watched:
  "fold (watch_step timeout) es (arm_call start asked) =
     \<lparr>cw_active = True, cw_cancel = (asked \<or> ASK \<in> set es \<or> silence_seen timeout start es),
      cw_stalled = silence_seen timeout start es, cw_started = start, cw_last = token_time start es, cw_asked = (asked \<or> ASK \<in> set es)\<rparr>"
proof (induction es rule: rev_induct)
  case Nil
  then show ?case by (simp add: arm_call_def silence_seen_def)
next
  case (snoc e es)
  show ?case
    by (cases e)
      (auto simp: snoc.IH watch_token_def stall_tick_def cancel_call_def token_time_snoc silence_seen_snoc silent_at_def Let_def)
qed

section \<open>The watchdog reports a stall exactly\<close>

text \<open>C20. A call that may start ends with what the model answers to the cancel flag, which is set when the
  user asked or when a tick of the watchdog found the model silent for longer than the limit; a cancellation
  is reported as a timeout, and counted once, exactly when the model gave up on a silence that the user did
  not ask to end; and no tick touches the call after its end.\<close>

theorem watchdog_exact:
  assumes "generate_input timeout deadline now events model w = (w', e, trips)" "deadline \<le> 0 \<or> now < deadline"
  shows "(let asked = (cw_asked w \<or> ASK \<in> set events); silent = silence_seen timeout now events;
             stalled = (silent \<and> \<not> asked \<and> model True = Some ERR_CANCELLED)
         in trips = (if stalled then 1 else 0) \<and> e = (if stalled then Some ERR_TIMEOUT else model (asked \<or> silent))) \<and>
    stall_tick timeout later w' = w'"
  using assms by (auto simp: generate_input_def watched Let_def stall_tick_def split: if_splits)

theorem watchdog_exact_witness:
  "generate_input 1 0 0 [TOKEN 10, TICK 900, TICK 1011] (\<lambda>c. if c then Some ERR_CANCELLED else None) (arm_call 0 False) =
     (\<lparr>cw_active = False, cw_cancel = True, cw_stalled = True, cw_started = 0, cw_last = 10, cw_asked = False\<rparr>, Some ERR_TIMEOUT, 1) \<and>
   silence_seen 1 0 [TOKEN 10, TICK 900, TICK 1011]"
proof -
  let ?w = "\<lparr>cw_active = False, cw_cancel = True, cw_stalled = True, cw_started = 0, cw_last = 10, cw_asked = False\<rparr>"
  have g: "generate_input 1 0 0 [TOKEN 10, TICK 900, TICK 1011] (\<lambda>c. if c then Some ERR_CANCELLED else None) (arm_call 0 False) =
      (?w, Some ERR_TIMEOUT, 1)"
    by (simp add: generate_input_def arm_call_def Let_def watch_token_def stall_tick_def)
  have "(0::int) \<le> 0 \<or> (0::int) < 0" by simp
  note reports = conjunct1 [OF watchdog_exact [OF g this], unfolded Let_def, THEN conjunct1]
  have "silence_seen 1 0 [TOKEN 10, TICK 900, TICK 1011]"
  proof (rule ccontr)
    assume "\<not> silence_seen 1 0 [TOKEN 10, TICK 900, TICK 1011]"
    then show False using reports by (simp only: simp_thms if_False one_neq_zero)
  qed
  with g show ?thesis by (intro conjI)
qed

end
