(* ===== verification/Spec2Isabelle.thy ===== *)
theory Spec2Isabelle
  imports Util Sha256 Uuid Timestamps Streams Wal Xutil Consumption Reservations Json Operations Approvals Confirmation Work Work_Observe Redact Toolcache Steps Transcript Session
    Turn_Journal Turn_Recovery Task_Record Working Draft Dispatch Actions Native Answer Turn Scheduler Watchdog
begin

text \<open>
  Verification of the core of the asngn engine.

  The engine runs an agent's turns: it reads a user's message, lets a model decide on actions, runs
  tools after the gates allow them, and commits the answer.  Everything it must not lose or must
  not do twice goes through a small set of durable stores under \<^verbatim>\<open>src/\<close>; these stores, the
  gates in front of the tools, and the parsers and filters of untrusted text are what is modelled.

  \<^bold>\<open>Layers, from the bottom.\<close>

  \<^item> \<^verbatim>\<open>Prelude\<close>: bytes, C strings, error codes, decimal numbers.
  \<^item> \<^verbatim>\<open>Util\<close>: \<^verbatim>\<open>util.c\<close>, \<^verbatim>\<open>tokens.c\<close>, \<^verbatim>\<open>safety.c\<close> (growable buffer, UTF-8 validation against the table of
    well-formed sequences, the input gate, sentence trim).  \<^verbatim>\<open>Sha256\<close>: \<^verbatim>\<open>sha256.c\<close> on 32-bit words;
    streaming equals one-shot hashing.  \<^verbatim>\<open>Uuid\<close>: \<^verbatim>\<open>uuid.c\<close>.  \<^verbatim>\<open>Clock_Time\<close>, \<^verbatim>\<open>Timestamps\<close>: \<^verbatim>\<open>time.c\<close>
    (civil calendar, RFC 3339, ISO 8601 durations) with round trips and overflow bounds.
  \<^item> \<^verbatim>\<open>Streams\<close>: \<^verbatim>\<open>stream.c\<close>, append with rollback, load with the torn-tail rule, atomic replacement.
    \<^verbatim>\<open>Wal\<close>: \<^verbatim>\<open>wal.c\<close>, the checksummed log every durable store is written through; a crash at any byte
    of an append is repaired to the records before it.  Its locale \<open>event_log\<close> is the contract the
    stores rely on (what a replay returns after an append) and is interpreted on the frames.
  \<^item> \<^verbatim>\<open>Xutil\<close>, \<^verbatim>\<open>Json\<close>: the values of the xCDN and JSON libraries as the program builds and reads them
    (\<^verbatim>\<open>xutil.c\<close>).

  \<^bold>\<open>Durable stores.\<close>

  \<^item> \<^verbatim>\<open>Consumption\<close>, \<^verbatim>\<open>Reservations\<close>, \<^verbatim>\<open>Operations\<close>: \<^verbatim>\<open>consumption.c\<close>, \<^verbatim>\<open>operation_codec.c\<close>,
    \<^verbatim>\<open>operation_replay.c\<close>, \<^verbatim>\<open>operations.c\<close>: the token budget.  The replay's open-addressing table refines
    a finite map; every balance is the sum over the recorded reservations and settlements; admission
    keeps the daily limit.
  \<^item> \<^verbatim>\<open>Approvals\<close>, \<^verbatim>\<open>Confirmation\<close>: \<^verbatim>\<open>approval_*.c\<close>, \<^verbatim>\<open>confirmation.c\<close> and the host's answer in \<^verbatim>\<open>api.c\<close>:
    the review of a mutating tool call.  A call runs only if its exact arguments, tool, profile,
    turn and workspace fingerprint were reviewed and nothing moved since.
  \<^item> \<^verbatim>\<open>Work\<close>, \<^verbatim>\<open>Work_Observe\<close>: \<^verbatim>\<open>work_*.c\<close>, \<^verbatim>\<open>verification.c\<close>: acceptance contracts and the evidence that
    satisfies them.  The log and the state agree after every operation; a criterion is passed only by
    a receipt over an unchanged workspace.
  \<^item> \<^verbatim>\<open>Transcript\<close>, \<^verbatim>\<open>Session\<close>: the records of \<^verbatim>\<open>session.c\<close> and \<^verbatim>\<open>ledger.c\<close>, the transcript, the
    ledger with its feedback and replay, the manifest.
  \<^item> \<^verbatim>\<open>Turn_Journal\<close>, \<^verbatim>\<open>Turn_Recovery\<close>, \<^verbatim>\<open>Task_Record\<close>: \<^verbatim>\<open>turn_journal.c\<close>, \<^verbatim>\<open>turn_recovery.c\<close>,
    \<^verbatim>\<open>task_record.c\<close>.  A turn is durable from its committed frame on; transcript, ledger and manifest
    are projections of it that may be repeated.  \<open>journal_run\<close> gives the frame sequences the engine
    writes; recovery and the task record are proved to read exactly what they say, after a crash at
    any byte.
  \<^item> \<^verbatim>\<open>Toolcache\<close>: \<^verbatim>\<open>toolcache.c\<close>, the tool-result cache.  Its locale \<open>kv_cache\<close> is the contract (a hit
    returns the last value written), interpreted on the model's operations.

  \<^bold>\<open>Untrusted text.\<close>

  \<^item> \<^verbatim>\<open>Redact\<close>: \<^verbatim>\<open>redact.c\<close>, the secret filter: every structural match is masked, UTF-8 stays valid.
  \<^item> \<^verbatim>\<open>Steps\<close>: \<^verbatim>\<open>steps.c\<close> and the blob range of \<^verbatim>\<open>blob.c\<close>: the parser of the model's decision line.

  \<^item> \<^verbatim>\<open>Working\<close>, \<^verbatim>\<open>Draft\<close>: \<^verbatim>\<open>turn_support.c\<close>, \<^verbatim>\<open>tool_outcome.c\<close>, \<^verbatim>\<open>action_state.c\<close>, \<^verbatim>\<open>draft.c\<close>: tool
    output on its way to the model, which cannot end its fence, and generated file contents on
    their way into a tool call, which cannot leave their string.

  \<^bold>\<open>The turn.\<close>

  \<^item> \<^verbatim>\<open>Dispatch\<close>: \<^verbatim>\<open>tool_action.c\<close> and the lookup and call of \<^verbatim>\<open>tools.c\<close>: the way of a tool call through
    selection, preflight, draft, profile, repeat guard, call budget, result cache, confirmation and
    journal.  It composes \<open>Confirmation\<close>, \<open>Turn_Journal\<close>, \<open>Work_Observe\<close>, \<open>Toolcache\<close> and \<open>Draft\<close>: a tool runs
    only behind all gates, a call that returns well leaves no action open on the journal, and an
    identical call in an unchanged workspace is refused.
  \<^item> \<^verbatim>\<open>Actions\<close>: \<^verbatim>\<open>action_apply.c\<close>, \<^verbatim>\<open>action_loop.c\<close>, \<^verbatim>\<open>action_state.c\<close> and the discovery of \<^verbatim>\<open>tools.c\<close>: the loop
    that turns the model's decision lines (parsed by \<open>Steps\<close>) into calls.  It ends whatever the model
    says, within its budgets, leaves the journal settled, and cannot change anything in a read-only
    profile.
  \<^item> \<^verbatim>\<open>Native\<close>: \<^verbatim>\<open>native_contract.c\<close>, \<^verbatim>\<open>native_history.c\<close>, \<^verbatim>\<open>native_loop.c\<close>: the same decisions as a
    provider's function calls.  Every effect of its loop is a step of \<open>Actions\<close> (relation
    \<open>act_step\<close>), so budgets and the read-only profile carry over; a batch is checked as a whole
    before its first effect, and the history keeps to its arrays.
  \<^item> \<^verbatim>\<open>Answer\<close>: \<^verbatim>\<open>answer.c\<close>, \<^verbatim>\<open>judge.c\<close>, \<^verbatim>\<open>detail.c\<close>: the ladder of attempts at an answer under the judge,
    with the ceiling that makes room for the prompt.  What is shipped was generated by an attempt and
    holds no tool-call syntax.
  \<^item> \<^verbatim>\<open>Turn\<close>: \<^verbatim>\<open>loop.c\<close>: the phases of a turn in the code's order over \<open>Actions\<close>, \<open>Native\<close>, \<open>Answer\<close> and
    \<open>Turn_Journal\<close>.  A turn that returns well is committed; one that does not has at most staged its own
    message (predicate \<open>staged\<close>).
  \<^item> \<^verbatim>\<open>Scheduler\<close>: \<^verbatim>\<open>worker.c\<close> and \<^verbatim>\<open>submit_common\<close>, \<^verbatim>\<open>asngn_task_cancel\<close>, \<^verbatim>\<open>asngn_task_wait\<close> of \<^verbatim>\<open>api.c\<close>: the
    queue and the lanes as a step relation over all interleavings of workers and clients.  One turn per
    session, admission order, no task lost or finished twice, an end of every run of the workers, and the
    rollback of an uncommitted turn.  \<^verbatim>\<open>Watchdog\<close>: \<^verbatim>\<open>generation.c\<close> and the stall guard.

  \<^bold>\<open>Conventions.\<close>  A C string is a list of bytes without NUL, a buffer with a length any list.  Integers
  are words where the code relies on their width, otherwise \<open>int\<close> or \<open>nat\<close> with the range checks
  written out.  An operation that can fail returns the error beside its new state, since the code
  often changes state before it fails.  What the operating system, the libraries and other threads
  do is an argument: \<open>io_plan\<close> and \<open>repair_plan\<close> say which calls of a write fail, the xCDN and
  JSON parsers and writers are functions, the answers of a host are a list of steps between two polls.

  \<^bold>\<open>Bounds.\<close>  No model needs fuel: loops are structural or have a measure (the bytes left, the free
  slots of a table, the entries left to evict).  The loop over the model's decisions is a partial
  function, since nothing bounds it outside the action phase; inside it, the budget of steps that is
  left decreases with every decision, and \<open>actions_terminate\<close> proves that it returns.

  \<^bold>\<open>Not modelled.\<close>  The operating system layer (\<^verbatim>\<open>os_*.c\<close>), model backends and the sibling libraries
  (\<^verbatim>\<open>models*.c\<close>, \<^verbatim>\<open>siblings.c\<close>: code that is not in the repository), prompt texts, logging and telemetry,
  and the stdio and terminal clients are input and output around the operations above.  A lock makes
  the operation under it one step.  Allocation succeeds, except where the code's error path changes
  state.  Routing, retrieval and the search of the semantic cache answer through the environment of a turn.
\<close>

end
